(* ===== verification/Prelude.thy ===== *)
theory Prelude
  imports Main "HOL-Library.Word" "HOL-Library.Multiset"
begin

text \<open>
  Shared vocabulary of the development: the machine types of the C++ sources, the
  wrap-around arithmetic of \<open>std::size_t\<close>, the little-endian layout that \<open>memcpy\<close> of an
  integer produces on the supported hosts, and the model of \<open>std::unordered_map\<close>.

  A \<open>std::size_t\<close> is a natural number below \<open>2 ^ 64\<close>; every addition, subtraction and
  multiplication of the sources goes through \<open>size_add\<close>, \<open>size_sub\<close> and \<open>size_mul\<close>, which wrap.
  Integers that are only stored and compared keep their width as words.

  An \<open>unordered_map\<close> is an association list with distinct keys.  The order in which C++
  iterates over it is unspecified, so every definition that iterates takes the order as an
  argument, a function that permutes the list of keys (\<open>order_ok\<close>).
\<close>

named_theorems size_arith "rules that remove wrap-around when the values are in range"
named_theorems umap_simps "equations for the hash-table operations"

type_synonym byte = "8 word"
type_synonym u16 = "16 word"
type_synonym u32 = "32 word"
type_synonym u64 = "64 word"
type_synonym size_t = nat

section \<open>Definitions\<close>

subsection \<open>Arithmetic on size\_t\<close>

abbreviation size_mod :: nat where
  "size_mod \<equiv> 2 ^ 64"

definition size_add :: "size_t \<Rightarrow> size_t \<Rightarrow> size_t" where
  "size_add a b = (a + b) mod size_mod"

definition size_sub :: "size_t \<Rightarrow> size_t \<Rightarrow> size_t" where
  "size_sub a b = (a + (size_mod - b)) mod size_mod"

definition size_mul :: "size_t \<Rightarrow> size_t \<Rightarrow> size_t" where
  "size_mul a b = (a * b) mod size_mod"

text \<open>\<open>std::vector<std::byte>::max_size()\<close> is \<open>PTRDIFF_MAX\<close>.\<close>

abbreviation vector_max :: nat where
  "vector_max \<equiv> 2 ^ 63 - 1"

subsection \<open>Little-endian integers\<close>

primrec nat_to_le :: "nat \<Rightarrow> nat \<Rightarrow> byte list" where
  "nat_to_le 0 x = []"
| "nat_to_le (Suc n) x = word_of_nat (x mod 256) # nat_to_le n (x div 256)"

primrec le_to_nat :: "byte list \<Rightarrow> nat" where
  "le_to_nat [] = 0"
| "le_to_nat (b # bs) = unat b + 256 * le_to_nat bs"

subsection \<open>Hash tables\<close>

type_synonym ('k, 'v) umap = "('k \<times> 'v) list"

definition umap_ok :: "('k, 'v) umap \<Rightarrow> bool" where
  "umap_ok m \<longleftrightarrow> distinct (map fst m)"

abbreviation umap_find :: "('k, 'v) umap \<Rightarrow> 'k \<Rightarrow> 'v option" where
  "umap_find m k \<equiv> map_of m k"

text \<open>\<open>emplace\<close> leaves an existing entry alone.\<close>

definition umap_emplace :: "'k \<Rightarrow> 'v \<Rightarrow> ('k, 'v) umap \<Rightarrow> ('k, 'v) umap" where
  "umap_emplace k v m = (case umap_find m k of Some _ \<Rightarrow> m | None \<Rightarrow> m @ [(k, v)])"

definition umap_erase :: "'k \<Rightarrow> ('k, 'v) umap \<Rightarrow> ('k, 'v) umap" where
  "umap_erase k m = filter (\<lambda>p. fst p \<noteq> k) m"

text \<open>Assignment through an iterator to an existing entry.\<close>

definition umap_modify :: "'k \<Rightarrow> ('v \<Rightarrow> 'v) \<Rightarrow> ('k, 'v) umap \<Rightarrow> ('k, 'v) umap" where
  "umap_modify k f m = map (\<lambda>p. if fst p = k then (fst p, f (snd p)) else p) m"

definition umap_sum :: "('v \<Rightarrow> nat) \<Rightarrow> ('k, 'v) umap \<Rightarrow> nat" where
  "umap_sum f m = sum_list (map (\<lambda>p. f (snd p)) m)"

type_synonym 'k iter_order = "'k list \<Rightarrow> 'k list"

definition order_ok :: "'k iter_order \<Rightarrow> bool" where
  "order_ok ord \<longleftrightarrow> (\<forall>ks. mset (ord ks) = mset ks)"

definition umap_iter :: "'k iter_order \<Rightarrow> ('k, 'v) umap \<Rightarrow> ('k \<times> 'v) list" where
  "umap_iter ord m = map (\<lambda>k. (k, the (umap_find m k))) (ord (map fst m))"

section \<open>Lemmas\<close>

subsection \<open>Arithmetic on size\_t\<close>

lemma size_add_exact [size_arith]: "a + b < size_mod \<Longrightarrow> size_add a b = a + b"
  by (simp add: size_add_def)

lemma size_sub_exact [size_arith]: "b \<le> a \<Longrightarrow> a < size_mod \<Longrightarrow> size_sub a b = a - b"
proof -
  assume le: "b \<le> a" and lt: "a < size_mod"
  have "a + (size_mod - b) = (a - b) + size_mod" using le lt by simp
  then have "size_sub a b = (a - b) mod size_mod" by (simp add: size_sub_def)
  then show ?thesis using lt by simp
qed

lemma size_mul_exact [size_arith]: "a * b < size_mod \<Longrightarrow> size_mul a b = a * b"
  by (simp add: size_mul_def)

lemma size_add_bound: "size_add a b < size_mod"
  by (simp add: size_add_def)

lemma size_sub_bound: "size_sub a b < size_mod"
  by (simp add: size_sub_def)

subsection \<open>Little-endian integers\<close>

lemma length_nat_to_le [simp]: "length (nat_to_le n x) = n"
  by (induction n arbitrary: x) auto

lemma le_to_nat_to_le: "le_to_nat (nat_to_le n x) = x mod 256 ^ n"
proof (induction n arbitrary: x)
  case 0
  show ?case by simp
next
  case (Suc n)
  have "unat (word_of_nat (x mod 256) :: byte) = x mod 256"
    by (simp add: unat_of_nat)
  with Suc show ?case by (simp add: mod_mult2_eq)
qed

lemma le_to_nat_bound: "le_to_nat bs < 256 ^ length bs"
proof (induction bs)
  case (Cons b bs)
  have "unat b < 256" using unsigned_less [of b] by simp
  with Cons show ?case by simp
qed simp

lemma nat_to_le_to_nat: "length bs = n \<Longrightarrow> nat_to_le n (le_to_nat bs) = bs"
proof (induction bs arbitrary: n)
  case (Cons b bs)
  have "unat b < 256" using unsigned_less [of b] by simp
  with Cons show ?case by auto
qed simp

lemma le_to_nat_append: "le_to_nat (xs @ ys) = le_to_nat xs + 256 ^ length xs * le_to_nat ys"
  by (induction xs) (auto simp: algebra_simps)

subsection \<open>Hash tables\<close>

lemma umap_ok_Nil [simp]: "umap_ok []"
  by (simp add: umap_ok_def)

lemma umap_find_None: "umap_find m k = None \<longleftrightarrow> k \<notin> fst ` set m"
  by (rule map_of_eq_None_iff)

lemma umap_ok_emplace [intro]: "umap_ok m \<Longrightarrow> umap_ok (umap_emplace k v m)"
  by (auto simp: umap_ok_def umap_emplace_def umap_find_None split: option.splits)

lemma umap_ok_erase [intro]: "umap_ok m \<Longrightarrow> umap_ok (umap_erase k m)"
  by (auto simp: umap_ok_def umap_erase_def distinct_map intro: inj_on_subset)

lemma map_fst_umap_modify [simp]: "map fst (umap_modify k f m) = map fst m"
  by (simp add: umap_modify_def)

lemma umap_ok_modify [simp]: "umap_ok (umap_modify k f m) = umap_ok m"
  by (simp add: umap_ok_def)

lemma umap_find_emplace [umap_simps]:
  "umap_find (umap_emplace k v m) j =
     (if j = k \<and> umap_find m k = None then Some v else umap_find m j)"
  by (auto simp: umap_emplace_def map_of_append map_add_def split: option.splits)

lemma umap_find_erase [umap_simps]:
  "umap_find (umap_erase k m) j = (if j = k then None else umap_find m j)"
  by (induction m) (auto simp: umap_erase_def)

lemma umap_find_modify [umap_simps]:
  "umap_find (umap_modify k f m) j =
     (if j = k then map_option f (umap_find m j) else umap_find m j)"
  by (induction m) (auto simp: umap_modify_def)

lemma umap_sum_emplace:
  "umap_find m k = None \<Longrightarrow> umap_sum f (umap_emplace k v m) = umap_sum f m + f v"
  by (simp add: umap_sum_def umap_emplace_def)

lemma umap_erase_absent: "umap_find m k = None \<Longrightarrow> umap_erase k m = m"
  by (auto simp: umap_erase_def filter_id_conv umap_find_None)

lemma umap_sum_erase:
  "umap_ok m \<Longrightarrow> umap_find m k = Some v \<Longrightarrow> umap_sum f (umap_erase k m) + f v = umap_sum f m"
proof (induction m)
  case (Cons p m)
  show ?case
  proof (cases "fst p = k")
    case True
    with Cons.prems have "umap_find m k = None" and "snd p = v"
      by (auto simp: umap_ok_def umap_find_None)
    with True show ?thesis
      using umap_erase_absent [of m k] by (simp add: umap_erase_def umap_sum_def)
  next
    case False
    with Cons show ?thesis by (cases p) (auto simp: umap_ok_def umap_erase_def umap_sum_def)
  qed
qed simp

lemma umap_sum_ge: "umap_find m k = Some v \<Longrightarrow> f v \<le> umap_sum f m"
  by (induction m) (auto simp: umap_sum_def split: if_splits)

lemma set_umap_find: "umap_ok m \<Longrightarrow> (k, v) \<in> set m \<longleftrightarrow> umap_find m k = Some v"
  by (auto simp: umap_ok_def)

lemma order_ok_set [simp]: "order_ok ord \<Longrightarrow> set (ord ks) = set ks"
  unfolding order_ok_def by (metis set_mset_mset)

lemma order_ok_distinct [simp]: "order_ok ord \<Longrightarrow> distinct (ord ks) = distinct ks"
  unfolding order_ok_def by (metis mset_eq_imp_distinct_iff)

lemma order_ok_length [simp]: "order_ok ord \<Longrightarrow> length (ord ks) = length ks"
  unfolding order_ok_def by (metis size_mset)

lemma order_ok_id [simp]: "order_ok (\<lambda>ks. ks)" and order_ok_rev [simp]: "order_ok rev"
  by (simp_all add: order_ok_def)

lemma set_umap_iter:
  "order_ok ord \<Longrightarrow> umap_ok m \<Longrightarrow> set (umap_iter ord m) = set m"
  by (force simp: umap_iter_def umap_ok_def)

lemma map_fst_umap_iter [simp]: "map fst (umap_iter ord m) = ord (map fst m)"
  by (simp add: umap_iter_def comp_def)

lemma umap_iter_sum:
  assumes "order_ok ord" and "umap_ok m"
  shows "sum_list (map (\<lambda>p. f (snd p)) (umap_iter ord m)) = umap_sum f m"
proof -
  let ?g = "\<lambda>k. f (the (umap_find m k))"
  have "mset (map ?g (ord (map fst m))) = mset (map ?g (map fst m))"
    using assms(1) by (simp only: mset_map order_ok_def)
  then have "sum_list (map ?g (ord (map fst m))) = sum_list (map ?g (map fst m))"
    by (metis sum_mset_sum_list)
  also have "map ?g (map fst m) = map (\<lambda>p. f (snd p)) m"
    using assms(2) by (auto simp: umap_ok_def)
  finally show ?thesis by (simp add: umap_iter_def umap_sum_def comp_def)
qed

end
