(* ===== verification/Types.thy ===== *)
theory Types
  imports Prelude
begin

text \<open>
  The shared data types of \<open>cache_server/include/lethe/types.hpp\<close>: storage tiers, block
  identities, materialised blocks, block metadata and the membership messages.  A
  \<open>Hash256\<close> is a byte list; \<open>id_ok\<close> says that it has the 32 bytes the array type has.
\<close>

unbundle bit_operations_syntax

section \<open>Definitions\<close>

datatype Tier = HBM | DRAM | SSD

definition tier_rank :: "Tier \<Rightarrow> nat" where
  "tier_rank t = (case t of HBM \<Rightarrow> 0 | DRAM \<Rightarrow> 1 | SSD \<Rightarrow> 2)"

datatype StreamPurpose = ReplicationPush | ReadRepair | Promotion

type_synonym Hash256 = "byte list"

record BlockId =
  id_hash :: Hash256
  id_layer :: u32
  id_head_group :: u32
  id_model_id :: u32

definition id_ok :: "BlockId \<Rightarrow> bool" where
  "id_ok i \<longleftrightarrow> length (id_hash i) = 32"

text \<open>\<open>memcpy\<close> of the first eight bytes of a digest into a \<open>uint64_t\<close>.\<close>

definition le_u64 :: "byte list \<Rightarrow> u64" where
  "le_u64 bs = word_of_nat (le_to_nat (take 8 bs))"

definition hash_combine :: "u64 \<Rightarrow> u64 \<Rightarrow> u64" where
  "hash_combine seed v = seed XOR (v + 0x9E3779B97F4A7C15 + push_bit 6 seed + drop_bit 2 seed)"

definition BlockIdHash :: "BlockId \<Rightarrow> u64" where
  "BlockIdHash b =
     hash_combine (hash_combine (hash_combine (le_u64 (id_hash b)) (ucast (id_layer b)))
       (ucast (id_head_group b))) (ucast (id_model_id b))"

record KvBlock =
  kv_id :: BlockId
  kv_data :: "byte list"
  kv_tier :: Tier
  kv_inserted_epoch :: u64

definition kv_ok :: "KvBlock \<Rightarrow> bool" where
  "kv_ok b \<longleftrightarrow> id_ok (kv_id b) \<and> length (kv_data b) \<le> vector_max"

record PeerStatus =
  ps_node_id :: string
  ps_last_seen_epoch :: u64
  ps_suspected :: bool

record StaticPeer =
  sp_node_id :: string
  sp_address :: string

record HeartbeatReply =
  hr_alive_peers :: "PeerStatus list"
  hr_cluster_epoch :: u64

record BlockMeta =
  bm_id :: BlockId
  bm_tier :: Tier
  bm_size_bytes :: size_t
  bm_last_access_epoch :: u64
  bm_insert_epoch :: u64
  bm_visited :: bool

text \<open>Concrete blocks for the witnesses of the development.\<close>

definition sample_id :: "byte \<Rightarrow> BlockId" where
  "sample_id n = \<lparr>id_hash = n # replicate 31 0, id_layer = 0, id_head_group = 0, id_model_id = 0\<rparr>"

definition sample_block :: "byte \<Rightarrow> byte list \<Rightarrow> KvBlock" where
  "sample_block n d = \<lparr>kv_id = sample_id n, kv_data = d, kv_tier = DRAM, kv_inserted_epoch = 0\<rparr>"

section \<open>The order of the tiers\<close>

instantiation Tier :: linorder
begin

definition less_eq_Tier :: "Tier \<Rightarrow> Tier \<Rightarrow> bool" where
  "less_eq_Tier a b \<longleftrightarrow> tier_rank a \<le> tier_rank b"

definition less_Tier :: "Tier \<Rightarrow> Tier \<Rightarrow> bool" where
  "less_Tier a b \<longleftrightarrow> tier_rank a < tier_rank b"

instance
proof
  fix a b :: Tier
  show "a \<le> b \<Longrightarrow> b \<le> a \<Longrightarrow> a = b"
    by (cases a; cases b) (auto simp: less_eq_Tier_def tier_rank_def)
qed (auto simp: less_eq_Tier_def less_Tier_def)

end

lemma tier_less_simps [simp]:
  "HBM \<le> t" "HBM < DRAM" "HBM < SSD" "DRAM < SSD" "t \<le> SSD" "\<not> t < HBM" "\<not> SSD < t" "DRAM \<le> SSD"
  "\<not> DRAM \<le> HBM" "\<not> SSD \<le> HBM" "\<not> SSD \<le> DRAM"
  by (cases t; simp add: less_Tier_def less_eq_Tier_def tier_rank_def)+

section \<open>Lemmas\<close>

lemma hash_combine_inj: "hash_combine s v = hash_combine s w \<Longrightarrow> v = w"
proof -
  assume "hash_combine s v = hash_combine s w"
  then have "s XOR hash_combine s v = s XOR hash_combine s w" by simp
  then show "v = w"
    by (simp add: hash_combine_def flip: xor.assoc)
qed

lemma ucast_u32_inj: "(ucast (a :: u32) :: u64) = ucast b \<Longrightarrow> a = b"
proof -
  assume "(ucast a :: u64) = ucast b"
  then have "(ucast (ucast a :: u64) :: u32) = ucast (ucast b :: u64)" by simp
  then show "a = b" by (simp add: ucast_up_ucast_id is_up)
qed

lemma sample_id_eq [simp]: "sample_id m = sample_id n \<longleftrightarrow> m = n"
  by (auto simp: sample_id_def)

lemma sample_ok [simp]: "id_ok (sample_id n)" "kv_id (sample_block n d) = sample_id n"
  "kv_data (sample_block n d) = d" "kv_ok (sample_block n d) \<longleftrightarrow> length d \<le> vector_max"
  by (simp_all add: sample_id_def sample_block_def id_ok_def kv_ok_def)

lemma le_u64_take [simp]: "le_u64 (take 8 bs) = le_u64 bs"
  by (simp add: le_u64_def)

text \<open>
  Two identities that share the content hash, the layer and the head group but belong to
  different models never collide in the table's hash.
\<close>

lemma BlockIdHash_model_inj:
  assumes "id_hash a = id_hash b" "id_layer a = id_layer b" "id_head_group a = id_head_group b"
    and "BlockIdHash a = BlockIdHash b"
  shows "a = b"
proof -
  have "id_model_id a = id_model_id b"
    using assms hash_combine_inj ucast_u32_inj unfolding BlockIdHash_def by metis
  then show ?thesis using assms by (cases a; cases b) simp
qed

end
