(* ===== verification/Routing.thy ===== *)
theory Routing
  imports Types "HOL-Library.Multiset"
begin

text \<open>
  The consistent-hash router of \<open>cache_server/src/routing.cpp\<close>.  \<open>blake3_full\<close> is a parameter
  (a function from the key string to its digest); so is \<open>srt\<close>, the call of \<open>std::sort\<close>,
  which only promises some permutation sorted by hash, since \<open>std::sort\<close> is not stable.
  Indices of peers and ring entries are natural numbers; the code counts peers in 32 bits, so the model is that of
  a cluster with fewer than \<open>2 ^ 32\<close> peers (with more, the loop of \<open>SetPeers\<close> would not end).  The reference against which the
  ring search and the clockwise walk are proved is \<open>preference\<close>: the peers in the order of
  the first ring entry at or after the block's hash.
\<close>

section \<open>Definitions\<close>

record RouteResult =
  rr_primary :: string
  rr_replicas :: "string list"

record RingEntry =
  re_hash :: u64
  re_peer_idx :: nat

record Router =
  rt_local_node_id :: string
  rt_vnodes_per_peer :: u32
  rt_replication_factor :: u32
  rt_peers :: "string list"
  rt_ring :: "RingEntry list"

definition le_u64_from_digest :: "byte list \<Rightarrow> u64" where
  "le_u64_from_digest d = le_u64 d"

definition router_new :: "string \<Rightarrow> u32 \<Rightarrow> u32 \<Rightarrow> Router" where
  "router_new local_node_id virtual_nodes_per_peer replication_factor =
     \<lparr>rt_local_node_id = local_node_id, rt_vnodes_per_peer = virtual_nodes_per_peer,
      rt_replication_factor = replication_factor, rt_peers = [], rt_ring = []\<rparr>"

definition HashBlock :: "BlockId \<Rightarrow> u64" where
  "HashBlock i = le_u64 (id_hash i)"

text \<open>\<open>std::to_string\<close> of an unsigned integer.\<close>

fun to_string :: "nat \<Rightarrow> string" where
  "to_string n = (if n < 10 then [char_of (48 + n)] else to_string (n div 10) @ [char_of (48 + n mod 10)])"

definition vnode_key :: "string \<Rightarrow> nat \<Rightarrow> string" where
  "vnode_key peer vn = peer @ ''#'' @ to_string vn"

definition HashVirtualNode :: "(string \<Rightarrow> byte list) \<Rightarrow> string \<Rightarrow> nat \<Rightarrow> u64" where
  "HashVirtualNode blake3_full peer vn = le_u64_from_digest (blake3_full (vnode_key peer vn))"

definition build_ring :: "(string \<Rightarrow> byte list) \<Rightarrow> u32 \<Rightarrow> string list \<Rightarrow> RingEntry list" where
  "build_ring blake3_full vnodes peer_ids =
     concat (map (\<lambda>i. map (\<lambda>vn. \<lparr>re_hash = HashVirtualNode blake3_full (peer_ids ! i) vn, re_peer_idx = i\<rparr>)
       [0..<unat vnodes]) [0..<length peer_ids])"

definition SetPeers ::
  "(RingEntry list \<Rightarrow> RingEntry list) \<Rightarrow> (string \<Rightarrow> byte list) \<Rightarrow> Router \<Rightarrow> string list \<Rightarrow> Router" where
  "SetPeers srt blake3_full rt peer_ids =
     rt\<lparr>rt_peers := peer_ids,
        rt_ring := srt (build_ring blake3_full (rt_vnodes_per_peer rt) peer_ids)\<rparr>"

function ring_search :: "RingEntry list \<Rightarrow> u64 \<Rightarrow> nat \<Rightarrow> nat \<Rightarrow> nat" where
  "ring_search ring target lo hi =
     (if lo < hi then
        let mid = lo + (hi - lo) div 2
        in if re_hash (ring ! mid) < target then ring_search ring target (mid + 1) hi
           else ring_search ring target lo mid
      else lo)"
  by auto
termination by (relation "measure (\<lambda>(ring, target, lo, hi). hi - lo)") auto

function route_walk ::
  "string list \<Rightarrow> RingEntry list \<Rightarrow> nat \<Rightarrow> nat \<Rightarrow> nat \<Rightarrow> string list \<Rightarrow> string set \<Rightarrow> string list" where
  "route_walk peers ring idx want step picked seen =
     (if step < length ring \<and> length picked < want then
        let peer = peers ! re_peer_idx (ring ! ((idx + step) mod length ring))
        in if peer \<notin> seen then route_walk peers ring idx want (step + 1) (picked @ [peer]) (insert peer seen)
           else route_walk peers ring idx want (step + 1) picked seen
      else picked)"
  by auto
termination by (relation "measure (\<lambda>(peers, ring, idx, want, step, picked, seen). length ring - step)") auto

definition Route :: "Router \<Rightarrow> BlockId \<Rightarrow> RouteResult" where
  "Route rt i =
     (let out = \<lparr>rr_primary = [], rr_replicas = []\<rparr>
      in if rt_ring rt = [] \<or> rt_peers rt = [] then out
         else
           let target = HashBlock i;
               lo = ring_search (rt_ring rt) target 0 (length (rt_ring rt));
               idx = lo mod length (rt_ring rt);
               want = max 1 (unat (rt_replication_factor rt));
               picked = route_walk (rt_peers rt) (rt_ring rt) idx want 0 [] {}
           in if picked = [] then out else \<lparr>rr_primary = hd picked, rr_replicas = tl picked\<rparr>)"

definition IsLocalPrimary :: "Router \<Rightarrow> BlockId \<Rightarrow> bool" where
  "IsLocalPrimary rt i = (rr_primary (Route rt i) = rt_local_node_id rt)"

definition IsLocalReplica :: "Router \<Rightarrow> BlockId \<Rightarrow> bool" where
  "IsLocalReplica rt i =
     (let r = Route rt i
      in if rr_primary r = rt_local_node_id rt then True
         else list_ex (\<lambda>p. p = rt_local_node_id rt) (rr_replicas r))"

text \<open>The contract of \<open>std::sort\<close> with the comparison on hashes.\<close>

definition sort_ok :: "(RingEntry list \<Rightarrow> RingEntry list) \<Rightarrow> bool" where
  "sort_ok srt \<longleftrightarrow> (\<forall>xs. mset (srt xs) = mset xs \<and> sorted (map re_hash (srt xs)))"

text \<open>The reference: all peers in clockwise order of their first entry at or after a hash.\<close>

primrec nub :: "'a list \<Rightarrow> 'a list" where
  "nub [] = []"
| "nub (x # xs) = x # removeAll x (nub xs)"

definition clockwise :: "u64 \<Rightarrow> (u64 \<times> string) list \<Rightarrow> (u64 \<times> string) list" where
  "clockwise target ring = filter (\<lambda>e. target \<le> fst e) ring @ filter (\<lambda>e. fst e < target) ring"

definition preference :: "(u64 \<times> string) list \<Rightarrow> u64 \<Rightarrow> string list" where
  "preference ring target = nub (map snd (clockwise target ring))"

definition named_ring :: "Router \<Rightarrow> (u64 \<times> string) list" where
  "named_ring rt = map (\<lambda>e. (re_hash e, rt_peers rt ! re_peer_idx e)) (rt_ring rt)"

definition route_list :: "RouteResult \<Rightarrow> string list" where
  "route_list r = rr_primary r # rr_replicas r"

text \<open>The number that a string of decimal digits denotes.\<close>

fun digits_value :: "nat \<Rightarrow> string \<Rightarrow> nat" where
  "digits_value acc [] = acc"
| "digits_value acc (c # cs) = digits_value (acc * 10 + (of_char c - 48)) cs"

text \<open>No two virtual nodes of the peers share a ring position.\<close>

definition collision_free :: "(string \<Rightarrow> byte list) \<Rightarrow> u32 \<Rightarrow> string list \<Rightarrow> bool" where
  "collision_free blake3_full vnodes peers \<longleftrightarrow>
     inj_on (\<lambda>(p, vn). HashVirtualNode blake3_full p vn) (set peers \<times> {0..<unat vnodes})"

text \<open>A digest for concrete rings: the key's bytes, padded to a digest's length.\<close>

definition sample_digest :: "string \<Rightarrow> byte list" where
  "sample_digest key = take 32 (map of_char key @ replicate 32 0)"

definition sample_router :: "string \<Rightarrow> u32 \<Rightarrow> Router" where
  "sample_router node factor = router_new node 1 factor"

section \<open>Lemmas\<close>

declare ring_search.simps [simp del] route_walk.simps [simp del]

lemma set_nub [simp]: "set (nub xs) = set xs"
  by (induction xs) auto

lemma distinct_nub [simp]: "distinct (nub xs)"
  by (induction xs) (auto simp: distinct_removeAll)

lemma filter_nub: "filter P (nub xs) = nub (filter P xs)"
proof (induction xs)
  case (Cons a xs)
  have "filter P (removeAll a (nub xs)) = removeAll a (filter P (nub xs))"
    by (simp add: removeAll_filter_not_eq conj_commute)
  then show ?case using Cons by (auto simp: removeAll_id)
qed simp

lemma take_nub_filter: "filter (\<lambda>x. x \<noteq> a) (nub xs) = removeAll a (nub xs)"
  by (simp add: removeAll_filter_not_eq neq_commute)

lemma ring_search_bounds:
  assumes "sorted (map re_hash ring)" "lo \<le> hi" "hi \<le> length ring"
    and "\<forall>i<lo. re_hash (ring ! i) < t" "\<forall>i. hi \<le> i \<and> i < length ring \<longrightarrow> t \<le> re_hash (ring ! i)"
  shows "ring_search ring t lo hi \<le> length ring \<and> (\<forall>i<ring_search ring t lo hi. re_hash (ring ! i) < t) \<and>
    (\<forall>i. ring_search ring t lo hi \<le> i \<and> i < length ring \<longrightarrow> t \<le> re_hash (ring ! i))"
  using assms
proof (induction ring t lo hi rule: ring_search.induct)
  case (1 ring t lo hi)
  define mid where "mid = lo + (hi - lo) div 2"
  have mono: "re_hash (ring ! i) \<le> re_hash (ring ! j)" if "i \<le> j" "j < length ring" for i j
    using sorted_nth_mono [OF "1.prems"(1), of i j] that by simp
  show ?case
  proof (cases "lo < hi")
    case True
    then have mid: "lo \<le> mid" "mid < hi" by (auto simp: mid_def)
    show ?thesis
    proof (cases "re_hash (ring ! mid) < t")
      case small: True
      have below: "\<forall>i<mid + 1. re_hash (ring ! i) < t"
      proof (intro allI impI)
        fix i assume "i < mid + 1"
        then show "re_hash (ring ! i) < t"
          using mono [of i mid] mid(2) "1.prems"(3) small by (simp add: order.strict_trans1)
      qed
      have eq: "ring_search ring t lo hi = ring_search ring t (mid + 1) hi"
        by (subst ring_search.simps) (simp add: Let_def True small flip: mid_def)
      show ?thesis
        unfolding eq
        by (rule "1.IH"(1) [OF True mid_def small "1.prems"(1) _ "1.prems"(3) below "1.prems"(5)])
          (use mid in simp)
    next
      case big: False
      have above: "\<forall>i. mid \<le> i \<and> i < length ring \<longrightarrow> t \<le> re_hash (ring ! i)"
      proof (intro allI impI)
        fix i assume "mid \<le> i \<and> i < length ring"
        then show "t \<le> re_hash (ring ! i)"
          using mono [of mid i] big by (simp add: not_less order.trans)
      qed
      have eq: "ring_search ring t lo hi = ring_search ring t lo mid"
        by (subst ring_search.simps) (simp add: Let_def True big flip: mid_def)
      show ?thesis
        unfolding eq
        by (rule "1.IH"(2) [OF True mid_def big "1.prems"(1) mid(1) _ "1.prems"(4) above])
          (use mid "1.prems"(3) in simp)
    qed
  next
    case False
    have "ring_search ring t lo hi = lo" using False by (subst ring_search.simps) simp
    moreover have "lo = hi" using False "1.prems"(2) by simp
    ultimately show ?thesis using "1.prems" by simp
  qed
qed

lemma filter_split:
  assumes "n \<le> length xs" "\<forall>i<n. P (xs ! i)" "\<forall>i. n \<le> i \<and> i < length xs \<longrightarrow> \<not> P (xs ! i)"
  shows "filter P xs = take n xs" "filter (\<lambda>x. \<not> P x) xs = drop n xs"
proof -
  have tk: "\<forall>x\<in>set (take n xs). P x" using assms(1,2) by (auto simp: in_set_conv_nth)
  have dr: "\<forall>x\<in>set (drop n xs). \<not> P x" using assms(3) by (auto simp: in_set_conv_nth)
  have "filter P (take n xs @ drop n xs) = take n xs" "filter (\<lambda>x. \<not> P x) (take n xs @ drop n xs) = drop n xs"
    unfolding filter_append using tk dr by (simp_all add: filter_id_conv)
  then show "filter P xs = take n xs" "filter (\<lambda>x. \<not> P x) xs = drop n xs" by simp_all
qed

text \<open>The search and the wrap-around together start the walk where the reference does.\<close>

lemma clockwise_rotate:
  assumes "sorted (map re_hash (rt_ring rt))" "rt_ring rt \<noteq> []"
  shows "rotate (ring_search (rt_ring rt) t 0 (length (rt_ring rt)) mod length (rt_ring rt)) (named_ring rt)
    = clockwise t (named_ring rt)"
proof -
  let ?n = "length (rt_ring rt)" and ?lo = "ring_search (rt_ring rt) t 0 (length (rt_ring rt))"
  have len: "length (named_ring rt) = ?n" by (simp add: named_ring_def)
  have "?lo \<le> ?n \<and> (\<forall>i<?lo. re_hash (rt_ring rt ! i) < t) \<and>
      (\<forall>i. ?lo \<le> i \<and> i < ?n \<longrightarrow> t \<le> re_hash (rt_ring rt ! i))"
    by (rule ring_search_bounds [OF assms(1)]) auto
  then have b: "?lo \<le> ?n" "\<forall>i<?lo. re_hash (rt_ring rt ! i) < t"
    "\<forall>i. ?lo \<le> i \<and> i < ?n \<longrightarrow> t \<le> re_hash (rt_ring rt ! i)"
    by blast+
  have "filter (\<lambda>e. fst e < t) (named_ring rt) = take ?lo (named_ring rt)"
    "filter (\<lambda>e. \<not> fst e < t) (named_ring rt) = drop ?lo (named_ring rt)"
    using b by (intro filter_split; simp add: named_ring_def not_less)+
  then have cw: "clockwise t (named_ring rt) = drop ?lo (named_ring rt) @ take ?lo (named_ring rt)"
    by (simp add: clockwise_def not_less)
  show ?thesis
  proof (cases "?lo = ?n")
    case True
    then show ?thesis using cw len by simp
  next
    case False
    then have "?lo mod ?n = ?lo" using b(1) by simp
    then show ?thesis using cw len by (simp add: rotate_drop_take)
  qed
qed

text \<open>The walk takes the first peers of the rotated ring without repetition.\<close>

lemma route_walk_take:
  assumes "length picked \<le> want" "seen = set picked"
  shows "route_walk peers ring idx want step picked seen =
    take want (picked @ filter (\<lambda>p. p \<notin> seen)
      (nub (drop step (rotate idx (map (\<lambda>e. peers ! re_peer_idx e) ring)))))"
  using assms
proof (induction peers ring idx want step picked seen rule: route_walk.induct)
  case (1 peers ring idx want step picked seen)
  let ?names = "rotate idx (map (\<lambda>e. peers ! re_peer_idx e) ring)"
  define peer where "peer = peers ! re_peer_idx (ring ! ((idx + step) mod length ring))"
  show ?case
  proof (cases "step < length ring \<and> length picked < want")
    case True
    then have ne: "ring \<noteq> []" by auto
    have "?names ! step = peer"
      using True by (simp add: nth_rotate peer_def ne)
    then have dr: "drop step ?names = peer # drop (step + 1) ?names"
      using True Cons_nth_drop_Suc [of step ?names] by simp
    show ?thesis
    proof (cases "peer \<in> seen")
      case seen: True
      have "filter (\<lambda>p. p \<notin> seen) (removeAll peer (nub (drop (step + 1) ?names))) =
          filter (\<lambda>p. p \<notin> seen) (nub (drop (step + 1) ?names))"
        using seen by (auto simp: removeAll_filter_not_eq intro: filter_cong)
      then show ?thesis
        using "1.IH"(2) [OF True peer_def] seen "1.prems" dr True
        by (subst route_walk.simps) (simp add: Let_def flip: peer_def)
    next
      case new: False
      have "filter (\<lambda>p. p \<notin> seen) (removeAll peer (nub (drop (step + 1) ?names))) =
          filter (\<lambda>p. p \<notin> insert peer seen) (nub (drop (step + 1) ?names))"
        by (auto simp: removeAll_filter_not_eq intro: filter_cong)
      then show ?thesis
        using "1.IH"(1) [OF True peer_def] new "1.prems" dr True
        by (subst route_walk.simps) (simp add: Let_def flip: peer_def)
    qed
  next
    case False
    then show ?thesis
      using "1.prems" by (subst route_walk.simps) auto
  qed
qed

lemma Route_preference:
  assumes "sorted (map re_hash (rt_ring rt))" "rt_ring rt \<noteq> []" "rt_peers rt \<noteq> []"
  shows "route_list (Route rt i) =
    take (max 1 (unat (rt_replication_factor rt))) (preference (named_ring rt) (HashBlock i))"
proof -
  let ?lo = "ring_search (rt_ring rt) (HashBlock i) 0 (length (rt_ring rt))"
  let ?idx = "?lo mod length (rt_ring rt)"
  let ?want = "max 1 (unat (rt_replication_factor rt))"
  have "rotate ?idx (map (\<lambda>e. rt_peers rt ! re_peer_idx e) (rt_ring rt)) = map snd (rotate ?idx (named_ring rt))"
    by (simp add: named_ring_def rotate_map comp_def)
  also have "\<dots> = map snd (clockwise (HashBlock i) (named_ring rt))"
    using clockwise_rotate [OF assms(1,2)] by simp
  finally have walk: "route_walk (rt_peers rt) (rt_ring rt) ?idx ?want 0 [] {} =
      take ?want (preference (named_ring rt) (HashBlock i))"
    by (simp add: route_walk_take preference_def)
  have "clockwise (HashBlock i) (named_ring rt) \<noteq> []"
  proof
    assume "clockwise (HashBlock i) (named_ring rt) = []"
    then have "length (rotate ?idx (named_ring rt)) = 0" using clockwise_rotate [OF assms(1,2)] by simp
    then show False using assms(2) by (simp add: named_ring_def)
  qed
  then have "preference (named_ring rt) (HashBlock i) \<noteq> []"
    by (cases "clockwise (HashBlock i) (named_ring rt)") (auto simp: preference_def)
  then have ne: "route_walk (rt_peers rt) (rt_ring rt) ?idx ?want 0 [] {} \<noteq> []" unfolding walk by simp
  have "route_list (Route rt i) = route_walk (rt_peers rt) (rt_ring rt) ?idx ?want 0 [] {}"
    using assms(2,3) ne by (simp add: Route_def Let_def route_list_def)
  then show ?thesis by (simp only: walk)
qed

text \<open>The ring after \<open>SetPeers\<close>.\<close>

lemma build_ring_product:
  "build_ring b v peers = map (\<lambda>(i, vn). \<lparr>re_hash = HashVirtualNode b (peers ! i) vn, re_peer_idx = i\<rparr>)
     (List.product [0..<length peers] [0..<unat v])"
proof -
  have "concat (map (\<lambda>i. map (f i) ys) xs) = map (\<lambda>(i, vn). f i vn) (List.product xs ys)"
    for f :: "nat \<Rightarrow> nat \<Rightarrow> RingEntry" and xs ys
    by (induction xs) simp_all
  then show ?thesis by (simp add: build_ring_def)
qed

lemma SetPeers_sel [simp]:
  "rt_peers (SetPeers srt b rt peers) = peers"
  "rt_replication_factor (SetPeers srt b rt peers) = rt_replication_factor rt"
  "rt_vnodes_per_peer (SetPeers srt b rt peers) = rt_vnodes_per_peer rt"
  "rt_local_node_id (SetPeers srt b rt peers) = rt_local_node_id rt"
  by (simp_all add: SetPeers_def)

lemma SetPeers_ring:
  assumes "sort_ok srt"
  shows "mset (rt_ring (SetPeers srt b rt peers)) = mset (build_ring b (rt_vnodes_per_peer rt) peers)"
    and "sorted (map re_hash (rt_ring (SetPeers srt b rt peers)))"
  using assms by (simp_all add: sort_ok_def SetPeers_def)

lemma SetPeers_ring_empty:
  assumes "sort_ok srt"
  shows "rt_ring (SetPeers srt b rt peers) = [] \<longleftrightarrow> peers = [] \<or> rt_vnodes_per_peer rt = 0"
proof -
  have "rt_ring (SetPeers srt b rt peers) = [] \<longleftrightarrow> build_ring b (rt_vnodes_per_peer rt) peers = []"
    using SetPeers_ring(1) [OF assms] by (metis mset_zero_iff)
  also have "\<dots> \<longleftrightarrow> length (build_ring b (rt_vnodes_per_peer rt) peers) = 0" by simp
  also have "length (build_ring b (rt_vnodes_per_peer rt) peers) = length peers * unat (rt_vnodes_per_peer rt)"
    by (simp add: build_ring_product)
  finally show ?thesis by (simp add: unsigned_eq_0_iff)
qed

lemma set_named_ring:
  assumes "sort_ok srt"
  shows "set (named_ring (SetPeers srt b rt peers)) =
    {(HashVirtualNode b p vn, p) | p vn. p \<in> set peers \<and> vn < unat (rt_vnodes_per_peer rt)}"
proof -
  have "set (rt_ring (SetPeers srt b rt peers)) = set (build_ring b (rt_vnodes_per_peer rt) peers)"
    using SetPeers_ring(1) [OF assms] by (metis set_mset_mset)
  then have "set (named_ring (SetPeers srt b rt peers)) =
      (\<lambda>e. (re_hash e, peers ! re_peer_idx e)) ` set (build_ring b (rt_vnodes_per_peer rt) peers)"
    by (simp add: named_ring_def)
  also have "\<dots> = (\<lambda>(i, vn). (HashVirtualNode b (peers ! i) vn, peers ! i)) `
      ({0..<length peers} \<times> {0..<unat (rt_vnodes_per_peer rt)})"
    by (simp add: build_ring_product image_image case_prod_unfold)
  also have "\<dots> = {(HashVirtualNode b p vn, p) | p vn. p \<in> set peers \<and> vn < unat (rt_vnodes_per_peer rt)}"
    unfolding set_conv_nth [of peers] by auto blast
  finally show ?thesis .
qed

lemma named_ring_order:
  assumes "sort_ok srt" "distinct peers" "collision_free b (rt_vnodes_per_peer rt) peers"
  shows "sorted (map fst (named_ring (SetPeers srt b rt peers)))"
    and "distinct (map fst (named_ring (SetPeers srt b rt peers)))"
proof -
  let ?rt = "SetPeers srt b rt peers" and ?v = "rt_vnodes_per_peer rt"
  have hashes: "map fst (named_ring ?rt) = map re_hash (rt_ring ?rt)" by (simp add: named_ring_def)
  then show "sorted (map fst (named_ring ?rt))" using SetPeers_ring(2) [OF assms(1)] by simp
  have "inj_on (\<lambda>(i, vn). HashVirtualNode b (peers ! i) vn) ({0..<length peers} \<times> {0..<unat ?v})"
  proof (rule inj_onI, clarsimp)
    fix i vn j wn
    assume "HashVirtualNode b (peers ! i) vn = HashVirtualNode b (peers ! j) wn"
      and "i < length peers" "j < length peers" "vn < unat ?v" "wn < unat ?v"
    then have "(peers ! i, vn) = (peers ! j, wn)"
      using inj_onD [OF assms(3) [unfolded collision_free_def], of "(peers ! i, vn)" "(peers ! j, wn)"] by simp
    then show "i = j \<and> vn = wn"
      using nth_eq_iff_index_eq [OF assms(2)] \<open>i < length peers\<close> \<open>j < length peers\<close> by simp
  qed
  then have "distinct (map re_hash (build_ring b ?v peers))"
    by (simp add: build_ring_product comp_def case_prod_unfold distinct_map distinct_product)
  moreover have "mset (map re_hash (rt_ring ?rt)) = mset (map re_hash (build_ring b ?v peers))"
    by (simp only: mset_map SetPeers_ring(1) [OF assms(1)])
  ultimately show "distinct (map fst (named_ring ?rt))"
    unfolding hashes by (metis mset_eq_imp_distinct_iff)
qed

text \<open>A list sorted by distinct keys is determined by its set.\<close>

lemma sorted_keys_unique:
  fixes xs ys :: "('k :: linorder \<times> 'v) list"
  assumes "sorted (map fst xs)" "distinct (map fst xs)" "sorted (map fst ys)" "distinct (map fst ys)"
    and "set xs = set ys"
  shows "xs = ys"
proof -
  have keys: "map fst xs = map fst ys"
    using assms by (intro sorted_distinct_set_unique) auto
  have "map_of xs = map_of ys" using assms(2,4,5) by (metis map_of_inject_set)
  moreover have "zs = map (\<lambda>k. (k, the (map_of zs k))) (map fst zs)" if "distinct (map fst zs)" for zs :: "('k \<times> 'v) list"
  proof (rule nth_equalityI)
    show "zs ! i = map (\<lambda>k. (k, the (map_of zs k))) (map fst zs) ! i" if "i < length zs" for i
      using map_of_is_SomeI [OF \<open>distinct (map fst zs)\<close>, of "fst (zs ! i)" "snd (zs ! i)"] that by simp
  qed simp
  ultimately show ?thesis using keys assms(2,4) by metis
qed

lemma collision_free_subset:
  "collision_free b v peers \<Longrightarrow> set peers' \<subseteq> set peers \<Longrightarrow> collision_free b v peers'"
  unfolding collision_free_def by (rule inj_on_subset) auto

lemma named_ring_unique:
  assumes "sort_ok srt" "sort_ok srt'" "distinct peers" "distinct peers'" "set peers' = set peers"
    and "collision_free b (rt_vnodes_per_peer rt) peers" "rt_vnodes_per_peer rt' = rt_vnodes_per_peer rt"
  shows "named_ring (SetPeers srt' b rt' peers') = named_ring (SetPeers srt b rt peers)"
proof -
  have cf: "collision_free b (rt_vnodes_per_peer rt') peers'"
    using assms(5-7) by (auto simp: collision_free_def)
  show ?thesis
    by (rule sorted_keys_unique)
      (use named_ring_order [OF assms(1,3,6)] named_ring_order [OF assms(2,4) cf] in
        \<open>simp_all add: set_named_ring assms\<close>)
qed

lemma named_ring_remove:
  assumes "sort_ok srt" "distinct peers" "collision_free b (rt_vnodes_per_peer rt) peers"
  shows "named_ring (SetPeers srt b rt (removeAll p peers)) =
    filter (\<lambda>e. snd e \<noteq> p) (named_ring (SetPeers srt b rt peers))"
proof -
  have cf: "collision_free b (rt_vnodes_per_peer rt) (removeAll p peers)"
    by (rule collision_free_subset [OF assms(3)]) auto
  note a = named_ring_order [OF assms] and r = named_ring_order [OF assms(1) distinct_removeAll [OF assms(2)] cf]
  show ?thesis
    by (rule sorted_keys_unique)
      (use a r in \<open>auto simp: set_named_ring assms(1) sorted_filter distinct_map_filter\<close>)
qed

lemma preference_filter: "preference (filter (\<lambda>e. snd e \<noteq> p) ring) t = filter (\<lambda>q. q \<noteq> p) (preference ring t)"
  by (simp add: preference_def clockwise_def filter_nub filter_map comp_def conj_commute)

lemma set_preference: "set (preference ring t) = snd ` set ring"
proof -
  have "set (clockwise t ring) = set ring" by (auto simp: clockwise_def not_less)
  then show ?thesis by (simp add: preference_def)
qed

lemma Route_SetPeers:
  assumes "sort_ok srt" "peers \<noteq> []" "rt_vnodes_per_peer rt \<noteq> 0"
  shows "route_list (Route (SetPeers srt b rt peers) i) =
    take (max 1 (unat (rt_replication_factor rt)))
      (preference (named_ring (SetPeers srt b rt peers)) (HashBlock i))"
  using Route_preference [OF SetPeers_ring(2) [OF assms(1)], of b rt peers i] assms
  by (simp add: SetPeers_ring_empty)

lemma Route_empty:
  assumes "sort_ok srt" "peers = [] \<or> rt_vnodes_per_peer rt = 0"
  shows "Route (SetPeers srt b rt peers) i = \<lparr>rr_primary = [], rr_replicas = []\<rparr>"
  using assms SetPeers_ring_empty [OF assms(1), of b rt peers] by (simp add: Route_def)

lemma set_preference_SetPeers:
  assumes "sort_ok srt" "rt_vnodes_per_peer rt \<noteq> 0"
  shows "set (preference (named_ring (SetPeers srt b rt peers)) t) = set peers"
proof -
  have "0 < unat (rt_vnodes_per_peer rt)" using assms(2) by (simp add: unsigned_eq_0_iff neq0_conv [symmetric])
  then show ?thesis unfolding set_preference set_named_ring [OF assms(1)] by (auto simp: image_iff)
qed

lemma distinct_preference [simp]: "distinct (preference ring t)"
  by (simp add: preference_def)

lemma length_preference:
  assumes "sort_ok srt" "rt_vnodes_per_peer rt \<noteq> 0"
  shows "length (preference (named_ring (SetPeers srt b rt peers)) t) = card (set peers)"
  using set_preference_SetPeers [OF assms] by (metis distinct_card distinct_preference)

lemma take_filter_absent:
  "p \<notin> set (take n xs) \<Longrightarrow> n \<le> length xs \<or> p \<notin> set xs \<Longrightarrow> take n (filter (\<lambda>q. q \<noteq> p) xs) = take n xs"
proof (induction xs arbitrary: n)
  case (Cons x xs)
  then show ?case by (cases n) auto
qed simp

text \<open>Decimal digits contain no \<open>#\<close> and determine the number.\<close>

declare to_string.simps [simp del]

lemma digits_value_append: "digits_value acc (xs @ ys) = digits_value (digits_value acc xs) ys"
  by (induction xs arbitrary: acc) simp_all

lemma to_string_cases:
  "n < 10 \<Longrightarrow> to_string n = [char_of (48 + n)]"
  "\<not> n < 10 \<Longrightarrow> to_string n = to_string (n div 10) @ [char_of (48 + n mod 10)]"
  by (simp_all add: to_string.simps [of n])

lemma digits_value_to_string: "digits_value 0 (to_string n) = n"
proof (induction n rule: to_string.induct)
  case (1 n)
  show ?case
  proof (cases "n < 10")
    case False
    then show ?thesis using 1 by (simp add: to_string_cases(2) digits_value_append)
  qed (simp add: to_string_cases(1))
qed

lemma to_string_inj: "to_string m = to_string n \<Longrightarrow> m = n"
  by (metis digits_value_to_string)

lemma digit_not_hash:
  assumes "d < 10"
  shows "char_of (48 + d :: nat) \<noteq> CHR ''#''"
proof
  assume "char_of (48 + d :: nat) = CHR ''#''"
  then have "of_char (char_of (48 + d :: nat) :: char) = (of_char (CHR ''#'') :: nat)" by simp
  then show False using assms by simp
qed

lemma to_string_no_hash: "CHR ''#'' \<notin> set (to_string n)"
proof (induction n rule: to_string.induct)
  case (1 n)
  show ?case
  proof (cases "n < 10")
    case True
    then show ?thesis using digit_not_hash [of n] by (simp add: to_string_cases(1))
  next
    case False
    then show ?thesis using 1 digit_not_hash [of "n mod 10"] by (auto simp: to_string_cases(2))
  qed
qed

lemma split_at_last:
  "xs @ c # ys = xs' @ c # ys' \<Longrightarrow> c \<notin> set ys \<Longrightarrow> c \<notin> set ys' \<Longrightarrow> xs = xs' \<and> ys = ys'"
  by (auto simp: append_eq_append_conv2 Cons_eq_append_conv append_eq_Cons_conv)

lemma sort_ok_sort_key [simp]: "sort_ok (sort_key re_hash)"
  by (simp add: sort_ok_def)

lemma digit_zero: "char_of (48 :: nat) = CHR ''0''"
  by (simp add: char_of_eq_iff)

lemma five_zeros: "replicate 5 (0 :: byte) = [0, 0, 0, 0, 0]"
  by (simp add: numeral_eq_Suc)

lemma sample_hashes:
  "HashVirtualNode sample_digest ''a'' 0 = 0x302361" "HashVirtualNode sample_digest ''b'' 0 = 0x302362"
  "HashVirtualNode sample_digest ''c'' 0 = 0x302363"
  by (simp_all add: HashVirtualNode_def le_u64_from_digest_def le_u64_def vnode_key_def sample_digest_def
      to_string.simps digit_zero five_zeros)

lemma sample_collision_free: "collision_free sample_digest 1 [''a'', ''b'', ''c'']"
  by (simp add: collision_free_def sample_hashes)

lemma sample_router_sel [simp]:
  "rt_vnodes_per_peer (sample_router n r) = 1" "rt_replication_factor (sample_router n r) = r"
  "rt_local_node_id (sample_router n r) = n"
  by (simp_all add: sample_router_def router_new_def)

lemma take_filter_prefix:
  "\<exists>ext. take n (filter P xs) = filter P (take n xs) @ ext"
proof -
  have "filter P xs = filter P (take n xs) @ filter P (drop n xs)"
    by (simp flip: filter_append)
  moreover have "length (filter P (take n xs)) \<le> n"
    using length_filter_le [of P "take n xs"] by simp
  ultimately show ?thesis by simp
qed

lemma route_list_inject: "route_list r = route_list r' \<Longrightarrow> r = r'"
  by (simp add: route_list_def)

lemma Route_remove:
  assumes "sort_ok srt" "distinct peers" "collision_free b (rt_vnodes_per_peer rt) peers"
    and "rt_vnodes_per_peer rt \<noteq> 0" "removeAll p peers \<noteq> []"
  shows "route_list (Route (SetPeers srt b rt (removeAll p peers)) i) =
    take (max 1 (unat (rt_replication_factor rt)))
      (filter (\<lambda>q. q \<noteq> p) (preference (named_ring (SetPeers srt b rt peers)) (HashBlock i)))"
  by (simp add: Route_SetPeers [OF assms(1,5,4)] named_ring_remove [OF assms(1-3)] preference_filter)

section \<open>Properties\<close>

text \<open>
  C22. The binary search, the wrap-around and the clockwise walk with its set of seen peers
  compute the reference: the route is the first peers, at least one and at most the
  replication factor, in the clockwise order of their first virtual node at or after the
  block's hash.
\<close>

theorem Route_is_clockwise:
  assumes "sort_ok srt" "peers \<noteq> []" "rt_vnodes_per_peer rt \<noteq> 0"
  shows "route_list (Route (SetPeers srt blake3_full rt peers) i) =
    take (max 1 (unat (rt_replication_factor rt)))
      (preference (named_ring (SetPeers srt blake3_full rt peers)) (HashBlock i))"
  by (rule Route_SetPeers [OF assms])

theorem Route_is_clockwise_witness:
  "route_list (Route (SetPeers (sort_key re_hash) sample_digest (sample_router ''a'' 2) [''a'', ''b'', ''c'']) (sample_id 1)) =
   take 2 (preference (named_ring (SetPeers (sort_key re_hash) sample_digest (sample_router ''a'' 2)
     [''a'', ''b'', ''c''])) (HashBlock (sample_id 1)))"
proof -
  have want: "max 1 (unat (rt_replication_factor (sample_router ''a'' 2))) = 2" by simp
  show ?thesis
    using Route_is_clockwise [of "sort_key re_hash" "[''a'', ''b'', ''c'']" "sample_router ''a'' 2" sample_digest "sample_id 1"]
    unfolding want by simp
qed

text \<open>
  C23. The route consists of distinct peers of the configured set, as many as the replication
  factor asks for or as there are peers.
\<close>

theorem Route_replica_set:
  assumes "sort_ok srt" "peers \<noteq> []" "rt_vnodes_per_peer rt \<noteq> 0"
  shows "distinct (route_list (Route (SetPeers srt blake3_full rt peers) i)) \<and>
    set (route_list (Route (SetPeers srt blake3_full rt peers) i)) \<subseteq> set peers \<and>
    length (route_list (Route (SetPeers srt blake3_full rt peers) i)) =
      min (max 1 (unat (rt_replication_factor rt))) (card (set peers))"
  using set_take_subset [of _ "preference (named_ring (SetPeers srt blake3_full rt peers)) (HashBlock i)"]
  by (simp add: Route_SetPeers [OF assms] length_preference [OF assms(1,3)]
      set_preference_SetPeers [OF assms(1,3)] min.commute)

theorem Route_replica_set_witness:
  "length (route_list (Route (SetPeers (sort_key re_hash) sample_digest (sample_router ''a'' 2)
     [''a'', ''b'', ''c'']) (sample_id 1))) = 2"
  using Route_replica_set [of "sort_key re_hash" "[''a'', ''b'', ''c'']" "sample_router ''a'' 2" sample_digest "sample_id 1"]
  by simp

text \<open>
  C24. Minimal disruption: when a peer leaves and no two virtual nodes collide, the new route of
  every block starts with the surviving peers of its old route in their old order, and a
  block whose route did not contain the peer keeps its route unchanged.
\<close>

theorem Route_minimal_disruption:
  assumes "sort_ok srt" "distinct peers" "collision_free blake3_full (rt_vnodes_per_peer rt) peers"
    and "rt_vnodes_per_peer rt \<noteq> 0" "removeAll p peers \<noteq> []"
  shows "(\<exists>ext. route_list (Route (SetPeers srt blake3_full rt (removeAll p peers)) i) =
      filter (\<lambda>q. q \<noteq> p) (route_list (Route (SetPeers srt blake3_full rt peers) i)) @ ext) \<and>
    (p \<notin> set (route_list (Route (SetPeers srt blake3_full rt peers) i)) \<longrightarrow>
      Route (SetPeers srt blake3_full rt (removeAll p peers)) i = Route (SetPeers srt blake3_full rt peers) i)"
proof
  let ?pref = "preference (named_ring (SetPeers srt blake3_full rt peers)) (HashBlock i)"
  let ?want = "max 1 (unat (rt_replication_factor rt))"
  have ne: "peers \<noteq> []" using assms(5) by auto
  note old = Route_SetPeers [OF assms(1) ne assms(4), of blake3_full i]
    and new = Route_remove [OF assms, of i]
  show "\<exists>ext. route_list (Route (SetPeers srt blake3_full rt (removeAll p peers)) i) =
      filter (\<lambda>q. q \<noteq> p) (route_list (Route (SetPeers srt blake3_full rt peers) i)) @ ext"
    unfolding old new by (rule take_filter_prefix)
  show "p \<notin> set (route_list (Route (SetPeers srt blake3_full rt peers) i)) \<longrightarrow>
      Route (SetPeers srt blake3_full rt (removeAll p peers)) i = Route (SetPeers srt blake3_full rt peers) i"
  proof
    assume "p \<notin> set (route_list (Route (SetPeers srt blake3_full rt peers) i))"
    then have p: "p \<notin> set (take ?want ?pref)" unfolding old .
    have "?want \<le> length ?pref \<or> p \<notin> set ?pref"
      using p by (cases "?want \<le> length ?pref") (simp_all add: not_le)
    then have "take ?want (filter (\<lambda>q. q \<noteq> p) ?pref) = take ?want ?pref"
      by (rule take_filter_absent [OF p])
    then show "Route (SetPeers srt blake3_full rt (removeAll p peers)) i = Route (SetPeers srt blake3_full rt peers) i"
      using old new route_list_inject by metis
  qed
qed

theorem Route_minimal_disruption_witness:
  "\<exists>ext. route_list (Route (SetPeers (sort_key re_hash) sample_digest (sample_router ''a'' 2) [''a'', ''c'']) (sample_id 1)) =
     filter (\<lambda>q. q \<noteq> ''b'') (route_list (Route (SetPeers (sort_key re_hash) sample_digest (sample_router ''a'' 2)
       [''a'', ''b'', ''c'']) (sample_id 1))) @ ext"
  using Route_minimal_disruption [of "sort_key re_hash" "[''a'', ''b'', ''c'']" sample_digest "sample_router ''a'' 2" "''b''" "sample_id 1"]
    sample_collision_free by simp

text \<open>
  Agreement: two routers with the same virtual-node count and replication factor that know
  the same peers, in whatever order and however their sorts break ties, give the same route
  to every two blocks whose content hashes share their first eight bytes, whatever the
  layer, head group and model; so all layers of a prefix block have one owner.
\<close>

theorem Route_agreement:
  assumes "sort_ok srt" "sort_ok srt'" "distinct peers" "distinct peers'" "set peers' = set peers"
    and "collision_free blake3_full (rt_vnodes_per_peer rt) peers"
    and "rt_vnodes_per_peer rt' = rt_vnodes_per_peer rt" "rt_replication_factor rt' = rt_replication_factor rt"
    and "take 8 (id_hash j) = take 8 (id_hash i)"
  shows "Route (SetPeers srt' blake3_full rt' peers') j = Route (SetPeers srt blake3_full rt peers) i"
proof (cases "peers = [] \<or> rt_vnodes_per_peer rt = 0")
  case True
  then have "peers' = [] \<or> rt_vnodes_per_peer rt' = 0" using assms(5,7) by auto
  then show ?thesis using True Route_empty assms(1,2) by metis
next
  case False
  then have ne: "peers \<noteq> []" "peers' \<noteq> []" "rt_vnodes_per_peer rt \<noteq> 0" "rt_vnodes_per_peer rt' \<noteq> 0"
    using assms(5,7) by auto
  have "HashBlock j = HashBlock i" using assms(9) by (simp add: HashBlock_def le_u64_def)
  then have "route_list (Route (SetPeers srt' blake3_full rt' peers') j) = route_list (Route (SetPeers srt blake3_full rt peers) i)"
    by (simp add: Route_SetPeers [OF assms(1) ne(1,3)] Route_SetPeers [OF assms(2) ne(2,4)] assms(8)
        named_ring_unique [OF assms(1-7)])
  then show ?thesis by (rule route_list_inject)
qed

theorem Route_agreement_witness:
  "Route (SetPeers (sort_key re_hash) sample_digest (sample_router ''b'' 2) [''c'', ''a'', ''b'']) ((sample_id 1)\<lparr>id_layer := 5\<rparr>) =
   Route (SetPeers (sort_key re_hash) sample_digest (sample_router ''a'' 2) [''a'', ''b'', ''c'']) (sample_id 1)"
  by (rule Route_agreement) (use sample_collision_free in auto)

text \<open>
  Ownership: for every block the peers that regard themselves as replicas, each running
  its own router on the same peer set, are exactly the peers of the route, and exactly one
  peer regards itself as the primary.
\<close>

theorem replicas_own_route:
  assumes "sort_ok srt" "peers \<noteq> []" "rt_vnodes_per_peer rt \<noteq> 0"
  shows "{n. IsLocalReplica (SetPeers srt blake3_full (rt\<lparr>rt_local_node_id := n\<rparr>) peers) i} =
      set (route_list (Route (SetPeers srt blake3_full rt peers) i)) \<and>
    (\<exists>!n. n \<in> set peers \<and> IsLocalPrimary (SetPeers srt blake3_full (rt\<lparr>rt_local_node_id := n\<rparr>) peers) i)"
proof
  have same: "Route (SetPeers srt blake3_full (rt\<lparr>rt_local_node_id := n\<rparr>) peers) i = Route (SetPeers srt blake3_full rt peers) i" for n
    by (simp add: Route_def SetPeers_def Let_def)
  show "{n. IsLocalReplica (SetPeers srt blake3_full (rt\<lparr>rt_local_node_id := n\<rparr>) peers) i} =
      set (route_list (Route (SetPeers srt blake3_full rt peers) i))"
    by (auto simp: IsLocalReplica_def same route_list_def list_ex_iff Let_def)
  have "rr_primary (Route (SetPeers srt blake3_full rt peers) i) \<in> set (route_list (Route (SetPeers srt blake3_full rt peers) i))"
    by (simp add: route_list_def)
  then have "rr_primary (Route (SetPeers srt blake3_full rt peers) i) \<in> set peers"
    using set_take_subset [of _ "preference (named_ring (SetPeers srt blake3_full rt peers)) (HashBlock i)"]
    unfolding Route_SetPeers [OF assms] set_preference_SetPeers [OF assms(1,3)] by blast
  then show "\<exists>!n. n \<in> set peers \<and> IsLocalPrimary (SetPeers srt blake3_full (rt\<lparr>rt_local_node_id := n\<rparr>) peers) i"
    by (auto simp: IsLocalPrimary_def same)
qed

theorem replicas_own_route_witness:
  "\<exists>!n. n \<in> {''a'', ''b'', ''c''} \<and> IsLocalPrimary (SetPeers (sort_key re_hash) sample_digest
     ((sample_router ''a'' 2)\<lparr>rt_local_node_id := n\<rparr>) [''a'', ''b'', ''c'']) (sample_id 1)"
  using replicas_own_route [of "sort_key re_hash" "[''a'', ''b'', ''c'']" "sample_router ''a'' 2" sample_digest "sample_id 1"]
  by (simp del: insert_iff)

text \<open>
  The keys of virtual nodes are unambiguous: peer names that contain \<open>#\<close> or digits cannot
  make two different virtual nodes hash the same key.
\<close>

theorem vnode_key_inj:
  "vnode_key p v = vnode_key q w \<longleftrightarrow> p = q \<and> v = w"
  using split_at_last [of p "CHR ''#''" "to_string v" q "to_string w"] to_string_no_hash to_string_inj
  by (auto simp: vnode_key_def)

end
