(* ===== verification/Client_Ring.thy ===== *)
theory Client_Ring
  imports Routing "HOL-Library.Char_ord" "HOL-Library.List_Lexorder" "HOL-Library.Product_Lexorder"
begin

text \<open>
  The client's mirror of the router, \<open>client/lethe_client/routing.py\<close>: the chained block hashes that
  name the blocks of a token sequence, and the hash ring that routes them.  BLAKE3 is a
  parameter: \<open>blake3\<close> from the bytes fed to a hasher to the digest, \<open>blake3_full\<close> from a key
  string, as in \<open>Routing\<close>.  Python integers are \<open>int\<close>, an exception is \<open>None\<close>; the loop of \<open>route\<close>,
  which may run forever, is a partial function whose value is then \<open>None\<close>.
\<close>

section \<open>Definitions\<close>

subsection \<open>Block hashes\<close>

text \<open>\<open>struct.pack("<I", t)\<close>.\<close>

definition pack_u32 :: "int \<Rightarrow> byte list option" where
  "pack_u32 t = (if 0 \<le> t \<and> t < 2 ^ 32 then Some (nat_to_le 4 (nat t)) else None)"

fun pack_tokens :: "int list \<Rightarrow> byte list option" where
  "pack_tokens [] = Some []"
| "pack_tokens (t # ts) =
     (case pack_u32 t of None \<Rightarrow> None | Some b \<Rightarrow> map_option (\<lambda>bs. b @ bs) (pack_tokens ts))"

definition chained_block_hash :: "(byte list \<Rightarrow> byte list) \<Rightarrow> byte list \<Rightarrow> int list \<Rightarrow> byte list option" where
  "chained_block_hash blake3 prev_hash block_tokens = map_option (\<lambda>buf. blake3 (prev_hash @ buf)) (pack_tokens block_tokens)"

function prefix_loop ::
  "(byte list \<Rightarrow> byte list) \<Rightarrow> int list \<Rightarrow> nat \<Rightarrow> nat \<Rightarrow> byte list \<Rightarrow> byte list list \<Rightarrow> byte list list option" where
  "prefix_loop blake3 token_ids block_size start running out =
     (if start < length token_ids \<and> 0 < block_size then
        case chained_block_hash blake3 running (take block_size (drop start token_ids)) of
          None \<Rightarrow> None
        | Some h \<Rightarrow> prefix_loop blake3 token_ids block_size (start + block_size) h (out @ [h])
      else Some out)"
  by pat_completeness auto
termination
  by (relation "measure (\<lambda>(blake3, token_ids, block_size, start, running, out). length token_ids - start)") auto

text \<open>\<open>range\<close> raises for a step of zero and is empty for a negative one.\<close>

definition prefix_block_ids ::
  "(byte list \<Rightarrow> byte list) \<Rightarrow> int list \<Rightarrow> int \<Rightarrow> byte list \<Rightarrow> byte list list option" where
  "prefix_block_ids blake3 token_ids block_size initial_hash =
     (if block_size = 0 then None
      else if block_size < 0 then Some []
      else prefix_loop blake3 token_ids (nat block_size) 0 initial_hash [])"

subsection \<open>The ring\<close>

record HashRing =
  py_vnodes_per_peer :: int
  py_ring :: "(nat \<times> string) list"

definition py_set_peers :: "(string \<Rightarrow> byte list) \<Rightarrow> HashRing \<Rightarrow> string list \<Rightarrow> HashRing" where
  "py_set_peers blake3_full hr peers =
     hr\<lparr>py_ring := sort (concat (map (\<lambda>peer. map (\<lambda>vn.
          (le_to_nat (take 8 (blake3_full (vnode_key peer vn))), peer)) [0..<nat (py_vnodes_per_peer hr)]) peers))\<rparr>"

definition hash_ring_new :: "(string \<Rightarrow> byte list) \<Rightarrow> string list \<Rightarrow> int \<Rightarrow> HashRing" where
  "hash_ring_new blake3_full peers vnodes_per_peer =
     py_set_peers blake3_full \<lparr>py_vnodes_per_peer = vnodes_per_peer, py_ring = []\<rparr> peers"

function py_search :: "(nat \<times> string) list \<Rightarrow> nat \<Rightarrow> nat \<Rightarrow> nat \<Rightarrow> nat" where
  "py_search ring target lo hi =
     (if lo < hi then
        let mid = (lo + hi) div 2
        in if fst (ring ! mid) < target then py_search ring target (mid + 1) hi else py_search ring target lo mid
      else lo)"
  by pat_completeness auto
termination by (relation "measure (\<lambda>(ring, target, lo, hi). hi - lo)") auto

partial_function (option) py_walk ::
  "(nat \<times> string) list \<Rightarrow> int \<Rightarrow> int \<Rightarrow> nat \<Rightarrow> string list \<Rightarrow> string set \<Rightarrow> string list option" where
  "py_walk ring n_replicas limit i out seen =
     (if int (length out) < n_replicas \<and> int (card seen) < limit then
        (if snd (ring ! i) \<notin> seen
         then py_walk ring n_replicas limit ((i + 1) mod length ring) (out @ [snd (ring ! i)]) (insert (snd (ring ! i)) seen)
         else py_walk ring n_replicas limit ((i + 1) mod length ring) out seen)
      else Some out)"

definition py_route :: "HashRing \<Rightarrow> byte list \<Rightarrow> int \<Rightarrow> string list option" where
  "py_route hr block_hash n_replicas =
     (if py_ring hr = [] then Some []
      else
        let target = le_to_nat (take 8 block_hash);
            lo = py_search (py_ring hr) target 0 (length (py_ring hr));
            idx = lo mod length (py_ring hr)
        in py_walk (py_ring hr) n_replicas (py_vnodes_per_peer hr * 32) idx [] {})"

text \<open>What the hasher is fed for the block \<open>j\<close> of a sequence, given the hashes of the blocks.\<close>

definition hash_input :: "int list \<Rightarrow> nat \<Rightarrow> byte list \<Rightarrow> byte list list \<Rightarrow> nat \<Rightarrow> byte list" where
  "hash_input token_ids block_size initial ids j =
     (if j = 0 then initial else ids ! (j - 1)) @ the (pack_tokens (take block_size (drop (j * block_size) token_ids)))"

text \<open>A digest of two bytes for concrete runs.\<close>

definition sample_hash :: "byte list \<Rightarrow> byte list" where
  "sample_hash bs = [sum_list bs, of_nat (length bs)]"

section \<open>Lemmas\<close>

subsection \<open>Block hashes\<close>

declare prefix_loop.simps [simp del] py_search.simps [simp del]

lemma pack_u32_inj: "pack_u32 s = Some b \<Longrightarrow> pack_u32 t = Some b \<Longrightarrow> s = t"
proof -
  assume "pack_u32 s = Some b" "pack_u32 t = Some b"
  then have "0 \<le> s" "s < 2 ^ 32" "0 \<le> t" "t < 2 ^ 32" "nat_to_le 4 (nat s) = nat_to_le 4 (nat t)"
    by (auto simp: pack_u32_def split: if_splits)
  moreover from this(5) have "nat s mod 256 ^ 4 = nat t mod 256 ^ 4" by (metis le_to_nat_to_le)
  ultimately show "s = t" by (simp add: nat_less_iff)
qed

lemma length_pack_u32: "pack_u32 t = Some b \<Longrightarrow> length b = 4"
  by (auto simp: pack_u32_def split: if_splits)

lemma pack_tokens_inj:
  "pack_tokens xs = Some b \<Longrightarrow> pack_tokens ys = Some b \<Longrightarrow> xs = ys"
proof (induction xs arbitrary: ys b)
  case Nil
  then show ?case using length_pack_u32 by (cases ys) (fastforce split: option.splits)+
next
  case (Cons x xs)
  from Cons.prems(1) obtain c cs where c: "pack_u32 x = Some c" "pack_tokens xs = Some cs" "b = c @ cs"
    by (auto split: option.splits)
  have "b \<noteq> []" using c length_pack_u32 [OF c(1)] by auto
  then obtain y ys' where ys: "ys = y # ys'" using Cons.prems(2) by (cases ys) auto
  with Cons.prems(2) obtain d ds where d: "pack_u32 y = Some d" "pack_tokens ys' = Some ds" "b = d @ ds"
    by (auto split: option.splits)
  have "c = d \<and> cs = ds" using c(3) d(3) length_pack_u32 [OF c(1)] length_pack_u32 [OF d(1)] by auto
  then show ?case using ys Cons.IH [OF c(2)] d c pack_u32_inj by blast
qed

lemma prefix_loop_ids:
  assumes "prefix_loop H xs k start running out = Some ids" "0 < k"
  shows "\<exists>more. ids = out @ more \<and> (\<forall>j. j < length more \<longleftrightarrow> start + j * k < length xs) \<and>
    (\<forall>j<length more. \<exists>buf. pack_tokens (take k (drop (start + j * k) xs)) = Some buf \<and>
      more ! j = H ((if j = 0 then running else more ! (j - 1)) @ buf))"
  using assms
proof (induction H xs k start running out rule: prefix_loop.induct)
  case (1 H xs k start running out)
  show ?case
  proof (cases "start < length xs")
    case True
    obtain buf where buf: "pack_tokens (take k (drop start xs)) = Some buf"
      and rest: "prefix_loop H xs k (start + k) (H (running @ buf)) (out @ [H (running @ buf)]) = Some ids"
      using "1.prems" True by (subst (asm) prefix_loop.simps) (auto simp: chained_block_hash_def split: option.splits)
    have "chained_block_hash H running (take k (drop start xs)) = Some (H (running @ buf))"
      by (simp add: chained_block_hash_def buf)
    from "1.IH" [OF _ this rest "1.prems"(2)] True "1.prems"(2) obtain more where
      more: "ids = (out @ [H (running @ buf)]) @ more" "\<forall>j. j < length more \<longleftrightarrow> start + k + j * k < length xs"
        "\<forall>j<length more. \<exists>b. pack_tokens (take k (drop (start + k + j * k) xs)) = Some b \<and>
          more ! j = H ((if j = 0 then H (running @ buf) else more ! (j - 1)) @ b)" by blast
    have "j < length (H (running @ buf) # more) \<longleftrightarrow> start + j * k < length xs" for j
      using more(2) True by (cases j) (simp_all add: add.assoc)
    moreover have "\<exists>b. pack_tokens (take k (drop (start + j * k) xs)) = Some b \<and>
        (H (running @ buf) # more) ! j = H ((if j = 0 then running else (H (running @ buf) # more) ! (j - 1)) @ b)"
      if "j < length (H (running @ buf) # more)" for j
    proof (cases j)
      case (Suc i)
      then show ?thesis using more(3) that by (cases i) (auto simp: add.assoc)
    qed (simp add: buf)
    ultimately show ?thesis using more(1) by (intro exI [of _ "H (running @ buf) # more"]) simp
  next
    case False
    then have "ids = out" using "1.prems" by (subst (asm) prefix_loop.simps) simp
    then show ?thesis using False by simp
  qed
qed

lemma prefix_block_ids_nth:
  assumes "prefix_block_ids H xs (int k) initial = Some ids" "0 < k"
  shows "j < length ids \<longleftrightarrow> j * k < length xs"
    and "j < length ids \<Longrightarrow> pack_tokens (take k (drop (j * k) xs)) \<noteq> None \<and> ids ! j = H (hash_input xs k initial ids j)"
proof -
  have "prefix_loop H xs k 0 initial [] = Some ids" using assms by (simp add: prefix_block_ids_def)
  note l = prefix_loop_ids [OF this assms(2)]
  show "j < length ids \<longleftrightarrow> j * k < length xs" using l by auto
  show "j < length ids \<Longrightarrow> pack_tokens (take k (drop (j * k) xs)) \<noteq> None \<and> ids ! j = H (hash_input xs k initial ids j)"
    using l by (fastforce simp: hash_input_def)
qed

lemma take_blocks: "take (Suc j * k) xs = take (j * k) xs @ take k (drop (j * k) xs)"
  by (metis add.commute mult_Suc take_add)

text \<open>Equal hashes come from equal prefixes when the hasher does not collide on what it is fed, and conversely.\<close>

lemma same_prefix_same_id:
  assumes "prefix_block_ids H xs (int k) initial = Some as" "prefix_block_ids H ys (int k) initial = Some bs" "0 < k"
    and "j < length as" "j < length bs" "take (Suc j * k) xs = take (Suc j * k) ys"
  shows "as ! j = bs ! j"
  using assms(4-6)
proof (induction j)
  case 0
  then show ?case
    using prefix_block_ids_nth(2) [OF assms(1,3), of 0] prefix_block_ids_nth(2) [OF assms(2,3), of 0] by (simp add: hash_input_def)
next
  case (Suc j)
  have "take (min (Suc (Suc j) * k) (Suc j * k)) xs = take (min (Suc (Suc j) * k) (Suc j * k)) ys"
    using Suc.prems(3) by (metis min.commute take_take)
  then have pre: "take (Suc j * k) xs = take (Suc j * k) ys" by simp
  have "take k (drop (Suc j * k) xs) = take k (drop (Suc j * k) ys)"
    using Suc.prems(3) pre unfolding take_blocks [of "Suc j"] by (metis same_append_eq)
  then show ?case
    using Suc.IH [OF _ _ pre] Suc.prems prefix_block_ids_nth(2) [OF assms(1,3) Suc.prems(1)] prefix_block_ids_nth(2) [OF assms(2,3) Suc.prems(2)]
    by (simp add: hash_input_def)
qed

lemma same_id_same_prefix:
  assumes "prefix_block_ids H xs (int k) initial = Some as" "prefix_block_ids H ys (int k) initial = Some bs" "0 < k"
    and "\<And>x. length (H x) = length initial"
    and "inj_on H (hash_input xs k initial as ` {..<length as} \<union> hash_input ys k initial bs ` {..<length bs})"
    and "j < length as" "j < length bs" "as ! j = bs ! j"
  shows "take (Suc j * k) xs = take (Suc j * k) ys"
  using assms(6-8)
proof (induction j)
  case (0)
  note n = prefix_block_ids_nth(2) [OF assms(1,3) 0(1)] prefix_block_ids_nth(2) [OF assms(2,3) 0(2)]
  have "H (hash_input xs k initial as 0) = H (hash_input ys k initial bs 0)" using n 0(3) by metis
  then have "hash_input xs k initial as 0 = hash_input ys k initial bs 0"
    by (rule inj_onD [OF assms(5)]) (use 0(1,2) in blast)+
  then have "the (pack_tokens (take k xs)) = the (pack_tokens (take k ys))" by (simp add: hash_input_def)
  then show ?case using conjunct1 [OF n(1)] conjunct1 [OF n(2)] pack_tokens_inj by auto
next
  case (Suc j)
  note n = prefix_block_ids_nth(2) [OF assms(1,3) Suc.prems(1)] prefix_block_ids_nth(2) [OF assms(2,3) Suc.prems(2)]
  have prev: "as ! j = H (hash_input xs k initial as j)" "bs ! j = H (hash_input ys k initial bs j)"
    using prefix_block_ids_nth(2) [OF assms(1,3), of j] prefix_block_ids_nth(2) [OF assms(2,3), of j] Suc.prems by simp_all
  have "H (hash_input xs k initial as (Suc j)) = H (hash_input ys k initial bs (Suc j))" using n Suc.prems(3) by metis
  then have "hash_input xs k initial as (Suc j) = hash_input ys k initial bs (Suc j)"
    by (rule inj_onD [OF assms(5)]) (use Suc.prems(1,2) in blast)+
  moreover have "length (as ! j) = length (bs ! j)" using prev assms(4) by metis
  ultimately have eq: "as ! j = bs ! j" "the (pack_tokens (take k (drop (Suc j * k) xs))) = the (pack_tokens (take k (drop (Suc j * k) ys)))"
    unfolding hash_input_def by simp_all
  have "take k (drop (Suc j * k) xs) = take k (drop (Suc j * k) ys)" 
    using eq(2) conjunct1 [OF n(1)] conjunct1 [OF n(2)] pack_tokens_inj by auto
  then show ?case using Suc.IH Suc.prems eq(1) unfolding take_blocks [of "Suc j"] by simp
qed

subsection \<open>The ring\<close>

text \<open>The client's search probes the positions that the router's search probes.\<close>

lemma py_search_eq:
  assumes "map fst pr = map (\<lambda>e. unat (re_hash e)) ring" "hi \<le> length ring"
  shows "py_search pr (unat t) lo hi = ring_search ring t lo hi"
  using assms
proof (induction ring t lo hi rule: ring_search.induct)
  case (1 ring t lo hi)
  show ?case
  proof (cases "lo < hi")
    case True
    define mid where "mid = lo + (hi - lo) div 2"
    have mid: "(lo + hi) div 2 = mid" "mid < hi" using True by (auto simp: mid_def)
    have "length pr = length ring" using "1.prems"(1) by (metis length_map)
    then have "fst (pr ! mid) = unat (re_hash (ring ! mid))"
      using "1.prems" mid(2) by (metis (no_types, lifting) nth_map order_less_le_trans)
    then have cmp: "fst (pr ! mid) < unat t \<longleftrightarrow> re_hash (ring ! mid) < t" by (simp add: word_less_nat_alt)
    have l: "py_search pr (unat t) lo hi =
        (if re_hash (ring ! mid) < t then py_search pr (unat t) (mid + 1) hi else py_search pr (unat t) lo mid)"
      by (subst py_search.simps) (simp only: True if_True Let_def mid(1) cmp)
    have r: "ring_search ring t lo hi = (if re_hash (ring ! mid) < t then ring_search ring t (mid + 1) hi else ring_search ring t lo mid)"
      by (subst ring_search.simps) (simp only: True if_True Let_def flip: mid_def)
    show ?thesis
    proof (cases "re_hash (ring ! mid) < t")
      case less: True
      then show ?thesis unfolding l r using "1.IH"(1) [OF True mid_def less "1.prems"] by simp
    next
      case False
      then show ?thesis unfolding l r using "1.IH"(2) [OF True mid_def False "1.prems"(1)] "1.prems"(2) mid(2) by simp
    qed
  next
    case False
    then show ?thesis by (subst py_search.simps, subst ring_search.simps) simp
  qed
qed

lemma unat_le_u64: "unat (le_u64 d) = le_to_nat (take 8 d)"
proof -
  have "le_to_nat (take 8 d) < 256 ^ length (take 8 d)" by (rule le_to_nat_bound)
  also have "\<dots> \<le> 256 ^ 8" by (rule power_increasing) simp_all
  finally have "le_to_nat (take 8 d) < 2 ^ 64" by simp
  then show ?thesis by (simp add: le_u64_def unsigned_of_nat take_bit_nat_eq_self)
qed

lemma inj_unat: "inj_on (unat :: 'a :: len word \<Rightarrow> nat) A"
  by (rule inj_onI) (simp add: word_unat_eq_iff)

text \<open>The client's ring is the router's ring.\<close>

lemma sort_sorted_fst: "sorted (map fst (sort (xs :: (nat \<times> string) list)))"
proof -
  have "sorted_wrt (\<lambda>a b. fst a \<le> fst b) (sort xs)"
    by (rule sorted_wrt_mono_rel [of _ "(\<le>)"]) (auto simp: less_eq_prod_def)
  then show ?thesis by (simp add: sorted_wrt_map)
qed

lemma py_ring_eq:
  assumes "sort_ok srt" "distinct peers" "distinct peers'" "set peers' = set peers"
    and "collision_free b v peers" "rt_vnodes_per_peer rt = v"
  shows "py_ring (hash_ring_new b peers' (int (unat v))) = map (\<lambda>(h, p). (unat h, p)) (named_ring (SetPeers srt b rt peers))"
proof (rule sorted_keys_unique)
  let ?es = "map (\<lambda>(peer, vn). (unat (HashVirtualNode b peer vn), peer)) (List.product peers' [0..<unat v])"
  have flat: "concat (map (\<lambda>peer. map (f peer) ys) xs) = map (\<lambda>(peer, vn). f peer vn) (List.product xs ys)"
    for f :: "string \<Rightarrow> nat \<Rightarrow> nat \<times> string" and xs ys by (induction xs) simp_all
  have ring: "py_ring (hash_ring_new b peers' (int (unat v))) = sort ?es"
    by (simp add: hash_ring_new_def py_set_peers_def flat HashVirtualNode_def le_u64_from_digest_def unat_le_u64)
  note o = named_ring_order [OF assms(1,2), of b rt] and s = set_named_ring [OF assms(1), of b rt peers]
  have "inj_on (\<lambda>(peer, vn). HashVirtualNode b peer vn) (set peers' \<times> {0..<unat v})"
    using assms(5) unfolding collision_free_def assms(4) .
  then have inj: "inj_on (unat \<circ> (\<lambda>(peer, vn). HashVirtualNode b peer vn)) (set peers' \<times> {0..<unat v})"
    by (rule comp_inj_on) (rule inj_unat)
  show "sorted (map fst (py_ring (hash_ring_new b peers' (int (unat v)))))" unfolding ring by (rule sort_sorted_fst)
  have "map fst ?es = map (unat \<circ> (\<lambda>(peer, vn). HashVirtualNode b peer vn)) (List.product peers' [0..<unat v])"
    by (simp add: comp_def case_prod_unfold)
  moreover have "distinct (List.product peers' [0..<unat v])" using assms(3) by (intro distinct_product) simp_all
  ultimately have "distinct (map fst ?es)" using inj by (simp only: distinct_map set_product set_upt)
  then have "distinct (map fst (sort ?es))" by (simp only: distinct_map distinct_sort set_sort)
  then show "distinct (map fst (py_ring (hash_ring_new b peers' (int (unat v)))))"
    unfolding ring .
  show "sorted (map fst (map (\<lambda>(h, p). (unat h, p)) (named_ring (SetPeers srt b rt peers))))"
    using o(1) assms(5,6) by (simp add: sorted_map comp_def case_prod_unfold word_le_nat_alt)
  have "distinct (map unat (map fst (named_ring (SetPeers srt b rt peers))))"
    using o(2) assms(5,6) inj_unat unfolding distinct_map [of unat] by simp
  then show "distinct (map fst (map (\<lambda>(h, p). (unat h, p)) (named_ring (SetPeers srt b rt peers))))"
    by (simp add: comp_def case_prod_unfold)
  show "set (py_ring (hash_ring_new b peers' (int (unat v)))) = set (map (\<lambda>(h, p). (unat h, p)) (named_ring (SetPeers srt b rt peers)))"
    unfolding ring by (auto simp: s assms(4,6) image_iff) blast
qed

text \<open>The walk finds the first peers of the rotated ring when there are enough of them.\<close>

lemma py_walk_take:
  assumes "ring \<noteq> []" "s \<le> length ring" "int n \<le> limit" "length out \<le> n" "distinct out"
    and "n \<le> length (out @ filter (\<lambda>p. p \<notin> set out) (nub (drop s (rotate idx (map snd ring)))))"
  shows "py_walk ring (int n) limit ((idx + s) mod length ring) out (set out) =
    Some (take n (out @ filter (\<lambda>p. p \<notin> set out) (nub (drop s (rotate idx (map snd ring))))))"
  using assms(2,4-6)
proof (induction "length ring - s" arbitrary: s out)
  case 0
  then have "length out = n" by simp
  then show ?case by (subst py_walk.simps) simp
next
  case (Suc d)
  let ?names = "rotate idx (map snd ring)"
  let ?i = "(idx + s) mod length ring"
  have s: "s < length ring" using Suc.hyps(2) by linarith
  have peer: "?names ! s = snd (ring ! ?i)" using s assms(1) by (simp add: nth_rotate)
  have dr: "drop s ?names = snd (ring ! ?i) # drop (s + 1) ?names"
    using s peer Cons_nth_drop_Suc [of s ?names] by simp
  have succ: "(?i + 1) mod length ring = (idx + (s + 1)) mod length ring" by (simp add: mod_Suc_eq)
  have card: "int (card (set out)) = int (length out)" using Suc.prems(3) by (simp add: distinct_card)
  show ?case
  proof (cases "length out = n")
    case True
    then show ?thesis by (subst py_walk.simps) simp
  next
    case False
    then have go: "int (length out) < int n \<and> int (card (set out)) < limit" using Suc.prems(2) card assms(3) by linarith
    show ?thesis
    proof (cases "snd (ring ! ?i) \<in> set out")
      case seen: True
      have f: "filter (\<lambda>p. p \<notin> set out) (nub (drop s ?names)) = filter (\<lambda>p. p \<notin> set out) (nub (drop (s + 1) ?names))"
        unfolding dr using seen by (auto simp: removeAll_filter_not_eq intro: filter_cong)
      have "py_walk ring (int n) limit ?i out (set out) = py_walk ring (int n) limit ((idx + (s + 1)) mod length ring) out (set out)"
        by (subst py_walk.simps) (simp only: go seen succ simp_thms if_True if_False not_True_eq_False)
      then show ?thesis
        using Suc.hyps(1) [of "s + 1" out] Suc.hyps(2) Suc.prems f s by simp
    next
      case new: False
      have f: "filter (\<lambda>p. p \<notin> set out) (nub (drop s ?names)) =
          snd (ring ! ?i) # filter (\<lambda>p. p \<notin> set (out @ [snd (ring ! ?i)])) (nub (drop (s + 1) ?names))"
        unfolding dr using new by (auto simp: removeAll_filter_not_eq intro: filter_cong)
      have "py_walk ring (int n) limit ?i out (set out) =
          py_walk ring (int n) limit ((idx + (s + 1)) mod length ring) (out @ [snd (ring ! ?i)]) (set (out @ [snd (ring ! ?i)]))"
        by (subst py_walk.simps) (simp only: go new succ simp_thms if_True not_False_eq_True set_append list.set Un_insert_right sup_bot_right)
      then show ?thesis
        using Suc.hyps(1) [of "s + 1" "out @ [snd (ring ! ?i)]"] Suc.hyps(2) Suc.prems f s False new by simp
    qed
  qed
qed

text \<open>Whatever the walk returns has reached one of its two limits.\<close>

lemma py_walk_returns:
  assumes "py_walk ring n limit i out seen = Some r"
  shows "seen = set out \<and> distinct out \<and> set out \<subseteq> snd ` set ring \<and> i < length ring \<longrightarrow>
    (n \<le> int (length r) \<or> limit \<le> int (length r)) \<and> distinct r \<and> set r \<subseteq> snd ` set ring"
proof (rule py_walk.raw_induct [OF _ assms, of "\<lambda>ring n limit i out seen r. seen = set out \<and> distinct out \<and>
      set out \<subseteq> snd ` set ring \<and> i < length ring \<longrightarrow>
      (n \<le> int (length r) \<or> limit \<le> int (length r)) \<and> distinct r \<and> set r \<subseteq> snd ` set ring"], goal_cases)
  case (1 walk ring n limit i out seen r)
  show ?case
  proof (cases "int (length out) < n \<and> int (card seen) < limit")
    case True
    show ?thesis
    proof (cases "snd (ring ! i) \<in> seen")
      case in_seen: True
      then have "walk ring n limit ((i + 1) mod length ring) out seen = Some r" using 1(2) True by simp
      from 1(1) [OF this] show ?thesis using mod_less_divisor [of "length ring" "i + 1"] by (cases "ring = []") auto
    next
      case False
      then have "walk ring n limit ((i + 1) mod length ring) (out @ [snd (ring ! i)]) (insert (snd (ring ! i)) seen) = Some r"
        using 1(2) True by simp
      from 1(1) [OF this] show ?thesis using False mod_less_divisor [of "length ring" "i + 1"] by (cases "ring = []") auto
    qed
  next
    case False
    then have "r = out" using 1(2) by (auto split: if_splits)
    then show ?thesis using False by (auto simp: distinct_card)
  qed
qed

section \<open>Properties\<close>

text \<open>
  C16. The client routes like the servers.  When no two virtual nodes collide, the client's ring over the
  peers of a cluster, listed in any order, names for every block the primary and the replicas
  that the router of a server names, in the same order, as long as the cluster has as many
  peers as copies are wanted.
\<close>

theorem client_routes_alike:
  assumes "sort_ok srt" "distinct peers" "distinct peers'" "set peers' = set peers" "collision_free b v peers"
    and "v \<noteq> 0" "r \<noteq> 0" "unat r \<le> length peers" "unat r \<le> 32 * unat v"
  shows "py_route (hash_ring_new b peers' (int (unat v))) (id_hash i) (int (unat r)) =
    Some (route_list (Route (SetPeers srt b (router_new node v r) peers) i))"
proof -
  define rt where "rt = SetPeers srt b (router_new node v r) peers"
  define hr where "hr = hash_ring_new b peers' (int (unat v))"
  have sel: "rt_vnodes_per_peer (router_new node v r) = v" "rt_replication_factor (router_new node v r) = r"
    by (simp_all add: router_new_def)
  have r: "0 < unat r" using assms(7) by (simp add: unsigned_eq_0_iff neq0_conv [symmetric])
  then have ne: "peers \<noteq> []" using assms(8) by auto
  have ring: "py_ring hr = map (\<lambda>(h, p). (unat h, p)) (named_ring rt)"
    unfolding hr_def rt_def by (rule py_ring_eq [OF assms(1-5) sel(1)])
  have len: "length (py_ring hr) = length (rt_ring rt)" by (simp add: ring named_ring_def)
  have rne: "rt_ring rt \<noteq> []" using SetPeers_ring_empty [OF assms(1)] ne assms(6) sel(1) by (simp add: rt_def)
  then have pne: "py_ring hr \<noteq> []" using len by auto
  let ?idx = "ring_search (rt_ring rt) (HashBlock i) 0 (length (rt_ring rt)) mod length (rt_ring rt)"
  have "map fst (py_ring hr) = map (\<lambda>e. unat (re_hash e)) (rt_ring rt)" by (simp add: ring named_ring_def)
  then have search: "py_search (py_ring hr) (unat (HashBlock i)) 0 (length (rt_ring rt)) =
      ring_search (rt_ring rt) (HashBlock i) 0 (length (rt_ring rt))" by (rule py_search_eq) simp
  have names: "rotate ?idx (map snd (py_ring hr)) = map snd (clockwise (HashBlock i) (named_ring rt))"
  proof -
    have "map snd (py_ring hr) = map snd (named_ring rt)" by (simp add: ring case_prod_unfold)
    moreover have "sorted (map re_hash (rt_ring rt))" unfolding rt_def by (rule SetPeers_ring(2) [OF assms(1)])
    ultimately show ?thesis using clockwise_rotate [OF _ rne] by (simp add: rotate_map)
  qed
  have enough: "unat r \<le> length (preference (named_ring rt) (HashBlock i))"
    using length_preference [OF assms(1), of "router_new node v r" b peers] assms(2,6,8) sel(1) by (simp add: rt_def distinct_card)
  have "py_vnodes_per_peer hr = int (unat v)" by (simp add: hr_def hash_ring_new_def py_set_peers_def)
  then have limit: "int (unat r) \<le> py_vnodes_per_peer hr * 32" using assms(9) by linarith
  have "py_walk (py_ring hr) (int (unat r)) (py_vnodes_per_peer hr * 32) ?idx [] {} =
      Some (take (unat r) (preference (named_ring rt) (HashBlock i)))"
    using py_walk_take [OF pne, of 0 "unat r" "py_vnodes_per_peer hr * 32" "[]" ?idx] enough limit
    by (simp add: names preference_def len)
  moreover have "unat (HashBlock i) = le_to_nat (take 8 (id_hash i))" by (simp add: HashBlock_def unat_le_u64)
  ultimately have "py_route hr (id_hash i) (int (unat r)) = Some (take (unat r) (preference (named_ring rt) (HashBlock i)))"
    using pne search by (simp add: py_route_def Let_def len)
  moreover have "route_list (Route rt i) = take (unat r) (preference (named_ring rt) (HashBlock i))"
    using Route_SetPeers [OF assms(1) ne, of "router_new node v r" b i] assms(6) sel r by (simp add: rt_def max_def)
  ultimately show ?thesis by (simp add: hr_def rt_def)
qed

theorem client_routes_alike_witness:
  "\<forall>i. py_route (hash_ring_new sample_digest [''c'', ''a'', ''b''] (int (unat (1 :: u32)))) (id_hash i) (int (unat (2 :: u32))) =
    Some (route_list (Route (SetPeers (sort_key re_hash) sample_digest (router_new ''a'' 1 2) [''a'', ''b'', ''c'']) i))"
  by (rule allI, rule client_routes_alike) (auto simp: sample_collision_free)

text \<open>
  C18. The client's ring does not return when more copies are wanted than there are peers: the walk stops
  only after it has found that many peers, or 32 peers per virtual node, and walks round the
  ring forever when there are fewer of them.  The router stops after one turn.
\<close>

theorem client_route_diverges:
  assumes "peers \<noteq> []" "0 < v" "int (card (set peers)) < n" "int (card (set peers)) < v * 32"
  shows "py_route (hash_ring_new b peers v) h n = None"
proof (rule ccontr)
  let ?hr = "hash_ring_new b peers v"
  have names: "snd ` set (py_ring ?hr) \<subseteq> set peers" by (auto simp: hash_ring_new_def py_set_peers_def)
  have v: "py_vnodes_per_peer ?hr = v" by (simp add: hash_ring_new_def py_set_peers_def)
  obtain p where "p \<in> set peers" using assms(1) by (cases peers) auto
  then have "(le_to_nat (take 8 (b (vnode_key p 0))), p) \<in> set (py_ring ?hr)"
    using assms(2) by (auto simp: hash_ring_new_def py_set_peers_def intro!: bexI [of _ p] image_eqI [of _ _ 0])
  then have ne: "py_ring ?hr \<noteq> []" by auto
  assume "py_route ?hr h n \<noteq> None"
  then obtain idx r where w: "py_walk (py_ring ?hr) n (v * 32) idx [] {} = Some r" "idx < length (py_ring ?hr)"
    using ne by (auto simp: py_route_def Let_def v)
  have "(n \<le> int (length r) \<or> v * 32 \<le> int (length r)) \<and> distinct r \<and> set r \<subseteq> snd ` set (py_ring ?hr)"
    using py_walk_returns [OF w(1)] w(2) by simp
  then have r: "n \<le> int (length r) \<or> v * 32 \<le> int (length r)" "distinct r" "set r \<subseteq> set peers"
    using names by (blast, blast, blast)
  have "length r \<le> card (set peers)" using r(2,3) by (metis card_mono distinct_card finite_set)
  then show False using r(1) assms(3,4) by linarith
qed

theorem client_route_diverges_witness:
  "py_route (hash_ring_new sample_digest [''a''] 128) (replicate 32 0) 2 = None"
  by (rule client_route_diverges) simp_all

text \<open>
  C17. A block hash names a prefix.  Block \<open>j\<close> of two token sequences has the same hash exactly when the
  sequences agree on all tokens up to the end of that block, provided that the hash function
  returns digests of one length and does not collide on what it is fed for the two
  sequences.
\<close>

theorem prefix_ids_identify:
  assumes "prefix_block_ids H xs (int k) initial = Some as" "prefix_block_ids H ys (int k) initial = Some bs" "0 < k"
    and "\<And>x. length (H x) = length initial"
    and "inj_on H (hash_input xs k initial as ` {..<length as} \<union> hash_input ys k initial bs ` {..<length bs})"
    and "j < length as" "j < length bs"
  shows "as ! j = bs ! j \<longleftrightarrow> take (Suc j * k) xs = take (Suc j * k) ys"
  using same_id_same_prefix [OF assms] same_prefix_same_id [OF assms(1-3,6,7)] by blast

theorem prefix_ids_identify_witness:
  "\<exists>as bs. prefix_block_ids sample_hash [1, 2] 1 [0, 0] = Some as \<and> prefix_block_ids sample_hash [1, 3] 1 [0, 0] = Some bs \<and>
     as ! 0 = bs ! 0 \<and> as ! 1 \<noteq> bs ! 1"
proof -
  have four: "(4 :: nat) = Suc (Suc (Suc (Suc 0)))" by simp
  have p: "pack_u32 1 = Some [1, 0, 0, 0]" "pack_u32 2 = Some [2, 0, 0, 0]" "pack_u32 3 = Some [3, 0, 0, 0]"
    unfolding pack_u32_def four by simp_all
  have two: "prefix_block_ids sample_hash [s, t] (int 1) h =
      (case chained_block_hash sample_hash h [s] of None \<Rightarrow> None
       | Some g \<Rightarrow> map_option (\<lambda>f. [g, f]) (chained_block_hash sample_hash g [t]))" for s t h
    unfolding prefix_block_ids_def
    by (simp, subst prefix_loop.simps, simp split: option.split, subst prefix_loop.simps, simp split: option.split, subst prefix_loop.simps, simp)
  have as: "prefix_block_ids sample_hash [1, 2] (int 1) [0, 0] = Some [[1, 6], [9, 6]]"
    unfolding two by (simp add: chained_block_hash_def p sample_hash_def)
  have bs: "prefix_block_ids sample_hash [1, 3] (int 1) [0, 0] = Some [[1, 6], [10, 6]]"
    unfolding two by (simp add: chained_block_hash_def p sample_hash_def)
  have inj: "inj_on sample_hash (hash_input [1, 2] 1 [0, 0] [[1, 6], [9, 6]] ` {..<length [[1, 6 :: byte], [9, 6]]} \<union>
      hash_input [1, 3] 1 [0, 0] [[1, 6], [10, 6]] ` {..<length [[1, 6 :: byte], [10, 6]]})"
    by (auto simp add: lessThan_Suc hash_input_def p sample_hash_def)
  note same = prefix_ids_identify [OF as bs _ _ inj]
  have "([[1, 6], [9, 6]] :: byte list list) ! 0 = [[1, 6], [10, 6]] ! 0" using same [of 0] by (simp add: sample_hash_def)
  moreover have "([[1, 6], [9, 6]] :: byte list list) ! 1 \<noteq> [[1, 6], [10, 6]] ! 1" using same [of 1] by (simp add: sample_hash_def)
  ultimately show ?thesis using as bs by auto
qed

end
