(* ===== verification/Store_Interface.thy ===== *)
theory Store_Interface
  imports Types
begin

text \<open>
  The contract of a single-tier block store, as \<open>TieredStore\<close> relies on it: \<open>Put\<close> is
  idempotent on the key and leaves the store alone when it refuses, \<open>Erase\<close> removes the
  block and returns its payload size, and \<open>used_bytes\<close> is the total payload size of the
  resident blocks.  Both \<open>BlockStore\<close> and \<open>SsdBlockStore\<close> provide it; the lemmas below are
  proved once for both.  The abstraction of a store is its content, a map from block
  identities to payload bytes.
\<close>

section \<open>Operation sequences over an abstract map\<close>

datatype store_op = OpPut KvBlock | OpErase BlockId

type_synonym content = "BlockId \<rightharpoonup> byte list"

text \<open>The abstract effect of one operation, given whether a \<open>Put\<close> was accepted.\<close>

fun content_step :: "bool \<Rightarrow> store_op \<Rightarrow> content \<Rightarrow> content" where
  "content_step ok (OpPut b) m =
     (if ok \<and> m (kv_id b) = None then m(kv_id b \<mapsto> kv_data b) else m)"
| "content_step ok (OpErase k) m = m(k := None)"

definition content_size :: "content \<Rightarrow> nat" where
  "content_size m = (\<Sum>k\<in>dom m. length (the (m k)))"

text \<open>
  Running a sequence of operations on a store and on the abstract content; the first run
  also returns what each operation reported.
\<close>

fun run_op :: "('s \<Rightarrow> KvBlock \<Rightarrow> bool \<times> 's) \<Rightarrow> ('s \<Rightarrow> BlockId \<Rightarrow> size_t \<times> 's) \<Rightarrow> store_op \<Rightarrow> 's \<Rightarrow> bool \<times> 's" where
  "run_op put erase (OpPut b) s = put s b"
| "run_op put erase (OpErase k) s = (True, snd (erase s k))"

primrec run_ops :: "('s \<Rightarrow> KvBlock \<Rightarrow> bool \<times> 's) \<Rightarrow> ('s \<Rightarrow> BlockId \<Rightarrow> size_t \<times> 's) \<Rightarrow> store_op list \<Rightarrow> 's \<Rightarrow> bool list \<times> 's" where
  "run_ops put erase [] s = ([], s)"
| "run_ops put erase (x # xs) s =
     (let (ok, s1) = run_op put erase x s; (oks, s2) = run_ops put erase xs s1
      in (ok # oks, s2))"

fun content_run :: "bool list \<Rightarrow> store_op list \<Rightarrow> content \<Rightarrow> content" where
  "content_run (ok # oks) (x # xs) m = content_run oks xs (content_step ok x m)"
| "content_run _ _ m = m"

fun op_blocks :: "store_op \<Rightarrow> KvBlock list" where
  "op_blocks (OpPut b) = [b]"
| "op_blocks (OpErase k) = []"

text \<open>A store behind a pointer that may be null, as \<open>hbm_ ? hbm_->Put(...) : false\<close>.\<close>

definition opt_put :: "('s \<Rightarrow> KvBlock \<Rightarrow> bool \<times> 's) \<Rightarrow> 's option \<Rightarrow> KvBlock \<Rightarrow> bool \<times> 's option" where
  "opt_put put p b = (case p of None \<Rightarrow> (False, None) | Some s \<Rightarrow> (let (ok, s') = put s b in (ok, Some s')))"

definition opt_erase :: "('s \<Rightarrow> BlockId \<Rightarrow> size_t \<times> 's) \<Rightarrow> 's option \<Rightarrow> BlockId \<Rightarrow> size_t \<times> 's option" where
  "opt_erase erase p k = (case p of None \<Rightarrow> (0, None) | Some s \<Rightarrow> (let (n, s') = erase s k in (n, Some s')))"

definition opt_size :: "('s \<Rightarrow> size_t) \<Rightarrow> 's option \<Rightarrow> size_t" where
  "opt_size f p = (case p of None \<Rightarrow> 0 | Some s \<Rightarrow> f s)"

abbreviation opt_inv :: "('s \<Rightarrow> bool) \<Rightarrow> 's option \<Rightarrow> bool" where
  "opt_inv i p \<equiv> (case p of None \<Rightarrow> True | Some s \<Rightarrow> i s)"

abbreviation opt_content :: "('s \<Rightarrow> content) \<Rightarrow> 's option \<Rightarrow> content" where
  "opt_content c p \<equiv> (case p of None \<Rightarrow> Map.empty | Some s \<Rightarrow> c s)"

section \<open>Lemmas\<close>

text \<open>A content that reads off a hash table.\<close>

lemma finite_umap_content: "finite (dom (\<lambda>k. map_option g (umap_find m k)))"
  by (rule finite_subset [OF _ finite_dom_map_of [of m]]) auto

lemma content_size_umap:
  assumes "umap_ok m"
  shows "content_size (\<lambda>k. map_option g (umap_find m k)) = umap_sum (\<lambda>v. length (g v)) m"
proof -
  let ?c = "\<lambda>k. map_option g (umap_find m k)"
  have "dom ?c = dom (map_of m)" by auto
  then have "dom ?c = set (map fst m)" by (simp add: dom_map_of_conv_image_fst)
  then have "content_size ?c = (\<Sum>k\<in>set (map fst m). length (the (?c k)))"
    by (simp only: content_size_def)
  also have "\<dots> = sum_list (map (\<lambda>k. length (the (?c k))) (map fst m))"
    using assms by (simp only: umap_ok_def sum_list_distinct_conv_sum_set)
  also have "map (\<lambda>k. length (the (?c k))) (map fst m) = map (\<lambda>p. length (g (snd p))) m"
    using assms by (auto simp: umap_ok_def)
  finally show ?thesis by (simp add: umap_sum_def)
qed

section \<open>The contract\<close>

locale kv_store =
  fixes inv :: "'s \<Rightarrow> bool"
    and content :: "'s \<Rightarrow> content"
    and admissible :: "KvBlock \<Rightarrow> bool"
    and put :: "'s \<Rightarrow> KvBlock \<Rightarrow> bool \<times> 's"
    and erase :: "'s \<Rightarrow> BlockId \<Rightarrow> size_t \<times> 's"
    and used :: "'s \<Rightarrow> size_t"
    and capacity :: "'s \<Rightarrow> size_t"
  assumes finite_content: "inv s \<Longrightarrow> finite (dom (content s))"
    and used_content: "inv s \<Longrightarrow> used s = content_size (content s)"
    and used_capacity: "inv s \<Longrightarrow> used s \<le> capacity s"
    and put_inv: "inv s \<Longrightarrow> admissible b \<Longrightarrow> put s b = (ok, s') \<Longrightarrow> inv s'"
    and put_ok: "inv s \<Longrightarrow> admissible b \<Longrightarrow> put s b = (True, s') \<Longrightarrow>
      content s' = content_step True (OpPut b) (content s)"
    and put_refused: "put s b = (False, s') \<Longrightarrow> s' = s"
    and put_capacity: "put s b = (ok, s') \<Longrightarrow> capacity s' = capacity s"
    and erase_inv: "inv s \<Longrightarrow> erase s k = (n, s') \<Longrightarrow> inv s'"
    and erase_content: "inv s \<Longrightarrow> erase s k = (n, s') \<Longrightarrow> content s' = (content s)(k := None)"
    and erase_freed: "inv s \<Longrightarrow> erase s k = (n, s') \<Longrightarrow>
      n = (case content s k of None \<Rightarrow> 0 | Some d \<Rightarrow> length d)"
    and erase_capacity: "erase s k = (n, s') \<Longrightarrow> capacity s' = capacity s"
begin

lemma put_content:
  assumes "inv s" "admissible b" "put s b = (ok, s')"
  shows "content s' = content_step ok (OpPut b) (content s)"
  using assms put_ok put_refused by (cases ok) fastforce+

lemma put_then_present:
  assumes "inv s" "admissible b" "put s b = (True, s')"
  shows "content s' (kv_id b) \<noteq> None"
    and "content s (kv_id b) = None \<Longrightarrow> content s' (kv_id b) = Some (kv_data b)"
  using put_ok [OF assms] by auto

lemma put_keeps:
  assumes "inv s" "admissible b" "put s b = (ok, s')" "content s k = Some d"
  shows "content s' k = Some d"
  using put_content [OF assms(1-3)] assms(4) by (auto split: if_splits)

lemma put_frame:
  assumes "inv s" "admissible b" "put s b = (ok, s')" "k \<noteq> kv_id b"
  shows "content s' k = content s k"
  using put_content [OF assms(1-3)] assms(4) by auto

lemma used_put:
  assumes "inv s" "admissible b" "put s b = (ok, s')"
  shows "used s' = used s + (if ok \<and> content s (kv_id b) = None then length (kv_data b) else 0)"
proof (cases "ok \<and> content s (kv_id b) = None")
  case True
  let ?m = "content s" and ?k = "kv_id b"
  have m': "content s' = ?m(?k \<mapsto> kv_data b)"
    using put_content [OF assms] True by simp
  have k: "?k \<notin> dom ?m" using True by auto
  have "used s' = content_size (?m(?k \<mapsto> kv_data b))"
    using used_content [OF put_inv [OF assms]] m' by simp
  also have "\<dots> = length (kv_data b) + (\<Sum>j\<in>dom ?m. length (the ((?m(?k \<mapsto> kv_data b)) j)))"
    using finite_content [OF assms(1)] k by (simp add: content_size_def)
  also have "(\<Sum>j\<in>dom ?m. length (the ((?m(?k \<mapsto> kv_data b)) j))) = content_size ?m"
    unfolding content_size_def by (rule sum.cong) (use k in auto)
  finally show ?thesis using True used_content [OF assms(1)] by simp
next
  case False
  then have "content s' = content s" using put_content [OF assms] by auto
  then show ?thesis
    using False used_content [OF put_inv [OF assms]] used_content [OF assms(1)] by auto
qed

lemma used_erase:
  assumes "inv s" "erase s k = (n, s')"
  shows "used s' + n = used s"
proof -
  let ?m = "content s"
  have used': "used s' = content_size (?m(k := None))"
    using used_content [OF erase_inv [OF assms]] erase_content [OF assms] by simp
  have cong: "(\<Sum>j\<in>dom ?m - {k}. length (the ((?m(k := None)) j)))
      = (\<Sum>j\<in>dom ?m - {k}. length (the (?m j)))"
    by (rule sum.cong) auto
  show ?thesis
  proof (cases "?m k")
    case None
    then show ?thesis
      using used' used_content [OF assms(1)] erase_freed [OF assms] by (simp add: fun_upd_idem)
  next
    case (Some d)
    then have "content_size ?m = length d + (\<Sum>j\<in>dom ?m - {k}. length (the (?m j)))"
      using sum.remove [OF finite_content [OF assms(1)], of k "\<lambda>j. length (the (?m j))"]
      by (auto simp: content_size_def)
    then show ?thesis
      using used' used_content [OF assms(1)] erase_freed [OF assms] Some cong
      by (simp add: content_size_def)
  qed
qed

lemma run_op_step:
  assumes "inv s" "\<forall>b\<in>set (op_blocks x). admissible b" "run_op put erase x s = (ok, s')"
  shows "inv s'" and "content s' = content_step ok x (content s)"
    and "capacity s' = capacity s"
proof -
  have all: "inv s' \<and> content s' = content_step ok x (content s) \<and> capacity s' = capacity s"
  proof (cases x)
    case (OpPut c)
    then have "admissible c" "put s c = (ok, s')" using assms by auto
    then show ?thesis
      using OpPut put_inv [OF assms(1)] put_content [OF assms(1)] put_capacity
      by metis
  next
    case (OpErase k)
    then obtain n where "erase s k = (n, s')" "ok" using assms(3) by (cases "erase s k") auto
    then show ?thesis
      using OpErase erase_inv [OF assms(1)] erase_content [OF assms(1)] erase_capacity
      by (metis content_step.simps(2))
  qed
  then show "inv s'" "content s' = content_step ok x (content s)" "capacity s' = capacity s"
    by simp_all
qed

lemma run_ops_refines:
  assumes "inv s" "\<forall>x\<in>set xs. \<forall>b\<in>set (op_blocks x). admissible b"
    and "run_ops put erase xs s = (oks, s')"
  shows "inv s' \<and> content s' = content_run oks xs (content s) \<and> capacity s' = capacity s"
  using assms
proof (induction xs arbitrary: s oks)
  case (Cons x xs)
  obtain ok s1 where one: "run_op put erase x s = (ok, s1)" by force
  obtain oks1 where rest: "run_ops put erase xs s1 = (oks1, s')" and oks: "oks = ok # oks1"
    using Cons.prems(3) one by (auto simp: Let_def split: prod.splits)
  have step: "inv s1" "content s1 = content_step ok x (content s)" "capacity s1 = capacity s"
    using run_op_step [OF Cons.prems(1) _ one] Cons.prems(2) by auto
  show ?case
    using Cons.IH [OF step(1) _ rest] Cons.prems(2) step oks by auto
qed simp

lemma content_le_used:
  assumes "inv s" "content s k = Some d"
  shows "length d \<le> used s"
proof -
  have "length (the (content s k)) \<le> (\<Sum>j\<in>dom (content s). length (the (content s j)))"
    by (rule member_le_sum) (use assms finite_content in auto)
  then show ?thesis using used_content [OF assms(1)] assms(2) by (simp add: content_size_def)
qed

text \<open>A null pointer is a store that refuses every \<open>Put\<close>.\<close>

lemma kv_store_option:
  "kv_store (opt_inv inv) (opt_content content) admissible
     (opt_put put) (opt_erase erase) (opt_size used) (opt_size capacity)"
proof (unfold_locales, goal_cases)
  case (1 p)
  then show ?case by (cases p) (auto simp: finite_content)
next
  case (2 p)
  then show ?case by (cases p) (auto simp: opt_size_def content_size_def used_content)
next
  case (3 p)
  then show ?case by (cases p) (auto simp: opt_size_def used_capacity)
next
  case (4 p b ok p')
  then show ?case by (cases p) (auto simp: opt_put_def intro: put_inv split: prod.splits)
next
  case (5 p b p')
  then show ?case by (cases p) (auto simp: opt_put_def put_ok split: prod.splits)
next
  case (6 p b p')
  then show ?case by (cases p) (auto simp: opt_put_def dest: put_refused split: prod.splits)
next
  case (7 p b ok p')
  then show ?case by (cases p) (auto simp: opt_put_def opt_size_def dest: put_capacity split: prod.splits)
next
  case (8 p k n p')
  then show ?case by (cases p) (auto simp: opt_erase_def intro: erase_inv split: prod.splits)
next
  case (9 p k n p')
  then show ?case by (cases p) (auto simp: opt_erase_def fun_upd_idem erase_content split: prod.splits)
next
  case (10 p k n p')
  then show ?case by (cases p) (auto simp: opt_erase_def dest: erase_freed split: prod.splits)
next
  case (11 p k n p')
  then show ?case by (cases p) (auto simp: opt_erase_def opt_size_def dest: erase_capacity split: prod.splits)
qed

end

end
