(* ===== verification/Block_Store.thy ===== *)
theory Block_Store
  imports Store_Interface
begin

text \<open>
  The in-memory block store of \<open>cache_server/src/block_store.cpp\<close>, which backs the HBM and
  DRAM tiers.  Every method runs under the store's own mutex, so each is one atomic state
  transformation.  \<open>used_bytes_\<close> is a separate counter, as in the code; the invariant
  \<open>bs_inv\<close> says that it equals the payload bytes of the resident blocks.
\<close>

section \<open>Definitions\<close>

record BlockStore =
  bs_tier :: Tier
  bs_capacity_bytes :: size_t
  bs_blocks :: "(BlockId, KvBlock) umap"
  bs_used_bytes :: size_t

definition bs_new :: "Tier \<Rightarrow> size_t \<Rightarrow> BlockStore" where
  "bs_new t capacity =
     \<lparr>bs_tier = t, bs_capacity_bytes = capacity, bs_blocks = [], bs_used_bytes = 0\<rparr>"

definition bs_Put :: "BlockStore \<Rightarrow> KvBlock \<Rightarrow> bool \<times> BlockStore" where
  "bs_Put s b =
     (let block = b\<lparr>kv_tier := bs_tier s\<rparr>;
          new_size = length (kv_data block)
      in case umap_find (bs_blocks s) (kv_id block) of
           Some _ \<Rightarrow> (True, s)
         | None \<Rightarrow>
             if size_add (bs_used_bytes s) new_size > bs_capacity_bytes s then (False, s)
             else (True, s\<lparr>bs_blocks := umap_emplace (kv_id block) block (bs_blocks s),
                           bs_used_bytes := size_add (bs_used_bytes s) new_size\<rparr>))"

definition bs_Get :: "BlockStore \<Rightarrow> BlockId \<Rightarrow> byte list option" where
  "bs_Get s k =
     (case umap_find (bs_blocks s) k of
        None \<Rightarrow> None
      | Some kv \<Rightarrow> Some (kv_data kv))"

definition bs_Erase :: "BlockStore \<Rightarrow> BlockId \<Rightarrow> size_t \<times> BlockStore" where
  "bs_Erase s k =
     (case umap_find (bs_blocks s) k of
        None \<Rightarrow> (0, s)
      | Some kv \<Rightarrow>
          let freed = length (kv_data kv)
          in (freed, s\<lparr>bs_blocks := umap_erase k (bs_blocks s),
                       bs_used_bytes := size_sub (bs_used_bytes s) freed\<rparr>))"

definition bs_Snapshot :: "BlockId iter_order \<Rightarrow> BlockStore \<Rightarrow> BlockMeta list" where
  "bs_Snapshot ord s =
     map (\<lambda>(k, kv). \<lparr>bm_id = k, bm_tier = bs_tier s, bm_size_bytes = length (kv_data kv),
            bm_last_access_epoch = kv_inserted_epoch kv,
            bm_insert_epoch = kv_inserted_epoch kv, bm_visited = False\<rparr>)
       (umap_iter ord (bs_blocks s))"

text \<open>
  The invariant.  A capacity of at most \<open>2 ^ 63\<close> bytes keeps the pre-flight sum
  \<open>used_bytes_ + new_size\<close> from wrapping.
\<close>

definition bs_inv :: "BlockStore \<Rightarrow> bool" where
  "bs_inv s \<longleftrightarrow>
     umap_ok (bs_blocks s) \<and>
     bs_used_bytes s = umap_sum (\<lambda>kv. length (kv_data kv)) (bs_blocks s) \<and>
     bs_used_bytes s \<le> bs_capacity_bytes s \<and>
     bs_capacity_bytes s \<le> 2 ^ 63 \<and>
     (\<forall>k kv. umap_find (bs_blocks s) k = Some kv \<longrightarrow>
        kv_id kv = k \<and> kv_tier kv = bs_tier s \<and> kv_ok kv)"

section \<open>Lemmas\<close>

lemma bs_inv_new: "capacity \<le> 2 ^ 63 \<Longrightarrow> bs_inv (bs_new t capacity)"
  by (simp add: bs_inv_def bs_new_def umap_sum_def)

lemma bs_Put_cases:
  assumes "bs_Put s b = (ok, s')"
  obtains (present) kv where "umap_find (bs_blocks s) (kv_id b) = Some kv" "ok" "s' = s"
    | (full) "umap_find (bs_blocks s) (kv_id b) = None" "\<not> ok" "s' = s"
        "size_add (bs_used_bytes s) (length (kv_data b)) > bs_capacity_bytes s"
    | (new) "umap_find (bs_blocks s) (kv_id b) = None" "ok"
        "size_add (bs_used_bytes s) (length (kv_data b)) \<le> bs_capacity_bytes s"
        "s' = s\<lparr>bs_blocks := umap_emplace (kv_id b) (b\<lparr>kv_tier := bs_tier s\<rparr>) (bs_blocks s),
                bs_used_bytes := size_add (bs_used_bytes s) (length (kv_data b))\<rparr>"
  using assms
  by (cases "umap_find (bs_blocks s) (kv_id b)") (auto simp: bs_Put_def Let_def split: if_splits)

lemma bs_put_exact:
  assumes "bs_inv s" "kv_ok b"
  shows "size_add (bs_used_bytes s) (length (kv_data b)) = bs_used_bytes s + length (kv_data b)"
  using assms by (intro size_add_exact) (auto simp: bs_inv_def kv_ok_def)

lemma bs_inv_Put:
  assumes "bs_inv s" "kv_ok b" "bs_Put s b = (ok, s')"
  shows "bs_inv s'"
  using assms(3)
proof (cases rule: bs_Put_cases)
  case new
  then show ?thesis
    using assms(1,2) bs_put_exact [OF assms(1,2)]
    by (auto simp: bs_inv_def umap_sum_emplace umap_simps kv_ok_def)
qed (use assms in auto)

lemma bs_Get_Put:
  assumes "bs_Put s b = (True, s')"
  shows "bs_Get s' = content_step True (OpPut b) (bs_Get s)"
  using assms
  by (cases rule: bs_Put_cases) (auto simp: bs_Get_def umap_simps fun_eq_iff split: option.splits)

lemma bs_Erase_absent: "umap_find (bs_blocks s) k = None \<Longrightarrow> bs_Erase s k = (0, s)"
  by (simp add: bs_Erase_def)

lemma bs_Erase_present:
  assumes "bs_inv s" "umap_find (bs_blocks s) k = Some kv"
  shows "bs_Erase s k = (length (kv_data kv), s\<lparr>bs_blocks := umap_erase k (bs_blocks s),
           bs_used_bytes := bs_used_bytes s - length (kv_data kv)\<rparr>)"
proof -
  have "length (kv_data kv) \<le> bs_used_bytes s"
    using assms umap_sum_ge [OF assms(2), of "\<lambda>kv. length (kv_data kv)"] by (simp add: bs_inv_def)
  moreover have "bs_used_bytes s < size_mod" using assms(1) by (auto simp: bs_inv_def)
  ultimately show ?thesis using assms(2) by (simp add: bs_Erase_def Let_def size_sub_exact)
qed

lemma bs_Get_Erase:
  "bs_Erase s k = (n, s') \<Longrightarrow> bs_Get s' = (bs_Get s)(k := None)"
  by (auto simp: bs_Erase_def bs_Get_def umap_simps fun_eq_iff Let_def split: option.splits if_splits)

lemma bs_Erase_freed:
  "bs_Erase s k = (n, s') \<Longrightarrow> n = (case bs_Get s k of None \<Rightarrow> 0 | Some d \<Rightarrow> length d)"
  by (auto simp: bs_Erase_def bs_Get_def Let_def split: option.splits)

lemma bs_inv_Erase:
  assumes "bs_inv s" "bs_Erase s k = (n, s')"
  shows "bs_inv s'"
proof (cases "umap_find (bs_blocks s) k")
  case None
  then show ?thesis using assms by (simp add: bs_Erase_absent)
next
  case (Some kv)
  have "umap_sum (\<lambda>kv. length (kv_data kv)) (umap_erase k (bs_blocks s)) + length (kv_data kv)
      = bs_used_bytes s"
    using assms(1) umap_sum_erase [of "bs_blocks s" k kv] Some by (simp add: bs_inv_def)
  then show ?thesis
    using assms bs_Erase_present [OF assms(1) Some]
    by (auto simp: bs_inv_def umap_simps split: if_splits)
qed

lemma bs_Get_umap: "bs_Get s = (\<lambda>k. map_option kv_data (umap_find (bs_blocks s) k))"
  by (auto simp: bs_Get_def fun_eq_iff split: option.splits)

lemma bs_Put_capacity: "bs_Put s b = (ok, s') \<Longrightarrow> bs_capacity_bytes s' = bs_capacity_bytes s"
  by (erule bs_Put_cases) auto

lemma bs_Put_tier: "bs_Put s b = (ok, s') \<Longrightarrow> bs_tier s' = bs_tier s"
  by (erule bs_Put_cases) auto

lemma bs_Erase_capacity: "bs_Erase s k = (n, s') \<Longrightarrow> bs_capacity_bytes s' = bs_capacity_bytes s"
  by (auto simp: bs_Erase_def Let_def split: option.splits)

lemma bs_Erase_tier: "bs_Erase s k = (n, s') \<Longrightarrow> bs_tier s' = bs_tier s"
  by (auto simp: bs_Erase_def Let_def split: option.splits)

interpretation bs: kv_store bs_inv bs_Get kv_ok bs_Put bs_Erase bs_used_bytes bs_capacity_bytes
proof unfold_locales
  fix s b ok s' k n c
  show "bs_inv s \<Longrightarrow> finite (dom (bs_Get s))" by (simp add: bs_Get_umap finite_umap_content)
  show "bs_inv s \<Longrightarrow> bs_used_bytes s = content_size (bs_Get s)"
    by (simp add: bs_inv_def bs_Get_umap content_size_umap)
  show "bs_inv s \<Longrightarrow> bs_used_bytes s \<le> bs_capacity_bytes s" by (simp add: bs_inv_def)
  show "bs_inv s \<Longrightarrow> kv_ok b \<Longrightarrow> bs_Put s b = (ok, s') \<Longrightarrow> bs_inv s'" by (rule bs_inv_Put)
  show "bs_Put s b = (True, s') \<Longrightarrow> bs_Get s' = content_step True (OpPut b) (bs_Get s)"
    by (rule bs_Get_Put)
  show "bs_Put s b = (False, s') \<Longrightarrow> s' = s" by (erule bs_Put_cases) auto
  show "bs_Put s b = (ok, s') \<Longrightarrow> bs_capacity_bytes s' = bs_capacity_bytes s"
    by (rule bs_Put_capacity)
  show "bs_inv s \<Longrightarrow> bs_Erase s k = (n, s') \<Longrightarrow> bs_inv s'" by (rule bs_inv_Erase)
  show "bs_Erase s k = (n, s') \<Longrightarrow> bs_Get s' = (bs_Get s)(k := None)" by (rule bs_Get_Erase)
  show "bs_Erase s k = (n, s') \<Longrightarrow> n = (case bs_Get s k of None \<Rightarrow> 0 | Some d \<Rightarrow> length d)"
    by (rule bs_Erase_freed)
  show "bs_Erase s k = (n, s') \<Longrightarrow> bs_capacity_bytes s' = bs_capacity_bytes s"
    by (rule bs_Erase_capacity)
qed

section \<open>Properties\<close>

text \<open>
  From an empty store, any sequence of \<open>Put\<close> and \<open>Erase\<close> calls behaves as the abstract
  map does, given what each \<open>Put\<close> reported; the byte counter equals the size of the content
  and never exceeds the capacity.
\<close>

theorem bs_refines_map:
  assumes "capacity \<le> 2 ^ 63" "\<forall>x\<in>set xs. \<forall>b\<in>set (op_blocks x). kv_ok b"
    and "run_ops bs_Put bs_Erase xs (bs_new t capacity) = (oks, s')"
  shows "bs_Get s' = content_run oks xs Map.empty \<and>
    bs_used_bytes s' = content_size (bs_Get s') \<and> bs_used_bytes s' \<le> capacity"
proof -
  have run: "bs_inv s' \<and> bs_Get s' = content_run oks xs (bs_Get (bs_new t capacity)) \<and>
      bs_capacity_bytes s' = bs_capacity_bytes (bs_new t capacity)"
    by (rule bs.run_ops_refines [OF bs_inv_new [OF assms(1)] assms(2,3)])
  moreover have "bs_Get (bs_new t capacity) = Map.empty"
    by (simp add: bs_Get_def bs_new_def fun_eq_iff)
  ultimately show ?thesis
    using bs.used_content [of s'] bs.used_capacity [of s'] by (simp add: bs_new_def)
qed

theorem bs_refines_map_witness:
  "bs_Get (snd (run_ops bs_Put bs_Erase [OpPut (sample_block 1 [7, 8]), OpErase (sample_id 1),
      OpPut (sample_block 2 [9])] (bs_new DRAM 4)))
    = content_run [True, True, True] [OpPut (sample_block 1 [7, 8]), OpErase (sample_id 1),
      OpPut (sample_block 2 [9])] Map.empty"
proof -
  let ?xs = "[OpPut (sample_block 1 [7, 8]), OpErase (sample_id 1), OpPut (sample_block 2 [9])]"
  have run: "run_ops bs_Put bs_Erase ?xs (bs_new DRAM 4) =
      ([True, True, True], snd (run_ops bs_Put bs_Erase ?xs (bs_new DRAM 4)))"
    by (simp add: bs_Put_def bs_Erase_def bs_new_def umap_emplace_def umap_erase_def
        size_add_def size_sub_def)
  show ?thesis
    using bs_refines_map [OF _ _ run] by simp
qed

text \<open>
  \<open>Put\<close> accepts a block exactly when it is already resident or its payload fits in the
  remaining capacity.
\<close>

theorem bs_Put_accepts:
  assumes "bs_inv s" "kv_ok b"
  shows "fst (bs_Put s b) \<longleftrightarrow> bs_Get s (kv_id b) \<noteq> None \<or>
    bs_used_bytes s + length (kv_data b) \<le> bs_capacity_bytes s"
  using bs_put_exact [OF assms]
  by (auto simp: bs_Put_def bs_Get_def Let_def split: option.splits)

theorem bs_Put_accepts_witness:
  "\<not> fst (bs_Put (bs_new DRAM 1) (sample_block 1 [7, 8]))"
  using bs_Put_accepts [OF bs_inv_new [of 1 DRAM], of "sample_block 1 [7, 8]"]
  by (simp add: bs_new_def bs_Get_def)

end
