(* ===== verification/Ssd_Layout.thy ===== *)
theory Ssd_Layout
  imports Types
begin

text \<open>
  The on-disk slot format of \<open>cache_server/include/lethe/ssd_block_store.hpp\<close>: a 64-byte
  header (\<open>SsdSlotHeader\<close>) followed by the payload area.  \<open>encode_slot\<close> gives the bytes a
  slot occupies in the file and \<open>decode_slot\<close> reads them back through the header struct; the
  lemmas are the round trip of one slot and of a file that is an array of slots.
\<close>

section \<open>Definitions\<close>

record SsdSlotHeader =
  h_magic :: byte
  h_tier :: byte
  h_flags :: u16
  h_payload_size :: u32
  h_hash :: Hash256
  h_inserted_epoch :: u64
  h_layer :: u32
  h_head_group :: u32
  h_model_id :: u32
  h_reserved :: "byte list"

record Slot =
  sl_header :: SsdSlotHeader
  sl_payload :: "byte list"

abbreviation header_bytes :: nat where
  "header_bytes \<equiv> 64"

definition encode_header :: "SsdSlotHeader \<Rightarrow> byte list" where
  "encode_header h =
     [h_magic h, h_tier h] @ nat_to_le 2 (unat (h_flags h)) @
     nat_to_le 4 (unat (h_payload_size h)) @ h_hash h @
     nat_to_le 8 (unat (h_inserted_epoch h)) @ nat_to_le 4 (unat (h_layer h)) @
     nat_to_le 4 (unat (h_head_group h)) @ nat_to_le 4 (unat (h_model_id h)) @ h_reserved h"

text \<open>The bytes of the field at a given offset.\<close>

definition field :: "nat \<Rightarrow> nat \<Rightarrow> byte list \<Rightarrow> byte list" where
  "field offset len bs = take len (drop offset bs)"

definition decode_header :: "byte list \<Rightarrow> SsdSlotHeader" where
  "decode_header bs =
     \<lparr>h_magic = bs ! 0, h_tier = bs ! 1,
      h_flags = word_of_nat (le_to_nat (field 2 2 bs)),
      h_payload_size = word_of_nat (le_to_nat (field 4 4 bs)),
      h_hash = field 8 32 bs,
      h_inserted_epoch = word_of_nat (le_to_nat (field 40 8 bs)),
      h_layer = word_of_nat (le_to_nat (field 48 4 bs)),
      h_head_group = word_of_nat (le_to_nat (field 52 4 bs)),
      h_model_id = word_of_nat (le_to_nat (field 56 4 bs)),
      h_reserved = field 60 4 bs\<rparr>"

definition encode_slot :: "Slot \<Rightarrow> byte list" where
  "encode_slot sl = encode_header (sl_header sl) @ sl_payload sl"

definition decode_slot :: "byte list \<Rightarrow> Slot" where
  "decode_slot bs = \<lparr>sl_header = decode_header bs, sl_payload = drop header_bytes bs\<rparr>"

text \<open>Slot \<open>n\<close> of a file that is an array of slots of the given size.\<close>

definition slot_at :: "size_t \<Rightarrow> byte list \<Rightarrow> nat \<Rightarrow> Slot" where
  "slot_at slot_bytes file n = decode_slot (take slot_bytes (drop (n * slot_bytes) file))"

definition header_ok :: "SsdSlotHeader \<Rightarrow> bool" where
  "header_ok h \<longleftrightarrow> length (h_hash h) = 32 \<and> length (h_reserved h) = 4"

definition slot_ok :: "size_t \<Rightarrow> Slot \<Rightarrow> bool" where
  "slot_ok slot_bytes sl \<longleftrightarrow>
     header_ok (sl_header sl) \<and> length (sl_payload sl) + header_bytes = slot_bytes"

section \<open>Lemmas\<close>

lemma length_encode_header: "header_ok h \<Longrightarrow> length (encode_header h) = header_bytes"
  by (simp add: encode_header_def header_ok_def)

lemma length_encode_slot: "slot_ok slot_bytes sl \<Longrightarrow> length (encode_slot sl) = slot_bytes"
  by (simp add: encode_slot_def slot_ok_def length_encode_header)

lemma word_of_le [simp]:
  "word_of_nat (le_to_nat (nat_to_le 2 (unat (x2 :: u16)))) = x2"
  "word_of_nat (le_to_nat (nat_to_le 4 (unat (x4 :: u32)))) = x4"
  "word_of_nat (le_to_nat (nat_to_le 8 (unat (x8 :: u64)))) = x8"
proof -
  have "unat x2 < 256 ^ 2" "unat x4 < 256 ^ 4" "unat x8 < 256 ^ 8"
    using unsigned_less [of x2, where 'a = nat] unsigned_less [of x4, where 'a = nat]
      unsigned_less [of x8, where 'a = nat] by simp_all
  then show "word_of_nat (le_to_nat (nat_to_le 2 (unat x2))) = x2"
    "word_of_nat (le_to_nat (nat_to_le 4 (unat x4))) = x4"
    "word_of_nat (le_to_nat (nat_to_le 8 (unat x8))) = x8"
    by (simp_all only: le_to_nat_to_le mod_less) simp_all
qed

lemma field_append:
  "length xs \<le> offset \<Longrightarrow> field offset len (xs @ ys) = field (offset - length xs) len ys"
  by (simp add: field_def)

lemma field_Cons: "0 < offset \<Longrightarrow> field offset len (x # xs) = field (offset - 1) len xs"
  by (cases offset) (simp_all add: field_def)

lemma field_here: "length xs = len \<Longrightarrow> field 0 len (xs @ ys) = xs"
  by (simp add: field_def)

lemma decode_encode_header:
  "header_ok h \<Longrightarrow> decode_header (encode_header h @ rest) = h"
  by (cases h)
    (simp add: decode_header_def encode_header_def header_ok_def field_append field_here field_Cons)

lemma decode_encode_slot: "slot_ok slot_bytes sl \<Longrightarrow> decode_slot (encode_slot sl) = sl"
  by (simp add: decode_slot_def encode_slot_def slot_ok_def decode_encode_header
      length_encode_header)

lemma header_ok_decode: "header_bytes \<le> length bs \<Longrightarrow> header_ok (decode_header bs)"
  by (simp add: header_ok_def decode_header_def field_def)

lemma slot_ok_decode:
  "header_bytes \<le> length bs \<Longrightarrow> length bs = slot_bytes \<Longrightarrow> slot_ok slot_bytes (decode_slot bs)"
  by (simp add: slot_ok_def decode_slot_def header_ok_decode)

lemma slot_ok_slot_at:
  assumes "header_bytes \<le> slot_bytes" "n < nslots" "length file = nslots * slot_bytes"
  shows "slot_ok slot_bytes (slot_at slot_bytes file n)"
proof -
  have "(n + 1) * slot_bytes \<le> nslots * slot_bytes"
    using assms(2) by (intro mult_le_mono1) simp
  then show ?thesis
    using assms unfolding slot_at_def by (intro slot_ok_decode) (simp_all add: algebra_simps)
qed

lemma take_drop_concat:
  assumes "\<forall>x\<in>set xs. length x = w" "n < length xs"
  shows "take w (drop (n * w) (concat xs)) = xs ! n"
  using assms
proof (induction xs arbitrary: n)
  case (Cons x xs)
  then show ?case by (cases n) auto
qed simp

lemma slot_at_concat:
  assumes "\<forall>sl\<in>set slots. slot_ok slot_bytes sl" "n < length slots"
  shows "slot_at slot_bytes (concat (map encode_slot slots)) n = slots ! n"
proof -
  have "take slot_bytes (drop (n * slot_bytes) (concat (map encode_slot slots)))
      = map encode_slot slots ! n"
    by (rule take_drop_concat) (use assms length_encode_slot in auto)
  then show ?thesis
    using assms decode_encode_slot [of slot_bytes "slots ! n"] by (simp add: slot_at_def)
qed

lemma length_concat_slots:
  "\<forall>sl\<in>set slots. slot_ok slot_bytes sl \<Longrightarrow>
     length (concat (map encode_slot slots)) = length slots * slot_bytes"
  by (induction slots) (auto simp: length_encode_slot)

end
