(* ===== verification/Ssd_Block_Store.thy ===== *)
theory Ssd_Block_Store
  imports Ssd_Layout Store_Interface
begin

text \<open>
  The file-backed slot store of \<open>cache_server/src/ssd_block_store.cpp\<close>.  The mmap'd region
  is the list of slots seen through \<open>slot_header(n)\<close> and \<open>slot_payload(n)\<close>; the file it maps
  is their concatenated encoding (\<open>ssd_file\<close>), and the constructor starts from file bytes.
  The outcomes of the system calls of the constructor are an argument (\<open>ssd_env\<close>).
  Writing a slot is the sequence of stores that \<open>Put\<close> performs, payload first and magic
  last, so that a crash after any prefix of them can be stated; the copy of the payload and
  the copy of the 32-byte hash are one store each.  A crash is one of the process: the
  mapping is shared, so every store done before it is in the file.
\<close>

section \<open>Definitions\<close>

abbreviation kSlotMagicLive :: byte where
  "kSlotMagicLive \<equiv> 0xA5"

abbreviation kSlotMagicFree :: byte where
  "kSlotMagicFree \<equiv> 0"

record SsdBlockStore =
  ss_slot_bytes :: size_t
  ss_slot_payload_bytes :: size_t
  ss_total_slots :: size_t
  ss_usable_bytes :: size_t
  ss_mmap :: "Slot list"
  ss_index :: "(BlockId, size_t) umap"
  ss_free_slots :: "size_t list"
  ss_bump_next :: size_t
  ss_used_bytes :: size_t

text \<open>What the system calls of the constructor return.\<close>

record ssd_env =
  env_open_ok :: bool
  env_fstat_ok :: bool
  env_ftruncate_ok :: bool
  env_mmap_ok :: bool

datatype ssd_error = DivisionByZero | InvalidArgument | RuntimeError

definition header_id :: "SsdSlotHeader \<Rightarrow> BlockId" where
  "header_id h = \<lparr>id_hash = h_hash h, id_layer = h_layer h, id_head_group = h_head_group h,
     id_model_id = h_model_id h\<rparr>"

definition rebuild_step ::
  "size_t \<Rightarrow> Slot list \<Rightarrow> (BlockId, size_t) umap \<times> size_t list \<times> size_t \<Rightarrow> nat
    \<Rightarrow> (BlockId, size_t) umap \<times> size_t list \<times> size_t" where
  "rebuild_step payload_bytes slots = (\<lambda>(index, free, live_bytes) n.
     let h = sl_header (slots ! n)
     in if h_magic h \<noteq> kSlotMagicLive then (index, free @ [n], live_bytes)
        else if unat (h_payload_size h) > payload_bytes then (index, free @ [n], live_bytes)
        else (umap_emplace (header_id h) n index, free,
              size_add live_bytes (unat (h_payload_size h))))"

definition RebuildIndexFromMmap :: "SsdBlockStore \<Rightarrow> SsdBlockStore" where
  "RebuildIndexFromMmap s =
     (let (index, free, live_bytes) =
            foldl (rebuild_step (ss_slot_payload_bytes s) (ss_mmap s))
              (ss_index s, ss_free_slots s, 0) [0..<ss_total_slots s]
      in s\<lparr>ss_index := index, ss_free_slots := free, ss_used_bytes := live_bytes,
           ss_bump_next := ss_total_slots s\<rparr>)"

definition ftruncate :: "size_t \<Rightarrow> byte list \<Rightarrow> byte list" where
  "ftruncate want file = take want file @ replicate (want - length file) 0"

text \<open>The cast of a size to the signed \<open>off_t\<close>; \<open>ftruncate\<close> refuses a negative length.\<close>

definition to_off_t :: "size_t \<Rightarrow> int" where
  "to_off_t n = (if n < 2 ^ 63 then int n else int n - 2 ^ 64)"

definition ssd_open ::
  "ssd_env \<Rightarrow> byte list \<Rightarrow> size_t \<Rightarrow> size_t \<Rightarrow> ssd_error + SsdBlockStore" where
  "ssd_open env file capacity_bytes slot_bytes =
     (if slot_bytes = 0 then Inl DivisionByZero
      else
        let slot_payload_bytes = size_sub slot_bytes header_bytes;
            total_slots = capacity_bytes div slot_bytes;
            usable_bytes = size_mul total_slots slot_payload_bytes;
            bytes = size_mul total_slots slot_bytes;
            want = to_off_t bytes
        in if slot_bytes \<le> header_bytes then Inl InvalidArgument
           else if total_slots = 0 then Inl InvalidArgument
           else if \<not> env_open_ok env then Inl RuntimeError
           else if \<not> env_fstat_ok env then Inl RuntimeError
           else if int (length file) \<noteq> want \<and> (want < 0 \<or> \<not> env_ftruncate_ok env) then
             Inl RuntimeError
           else if \<not> env_mmap_ok env then Inl RuntimeError
           else
             let sized = (if int (length file) \<noteq> want then ftruncate bytes file else file)
             in Inr (RebuildIndexFromMmap
                  \<lparr>ss_slot_bytes = slot_bytes, ss_slot_payload_bytes = slot_payload_bytes,
                   ss_total_slots = total_slots, ss_usable_bytes = usable_bytes,
                   ss_mmap = map (slot_at slot_bytes sized) [0..<total_slots],
                   ss_index = [], ss_free_slots = [], ss_bump_next = 0, ss_used_bytes = 0\<rparr>))"

text \<open>The bytes of the mapped file.\<close>

definition ssd_file :: "SsdBlockStore \<Rightarrow> byte list" where
  "ssd_file s = concat (map encode_slot (ss_mmap s))"

definition AllocSlot :: "SsdBlockStore \<Rightarrow> size_t option \<times> SsdBlockStore" where
  "AllocSlot s =
     (if ss_free_slots s \<noteq> [] then
        (Some (last (ss_free_slots s)), s\<lparr>ss_free_slots := butlast (ss_free_slots s)\<rparr>)
      else if ss_bump_next s < ss_total_slots s then
        (Some (ss_bump_next s), s\<lparr>ss_bump_next := ss_bump_next s + 1\<rparr>)
      else (None, s))"

text \<open>One store into the header struct.\<close>

definition on_header :: "(SsdSlotHeader \<Rightarrow> SsdSlotHeader) \<Rightarrow> Slot \<Rightarrow> Slot" where
  "on_header f sl = sl\<lparr>sl_header := f (sl_header sl)\<rparr>"

text \<open>The stores of \<open>Put\<close> into the slot, in program order.\<close>

definition slot_writes :: "KvBlock \<Rightarrow> (Slot \<Rightarrow> Slot) list" where
  "slot_writes b =
     [\<lambda>sl. sl\<lparr>sl_payload := kv_data b @ drop (length (kv_data b)) (sl_payload sl)\<rparr>,
      on_header (\<lambda>h. h\<lparr>h_tier := word_of_nat (tier_rank SSD)\<rparr>),
      on_header (\<lambda>h. h\<lparr>h_flags := 0\<rparr>),
      on_header (\<lambda>h. h\<lparr>h_payload_size := word_of_nat (length (kv_data b))\<rparr>),
      on_header (\<lambda>h. h\<lparr>h_hash := id_hash (kv_id b)\<rparr>),
      on_header (\<lambda>h. h\<lparr>h_layer := id_layer (kv_id b)\<rparr>),
      on_header (\<lambda>h. h\<lparr>h_head_group := id_head_group (kv_id b)\<rparr>),
      on_header (\<lambda>h. h\<lparr>h_model_id := id_model_id (kv_id b)\<rparr>),
      on_header (\<lambda>h. h\<lparr>h_inserted_epoch := kv_inserted_epoch b\<rparr>),
      on_header (\<lambda>h. h\<lparr>h_reserved := replicate 4 0\<rparr>),
      on_header (\<lambda>h. h\<lparr>h_magic := kSlotMagicLive\<rparr>)]"

definition write_slot :: "(Slot \<Rightarrow> Slot) list \<Rightarrow> nat \<Rightarrow> SsdBlockStore \<Rightarrow> SsdBlockStore" where
  "write_slot ws n s = s\<lparr>ss_mmap := (ss_mmap s)[n := fold (\<lambda>w sl. w sl) ws (ss_mmap s ! n)]\<rparr>"

definition ssd_Put :: "SsdBlockStore \<Rightarrow> KvBlock \<Rightarrow> bool \<times> SsdBlockStore" where
  "ssd_Put s b =
     (if length (kv_data b) > ss_slot_payload_bytes s then (False, s)
      else case umap_find (ss_index s) (kv_id b) of
        Some _ \<Rightarrow> (True, s)
      | None \<Rightarrow>
          (case AllocSlot s of
             (None, s1) \<Rightarrow> (False, s1)
           | (Some n, s1) \<Rightarrow>
               let s2 = write_slot (slot_writes b) n s1
               in (True, s2\<lparr>ss_index := umap_emplace (kv_id b) n (ss_index s2),
                     ss_used_bytes := size_add (ss_used_bytes s2) (length (kv_data b))\<rparr>)))"

definition ssd_GetCopy :: "SsdBlockStore \<Rightarrow> BlockId \<Rightarrow> KvBlock option" where
  "ssd_GetCopy s k =
     (case umap_find (ss_index s) k of
        None \<Rightarrow> None
      | Some n \<Rightarrow>
          let sl = ss_mmap s ! n; h = sl_header sl
          in if h_magic h \<noteq> kSlotMagicLive then None
             else Some \<lparr>kv_id = header_id h,
                        kv_data = take (unat (h_payload_size h)) (sl_payload sl),
                        kv_tier = SSD, kv_inserted_epoch = h_inserted_epoch h\<rparr>)"

definition ssd_Erase :: "SsdBlockStore \<Rightarrow> BlockId \<Rightarrow> size_t \<times> SsdBlockStore" where
  "ssd_Erase s k =
     (case umap_find (ss_index s) k of
        None \<Rightarrow> (0, s)
      | Some n \<Rightarrow>
          let freed = unat (h_payload_size (sl_header (ss_mmap s ! n)));
              s1 = write_slot [on_header (\<lambda>h. h\<lparr>h_magic := kSlotMagicFree\<rparr>),
                               on_header (\<lambda>h. h\<lparr>h_payload_size := 0\<rparr>)] n s
          in (freed, s1\<lparr>ss_index := umap_erase k (ss_index s1),
                        ss_free_slots := ss_free_slots s1 @ [n],
                        ss_used_bytes := size_sub (ss_used_bytes s1) freed\<rparr>))"

definition ssd_Snapshot :: "BlockId iter_order \<Rightarrow> SsdBlockStore \<Rightarrow> BlockMeta list" where
  "ssd_Snapshot ord s =
     map (\<lambda>(k, n). let h = sl_header (ss_mmap s ! n)
            in \<lparr>bm_id = k, bm_tier = SSD, bm_size_bytes = unat (h_payload_size h),
                bm_last_access_epoch = h_inserted_epoch h,
                bm_insert_epoch = h_inserted_epoch h, bm_visited = False\<rparr>)
       (umap_iter ord (ss_index s))"

definition live_slot_count :: "SsdBlockStore \<Rightarrow> size_t" where
  "live_slot_count s = length (ss_index s)"

text \<open>A slot that the start-up scan takes as holding a block.\<close>

definition slot_live :: "size_t \<Rightarrow> Slot \<Rightarrow> bool" where
  "slot_live payload_bytes sl \<longleftrightarrow>
     h_magic (sl_header sl) = kSlotMagicLive \<and>
     unat (h_payload_size (sl_header sl)) \<le> payload_bytes"

abbreviation slot_key :: "Slot list \<Rightarrow> size_t \<Rightarrow> BlockId" where
  "slot_key slots n \<equiv> header_id (sl_header (slots ! n))"

abbreviation slot_len :: "Slot list \<Rightarrow> size_t \<Rightarrow> nat" where
  "slot_len slots n \<equiv> unat (h_payload_size (sl_header (slots ! n)))"

text \<open>The geometry the constructor establishes and no operation changes.\<close>

definition ssd_geometry :: "SsdBlockStore \<Rightarrow> bool" where
  "ssd_geometry s \<longleftrightarrow>
     header_bytes < ss_slot_bytes s \<and> ss_slot_bytes s \<le> 2 ^ 32 \<and>
     ss_slot_payload_bytes s = ss_slot_bytes s - header_bytes \<and>
     0 < ss_total_slots s \<and> ss_total_slots s * ss_slot_bytes s \<le> 2 ^ 63 \<and>
     ss_usable_bytes s = ss_total_slots s * ss_slot_payload_bytes s \<and>
     length (ss_mmap s) = ss_total_slots s \<and>
     (\<forall>sl\<in>set (ss_mmap s). slot_ok (ss_slot_bytes s) sl)"

text \<open>
  The allocator invariant: the indexed slots and the free slots partition the slots handed
  out so far, every indexed slot is live and carries its key, and no free slot would be
  taken as live by a start-up scan.
\<close>

definition ssd_inv :: "SsdBlockStore \<Rightarrow> bool" where
  "ssd_inv s \<longleftrightarrow>
     ssd_geometry s \<and> umap_ok (ss_index s) \<and>
     distinct (map snd (ss_index s) @ ss_free_slots s) \<and>
     snd ` set (ss_index s) \<union> set (ss_free_slots s) = {0..<ss_bump_next s} \<and>
     ss_bump_next s = ss_total_slots s \<and>
     (\<forall>(k, n)\<in>set (ss_index s). slot_live (ss_slot_payload_bytes s) (ss_mmap s ! n) \<and>
        slot_key (ss_mmap s) n = k) \<and>
     (\<forall>n\<in>set (ss_free_slots s). \<not> slot_live (ss_slot_payload_bytes s) (ss_mmap s ! n)) \<and>
     ss_used_bytes s = umap_sum (slot_len (ss_mmap s)) (ss_index s)"

definition ssd_content :: "SsdBlockStore \<Rightarrow> content" where
  "ssd_content s = (\<lambda>k. map_option kv_data (ssd_GetCopy s k))"

text \<open>The environment in which every system call succeeds.\<close>

definition env_ok :: ssd_env where
  "env_ok = \<lparr>env_open_ok = True, env_fstat_ok = True, env_ftruncate_ok = True, env_mmap_ok = True\<rparr>"

text \<open>The live slots of a slot array, as the scan sees them.\<close>

definition live_slots :: "size_t \<Rightarrow> Slot list \<Rightarrow> size_t list" where
  "live_slots pb slots = filter (\<lambda>n. slot_live pb (slots ! n)) [0..<length slots]"

text \<open>
  The file that a crash leaves when it stops \<open>Put\<close> of an absent block after the first \<open>j\<close>
  stores into the allocated slot.
\<close>

definition put_crash_file :: "SsdBlockStore \<Rightarrow> KvBlock \<Rightarrow> nat \<Rightarrow> byte list" where
  "put_crash_file s b j =
     (case AllocSlot s of
        (Some n, s1) \<Rightarrow> ssd_file (write_slot (take j (slot_writes b)) n s1)
      | (None, s1) \<Rightarrow> ssd_file s1)"

text \<open>The store as the constructor has it just before the start-up scan.\<close>

definition ssd_initial :: "size_t \<Rightarrow> size_t \<Rightarrow> Slot list \<Rightarrow> SsdBlockStore" where
  "ssd_initial capacity_bytes slot_bytes slots =
     \<lparr>ss_slot_bytes = slot_bytes, ss_slot_payload_bytes = slot_bytes - header_bytes,
      ss_total_slots = capacity_bytes div slot_bytes,
      ss_usable_bytes = capacity_bytes div slot_bytes * (slot_bytes - header_bytes),
      ss_mmap = slots, ss_index = [], ss_free_slots = [], ss_bump_next = 0, ss_used_bytes = 0\<rparr>"

text \<open>The geometry that \<open>ssd_open\<close> accepts without a wrapped or truncated size.\<close>

definition ssd_params :: "size_t \<Rightarrow> size_t \<Rightarrow> bool" where
  "ssd_params capacity_bytes slot_bytes \<longleftrightarrow>
     header_bytes < slot_bytes \<and> slot_bytes \<le> 2 ^ 32 \<and> slot_bytes \<le> capacity_bytes \<and>
     capacity_bytes < 2 ^ 63"

text \<open>The store in which the free slot \<open>n\<close> has become the live slot \<open>sl\<close>.\<close>

definition occupy :: "size_t list \<Rightarrow> size_t \<Rightarrow> Slot \<Rightarrow> SsdBlockStore \<Rightarrow> SsdBlockStore" where
  "occupy fr n sl s =
     s\<lparr>ss_mmap := (ss_mmap s)[n := sl], ss_index := ss_index s @ [(header_id (sl_header sl), n)],
       ss_free_slots := fr, ss_used_bytes := ss_used_bytes s + unat (h_payload_size (sl_header sl))\<rparr>"

text \<open>
  The identity a slot header shows after the first \<open>j\<close> stores of \<open>Put\<close>: the fields of the
  new block as far as they are written, those the header had before otherwise.
\<close>

definition torn_id :: "BlockId \<Rightarrow> BlockId \<Rightarrow> nat \<Rightarrow> BlockId" where
  "torn_id old new j =
     \<lparr>id_hash = (if 5 \<le> j then id_hash new else id_hash old),
      id_layer = (if 6 \<le> j then id_layer new else id_layer old),
      id_head_group = (if 7 \<le> j then id_head_group new else id_head_group old),
      id_model_id = (if 8 \<le> j then id_model_id new else id_model_id old)\<rparr>"

text \<open>A slot with a live magic and a payload size beyond its two payload bytes.\<close>

definition corrupt_slot :: Slot where
  "corrupt_slot =
     \<lparr>sl_header = \<lparr>h_magic = kSlotMagicLive, h_tier = 2, h_flags = 0, h_payload_size = 5,
       h_hash = id_hash (sample_id 9), h_inserted_epoch = 0, h_layer = 0, h_head_group = 0,
       h_model_id = 0, h_reserved = replicate 4 0\<rparr>, sl_payload = [0, 0]\<rparr>"

section \<open>Lemmas\<close>

subsection \<open>The start-up scan\<close>

lemma rebuild_step_live:
  assumes "slot_live pb (slots ! n)" "umap_find index (slot_key slots n) = None"
    and "live_bytes + slot_len slots n < size_mod"
  shows "rebuild_step pb slots (index, free, live_bytes) n =
     (index @ [(slot_key slots n, n)], free, live_bytes + slot_len slots n)"
  using assms size_add_exact [OF assms(3)]
  by (simp add: rebuild_step_def slot_live_def umap_emplace_def Let_def)

lemma rebuild_step_dead:
  "\<not> slot_live pb (slots ! n) \<Longrightarrow>
     rebuild_step pb slots (index, free, live_bytes) n = (index, free @ [n], live_bytes)"
  by (auto simp: rebuild_step_def slot_live_def Let_def)

lemma sum_slot_len_bound:
  "\<forall>n\<in>set ns. slot_live pb (slots ! n) \<Longrightarrow> sum_list (map (slot_len slots) ns) \<le> length ns * pb"
  by (induction ns) (auto simp: slot_live_def)

text \<open>
  When no identity occurs in two live slots, the scan indexes exactly the live slots, puts
  every other slot on the free list and counts the live payload bytes.
\<close>

lemma rebuild_unique:
  fixes slots :: "Slot list" and pb :: size_t
  defines "live \<equiv> \<lambda>ns. filter (\<lambda>n. slot_live pb (slots ! n)) ns"
  assumes "distinct (map (slot_key slots) (live ns))" "length ns * pb < size_mod"
  shows "foldl (rebuild_step pb slots) ([], [], 0) ns =
     (map (\<lambda>n. (slot_key slots n, n)) (live ns), filter (\<lambda>n. \<not> slot_live pb (slots ! n)) ns,
      sum_list (map (slot_len slots) (live ns)))"
  using assms(2,3)
proof (induction ns rule: rev_induct)
  case (snoc n ns)
  have IH: "foldl (rebuild_step pb slots) ([], [], 0) ns =
     (map (\<lambda>n. (slot_key slots n, n)) (live ns), filter (\<lambda>n. \<not> slot_live pb (slots ! n)) ns,
      sum_list (map (slot_len slots) (live ns)))"
    using snoc by (simp add: live_def split: if_splits)
  show ?case
  proof (cases "slot_live pb (slots ! n)")
    case True
    have absent: "umap_find (map (\<lambda>n. (slot_key slots n, n)) (live ns)) (slot_key slots n) = None"
      using snoc.prems(1) True by (auto simp: live_def map_of_eq_None_iff image_iff)
    have "sum_list (map (slot_len slots) (live (ns @ [n]))) \<le> length (live (ns @ [n])) * pb"
      by (rule sum_slot_len_bound) (simp add: live_def)
    also have "\<dots> \<le> length (ns @ [n]) * pb"
      by (simp only: live_def length_filter_le mult_le_mono1)
    finally have "sum_list (map (slot_len slots) (live ns)) + slot_len slots n < size_mod"
      using snoc.prems(2) True by (simp add: live_def)
    then show ?thesis
      using IH rebuild_step_live [OF True absent] True by (simp add: live_def)
  next
    case False
    then show ?thesis using IH by (simp add: live_def rebuild_step_dead)
  qed
qed (simp add: live_def)

subsection \<open>Writing a slot\<close>

lemma fold_slot_writes:
  "fold (\<lambda>w sl. w sl) (slot_writes b) sl =
     \<lparr>sl_header = \<lparr>h_magic = kSlotMagicLive, h_tier = word_of_nat (tier_rank SSD), h_flags = 0,
        h_payload_size = word_of_nat (length (kv_data b)), h_hash = id_hash (kv_id b),
        h_inserted_epoch = kv_inserted_epoch b, h_layer = id_layer (kv_id b),
        h_head_group = id_head_group (kv_id b), h_model_id = id_model_id (kv_id b),
        h_reserved = replicate 4 0\<rparr>,
      sl_payload = kv_data b @ drop (length (kv_data b)) (sl_payload sl)\<rparr>"
  by (cases sl; cases "sl_header sl") (simp add: slot_writes_def on_header_def)

lemma ssd_geometryD:
  assumes "ssd_geometry s"
  shows "length (ss_mmap s) = ss_total_slots s"
    and "ss_slot_payload_bytes s < 2 ^ 32"
    and "ss_total_slots s * ss_slot_payload_bytes s < size_mod"
    and "n < ss_total_slots s \<Longrightarrow> length (sl_payload (ss_mmap s ! n)) = ss_slot_payload_bytes s"
    and "n < ss_total_slots s \<Longrightarrow> slot_ok (ss_slot_bytes s) (ss_mmap s ! n)"
proof -
  show len: "length (ss_mmap s) = ss_total_slots s" and "ss_slot_payload_bytes s < 2 ^ 32"
    using assms by (auto simp: ssd_geometry_def)
  have "ss_total_slots s * ss_slot_payload_bytes s \<le> ss_total_slots s * ss_slot_bytes s"
    using assms by (simp add: ssd_geometry_def)
  moreover have "ss_total_slots s * ss_slot_bytes s < size_mod"
    using assms by (auto simp: ssd_geometry_def)
  ultimately show "ss_total_slots s * ss_slot_payload_bytes s < size_mod" by linarith
  show ok: "n < ss_total_slots s \<Longrightarrow> slot_ok (ss_slot_bytes s) (ss_mmap s ! n)"
    using assms len by (auto simp: ssd_geometry_def)
  have "ss_slot_payload_bytes s = ss_slot_bytes s - header_bytes"
    using assms by (simp add: ssd_geometry_def)
  then show "n < ss_total_slots s \<Longrightarrow> length (sl_payload (ss_mmap s ! n)) = ss_slot_payload_bytes s"
    using ok by (auto simp: slot_ok_def)
qed

lemma ssd_geometry_write:
  assumes "ssd_geometry s" "slot_ok (ss_slot_bytes s) sl"
  shows "ssd_geometry (s\<lparr>ss_mmap := (ss_mmap s)[n := sl]\<rparr>)"
  using assms set_update_subset_insert [of "ss_mmap s" n sl] by (auto simp: ssd_geometry_def)

lemma ssd_geometry_cong [simp]:
  "ssd_geometry (s\<lparr>ss_index := i\<rparr>) = ssd_geometry s"
  "ssd_geometry (s\<lparr>ss_free_slots := f\<rparr>) = ssd_geometry s"
  "ssd_geometry (s\<lparr>ss_bump_next := n\<rparr>) = ssd_geometry s"
  "ssd_geometry (s\<lparr>ss_used_bytes := n\<rparr>) = ssd_geometry s"
  by (simp_all add: ssd_geometry_def)

lemma AllocSlot_None: "AllocSlot s = (None, s1) \<Longrightarrow> s1 = s"
  by (auto simp: AllocSlot_def split: if_splits)

lemma ssd_index_slot:
  assumes "ssd_inv s" "umap_find (ss_index s) k = Some n"
  shows "n < ss_total_slots s" "slot_live (ss_slot_payload_bytes s) (ss_mmap s ! n)"
    "slot_key (ss_mmap s) n = k" "n \<notin> set (ss_free_slots s)"
proof -
  have mem: "(k, n) \<in> set (ss_index s)" using assms(2) by (rule map_of_SomeD)
  then have "n \<in> snd ` set (ss_index s)" by force
  moreover have "snd ` set (ss_index s) \<union> set (ss_free_slots s) = {0..<ss_total_slots s}"
    using assms(1) by (simp add: ssd_inv_def)
  ultimately have "n \<in> {0..<ss_total_slots s}" by blast
  then show "n < ss_total_slots s" by simp
  show "slot_live (ss_slot_payload_bytes s) (ss_mmap s ! n)" "slot_key (ss_mmap s) n = k"
    using assms(1) mem by (auto simp: ssd_inv_def)
  show "n \<notin> set (ss_free_slots s)"
    using assms(1) \<open>n \<in> snd ` set (ss_index s)\<close> by (auto simp: ssd_inv_def)
qed

lemma ssd_Put_cases:
  assumes "ssd_inv s" "ssd_Put s b = (ok, s')"
  obtains (big) "length (kv_data b) > ss_slot_payload_bytes s" "\<not> ok" "s' = s"
    | (present) n where "length (kv_data b) \<le> ss_slot_payload_bytes s"
        "umap_find (ss_index s) (kv_id b) = Some n" "ok" "s' = s"
    | (full) "umap_find (ss_index s) (kv_id b) = None" "ss_free_slots s = []" "\<not> ok" "s' = s"
    | (new) n fr where "length (kv_data b) \<le> ss_slot_payload_bytes s"
        "umap_find (ss_index s) (kv_id b) = None" "ss_free_slots s = fr @ [n]" "ok"
        "s' = s\<lparr>ss_free_slots := fr,
               ss_mmap := (ss_mmap s)[n := fold (\<lambda>w sl. w sl) (slot_writes b) (ss_mmap s ! n)],
               ss_index := ss_index s @ [(kv_id b, n)],
               ss_used_bytes := size_add (ss_used_bytes s) (length (kv_data b))\<rparr>"
proof -
  have bump: "ss_bump_next s = ss_total_slots s" using assms(1) by (simp add: ssd_inv_def)
  consider "length (kv_data b) > ss_slot_payload_bytes s"
    | n where "length (kv_data b) \<le> ss_slot_payload_bytes s" "umap_find (ss_index s) (kv_id b) = Some n"
    | "length (kv_data b) \<le> ss_slot_payload_bytes s" "umap_find (ss_index s) (kv_id b) = None"
    by (metis not_le option.exhaust)
  then show thesis
  proof cases
    case 1
    then have "\<not> ok \<and> s' = s" using assms(2) by (auto simp: ssd_Put_def)
    with 1 show thesis using big by blast
  next
    case (2 n)
    then have "ok \<and> s' = s" using assms(2) by (auto simp: ssd_Put_def)
    with 2 show thesis using present by blast
  next
    case 3
    show thesis
    proof (cases "ss_free_slots s" rule: rev_cases)
      case Nil
      then have "\<not> ok \<and> s' = s"
        using 3 assms(2) bump by (auto simp: ssd_Put_def AllocSlot_def)
      with 3 Nil show thesis using full by blast
    next
      case (snoc fr n)
      then have "ok \<and> s' = s\<lparr>ss_free_slots := fr,
          ss_mmap := (ss_mmap s)[n := fold (\<lambda>w sl. w sl) (slot_writes b) (ss_mmap s ! n)],
          ss_index := ss_index s @ [(kv_id b, n)],
          ss_used_bytes := size_add (ss_used_bytes s) (length (kv_data b))\<rparr>"
        using 3 assms(2)
        by (auto simp: ssd_Put_def AllocSlot_def write_slot_def umap_emplace_def Let_def)
      with 3 snoc show thesis using new by blast
    qed
  qed
qed

lemma ssd_content_inv:
  assumes "ssd_inv s"
  shows "ssd_content s = (\<lambda>k. map_option
     (\<lambda>n. take (slot_len (ss_mmap s) n) (sl_payload (ss_mmap s ! n))) (umap_find (ss_index s) k))"
  using ssd_index_slot(2) [OF assms]
  by (auto simp: ssd_content_def ssd_GetCopy_def slot_live_def Let_def fun_eq_iff split: option.splits)

lemma ssd_len_take:
  assumes "ssd_inv s" "(k, n) \<in> set (ss_index s)"
  shows "length (take (slot_len (ss_mmap s) n) (sl_payload (ss_mmap s ! n))) = slot_len (ss_mmap s) n"
proof -
  have find: "umap_find (ss_index s) k = Some n"
    using assms by (simp add: ssd_inv_def flip: set_umap_find)
  show ?thesis
    using ssd_index_slot(1,2) [OF assms(1) find] ssd_geometryD(4) [of s n] assms(1)
    by (simp add: ssd_inv_def slot_live_def)
qed

lemma ssd_used_content:
  assumes "ssd_inv s"
  shows "ss_used_bytes s = content_size (ssd_content s)"
proof -
  have "umap_sum (slot_len (ss_mmap s)) (ss_index s) =
      umap_sum (\<lambda>n. length (take (slot_len (ss_mmap s) n) (sl_payload (ss_mmap s ! n)))) (ss_index s)"
    unfolding umap_sum_def by (intro arg_cong [of _ _ sum_list] map_cong refl)
      (use ssd_len_take [OF assms] in force)
  then show ?thesis
    using assms unfolding ssd_content_inv [OF assms]
    by (subst content_size_umap) (simp_all add: ssd_inv_def)
qed

lemma ssd_index_length:
  assumes "ssd_inv s"
  shows "length (ss_index s) + length (ss_free_slots s) = ss_total_slots s"
proof -
  let ?xs = "map snd (ss_index s) @ ss_free_slots s"
  have "distinct ?xs" "set ?xs = {0..<ss_total_slots s}"
    using assms by (auto simp: ssd_inv_def)
  then have "length ?xs = ss_total_slots s" by (metis card_atLeastLessThan distinct_card diff_zero)
  then show ?thesis by simp
qed

lemma ssd_used_capacity:
  assumes "ssd_inv s"
  shows "ss_used_bytes s \<le> ss_usable_bytes s"
proof -
  have "\<forall>n\<in>set (map snd (ss_index s)). slot_live (ss_slot_payload_bytes s) (ss_mmap s ! n)"
    using assms by (auto simp: ssd_inv_def)
  then have "sum_list (map (slot_len (ss_mmap s)) (map snd (ss_index s)))
      \<le> length (map snd (ss_index s)) * ss_slot_payload_bytes s"
    by (rule sum_slot_len_bound)
  also have "\<dots> \<le> ss_total_slots s * ss_slot_payload_bytes s"
    using ssd_index_length [OF assms] by (intro mult_le_mono1) simp
  finally show ?thesis
    using assms by (simp add: ssd_inv_def ssd_geometry_def umap_sum_def comp_def)
qed

subsection \<open>The operations keep the invariant\<close>

lemma header_id_written: "header_id (sl_header (fold (\<lambda>w sl. w sl) (slot_writes b) sl)) = kv_id b"
  by (cases "kv_id b") (simp add: fold_slot_writes header_id_def)

lemma written_slot:
  fixes sl :: Slot and b :: KvBlock
  defines "new \<equiv> fold (\<lambda>w sl. w sl) (slot_writes b) sl"
  assumes "kv_ok b" "length (kv_data b) \<le> pb" "pb < 2 ^ 32" "slot_ok slot_bytes sl"
    and "length (sl_payload sl) = pb"
  shows "slot_ok slot_bytes new" "slot_live pb new"
    "unat (h_payload_size (sl_header new)) = length (kv_data b)"
    "take (unat (h_payload_size (sl_header new))) (sl_payload new) = kv_data b"
proof -
  have len: "unat (word_of_nat (length (kv_data b)) :: u32) = length (kv_data b)"
    using assms(3,4) by (simp add: unat_of_nat)
  then show "slot_live pb new" "unat (h_payload_size (sl_header new)) = length (kv_data b)"
      "take (unat (h_payload_size (sl_header new))) (sl_payload new) = kv_data b"
    using assms by (simp_all add: fold_slot_writes slot_live_def)
  show "slot_ok slot_bytes new"
    using assms by (auto simp: fold_slot_writes slot_ok_def header_ok_def kv_ok_def id_ok_def)
qed

lemma umap_sum_slot_update:
  "n \<notin> snd ` set m \<Longrightarrow> umap_sum (slot_len (slots[n := sl])) m = umap_sum (slot_len slots) m"
  unfolding umap_sum_def
  by (intro arg_cong [of _ _ sum_list] map_cong refl) (metis image_eqI nth_list_update_neq)

lemma ssd_invI:
  assumes "ssd_geometry s" "umap_ok (ss_index s)" "distinct (map snd (ss_index s))"
    "distinct (ss_free_slots s)" "snd ` set (ss_index s) \<inter> set (ss_free_slots s) = {}"
    "snd ` set (ss_index s) \<union> set (ss_free_slots s) = {0..<ss_total_slots s}"
    "ss_bump_next s = ss_total_slots s"
    "\<And>k n. (k, n) \<in> set (ss_index s) \<Longrightarrow> slot_live (ss_slot_payload_bytes s) (ss_mmap s ! n) \<and>
        slot_key (ss_mmap s) n = k"
    "\<And>n. n \<in> set (ss_free_slots s) \<Longrightarrow> \<not> slot_live (ss_slot_payload_bytes s) (ss_mmap s ! n)"
    "ss_used_bytes s = umap_sum (slot_len (ss_mmap s)) (ss_index s)"
  shows "ssd_inv s"
  using assms by (auto simp: ssd_inv_def)

lemma ssd_inv_parts:
  assumes "ssd_inv s"
  shows "ssd_geometry s" "umap_ok (ss_index s)" "distinct (map snd (ss_index s))"
    "distinct (ss_free_slots s)" "snd ` set (ss_index s) \<inter> set (ss_free_slots s) = {}"
    "snd ` set (ss_index s) \<union> set (ss_free_slots s) = {0..<ss_total_slots s}"
    "ss_bump_next s = ss_total_slots s"
    "\<And>k n. (k, n) \<in> set (ss_index s) \<Longrightarrow> slot_live (ss_slot_payload_bytes s) (ss_mmap s ! n) \<and>
        slot_key (ss_mmap s) n = k"
    "\<And>n. n \<in> set (ss_free_slots s) \<Longrightarrow> \<not> slot_live (ss_slot_payload_bytes s) (ss_mmap s ! n)"
    "ss_used_bytes s = umap_sum (slot_len (ss_mmap s)) (ss_index s)"
    "ss_used_bytes s < size_mod"
  using assms ssd_used_capacity [OF assms] ssd_geometryD(3) [of s]
  by (auto simp: ssd_inv_def ssd_geometry_def)

lemma ssd_free_slot:
  assumes "ssd_inv s" "ss_free_slots s = fr @ [n]"
  shows "n < ss_total_slots s" "n \<notin> snd ` set (ss_index s)" "n \<notin> set fr"
proof -
  have "n \<in> set (ss_free_slots s)" using assms(2) by simp
  then show "n < ss_total_slots s" "n \<notin> snd ` set (ss_index s)"
    using ssd_inv_parts(5,6) [OF assms(1)] by (auto simp: set_eq_iff)
  show "n \<notin> set fr" using ssd_inv_parts(4) [OF assms(1)] assms(2) by simp
qed

text \<open>
  Handing out the last free slot: once it holds a live header of an identity that is not
  indexed, indexing it keeps the invariant and adds the payload it carries.
\<close>

lemma ssd_inv_occupy:
  assumes "ssd_inv s" "ss_free_slots s = fr @ [n]" "slot_ok (ss_slot_bytes s) sl"
    and "slot_live (ss_slot_payload_bytes s) sl" "umap_find (ss_index s) (header_id (sl_header sl)) = None"
  shows "ssd_inv (occupy fr n sl s)"
proof -
  note inv = ssd_inv_parts [OF assms(1)]
  note n = ssd_free_slot [OF assms(1,2)]
  let ?s = "occupy fr n sl s" and ?pb = "ss_slot_payload_bytes s"
  have len: "length (ss_mmap s) = ss_total_slots s" using ssd_geometryD(1) [OF inv(1)] .
  have geo: "ssd_geometry ?s"
    using ssd_geometry_write [OF inv(1) assms(3), of n] by (simp add: occupy_def ssd_geometry_def)
  have live: "slot_live ?pb ((ss_mmap s)[n := sl] ! m) \<and> slot_key ((ss_mmap s)[n := sl]) m = k"
    if "(k, m) \<in> set (ss_index s @ [(header_id (sl_header sl), n)])" for k m
    using that inv(8) n(1,2) len assms(4) by (cases "m = n") force+
  have dead: "\<not> slot_live ?pb ((ss_mmap s)[n := sl] ! m)" if "m \<in> set fr" for m
    using that inv(9) assms(2) n(3) by (cases "m = n") auto
  have keys: "umap_ok (ss_index s @ [(header_id (sl_header sl), n)])"
    using umap_ok_emplace [OF inv(2), of "header_id (sl_header sl)" n] assms(5) by (simp add: umap_emplace_def)
  have part: "set fr \<union> insert n (snd ` set (ss_index s)) = {0..<ss_total_slots s}"
    using inv(6) assms(2) by auto
  have disj: "snd ` set (ss_index s) \<inter> set fr = {}" "distinct fr"
    using inv(4,5) assms(2) by auto
  show ?thesis
  proof (rule ssd_invI)
    show "\<And>k m. (k, m) \<in> set (ss_index ?s) \<Longrightarrow>
        slot_live (ss_slot_payload_bytes ?s) (ss_mmap ?s ! m) \<and> slot_key (ss_mmap ?s) m = k"
      using live unfolding occupy_def by simp
    show "\<And>m. m \<in> set (ss_free_slots ?s) \<Longrightarrow> \<not> slot_live (ss_slot_payload_bytes ?s) (ss_mmap ?s ! m)"
      using dead unfolding occupy_def by simp
    show "ss_used_bytes ?s = umap_sum (slot_len (ss_mmap ?s)) (ss_index ?s)"
      using umap_sum_slot_update [OF n(2), of "ss_mmap s" sl] inv(10) n(1) len
      by (simp add: umap_sum_def occupy_def)
    show "snd ` set (ss_index ?s) \<union> set (ss_free_slots ?s) = {0..<ss_total_slots ?s}"
      using part unfolding occupy_def by auto
  qed (use geo keys disj inv(3,7) n(2,3) in \<open>simp_all add: occupy_def\<close>)
qed

lemma ssd_content_occupy:
  assumes "ssd_inv s" "ss_free_slots s = fr @ [n]" "slot_ok (ss_slot_bytes s) sl"
    and "slot_live (ss_slot_payload_bytes s) sl" "umap_find (ss_index s) (header_id (sl_header sl)) = None"
  shows "ssd_content (occupy fr n sl s) = (ssd_content s)
    (header_id (sl_header sl) \<mapsto> take (unat (h_payload_size (sl_header sl))) (sl_payload sl))"
proof
  fix k
  have n: "n < length (ss_mmap s)"
    using ssd_free_slot(1) [OF assms(1,2)] ssd_geometryD(1) [OF ssd_inv_parts(1) [OF assms(1)]] by simp
  have other: "m \<noteq> n" if "umap_find (ss_index s) k = Some m" for m
    using ssd_index_slot(4) [OF assms(1) that] assms(2) by auto
  show "ssd_content (occupy fr n sl s) k = ((ssd_content s)
    (header_id (sl_header sl) \<mapsto> take (unat (h_payload_size (sl_header sl))) (sl_payload sl))) k"
    unfolding ssd_content_inv [OF ssd_inv_occupy [OF assms]] fun_upd_apply ssd_content_inv [OF assms(1)]
    using n other assms(5)
    by (cases "umap_find (ss_index s) k") (auto simp: occupy_def map_add_def)
qed

lemma ssd_Put_occupies:
  assumes "ssd_inv s" "kv_ok b" "length (kv_data b) \<le> ss_slot_payload_bytes s"
    and "umap_find (ss_index s) (kv_id b) = None" "ss_free_slots s = fr @ [n]"
  defines "sl \<equiv> fold (\<lambda>w sl. w sl) (slot_writes b) (ss_mmap s ! n)"
  shows "ssd_Put s b = (True, occupy fr n sl s)" "ssd_inv (occupy fr n sl s)"
    "ssd_content (occupy fr n sl s) = (ssd_content s)(kv_id b \<mapsto> kv_data b)"
proof -
  note inv = ssd_inv_parts [OF assms(1)]
  note n = ssd_free_slot [OF assms(1,5)]
  note wr = written_slot [OF assms(2,3) ssd_geometryD(2) [OF inv(1)] ssd_geometryD(5) [OF inv(1) n(1)]
        ssd_geometryD(4) [OF inv(1) n(1)], folded sl_def]
  have key: "header_id (sl_header sl) = kv_id b" unfolding sl_def by (rule header_id_written)
  have absent: "umap_find (ss_index s) (header_id (sl_header sl)) = None" using assms(4) key by simp
  have "ss_used_bytes s \<le> 2 ^ 63"
    using ssd_used_capacity [OF assms(1)] inv(1)
    by (auto simp: ssd_geometry_def intro: order.trans [OF _ order.trans])
      (metis diff_le_self mult_le_mono2 order.trans)
  then have used: "ss_used_bytes s + length (kv_data b) < size_mod" using assms(2) by (auto simp: kv_ok_def)
  have find: "map_of (ss_index s) (kv_id b) = None" using assms(4) by simp
  show "ssd_Put s b = (True, occupy fr n sl s)"
    using assms(3,5) find wr(3) key size_add_exact [OF used]
    by (simp add: ssd_Put_def AllocSlot_def write_slot_def occupy_def umap_emplace_def flip: sl_def)
  show "ssd_inv (occupy fr n sl s)"
    by (rule ssd_inv_occupy [OF assms(1,5) wr(1,2) absent])
  show "ssd_content (occupy fr n sl s) = (ssd_content s)(kv_id b \<mapsto> kv_data b)"
    using ssd_content_occupy [OF assms(1,5) wr(1,2) absent] key wr(4) by simp
qed

lemma ssd_inv_Put:
  assumes "ssd_inv s" "kv_ok b" "ssd_Put s b = (ok, s')"
  shows "ssd_inv s'"
  using assms(1,3)
proof (cases rule: ssd_Put_cases)
  case (new n fr)
  then show ?thesis using ssd_Put_occupies [OF assms(1,2) new(1-3)] assms(3) by simp
qed (use assms in auto)

lemma ssd_content_Put:
  assumes "ssd_inv s" "kv_ok b" "ssd_Put s b = (True, s')"
  shows "ssd_content s' = content_step True (OpPut b) (ssd_content s)"
  using assms(1,3)
proof (cases rule: ssd_Put_cases)
  case (present n)
  then show ?thesis by (auto simp: ssd_content_inv [OF assms(1)])
next
  case (new n fr)
  have "ssd_content s (kv_id b) = None" using new(2) by (simp add: ssd_content_inv [OF assms(1)])
  then show ?thesis
    using ssd_Put_occupies [OF assms(1,2) new(1-3)] assms(3) by (auto simp: map_add_def)
qed auto

lemma ssd_Put_same:
  assumes "ssd_Put s b = (ok, s')"
  shows "ss_slot_payload_bytes s' = ss_slot_payload_bytes s" "ss_usable_bytes s' = ss_usable_bytes s"
    "ss_slot_bytes s' = ss_slot_bytes s" "ss_total_slots s' = ss_total_slots s"
    "\<not> ok \<Longrightarrow> s' = s"
  using assms AllocSlot_None [of s]
  by (auto simp: ssd_Put_def AllocSlot_def write_slot_def Let_def split: if_splits option.splits)

lemma ssd_Erase_present:
  assumes "ssd_inv s" "umap_find (ss_index s) k = Some n"
  shows "ssd_Erase s k = (slot_len (ss_mmap s) n,
     s\<lparr>ss_mmap := (ss_mmap s)[n := on_header (\<lambda>h. h\<lparr>h_magic := kSlotMagicFree, h_payload_size := 0\<rparr>) (ss_mmap s ! n)],
       ss_index := umap_erase k (ss_index s), ss_free_slots := ss_free_slots s @ [n],
       ss_used_bytes := ss_used_bytes s - slot_len (ss_mmap s) n\<rparr>)"
proof -
  have "slot_len (ss_mmap s) n \<le> ss_used_bytes s"
    using ssd_inv_parts(10) [OF assms(1)] umap_sum_ge [OF assms(2), of "slot_len (ss_mmap s)"] by simp
  then show ?thesis
    using assms(2) ssd_inv_parts(11) [OF assms(1)]
    by (simp add: ssd_Erase_def write_slot_def on_header_def Let_def size_sub_exact)
qed

lemma umap_erase_snd:
  "umap_ok m \<Longrightarrow> distinct (map snd m) \<Longrightarrow> umap_find m k = Some v \<Longrightarrow>
     snd ` set (umap_erase k m) = snd ` set m - {v}"
proof (induction m)
  case (Cons p m)
  then show ?case
  proof (cases "fst p = k")
    case True
    then have "umap_erase k (p # m) = m"
      using Cons.prems(1) umap_erase_absent [of m k]
      by (simp add: umap_erase_def umap_ok_def umap_find_None)
    then show ?thesis using True Cons.prems by (cases p) auto
  next
    case False
    then have "umap_erase k (p # m) = p # umap_erase k m" by (simp add: umap_erase_def)
    moreover have "v \<in> snd ` set m" using False Cons.prems(3) by (cases p) (force dest: map_of_SomeD)
    ultimately show ?thesis
      using False Cons by (cases p) (auto simp: umap_ok_def)
  qed
qed simp

lemma ssd_inv_Erase:
  assumes "ssd_inv s" "ssd_Erase s k = (freed, s')"
  shows "ssd_inv s'"
proof (cases "umap_find (ss_index s) k")
  case None
  then show ?thesis using assms by (simp add: ssd_Erase_def)
next
  case (Some n)
  note inv = ssd_inv_parts [OF assms(1)]
  note n = ssd_index_slot [OF assms(1) Some]
  let ?sl = "on_header (\<lambda>h. h\<lparr>h_magic := kSlotMagicFree, h_payload_size := 0\<rparr>) (ss_mmap s ! n)"
  have s': "s' = s\<lparr>ss_mmap := (ss_mmap s)[n := ?sl], ss_index := umap_erase k (ss_index s),
      ss_free_slots := ss_free_slots s @ [n],
      ss_used_bytes := ss_used_bytes s - slot_len (ss_mmap s) n\<rparr>"
    using ssd_Erase_present [OF assms(1) Some] assms(2) by simp
  have len: "length (ss_mmap s) = ss_total_slots s" using ssd_geometryD(1) [OF inv(1)] .
  have snds: "snd ` set (umap_erase k (ss_index s)) = snd ` set (ss_index s) - {n}"
    by (rule umap_erase_snd [OF inv(2,3) Some])
  have sub: "set (umap_erase k (ss_index s)) \<subseteq> set (ss_index s)" by (auto simp: umap_erase_def)
  have geo: "ssd_geometry s'"
  proof -
    have "slot_ok (ss_slot_bytes s) ?sl"
      using ssd_geometryD(5) [OF inv(1) n(1)] by (simp add: slot_ok_def header_ok_def on_header_def)
    then show ?thesis using ssd_geometry_write [OF inv(1)] unfolding s' by (simp add: ssd_geometry_def)
  qed
  show ?thesis
  proof (rule ssd_invI)
    show "slot_live (ss_slot_payload_bytes s') (ss_mmap s' ! m) \<and> slot_key (ss_mmap s') m = j"
      if "(j, m) \<in> set (ss_index s')" for j m
    proof -
      have "(j, m) \<in> set (ss_index s)" using that sub unfolding s' by auto
      moreover have "m \<noteq> n" using that snds unfolding s' by force
      ultimately show ?thesis using inv(8) unfolding s' by simp
    qed
    show "\<not> slot_live (ss_slot_payload_bytes s') (ss_mmap s' ! m)" if "m \<in> set (ss_free_slots s')" for m
      using that inv(9) n(1) len unfolding s'
      by (cases "m = n") (simp_all add: slot_live_def on_header_def)
    show "ss_used_bytes s' = umap_sum (slot_len (ss_mmap s')) (ss_index s')"
      using umap_sum_slot_update [of n "umap_erase k (ss_index s)" "ss_mmap s" ?sl] snds
        umap_sum_erase [OF inv(2) Some, of "slot_len (ss_mmap s)"] inv(10)
      unfolding s' by simp
    show "snd ` set (ss_index s') \<union> set (ss_free_slots s') = {0..<ss_total_slots s'}"
    proof -
      have "n \<in> snd ` set (ss_index s)" using map_of_SomeD [OF Some] by force
      then have "(snd ` set (ss_index s) - {n}) \<union> (set (ss_free_slots s) \<union> {n}) = {0..<ss_total_slots s}"
        using inv(6) by blast
      then show ?thesis using snds unfolding s' by simp
    qed
    show "distinct (map snd (ss_index s'))"
      using inv(3) unfolding s' by (simp add: umap_erase_def distinct_map_filter)
    show "snd ` set (ss_index s') \<inter> set (ss_free_slots s') = {}"
      using snds inv(5) unfolding s' by auto
  qed (use geo inv(2,4,7) n(4) umap_ok_erase [OF inv(2)] in \<open>simp_all add: s'\<close>)
qed

lemma ssd_content_Erase:
  assumes "ssd_inv s" "ssd_Erase s k = (freed, s')"
  shows "ssd_content s' = (ssd_content s)(k := None)"
proof (cases "umap_find (ss_index s) k")
  case None
  then show ?thesis using assms by (auto simp: ssd_Erase_def ssd_content_inv fun_eq_iff)
next
  case (Some n)
  have other: "m \<noteq> n" if "umap_find (ss_index s) j = Some m" "j \<noteq> k" for j m
    using ssd_index_slot(3) [OF assms(1)] that Some by metis
  have "ssd_content s' j = ((ssd_content s)(k := None)) j" for j
    using other [of j] ssd_inv_Erase [OF assms] assms ssd_Erase_present [OF assms(1) Some]
    by (cases "umap_find (ss_index s) j") (auto simp: ssd_content_inv umap_simps)
  then show ?thesis by blast
qed

lemma ssd_Erase_freed:
  assumes "ssd_inv s" "ssd_Erase s k = (freed, s')"
  shows "freed = (case ssd_content s k of None \<Rightarrow> 0 | Some d \<Rightarrow> length d)"
proof (cases "umap_find (ss_index s) k")
  case None
  then show ?thesis using assms by (simp add: ssd_Erase_def ssd_content_inv)
next
  case (Some n)
  then show ?thesis
    using assms ssd_Erase_present [OF assms(1) Some] ssd_len_take [OF assms(1) map_of_SomeD [OF Some]]
    by (simp add: ssd_content_inv)
qed

lemma ssd_Erase_same:
  assumes "ssd_Erase s k = (n, s')"
  shows "ss_slot_payload_bytes s' = ss_slot_payload_bytes s" "ss_usable_bytes s' = ss_usable_bytes s"
    "ss_slot_bytes s' = ss_slot_bytes s" "ss_total_slots s' = ss_total_slots s"
  using assms by (auto simp: ssd_Erase_def write_slot_def Let_def split: option.splits)

interpretation ssd: kv_store ssd_inv ssd_content kv_ok ssd_Put ssd_Erase ss_used_bytes ss_usable_bytes
proof unfold_locales
  fix s b ok s' k n
  show "ssd_inv s \<Longrightarrow> finite (dom (ssd_content s))"
    by (simp only: ssd_content_inv finite_umap_content)
  show "ssd_inv s \<Longrightarrow> ss_used_bytes s = content_size (ssd_content s)" by (rule ssd_used_content)
  show "ssd_inv s \<Longrightarrow> ss_used_bytes s \<le> ss_usable_bytes s" by (rule ssd_used_capacity)
  show "ssd_inv s \<Longrightarrow> kv_ok b \<Longrightarrow> ssd_Put s b = (ok, s') \<Longrightarrow> ssd_inv s'" by (rule ssd_inv_Put)
  show "ssd_inv s \<Longrightarrow> kv_ok b \<Longrightarrow> ssd_Put s b = (True, s') \<Longrightarrow>
      ssd_content s' = content_step True (OpPut b) (ssd_content s)" by (rule ssd_content_Put)
  show "ssd_Put s b = (False, s') \<Longrightarrow> s' = s" using ssd_Put_same(5) by blast
  show "ssd_Put s b = (ok, s') \<Longrightarrow> ss_usable_bytes s' = ss_usable_bytes s" by (rule ssd_Put_same)
  show "ssd_inv s \<Longrightarrow> ssd_Erase s k = (n, s') \<Longrightarrow> ssd_inv s'" by (rule ssd_inv_Erase)
  show "ssd_inv s \<Longrightarrow> ssd_Erase s k = (n, s') \<Longrightarrow> ssd_content s' = (ssd_content s)(k := None)"
    by (rule ssd_content_Erase)
  show "ssd_inv s \<Longrightarrow> ssd_Erase s k = (n, s') \<Longrightarrow>
      n = (case ssd_content s k of None \<Rightarrow> 0 | Some d \<Rightarrow> length d)" by (rule ssd_Erase_freed)
  show "ssd_Erase s k = (n, s') \<Longrightarrow> ss_usable_bytes s' = ss_usable_bytes s" by (rule ssd_Erase_same)
qed

subsection \<open>Opening a file\<close>

lemma rebuild_inv:
  assumes geo: "ssd_geometry s" and init: "ss_index s = []" "ss_free_slots s = []"
    and uniq: "distinct (map (slot_key (ss_mmap s)) (live_slots (ss_slot_payload_bytes s) (ss_mmap s)))"
  shows "ssd_inv (RebuildIndexFromMmap s)"
    and "umap_find (ss_index (RebuildIndexFromMmap s)) k = Some n \<longleftrightarrow>
      n < ss_total_slots s \<and> slot_live (ss_slot_payload_bytes s) (ss_mmap s ! n) \<and> slot_key (ss_mmap s) n = k"
proof -
  let ?pb = "ss_slot_payload_bytes s" and ?ns = "[0..<ss_total_slots s]" and ?ms = "ss_mmap s"
  let ?live = "filter (\<lambda>n. slot_live ?pb (?ms ! n)) ?ns"
  have len: "length ?ms = ss_total_slots s" by (rule ssd_geometryD(1) [OF geo])
  have uniq': "distinct (map (slot_key ?ms) ?live)" using uniq len by (simp add: live_slots_def)
  have fold: "foldl (rebuild_step ?pb ?ms) ([], [], 0) ?ns =
      (map (\<lambda>n. (slot_key ?ms n, n)) ?live, filter (\<lambda>n. \<not> slot_live ?pb (?ms ! n)) ?ns,
       sum_list (map (slot_len ?ms) ?live))"
    by (rule rebuild_unique [OF uniq']) (use ssd_geometryD(3) [OF geo] in simp)
  have s': "RebuildIndexFromMmap s = s\<lparr>ss_index := map (\<lambda>n. (slot_key ?ms n, n)) ?live,
      ss_free_slots := filter (\<lambda>n. \<not> slot_live ?pb (?ms ! n)) ?ns,
      ss_used_bytes := sum_list (map (slot_len ?ms) ?live), ss_bump_next := ss_total_slots s\<rparr>"
    using fold init by (simp add: RebuildIndexFromMmap_def)
  have ok: "umap_ok (map (\<lambda>n. (slot_key ?ms n, n)) ?live)"
    using uniq' by (simp add: umap_ok_def comp_def)
  show "ssd_inv (RebuildIndexFromMmap s)"
    by (rule ssd_invI)
      (use geo ok in \<open>auto simp: s' umap_sum_def comp_def image_image\<close>)
  have "(k, n) \<in> set (map (\<lambda>n. (slot_key ?ms n, n)) ?live) \<longleftrightarrow>
      n < ss_total_slots s \<and> slot_live ?pb (?ms ! n) \<and> slot_key ?ms n = k"
    by auto
  then show "umap_find (ss_index (RebuildIndexFromMmap s)) k = Some n \<longleftrightarrow>
      n < ss_total_slots s \<and> slot_live ?pb (?ms ! n) \<and> slot_key ?ms n = k"
    using set_umap_find [OF ok, of k n] by (simp add: s')
qed

lemma slot_view_length:
  "header_bytes < sb \<Longrightarrow> length file = nslots * sb \<Longrightarrow>
     \<forall>sl\<in>set (map (slot_at sb file) [0..<nslots]). slot_ok sb sl"
  by (auto intro: slot_ok_slot_at)

lemma ssd_params_exact:
  assumes "ssd_params cap sb"
  shows "0 < cap div sb" "cap div sb * sb < 2 ^ 63" "to_off_t (cap div sb * sb) = int (cap div sb * sb)"
    "size_mul (cap div sb) sb = cap div sb * sb"
    "size_sub sb header_bytes = sb - header_bytes"
    "size_mul (cap div sb) (sb - header_bytes) = cap div sb * (sb - header_bytes)"
proof -
  have le: "cap div sb * sb \<le> cap" by simp
  moreover have "cap < 2 ^ 63" using assms by (simp add: ssd_params_def)
  ultimately show big: "cap div sb * sb < 2 ^ 63" by (rule order.strict_trans1)
  then show "to_off_t (cap div sb * sb) = int (cap div sb * sb)" by (simp add: to_off_t_def)
  show "size_mul (cap div sb) sb = cap div sb * sb" using big by (intro size_mul_exact) simp
  have "cap div sb * (sb - header_bytes) \<le> cap div sb * sb" by simp
  then have "cap div sb * (sb - header_bytes) < 2 ^ 63" using big by (rule order.strict_trans1)
  then show "size_mul (cap div sb) (sb - header_bytes) = cap div sb * (sb - header_bytes)"
    by (intro size_mul_exact) simp
  show "0 < cap div sb" using assms by (auto simp: ssd_params_def div_greater_zero_iff)
  show "size_sub sb header_bytes = sb - header_bytes"
    using assms by (intro size_sub_exact) (auto simp: ssd_params_def)
qed

lemma ssd_geometry_initial:
  assumes "ssd_params cap sb" "length slots = cap div sb" "\<forall>sl\<in>set slots. slot_ok sb sl"
  shows "ssd_geometry (ssd_initial cap sb slots)"
  using assms ssd_params_exact [OF assms(1)]
  by (simp add: ssd_geometry_def ssd_initial_def ssd_params_def)

lemma ssd_open_slots:
  assumes "ssd_params cap sb" "length slots = cap div sb" "\<forall>sl\<in>set slots. slot_ok sb sl"
  shows "ssd_open env_ok (concat (map encode_slot slots)) cap sb =
     Inr (RebuildIndexFromMmap (ssd_initial cap sb slots))"
proof -
  have len: "length (concat (map encode_slot slots)) = cap div sb * sb"
    using length_concat_slots [OF assms(3)] assms(2) by simp
  have view: "map (slot_at sb (concat (map encode_slot slots))) [0..<cap div sb] = slots"
    using slot_at_concat [OF assms(3)] assms(2) by (intro nth_equalityI) auto
  show ?thesis
    using ssd_params_exact [OF assms(1)] assms(1) len view
    by (simp add: ssd_open_def env_ok_def ssd_initial_def ssd_params_def Let_def)
qed

text \<open>
  Reopening a slot array whose live slots are exactly the indexed ones brings the content
  back.
\<close>

lemma ssd_reopen:
  assumes inv: "ssd_inv s" and cap: "ssd_params cap (ss_slot_bytes s)"
    "cap div ss_slot_bytes s = ss_total_slots s"
    and slots: "length slots = ss_total_slots s" "\<forall>sl\<in>set slots. slot_ok (ss_slot_bytes s) sl"
    and same: "\<And>k n. (k, n) \<in> set (ss_index s) \<Longrightarrow> slots ! n = ss_mmap s ! n"
    and dead: "\<And>n. n \<in> set (ss_free_slots s) \<Longrightarrow> \<not> slot_live (ss_slot_payload_bytes s) (slots ! n)"
  shows "\<exists>s'. ssd_open env_ok (concat (map encode_slot slots)) cap (ss_slot_bytes s) = Inr s' \<and>
    ssd_inv s' \<and> ssd_content s' = ssd_content s"
proof -
  note parts = ssd_inv_parts [OF inv]
  let ?i = "ssd_initial cap (ss_slot_bytes s) slots" and ?pb = "ss_slot_payload_bytes s"
  have pb: "ss_slot_payload_bytes ?i = ?pb" and tot: "ss_total_slots ?i = ss_total_slots s"
    using parts(1) cap(2) by (simp_all add: ssd_initial_def ssd_geometry_def)
  have mm: "ss_mmap ?i = slots" by (simp add: ssd_initial_def)
  have idx: "(n < ss_total_slots s \<and> slot_live ?pb (slots ! n) \<and> slot_key slots n = k) \<longleftrightarrow>
      (k, n) \<in> set (ss_index s)" for k n
  proof
    assume a: "n < ss_total_slots s \<and> slot_live ?pb (slots ! n) \<and> slot_key slots n = k"
    then have "n \<notin> set (ss_free_slots s)" using dead by blast
    then obtain j where j: "(j, n) \<in> set (ss_index s)" using a parts(6) by (fastforce simp: set_eq_iff)
    then show "(k, n) \<in> set (ss_index s)" using a same parts(8) by metis
  next
    assume a: "(k, n) \<in> set (ss_index s)"
    then have "umap_find (ss_index s) k = Some n" using parts(2) by (simp flip: set_umap_find)
    then show "n < ss_total_slots s \<and> slot_live ?pb (slots ! n) \<and> slot_key slots n = k"
      using same [OF a] ssd_index_slot [OF inv] by simp
  qed
  have uniq: "distinct (map (slot_key slots) (live_slots ?pb slots))"
  proof -
    have "inj_on (slot_key slots) (set (live_slots ?pb slots))"
    proof (rule inj_onI)
      fix n m assume a: "n \<in> set (live_slots ?pb slots)" "m \<in> set (live_slots ?pb slots)"
        "slot_key slots n = slot_key slots m"
      then have "(slot_key slots n, n) \<in> set (ss_index s)" "(slot_key slots n, m) \<in> set (ss_index s)"
        using idx slots(1) by (auto simp: live_slots_def)
      then show "n = m" using parts(2) by (simp add: set_umap_find)
    qed
    then show ?thesis by (simp add: distinct_map live_slots_def)
  qed
  have geo: "ssd_geometry ?i"
    by (rule ssd_geometry_initial) (use cap slots in simp_all)
  have re: "ssd_inv (RebuildIndexFromMmap ?i)"
    "\<And>k n. umap_find (ss_index (RebuildIndexFromMmap ?i)) k = Some n \<longleftrightarrow> (k, n) \<in> set (ss_index s)"
    using rebuild_inv [OF geo] uniq idx pb tot mm by (simp_all add: ssd_initial_def)
  have find: "umap_find (ss_index (RebuildIndexFromMmap ?i)) k = umap_find (ss_index s) k" for k
    using re(2) [of k] parts(2) set_umap_find [of "ss_index s" k]
    by (cases "umap_find (ss_index s) k"; cases "umap_find (ss_index (RebuildIndexFromMmap ?i)) k") auto
  have mm': "ss_mmap (RebuildIndexFromMmap ?i) = slots"
    by (simp add: RebuildIndexFromMmap_def ssd_initial_def split: prod.splits)
  have "ssd_content (RebuildIndexFromMmap ?i) = ssd_content s"
  proof
    fix k
    show "ssd_content (RebuildIndexFromMmap ?i) k = ssd_content s k"
      using same [OF map_of_SomeD] by (cases "umap_find (ss_index s) k")
        (simp_all add: ssd_content_inv [OF re(1)] ssd_content_inv [OF inv] find mm')
  qed
  then show ?thesis
    using re(1) ssd_open_slots [of cap "ss_slot_bytes s" slots] cap slots by simp
qed

text \<open>Two uses: the file as it stands, and one free slot overwritten without becoming live.\<close>

lemma ssd_reopen_same:
  assumes "ssd_inv s" "ssd_params cap (ss_slot_bytes s)" "cap div ss_slot_bytes s = ss_total_slots s"
  shows "\<exists>s'. ssd_open env_ok (ssd_file s) cap (ss_slot_bytes s) = Inr s' \<and>
    ssd_inv s' \<and> ssd_content s' = ssd_content s"
  using ssd_reopen [OF assms, of "ss_mmap s"] ssd_inv_parts(1,9) [OF assms(1)]
  by (simp add: ssd_geometry_def ssd_file_def)

lemma ssd_reopen_free:
  assumes "ssd_inv s" "ssd_params cap (ss_slot_bytes s)" "cap div ss_slot_bytes s = ss_total_slots s"
    and "ss_free_slots s = fr @ [n]" "slot_ok (ss_slot_bytes s) sl" "\<not> slot_live (ss_slot_payload_bytes s) sl"
  shows "\<exists>s'. ssd_open env_ok (concat (map encode_slot ((ss_mmap s)[n := sl]))) cap (ss_slot_bytes s) = Inr s' \<and>
    ssd_inv s' \<and> ssd_content s' = ssd_content s"
proof -
  note parts = ssd_inv_parts [OF assms(1)]
  note n = ssd_free_slot [OF assms(1,4)]
  have "\<forall>sl'\<in>set ((ss_mmap s)[n := sl]). slot_ok (ss_slot_bytes s) sl'"
    using assms(5) parts(1) set_update_subset_insert [of "ss_mmap s" n sl] by (auto simp: ssd_geometry_def)
  moreover have "(ss_mmap s)[n := sl] ! m = ss_mmap s ! m" if "(k, m) \<in> set (ss_index s)" for k m
    using that n(2) by (metis image_eqI snd_conv nth_list_update_neq)
  moreover have "\<not> slot_live (ss_slot_payload_bytes s) ((ss_mmap s)[n := sl] ! m)"
    if "m \<in> set (ss_free_slots s)" for m
    using that parts(9) assms(6) n(1) ssd_geometryD(1) [OF parts(1)] by (cases "m = n") auto
  ultimately show ?thesis
    using ssd_reopen [OF assms(1-3), of "(ss_mmap s)[n := sl]"] ssd_geometryD(1) [OF parts(1)] by auto
qed

lemma ssd_open_view:
  assumes "ssd_params cap sb"
  shows "ssd_open env_ok file cap sb = Inr (RebuildIndexFromMmap (ssd_initial cap sb
     (map (slot_at sb (ftruncate (cap div sb * sb) file)) [0..<cap div sb])))"
proof -
  have "length file = cap div sb * sb \<Longrightarrow> ftruncate (cap div sb * sb) file = file"
    by (simp add: ftruncate_def)
  then show ?thesis
    using ssd_params_exact [OF assms] assms
    by (simp add: ssd_open_def env_ok_def ssd_initial_def ssd_params_def Let_def del: of_nat_mult)
qed

lemma length_ftruncate [simp]: "length (ftruncate want file) = want"
  by (simp add: ftruncate_def)

lemma ssd_geometry_view:
  assumes "ssd_params cap sb"
  shows "ssd_geometry (ssd_initial cap sb (map (slot_at sb (ftruncate (cap div sb * sb) file)) [0..<cap div sb]))"
  by (rule ssd_geometry_initial [OF assms _ slot_view_length])
    (use assms in \<open>simp_all add: ssd_params_def\<close>)

text \<open>A new file reads as all-free slots.\<close>

lemma ssd_fresh:
  assumes "ssd_params cap sb"
  obtains s where "ssd_open env_ok [] cap sb = Inr s" "ssd_inv s" "ssd_content s = Map.empty"
    "ss_slot_bytes s = sb" "ss_total_slots s = cap div sb" "ss_free_slots s = [0..<cap div sb]"
    "\<forall>n < cap div sb. h_magic (sl_header (ss_mmap s ! n)) = 0"
proof -
  let ?slots = "map (slot_at sb (ftruncate (cap div sb * sb) [])) [0..<cap div sb]"
  let ?i = "ssd_initial cap sb ?slots"
  have magic: "h_magic (sl_header (?slots ! n)) = 0" if "n < cap div sb" for n
  proof -
    have "n * sb + sb \<le> cap div sb * sb" using mult_le_mono1 [of "Suc n" "cap div sb" sb] that by simp
    moreover have "0 < sb" using assms by (simp add: ssd_params_def)
    ultimately show ?thesis
      using that by (simp add: slot_at_def decode_slot_def decode_header_def ftruncate_def)
  qed
  then have "live_slots (ss_slot_payload_bytes ?i) (ss_mmap ?i) = []"
    by (auto simp: live_slots_def ssd_initial_def slot_live_def filter_empty_conv)
  then have re: "ssd_inv (RebuildIndexFromMmap ?i)"
    "\<And>k n. umap_find (ss_index (RebuildIndexFromMmap ?i)) k = Some n \<longleftrightarrow>
      n < ss_total_slots ?i \<and> slot_live (ss_slot_payload_bytes ?i) (ss_mmap ?i ! n) \<and> slot_key (ss_mmap ?i) n = k"
    using rebuild_inv [OF ssd_geometry_view [OF assms, of "[]"]] by (simp_all add: ssd_initial_def)
  have none: "umap_find (ss_index (RebuildIndexFromMmap ?i)) k = None" for k
  proof (rule ccontr)
    assume "umap_find (ss_index (RebuildIndexFromMmap ?i)) k \<noteq> None"
    then obtain n where "umap_find (ss_index (RebuildIndexFromMmap ?i)) k = Some n" by blast
    then have "n < ss_total_slots ?i" "slot_live (ss_slot_payload_bytes ?i) (ss_mmap ?i ! n)"
      using re(2) by blast+
    then show False using magic [of n] by (simp add: slot_live_def ssd_initial_def)
  qed
  let ?r = "RebuildIndexFromMmap ?i"
  have same: "ss_slot_bytes ?r = sb" "ss_total_slots ?r = cap div sb" "ss_mmap ?r = ?slots"
    by (simp_all add: RebuildIndexFromMmap_def ssd_initial_def split: prod.splits)
  have free: "ss_free_slots ?r = [0..<cap div sb]"
  proof -
    have "foldl (rebuild_step pb ?slots) (i, f, l) ns = (i, f @ ns, l)"
      if "set ns \<subseteq> {0..<cap div sb}" for ns pb i f l
      using that magic by (induction ns arbitrary: f) (auto simp: rebuild_step_def simp del: nth_map)
    then show ?thesis by (simp add: RebuildIndexFromMmap_def ssd_initial_def)
  qed
  show thesis
  proof (rule that)
    show "ssd_open env_ok [] cap sb = Inr (RebuildIndexFromMmap ?i)" by (rule ssd_open_view [OF assms])
    show "\<forall>n < cap div sb. h_magic (sl_header (ss_mmap ?r ! n)) = 0"
      using magic same(3) by simp
    show "ssd_content (RebuildIndexFromMmap ?i) = Map.empty"
      using none by (simp add: ssd_content_inv [OF re(1)])
  qed (use re same free in simp_all)
qed

subsection \<open>Interrupted writes\<close>

lemma partial_writes:
  assumes "j < length (slot_writes b)" "kv_ok b" "length (kv_data b) \<le> length (sl_payload sl)"
  shows "h_magic (sl_header (fold (\<lambda>w sl. w sl) (take j (slot_writes b)) sl)) = h_magic (sl_header sl)"
    and "slot_ok sb sl \<Longrightarrow> slot_ok sb (fold (\<lambda>w sl. w sl) (take j (slot_writes b)) sl)"
proof -
  have "j < 11" using assms(1) by (simp add: slot_writes_def)
  then have j: "j = 0 \<or> j = 1 \<or> j = 2 \<or> j = 3 \<or> j = 4 \<or> j = 5 \<or> j = 6 \<or> j = 7 \<or> j = 8 \<or> j = 9 \<or> j = 10"
    by presburger
  show "h_magic (sl_header (fold (\<lambda>w sl. w sl) (take j (slot_writes b)) sl)) = h_magic (sl_header sl)"
    using j by (auto simp: slot_writes_def on_header_def)
  have len: "length (kv_data b @ drop (length (kv_data b)) (sl_payload sl)) = length (sl_payload sl)"
    using assms(3) by simp
  show "slot_ok sb sl \<Longrightarrow> slot_ok sb (fold (\<lambda>w sl. w sl) (take j (slot_writes b)) sl)"
    using j len assms(2)
    by (auto simp: slot_writes_def on_header_def slot_ok_def header_ok_def kv_ok_def id_ok_def)
qed

lemma torn_writes:
  fixes sl :: Slot and b :: KvBlock and j :: nat
  defines "new \<equiv> fold (\<lambda>w sl. w sl) (take j (slot_writes b)) sl"
  assumes "j < length (slot_writes b)"
  shows "h_payload_size (sl_header new) =
      (if j < 4 then h_payload_size (sl_header sl) else word_of_nat (length (kv_data b)))"
    and "header_id (sl_header new) = torn_id (header_id (sl_header sl)) (kv_id b) j"
    and "sl_payload new = (if j = 0 then sl_payload sl
      else kv_data b @ drop (length (kv_data b)) (sl_payload sl))"
proof -
  have "j < 11" using assms(2) by (simp add: slot_writes_def)
  then have j: "j = 0 \<or> j = 1 \<or> j = 2 \<or> j = 3 \<or> j = 4 \<or> j = 5 \<or> j = 6 \<or> j = 7 \<or> j = 8 \<or> j = 9 \<or> j = 10"
    by presburger
  show "h_payload_size (sl_header new) =
      (if j < 4 then h_payload_size (sl_header sl) else word_of_nat (length (kv_data b)))"
    "header_id (sl_header new) = torn_id (header_id (sl_header sl)) (kv_id b) j"
    "sl_payload new = (if j = 0 then sl_payload sl
      else kv_data b @ drop (length (kv_data b)) (sl_payload sl))"
    using j unfolding new_def by (auto simp: slot_writes_def on_header_def header_id_def torn_id_def)
qed

text \<open>
  A slot that still shows the live magic reads, once the payload size is stored, as a block
  with the new payload under the torn identity.
\<close>

lemma torn_slot_live:
  fixes s :: SsdBlockStore and b :: KvBlock and n j :: nat
  defines "sl \<equiv> fold (\<lambda>w sl. w sl) (take j (slot_writes b)) (ss_mmap s ! n)"
  assumes "ssd_inv s" "kv_ok b" "length (kv_data b) \<le> ss_slot_payload_bytes s" "n < ss_total_slots s"
    and "h_magic (sl_header (ss_mmap s ! n)) = kSlotMagicLive" "4 \<le> j" "j < length (slot_writes b)"
  shows "slot_ok (ss_slot_bytes s) sl" "slot_live (ss_slot_payload_bytes s) sl"
    "take (unat (h_payload_size (sl_header sl))) (sl_payload sl) = kv_data b"
proof -
  note geo = ssd_geometryD [OF ssd_inv_parts(1) [OF assms(2)]]
  have pl: "length (kv_data b) \<le> length (sl_payload (ss_mmap s ! n))"
    using assms(4) geo(4) [OF assms(5)] by simp
  have size: "unat (h_payload_size (sl_header sl)) = length (kv_data b)"
    using torn_writes(1) [OF assms(8), of "ss_mmap s ! n"] assms(4,7) geo(2)
    by (simp add: sl_def unat_of_nat)
  then show "slot_live (ss_slot_payload_bytes s) sl" "slot_ok (ss_slot_bytes s) sl"
    using partial_writes [OF assms(8,3) pl] assms(4,6) geo(5) [OF assms(5)]
    by (simp_all add: sl_def slot_live_def)
  show "take (unat (h_payload_size (sl_header sl))) (sl_payload sl) = kv_data b"
    using size torn_writes(3) [OF assms(8), of "ss_mmap s ! n"] assms(7) by (simp add: sl_def)
qed

lemma put_crash_slots:
  assumes "ssd_inv s" "ss_free_slots s = fr @ [n]"
  shows "put_crash_file s b j = concat (map encode_slot
     ((ss_mmap s)[n := fold (\<lambda>w sl. w sl) (take j (slot_writes b)) (ss_mmap s ! n)]))"
  using assms(2) by (simp add: put_crash_file_def AllocSlot_def write_slot_def ssd_file_def)

section \<open>Properties\<close>

text \<open>
  The header struct survives the file: the 64 bytes that \<open>Put\<close> leaves at the start of a
  slot decode to the header it wrote, whatever payload follows.
\<close>

theorem header_roundtrip:
  assumes "header_ok h"
  shows "length (encode_header h) = 64 \<and> decode_header (encode_header h @ payload) = h"
  using length_encode_header [OF assms] decode_encode_header [OF assms] by simp

theorem header_roundtrip_witness:
  "decode_header (encode_header (sl_header (fold (\<lambda>w sl. w sl) (slot_writes (sample_block 3 [1, 2]))
      (decode_slot (replicate 66 0)))) @ [5])
    = sl_header (fold (\<lambda>w sl. w sl) (slot_writes (sample_block 3 [1, 2])) (decode_slot (replicate 66 0)))"
proof -
  have "header_ok (sl_header (fold (\<lambda>w sl. w sl) (slot_writes (sample_block 3 [1, 2]))
      (decode_slot (replicate 66 0))))"
    by (simp add: fold_slot_writes header_ok_def sample_id_def)
  then show ?thesis using header_roundtrip by blast
qed

text \<open>
  C20. Restart durability: opening the file of a store again, with a capacity that gives the
  same number of slots, restores its content, whatever \<open>Put\<close> and \<open>Erase\<close> calls produced it.
\<close>

theorem ssd_restart_durable:
  assumes "ssd_inv s0" "\<forall>x\<in>set xs. \<forall>b\<in>set (op_blocks x). kv_ok b"
    and "run_ops ssd_Put ssd_Erase xs s0 = (oks, s)"
    and "ssd_params cap (ss_slot_bytes s)" "cap div ss_slot_bytes s = ss_total_slots s"
  shows "\<exists>s'. ssd_open env_ok (ssd_file s) cap (ss_slot_bytes s) = Inr s' \<and> ssd_inv s' \<and>
    ssd_content s' = content_run oks xs (ssd_content s0) \<and> ss_used_bytes s' = ss_used_bytes s"
proof -
  have run: "ssd_inv s" "ssd_content s = content_run oks xs (ssd_content s0)"
    using ssd.run_ops_refines [OF assms(1-3)] by blast+
  note parts = ssd_inv_parts [OF run(1)]
  have "\<exists>s'. ssd_open env_ok (concat (map encode_slot (ss_mmap s))) cap (ss_slot_bytes s) = Inr s' \<and>
      ssd_inv s' \<and> ssd_content s' = ssd_content s"
    using ssd_reopen [OF run(1) assms(4,5)] parts(1,9) by (simp add: ssd_geometry_def)
  then show ?thesis using run ssd_used_content by (fastforce simp: ssd_file_def)
qed

theorem ssd_restart_durable_witness:
  "\<exists>s0 s s'. ssd_open env_ok [] 132 66 = Inr s0 \<and>
     s = snd (run_ops ssd_Put ssd_Erase [OpPut (sample_block 1 [7, 8])] s0) \<and>
     ssd_open env_ok (ssd_file s) 132 66 = Inr s' \<and> ssd_content s' (sample_id 1) = Some [7, 8]"
proof -
  have par: "ssd_params 132 66" by (simp add: ssd_params_def)
  obtain s0 where s0: "ssd_open env_ok [] 132 66 = Inr s0" "ssd_inv s0" "ssd_content s0 = Map.empty"
      "ss_slot_bytes s0 = 66" "ss_total_slots s0 = 132 div 66"
    using ssd_fresh [OF par] by metis
  obtain ok s where put: "ssd_Put s0 (sample_block 1 [7, 8]) = (ok, s)" by force
  have "ok" using s0(2) put
  proof (cases rule: ssd_Put_cases)
    case big
    then show ?thesis using ssd_inv_parts(1) [OF s0(2)] s0(4) by (simp add: ssd_geometry_def)
  next
    case full
    then have "length (ss_index s0) = 2" using ssd_index_length [OF s0(2)] s0(5) by simp
    moreover have "ss_index s0 = []"
      using s0(3) by (cases "ss_index s0") (auto simp: ssd_content_inv [OF s0(2)] fun_eq_iff split: if_splits)
    ultimately show ?thesis by simp
  qed
  have run: "run_ops ssd_Put ssd_Erase [OpPut (sample_block 1 [7, 8])] s0 = ([True], s)"
    using put \<open>ok\<close> by simp
  have same: "ss_slot_bytes s = 66" "ss_total_slots s = 2"
    using ssd_Put_same [OF put] s0(4,5) by simp_all
  have "\<exists>s'. ssd_open env_ok (ssd_file s) 132 (ss_slot_bytes s) = Inr s' \<and> ssd_inv s' \<and>
      ssd_content s' = content_run [True] [OpPut (sample_block 1 [7, 8])] (ssd_content s0) \<and>
      ss_used_bytes s' = ss_used_bytes s"
    by (rule ssd_restart_durable [OF s0(2) _ run]) (use par same in simp_all)
  then obtain s' where "ssd_open env_ok (ssd_file s) 132 66 = Inr s'"
      "ssd_content s' (sample_id 1) = Some [7, 8]"
    using s0(3) same(1) by auto
  then show ?thesis using s0(1) run by (intro exI [of _ s0] exI [of _ s] exI [of _ s']) simp
qed

text \<open>
  C21. Crash safety of \<open>Put\<close>: if the allocated slot does not already carry the live magic, a
  crash before the last store leaves a file that reopens with the old content; after the
  last store it reopens with the block added.
\<close>

theorem ssd_put_crash_safe:
  assumes "ssd_inv s" "kv_ok b" "length (kv_data b) \<le> ss_slot_payload_bytes s"
    and "ssd_content s (kv_id b) = None" "ss_free_slots s = fr @ [n]"
    and "h_magic (sl_header (ss_mmap s ! n)) \<noteq> kSlotMagicLive"
    and "ssd_params cap (ss_slot_bytes s)" "cap div ss_slot_bytes s = ss_total_slots s"
    and "j \<le> length (slot_writes b)"
  shows "\<exists>s'. ssd_open env_ok (put_crash_file s b j) cap (ss_slot_bytes s) = Inr s' \<and>
    ssd_content s' = (if j < length (slot_writes b) then ssd_content s
                      else (ssd_content s)(kv_id b \<mapsto> kv_data b))"
proof -
  note parts = ssd_inv_parts [OF assms(1)]
  note n = ssd_free_slot [OF assms(1,5)]
  let ?sl = "fold (\<lambda>w sl. w sl) (take j (slot_writes b)) (ss_mmap s ! n)"
  let ?slots = "(ss_mmap s)[n := ?sl]"
  show ?thesis
  proof (cases "j < length (slot_writes b)")
    case True
    have pl: "length (kv_data b) \<le> length (sl_payload (ss_mmap s ! n))"
      using assms(3) ssd_geometryD(4) [OF parts(1) n(1)] by simp
    have sl: "\<not> slot_live (ss_slot_payload_bytes s) ?sl" "slot_ok (ss_slot_bytes s) ?sl"
      using partial_writes [OF True assms(2) pl] assms(6) ssd_geometryD(5) [OF parts(1) n(1)]
      by (simp_all add: slot_live_def)
    show ?thesis
      using ssd_reopen_free [OF assms(1,7,8,5) sl(2,1)] put_crash_slots [OF assms(1,5)] True by auto
  next
    case False
    have absent: "umap_find (ss_index s) (kv_id b) = None"
      using assms(4) by (simp add: ssd_content_inv [OF assms(1)])
    note s1 = ssd_Put_occupies(2,3) [OF assms(1-3) absent assms(5)]
    have all: "take j (slot_writes b) = slot_writes b" using False by simp
    show ?thesis
      using ssd_reopen_same [OF s1(1), of cap] s1(2) assms(7,8) False put_crash_slots [OF assms(1,5)]
      by (auto simp: all occupy_def ssd_file_def)
  qed
qed

theorem ssd_put_crash_safe_witness:
  "\<exists>s0 s'. ssd_open env_ok [] 132 66 = Inr s0 \<and>
     ssd_open env_ok (put_crash_file s0 (sample_block 1 [7, 8]) 5) 132 66 = Inr s' \<and>
     ssd_content s' = Map.empty"
proof -
  have par: "ssd_params 132 66" by (simp add: ssd_params_def)
  obtain s0 where s0: "ssd_open env_ok [] 132 66 = Inr s0" "ssd_inv s0" "ssd_content s0 = Map.empty"
      "ss_slot_bytes s0 = 66" "ss_total_slots s0 = 132 div 66" "ss_free_slots s0 = [0..<132 div 66]"
      "\<forall>n < 132 div 66. h_magic (sl_header (ss_mmap s0 ! n)) = 0"
    using ssd_fresh [OF par] .
  have pb: "ss_slot_payload_bytes s0 = 2"
    using ssd_inv_parts(1) [OF s0(2)] s0(4) by (simp add: ssd_geometry_def)
  have "\<exists>s'. ssd_open env_ok (put_crash_file s0 (sample_block 1 [7, 8]) 5) 132 (ss_slot_bytes s0) = Inr s' \<and>
      ssd_content s' = (if 5 < length (slot_writes (sample_block 1 [7, 8])) then ssd_content s0
        else (ssd_content s0)(kv_id (sample_block 1 [7, 8]) \<mapsto> kv_data (sample_block 1 [7, 8])))"
    by (rule ssd_put_crash_safe [OF s0(2), where fr = "[0]" and n = 1])
      (use par pb s0 in \<open>simp_all add: slot_writes_def upt_rec\<close>)
  then show ?thesis using s0(1,3,4) by (auto simp: slot_writes_def)
qed

text \<open>
  C40. The crash guarantee needs the magic of the allocated slot to be clear.  The scan also
  frees a slot whose header is corrupt (a live magic with a payload size beyond the slot) and
  leaves the live magic in place.  When \<open>Put\<close> reuses such a slot, a crash before the fourth
  store, the payload size, is harmless; a crash after it and before the end makes the new
  payload reopen under an identity made of the new fields written so far and the old fields
  of the corrupt header, whenever no other slot holds that identity.
\<close>

theorem ssd_reclaimed_slot_torn:
  assumes "ssd_inv s" "kv_ok b" "length (kv_data b) \<le> ss_slot_payload_bytes s"
    and "ss_free_slots s = fr @ [n]" "h_magic (sl_header (ss_mmap s ! n)) = kSlotMagicLive"
    and "ssd_params cap (ss_slot_bytes s)" "cap div ss_slot_bytes s = ss_total_slots s"
    and "j < length (slot_writes b)"
    and "ssd_content s (torn_id (slot_key (ss_mmap s) n) (kv_id b) j) = None"
  shows "\<exists>s'. ssd_open env_ok (put_crash_file s b j) cap (ss_slot_bytes s) = Inr s' \<and>
    ssd_content s' = (if j < 4 then ssd_content s
                      else (ssd_content s)(torn_id (slot_key (ss_mmap s) n) (kv_id b) j \<mapsto> kv_data b))"
proof -
  note parts = ssd_inv_parts [OF assms(1)]
  note n = ssd_free_slot [OF assms(1,4)]
  let ?sl = "fold (\<lambda>w sl. w sl) (take j (slot_writes b)) (ss_mmap s ! n)"
  let ?slots = "(ss_mmap s)[n := ?sl]"
  show ?thesis
  proof (cases "j < 4")
    case True
    have pl: "length (kv_data b) \<le> length (sl_payload (ss_mmap s ! n))"
      using assms(3) ssd_geometryD(4) [OF parts(1) n(1)] by simp
    have sl: "\<not> slot_live (ss_slot_payload_bytes s) ?sl" "slot_ok (ss_slot_bytes s) ?sl"
      using partial_writes [OF assms(8,2) pl] ssd_geometryD(5) [OF parts(1) n(1)]
        torn_writes(1) [OF assms(8), of "ss_mmap s ! n"] True parts(9) [of n] assms(4)
      by (simp_all add: slot_live_def)
    show ?thesis
      using ssd_reopen_free [OF assms(1,6,7) assms(4) sl(2,1)] put_crash_slots [OF assms(1,4)] True by auto
  next
    case False
    then have "4 \<le> j" by simp
    note sl = torn_slot_live [OF assms(1-3) n(1) assms(5) this assms(8)]
    have key: "header_id (sl_header ?sl) = torn_id (slot_key (ss_mmap s) n) (kv_id b) j"
      by (rule torn_writes(2) [OF assms(8)])
    have absent: "umap_find (ss_index s) (header_id (sl_header ?sl)) = None"
      using assms(9) by (simp add: key ssd_content_inv [OF assms(1)])
    note s1 = ssd_inv_occupy [OF assms(1,4) sl(1,2) absent] ssd_content_occupy [OF assms(1,4) sl(1,2) absent]
    have "\<exists>s'. ssd_open env_ok (ssd_file (occupy fr n ?sl s)) cap (ss_slot_bytes s) = Inr s' \<and>
        ssd_content s' = ssd_content (occupy fr n ?sl s)"
      using ssd_reopen_same [OF s1(1), of cap] assms(6,7) by (auto simp: occupy_def)
    then show ?thesis
      using s1(2) key sl(3) False put_crash_slots [OF assms(1,4)] by (auto simp: occupy_def ssd_file_def)
  qed
qed

theorem ssd_reclaimed_slot_torn_witness:
  "\<exists>s s'. ssd_open env_ok (encode_slot corrupt_slot) 66 66 = Inr s \<and> ssd_content s = Map.empty \<and>
     ssd_open env_ok (put_crash_file s (sample_block 1 [7, 8]) 4) 66 66 = Inr s' \<and>
     ssd_content s' = [sample_id 9 \<mapsto> [7, 8]]"
proof -
  define s where "s = RebuildIndexFromMmap (ssd_initial 66 66 [corrupt_slot])"
  have par: "ssd_params 66 66" by (simp add: ssd_params_def)
  have ok: "slot_ok 66 corrupt_slot"
    by (simp add: corrupt_slot_def slot_ok_def header_ok_def sample_id_def)
  have op: "ssd_open env_ok (encode_slot corrupt_slot) 66 66 = Inr s"
    using ssd_open_slots [OF par, of "[corrupt_slot]"] ok by (simp add: s_def)
  have s: "s = (ssd_initial 66 66 [corrupt_slot])\<lparr>ss_free_slots := [0], ss_bump_next := 1\<rparr>"
    unfolding s_def
    by (simp add: RebuildIndexFromMmap_def ssd_initial_def rebuild_step_def corrupt_slot_def)
  have inv: "ssd_inv s"
    using ok unfolding s
    by (simp add: ssd_inv_def ssd_geometry_def ssd_initial_def slot_live_def corrupt_slot_def umap_sum_def)
  have emp: "ssd_content s = Map.empty"
    unfolding s by (simp add: ssd_content_def ssd_GetCopy_def ssd_initial_def)
  have old: "torn_id (slot_key (ss_mmap s) 0) (kv_id (sample_block 1 [7, 8])) 4 = sample_id 9"
    unfolding s by (simp add: ssd_initial_def torn_id_def corrupt_slot_def header_id_def sample_id_def)
  have "\<exists>s'. ssd_open env_ok (put_crash_file s (sample_block 1 [7, 8]) 4) 66 (ss_slot_bytes s) = Inr s' \<and>
    ssd_content s' = (if 4 < (4::nat) then ssd_content s else (ssd_content s)
      (torn_id (slot_key (ss_mmap s) 0) (kv_id (sample_block 1 [7, 8])) 4 \<mapsto> kv_data (sample_block 1 [7, 8])))"
    by (rule ssd_reclaimed_slot_torn [OF inv, where fr = "[]"])
      (use emp par in \<open>simp_all add: s ssd_initial_def corrupt_slot_def slot_writes_def\<close>)
  then show ?thesis using op emp old s by (auto simp: ssd_initial_def)
qed

text \<open>
  What the constructor reports: a zero slot size divides by zero before any check, a slot
  no larger than the header or a capacity below one slot is an invalid argument, and
  otherwise the outcome is a runtime error exactly when a system call it makes fails.
\<close>

theorem ssd_open_outcome:
  "(ssd_open env file cap sb = Inl DivisionByZero \<longleftrightarrow> sb = 0) \<and>
   (ssd_open env file cap sb = Inl InvalidArgument \<longleftrightarrow> 0 < sb \<and> (sb \<le> header_bytes \<or> cap < sb)) \<and>
   (ssd_open env file cap sb = Inl RuntimeError \<longleftrightarrow> header_bytes < sb \<and> sb \<le> cap \<and>
     \<not> (env_open_ok env \<and> env_fstat_ok env \<and> env_mmap_ok env \<and>
        (int (length file) = to_off_t (size_mul (cap div sb) sb) \<or>
         0 \<le> to_off_t (size_mul (cap div sb) sb) \<and> env_ftruncate_ok env)))"
  by (auto simp: ssd_open_def Let_def div_eq_0_iff)

end
