(* ===== verification/Tiered_Store.thy ===== *)
theory Tiered_Store
  imports Block_Store Ssd_Block_Store
begin

text \<open>
  The tiered store of \<open>cache_server/src/tiered_store.cpp\<close>: HBM and DRAM block stores and an
  SSD slot store behind pointers that may be null, the per-block access counters that drive
  promotion, and the visited set of the eviction scan.  Each method is one sequential state
  transformation; the lock regions inside a method are not interleaved with other threads.
  For every fixed tier the store provides the contract of \<open>Store_Interface\<close>
  (interpretation \<open>tier\<close>), and the lemmas about whole operations rest on it.
\<close>

section \<open>Definitions\<close>

record TieredStoreConfig =
  tc_hbm_bytes :: size_t
  tc_dram_bytes :: size_t
  tc_ssd_bytes :: size_t
  tc_ssd_path :: string
  tc_enable_promotion :: bool
  tc_promotion_access_threshold :: u32
  tc_ssd_slot_bytes :: size_t

record GetResult =
  gr_data :: "byte list"
  gr_tier_found :: Tier
  gr_promoted :: bool

record TieredStore =
  ts_cfg :: TieredStoreConfig
  ts_hbm :: "BlockStore option"
  ts_dram :: "BlockStore option"
  ts_ssd :: "SsdBlockStore option"
  ts_access_counts :: "BlockId \<Rightarrow> u32 option"
  ts_visited :: "BlockId set"

text \<open>
  The constructor.  \<open>is_directory\<close> and \<open>file_bytes\<close> are what the file system holds at the
  configured path, \<open>env\<close> the outcomes of the system calls of the SSD store.
\<close>

definition path_append :: "string \<Rightarrow> string \<Rightarrow> string" where
  "path_append p name = (if p \<noteq> [] \<and> last p \<noteq> CHR ''/'' then p @ ''/'' @ name else p @ name)"

definition ts_new ::
  "(string \<Rightarrow> bool) \<Rightarrow> (string \<Rightarrow> byte list) \<Rightarrow> ssd_env \<Rightarrow> TieredStoreConfig \<Rightarrow> ssd_error + TieredStore" where
  "ts_new is_directory file_bytes env cfg =
     (let hbm = (if tc_hbm_bytes cfg > 0 then Some (bs_new HBM (tc_hbm_bytes cfg)) else None);
          dram = Some (bs_new DRAM (tc_dram_bytes cfg));
          build = (\<lambda>ssd. \<lparr>ts_cfg = cfg, ts_hbm = hbm, ts_dram = dram, ts_ssd = ssd,
                      ts_access_counts = (\<lambda>_. None), ts_visited = {}\<rparr>)
      in if tc_ssd_bytes cfg > 0 \<and> tc_ssd_path cfg \<noteq> [] then
           let path = tc_ssd_path cfg;
               file = (if is_directory path then path_append path ''lethe_ssd.bin'' else path)
           in case ssd_open env (file_bytes file) (tc_ssd_bytes cfg) (tc_ssd_slot_bytes cfg) of
                Inl e \<Rightarrow> Inl e
              | Inr ssd \<Rightarrow> Inr (build (Some ssd))
         else Inr (build None))"

definition PutToTier :: "TieredStore \<Rightarrow> KvBlock \<Rightarrow> Tier \<Rightarrow> bool \<times> TieredStore" where
  "PutToTier ts b t =
     (case t of
        HBM \<Rightarrow> (let (ok, p) = opt_put bs_Put (ts_hbm ts) b in (ok, ts\<lparr>ts_hbm := p\<rparr>))
      | DRAM \<Rightarrow> (let (ok, p) = opt_put bs_Put (ts_dram ts) b in (ok, ts\<lparr>ts_dram := p\<rparr>))
      | SSD \<Rightarrow> (let (ok, p) = opt_put ssd_Put (ts_ssd ts) b in (ok, ts\<lparr>ts_ssd := p\<rparr>)))"

definition EraseFromTier :: "TieredStore \<Rightarrow> BlockId \<Rightarrow> Tier \<Rightarrow> size_t \<times> TieredStore" where
  "EraseFromTier ts k t =
     (case t of
        HBM \<Rightarrow> (let (n, p) = opt_erase bs_Erase (ts_hbm ts) k in (n, ts\<lparr>ts_hbm := p\<rparr>))
      | DRAM \<Rightarrow> (let (n, p) = opt_erase bs_Erase (ts_dram ts) k in (n, ts\<lparr>ts_dram := p\<rparr>))
      | SSD \<Rightarrow> (let (n, p) = opt_erase ssd_Erase (ts_ssd ts) k in (n, ts\<lparr>ts_ssd := p\<rparr>)))"

text \<open>What a probe of one tier returns: the payload bytes, or nothing on a miss.\<close>

definition tier_probe :: "TieredStore \<Rightarrow> Tier \<Rightarrow> BlockId \<Rightarrow> byte list option" where
  "tier_probe ts t k =
     (case t of
        HBM \<Rightarrow> (case ts_hbm ts of None \<Rightarrow> None | Some s \<Rightarrow> bs_Get s k)
      | DRAM \<Rightarrow> (case ts_dram ts of None \<Rightarrow> None | Some s \<Rightarrow> bs_Get s k)
      | SSD \<Rightarrow> (case ts_ssd ts of None \<Rightarrow> None
                | Some s \<Rightarrow> (case ssd_GetCopy s k of None \<Rightarrow> None | Some blk \<Rightarrow> Some (kv_data blk))))"

text \<open>The lookup chain of \<open>Get\<close>, with \<open>bytes.empty()\<close> as its not-found test.\<close>

definition probe_next :: "TieredStore \<Rightarrow> BlockId \<Rightarrow> Tier \<Rightarrow> Tier \<times> byte list \<Rightarrow> Tier \<times> byte list" where
  "probe_next ts k t = (\<lambda>(found, bytes).
     if bytes = [] then
       (case tier_probe ts t k of Some d \<Rightarrow> (t, d) | None \<Rightarrow> (found, bytes))
     else (found, bytes))"

definition ts_find :: "TieredStore \<Rightarrow> BlockId \<Rightarrow> (Tier \<times> byte list) option" where
  "ts_find ts k =
     (let (found, bytes) = probe_next ts k SSD (probe_next ts k DRAM (probe_next ts k HBM (SSD, [])))
      in if bytes = [] \<and> found \<noteq> HBM \<and> found \<noteq> DRAM then None else Some (found, bytes))"

definition bump_access :: "TieredStore \<Rightarrow> BlockId \<Rightarrow> u32 \<times> TieredStore" where
  "bump_access ts k =
     (let cnt = (case ts_access_counts ts k of None \<Rightarrow> 0 | Some c \<Rightarrow> c) + 1
      in (cnt, ts\<lparr>ts_access_counts := (ts_access_counts ts)(k \<mapsto> cnt),
                    ts_visited := insert k (ts_visited ts)\<rparr>))"

text \<open>The copy of a block that \<open>Get\<close> and \<open>Demote\<close> build for another tier.\<close>

definition moved_block :: "BlockId \<Rightarrow> byte list \<Rightarrow> Tier \<Rightarrow> KvBlock" where
  "moved_block k d t = \<lparr>kv_id = k, kv_data = d, kv_tier = t, kv_inserted_epoch = 0\<rparr>"

definition promo_target :: "Tier \<Rightarrow> Tier" where
  "promo_target found = (if found = SSD then DRAM else HBM)"

definition promote :: "TieredStore \<Rightarrow> BlockId \<Rightarrow> Tier \<Rightarrow> byte list \<Rightarrow> u32 \<Rightarrow> bool \<times> TieredStore" where
  "promote ts k found bytes cnt =
     (if tc_enable_promotion (ts_cfg ts) \<and> tc_promotion_access_threshold (ts_cfg ts) \<le> cnt \<and>
         found \<noteq> HBM then
        let target0 = promo_target found;
            target = (if target0 = HBM \<and> ts_hbm ts = None then DRAM else target0)
        in if target \<noteq> found then
             let promo = moved_block k bytes target;
                 (ok, ts1) = PutToTier ts promo target
             in if ok then (True, snd (EraseFromTier ts1 k found)) else (False, ts1)
           else (False, ts)
      else (False, ts))"

definition ts_Get :: "TieredStore \<Rightarrow> BlockId \<Rightarrow> GetResult option \<times> TieredStore" where
  "ts_Get ts k =
     (case ts_find ts k of
        None \<Rightarrow> (None, ts)
      | Some (found, bytes) \<Rightarrow>
          let (cnt, ts1) = bump_access ts k;
              (promoted, ts2) = promote ts1 k found bytes cnt
          in (Some \<lparr>gr_data = bytes, gr_tier_found = found, gr_promoted = promoted\<rparr>, ts2))"

definition kFallthrough :: "Tier \<Rightarrow> Tier list" where
  "kFallthrough hint =
     (case hint of HBM \<Rightarrow> [HBM, DRAM, SSD] | DRAM \<Rightarrow> [DRAM, SSD, SSD] | SSD \<Rightarrow> [SSD, SSD, SSD])"

fun put_chain :: "TieredStore \<Rightarrow> KvBlock \<Rightarrow> Tier list \<Rightarrow> Tier option \<times> TieredStore" where
  "put_chain ts b [] = (None, ts)"
| "put_chain ts b (candidate # row) =
     (let (ok, ts1) = PutToTier ts b candidate
      in if ok then (Some candidate, ts1)
         else if candidate = SSD then (None, ts1)
         else put_chain ts1 b row)"

definition ts_Put :: "TieredStore \<Rightarrow> KvBlock \<Rightarrow> Tier \<Rightarrow> Tier option \<times> TieredStore" where
  "ts_Put ts b hint = put_chain ts b (kFallthrough hint)"

definition ts_Demote :: "TieredStore \<Rightarrow> BlockId \<Rightarrow> bool \<times> TieredStore" where
  "ts_Demote ts k =
     (case tier_probe ts HBM k of
        Some d \<Rightarrow>
          (let (ok, ts1) = PutToTier ts (moved_block k d DRAM) DRAM
           in if ok then (True, snd (EraseFromTier ts1 k HBM))
              else
                let (ok2, ts2) = PutToTier ts1 (moved_block k d SSD) SSD
                in if ok2 then (True, snd (EraseFromTier ts2 k HBM)) else (False, ts2))
      | None \<Rightarrow>
          (case tier_probe ts DRAM k of
             Some d \<Rightarrow>
               (let (ok, ts1) = PutToTier ts (moved_block k d SSD) SSD
                in if ok then (True, snd (EraseFromTier ts1 k DRAM)) else (False, ts1))
           | None \<Rightarrow> (False, ts)))"

definition ts_Erase :: "TieredStore \<Rightarrow> BlockId \<Rightarrow> size_t \<times> TieredStore" where
  "ts_Erase ts k =
     (let (n1, ts1) = EraseFromTier ts k HBM;
          (n2, ts2) = EraseFromTier ts1 k DRAM;
          (n3, ts3) = EraseFromTier ts2 k SSD
      in (size_add (size_add n1 n2) n3,
          ts3\<lparr>ts_access_counts := (ts_access_counts ts3)(k := None),
              ts_visited := ts_visited ts3 - {k}\<rparr>))"

definition ts_used_bytes :: "TieredStore \<Rightarrow> Tier \<Rightarrow> size_t" where
  "ts_used_bytes ts t =
     (case t of HBM \<Rightarrow> opt_size bs_used_bytes (ts_hbm ts)
      | DRAM \<Rightarrow> opt_size bs_used_bytes (ts_dram ts)
      | SSD \<Rightarrow> opt_size ss_used_bytes (ts_ssd ts))"

definition ts_capacity_bytes :: "TieredStore \<Rightarrow> Tier \<Rightarrow> size_t" where
  "ts_capacity_bytes ts t =
     (case t of HBM \<Rightarrow> opt_size bs_capacity_bytes (ts_hbm ts)
      | DRAM \<Rightarrow> opt_size bs_capacity_bytes (ts_dram ts)
      | SSD \<Rightarrow> opt_size ss_usable_bytes (ts_ssd ts))"

definition ts_Snapshot :: "BlockId iter_order \<Rightarrow> TieredStore \<Rightarrow> Tier \<Rightarrow> BlockMeta list" where
  "ts_Snapshot ord ts t =
     (let out = (case t of
          HBM \<Rightarrow> (case ts_hbm ts of None \<Rightarrow> [] | Some s \<Rightarrow> bs_Snapshot ord s)
        | DRAM \<Rightarrow> (case ts_dram ts of None \<Rightarrow> [] | Some s \<Rightarrow> bs_Snapshot ord s)
        | SSD \<Rightarrow> (case ts_ssd ts of None \<Rightarrow> [] | Some s \<Rightarrow> ssd_Snapshot ord s))
      in map (\<lambda>m. m\<lparr>bm_visited := bm_id m \<in> ts_visited ts\<rparr>) out)"

definition ts_MarkVisited :: "TieredStore \<Rightarrow> BlockId \<Rightarrow> TieredStore" where
  "ts_MarkVisited ts k = ts\<lparr>ts_visited := insert k (ts_visited ts)\<rparr>"

definition ts_ClearVisited :: "TieredStore \<Rightarrow> BlockId \<Rightarrow> TieredStore" where
  "ts_ClearVisited ts k = ts\<lparr>ts_visited := ts_visited ts - {k}\<rparr>"

definition access_count_for_testing :: "TieredStore \<Rightarrow> BlockId \<Rightarrow> u32" where
  "access_count_for_testing ts k = (case ts_access_counts ts k of None \<Rightarrow> 0 | Some c \<Rightarrow> c)"

text \<open>The invariant of the three stores.\<close>

definition ts_inv :: "TieredStore \<Rightarrow> bool" where
  "ts_inv ts \<longleftrightarrow>
     (case ts_hbm ts of None \<Rightarrow> True | Some s \<Rightarrow> bs_inv s \<and> bs_tier s = HBM) \<and>
     (case ts_dram ts of None \<Rightarrow> False | Some s \<Rightarrow> bs_inv s \<and> bs_tier s = DRAM) \<and>
     (case ts_ssd ts of None \<Rightarrow> True | Some s \<Rightarrow> ssd_inv s)"

text \<open>The logical content: a block is present when some tier holds it; the fastest copy counts.\<close>

definition ts_content :: "TieredStore \<Rightarrow> content" where
  "ts_content ts k =
     (case tier_probe ts HBM k of Some d \<Rightarrow> Some d
      | None \<Rightarrow> (case tier_probe ts DRAM k of Some d \<Rightarrow> Some d | None \<Rightarrow> tier_probe ts SSD k))"

text \<open>Content addressing: every resident copy of a block has the bytes that its identity names.\<close>

definition coherent :: "(BlockId \<Rightarrow> byte list) \<Rightarrow> TieredStore \<Rightarrow> bool" where
  "coherent payload ts \<longleftrightarrow> (\<forall>t k d. tier_probe ts t k = Some d \<longrightarrow> d = payload k)"

text \<open>The book-keeping covers resident blocks only.\<close>

definition books_ok :: "TieredStore \<Rightarrow> bool" where
  "books_ok ts \<longleftrightarrow>
     dom (ts_access_counts ts) \<subseteq> dom (ts_content ts) \<and> ts_visited ts \<subseteq> dom (ts_content ts)"

datatype ts_op = TPut KvBlock Tier | TGet BlockId | TDemote BlockId | TErase BlockId | TClearVisited BlockId

fun ts_step :: "TieredStore \<Rightarrow> ts_op \<Rightarrow> TieredStore" where
  "ts_step ts (TPut b hint) = snd (ts_Put ts b hint)"
| "ts_step ts (TGet k) = snd (ts_Get ts k)"
| "ts_step ts (TDemote k) = snd (ts_Demote ts k)"
| "ts_step ts (TErase k) = snd (ts_Erase ts k)"
| "ts_step ts (TClearVisited k) = ts_ClearVisited ts k"

definition ts_run :: "TieredStore \<Rightarrow> ts_op list \<Rightarrow> TieredStore" where
  "ts_run ts ops = foldl ts_step ts ops"

fun op_ok :: "(BlockId \<Rightarrow> byte list) \<Rightarrow> ts_op \<Rightarrow> bool" where
  "op_ok payload (TPut b hint) \<longleftrightarrow> kv_ok b \<and> kv_data b = payload (kv_id b)"
| "op_ok payload _ \<longleftrightarrow> True"

text \<open>
  What the operations do to the logical content, given whether a \<open>Put\<close> found a tier with room.
\<close>

fun ts_accepts :: "TieredStore \<Rightarrow> ts_op \<Rightarrow> bool" where
  "ts_accepts ts (TPut b hint) = (fst (ts_Put ts b hint) \<noteq> None)"
| "ts_accepts ts _ = True"

fun spec_step :: "bool \<Rightarrow> ts_op \<Rightarrow> content \<Rightarrow> content" where
  "spec_step ok (TPut b hint) m = content_step ok (OpPut b) m"
| "spec_step ok (TErase k) m = content_step ok (OpErase k) m"
| "spec_step ok _ m = m"

text \<open>What an operation returns to its caller, and what the operations of a run return.\<close>

datatype ts_out = OutPut "Tier option" | OutGet "GetResult option" | OutDemote bool | OutErase size_t | OutClear

fun ts_result :: "TieredStore \<Rightarrow> ts_op \<Rightarrow> ts_out" where
  "ts_result ts (TPut b hint) = OutPut (fst (ts_Put ts b hint))"
| "ts_result ts (TGet k) = OutGet (fst (ts_Get ts k))"
| "ts_result ts (TDemote k) = OutDemote (fst (ts_Demote ts k))"
| "ts_result ts (TErase k) = OutErase (fst (ts_Erase ts k))"
| "ts_result ts (TClearVisited k) = OutClear"

fun ts_results :: "TieredStore \<Rightarrow> ts_op list \<Rightarrow> ts_out list" where
  "ts_results ts [] = []"
| "ts_results ts (x # xs) = ts_result ts x # ts_results (ts_step ts x) xs"

text \<open>
  The specification: a map from identities to payloads, with no tiers in it.  It relates the
  map before an operation, the operation, what the caller is told and the map after it.  A
  \<open>Put\<close> that reports a tier has added the block; one that reports failure has changed nothing,
  and then no configured memory tier from the hint on is large enough for everything stored and
  the block, the capacities \<open>cap\<close> being the only thing the specification knows of the tiers.  A \<open>Get\<close>
  returns the mapped payload, and nothing for an unmapped identity; only for an empty payload
  may it also return nothing.  \<open>Demote\<close> and \<open>ClearVisited\<close> leave the map alone, and \<open>Erase\<close>
  unmaps the identity and reports the bytes of between one and three copies.
\<close>

fun map_spec :: "(Tier \<Rightarrow> size_t) \<Rightarrow> content \<Rightarrow> ts_op \<Rightarrow> ts_out \<Rightarrow> content \<Rightarrow> bool" where
  "map_spec cap m (TPut b hint) (OutPut r) m' \<longleftrightarrow>
     (case r of
        Some t \<Rightarrow> hint \<le> t \<and> m' = m(kv_id b \<mapsto> kv_data b)
      | None \<Rightarrow> m' = m \<and> (\<forall>t. hint \<le> t \<and> t \<noteq> SSD \<and> 0 < cap t \<longrightarrow> cap t < content_size m + length (kv_data b)))"
| "map_spec cap m (TGet k) (OutGet r) m' \<longleftrightarrow>
     m' = m \<and> (case r of Some res \<Rightarrow> m k = Some (gr_data res) | None \<Rightarrow> m k = None \<or> m k = Some [])"
| "map_spec cap m (TDemote k) (OutDemote ok) m' \<longleftrightarrow> m' = m \<and> (ok \<longrightarrow> m k \<noteq> None)"
| "map_spec cap m (TErase k) (OutErase n) m' \<longleftrightarrow>
     m' = m(k := None) \<and>
     (case m k of None \<Rightarrow> n = 0 | Some d \<Rightarrow> n = length d \<or> n = 2 * length d \<or> n = 3 * length d)"
| "map_spec cap m (TClearVisited k) OutClear m' \<longleftrightarrow> m' = m"
| "map_spec cap m _ _ m' \<longleftrightarrow> False"

fun map_run :: "(Tier \<Rightarrow> size_t) \<Rightarrow> content \<Rightarrow> ts_op list \<Rightarrow> ts_out list \<Rightarrow> content \<Rightarrow> bool" where
  "map_run cap m [] [] m' \<longleftrightarrow> m' = m"
| "map_run cap m (x # xs) (out # outs) m' \<longleftrightarrow> (\<exists>m1. map_spec cap m x out m1 \<and> map_run cap m1 xs outs m')"
| "map_run cap m _ _ m' \<longleftrightarrow> False"

text \<open>A snapshot lists the blocks of a content once each, with their sizes.\<close>

definition snapshot_of :: "content \<Rightarrow> BlockMeta list \<Rightarrow> bool" where
  "snapshot_of c ms \<longleftrightarrow> distinct (map bm_id ms) \<and> set (map bm_id ms) = dom c \<and>
     (\<forall>m\<in>set ms. c (bm_id m) \<noteq> None \<and> bm_size_bytes m = length (the (c (bm_id m))))"

text \<open>The sizes a configuration may have so that no byte count wraps.\<close>

definition cfg_ok :: "TieredStoreConfig \<Rightarrow> bool" where
  "cfg_ok cfg \<longleftrightarrow> tc_hbm_bytes cfg \<le> 2 ^ 63 \<and> tc_dram_bytes cfg \<le> 2 ^ 63 \<and>
     (tc_ssd_bytes cfg > 0 \<and> tc_ssd_path cfg \<noteq> [] \<longrightarrow> ssd_params (tc_ssd_bytes cfg) (tc_ssd_slot_bytes cfg))"

text \<open>A two-tier configuration and its empty store, for concrete runs.\<close>

definition sample_cfg :: "size_t \<Rightarrow> size_t \<Rightarrow> TieredStoreConfig" where
  "sample_cfg hbm dram = \<lparr>tc_hbm_bytes = hbm, tc_dram_bytes = dram, tc_ssd_bytes = 0, tc_ssd_path = [],
     tc_enable_promotion = True, tc_promotion_access_threshold = 2, tc_ssd_slot_bytes = 65536\<rparr>"

definition sample_store :: "size_t \<Rightarrow> size_t \<Rightarrow> TieredStore" where
  "sample_store hbm dram = \<lparr>ts_cfg = sample_cfg hbm dram, ts_hbm = Some (bs_new HBM hbm),
     ts_dram = Some (bs_new DRAM dram), ts_ssd = None, ts_access_counts = (\<lambda>_. None), ts_visited = {}\<rparr>"

section \<open>Each tier provides the store contract\<close>

interpretation bso: kv_store "opt_inv bs_inv" "opt_content bs_Get" kv_ok "opt_put bs_Put"
  "opt_erase bs_Erase" "opt_size bs_used_bytes" "opt_size bs_capacity_bytes"
  by (rule bs.kv_store_option)

interpretation ssdo: kv_store "opt_inv ssd_inv" "opt_content ssd_content" kv_ok "opt_put ssd_Put"
  "opt_erase ssd_Erase" "opt_size ss_used_bytes" "opt_size ss_usable_bytes"
  by (rule ssd.kv_store_option)

lemma tier_probe_eqs:
  "tier_probe ts HBM = opt_content bs_Get (ts_hbm ts)"
  "tier_probe ts DRAM = opt_content bs_Get (ts_dram ts)"
  "tier_probe ts SSD = opt_content ssd_content (ts_ssd ts)"
  by (auto simp: tier_probe_def ssd_content_def fun_eq_iff split: option.splits)

lemma opt_put_tier:
  assumes "opt_put bs_Put p b = (ok, p')"
  shows "map_option bs_tier p' = map_option bs_tier p"
  using assms bs_Put_tier by (auto simp: opt_put_def split: option.splits prod.splits)

lemma opt_erase_tier:
  assumes "opt_erase bs_Erase p k = (n, p')"
  shows "map_option bs_tier p' = map_option bs_tier p"
  using assms bs_Erase_tier by (auto simp: opt_erase_def split: option.splits prod.splits)

lemma ts_inv_alt:
  "ts_inv ts \<longleftrightarrow> opt_inv bs_inv (ts_hbm ts) \<and> opt_inv bs_inv (ts_dram ts) \<and> opt_inv ssd_inv (ts_ssd ts) \<and>
     map_option bs_tier (ts_hbm ts) \<in> {None, Some HBM} \<and> map_option bs_tier (ts_dram ts) = Some DRAM"
  by (auto simp: ts_inv_def split: option.splits)

lemma PutToTier_cases:
  assumes "PutToTier ts b t = (ok, ts')"
  obtains (HBM) p where "t = HBM" "opt_put bs_Put (ts_hbm ts) b = (ok, p)" "ts' = ts\<lparr>ts_hbm := p\<rparr>"
    | (DRAM) p where "t = DRAM" "opt_put bs_Put (ts_dram ts) b = (ok, p)" "ts' = ts\<lparr>ts_dram := p\<rparr>"
    | (SSD) p where "t = SSD" "opt_put ssd_Put (ts_ssd ts) b = (ok, p)" "ts' = ts\<lparr>ts_ssd := p\<rparr>"
  using assms by (cases t) (auto simp: PutToTier_def split: prod.splits)

lemma EraseFromTier_cases:
  assumes "EraseFromTier ts k t = (n, ts')"
  obtains (HBM) p where "t = HBM" "opt_erase bs_Erase (ts_hbm ts) k = (n, p)" "ts' = ts\<lparr>ts_hbm := p\<rparr>"
    | (DRAM) p where "t = DRAM" "opt_erase bs_Erase (ts_dram ts) k = (n, p)" "ts' = ts\<lparr>ts_dram := p\<rparr>"
    | (SSD) p where "t = SSD" "opt_erase ssd_Erase (ts_ssd ts) k = (n, p)" "ts' = ts\<lparr>ts_ssd := p\<rparr>"
  using assms by (cases t) (auto simp: EraseFromTier_def split: prod.splits)

lemma PutToTier_inv:
  assumes "ts_inv ts" "kv_ok b" "PutToTier ts b t = (ok, ts')"
  shows "ts_inv ts'"
  using assms(3)
proof (cases rule: PutToTier_cases)
  case (HBM p)
  then show ?thesis
    using assms(1,2) bso.put_inv [OF _ assms(2) HBM(2)] opt_put_tier [OF HBM(2)] by (simp add: ts_inv_alt)
next
  case (DRAM p)
  then show ?thesis
    using assms(1,2) bso.put_inv [OF _ assms(2) DRAM(2)] opt_put_tier [OF DRAM(2)] by (simp add: ts_inv_alt)
next
  case (SSD p)
  then show ?thesis
    using assms(1,2) ssdo.put_inv [OF _ assms(2) SSD(2)] by (simp add: ts_inv_alt)
qed

lemma EraseFromTier_inv:
  assumes "ts_inv ts" "EraseFromTier ts k t = (n, ts')"
  shows "ts_inv ts'"
  using assms(2)
proof (cases rule: EraseFromTier_cases)
  case (HBM p)
  then show ?thesis
    using assms(1) bso.erase_inv [OF _ HBM(2)] opt_erase_tier [OF HBM(2)] by (simp add: ts_inv_alt)
next
  case (DRAM p)
  then show ?thesis
    using assms(1) bso.erase_inv [OF _ DRAM(2)] opt_erase_tier [OF DRAM(2)] by (simp add: ts_inv_alt)
next
  case (SSD p)
  then show ?thesis
    using assms(1) ssdo.erase_inv [OF _ SSD(2)] by (simp add: ts_inv_alt)
qed

interpretation tier: kv_store ts_inv "\<lambda>ts. tier_probe ts t" kv_ok "\<lambda>ts b. PutToTier ts b t"
  "\<lambda>ts k. EraseFromTier ts k t" "\<lambda>ts. ts_used_bytes ts t" "\<lambda>ts. ts_capacity_bytes ts t"
  for t
proof unfold_locales
  fix s b ok s' k n
  show "finite (dom (tier_probe s t))" if "ts_inv s"
    using that bso.finite_content ssdo.finite_content by (cases t) (simp_all add: tier_probe_eqs ts_inv_alt)
  show "ts_used_bytes s t = content_size (tier_probe s t)" if "ts_inv s"
    using that bso.used_content ssdo.used_content
    by (cases t) (simp_all add: tier_probe_eqs ts_inv_alt ts_used_bytes_def)
  show "ts_used_bytes s t \<le> ts_capacity_bytes s t" if "ts_inv s"
    using that bso.used_capacity ssdo.used_capacity
    by (cases t) (simp_all add: ts_inv_alt ts_used_bytes_def ts_capacity_bytes_def)
  show "ts_inv s'" if "ts_inv s" "kv_ok b" "PutToTier s b t = (ok, s')"
    by (rule PutToTier_inv [OF that])
  show "tier_probe s' t = content_step True (OpPut b) (tier_probe s t)"
    if "ts_inv s" "kv_ok b" "PutToTier s b t = (True, s')"
    using that(3)
    by (cases rule: PutToTier_cases)
      (use that(1,2) bso.put_ok ssdo.put_ok in \<open>simp_all add: ts_inv_alt tier_probe_eqs\<close>)
  show "s' = s" if "PutToTier s b t = (False, s')"
    using that by (cases rule: PutToTier_cases) (auto dest: bso.put_refused ssdo.put_refused)
  show "ts_capacity_bytes s' t = ts_capacity_bytes s t" if "PutToTier s b t = (ok, s')"
    using that by (cases rule: PutToTier_cases)
      (auto simp: ts_capacity_bytes_def dest: bso.put_capacity ssdo.put_capacity)
  show "ts_inv s'" if "ts_inv s" "EraseFromTier s k t = (n, s')"
    by (rule EraseFromTier_inv [OF that])
  show "tier_probe s' t = (tier_probe s t)(k := None)" if "ts_inv s" "EraseFromTier s k t = (n, s')"
    using that(2)
    by (cases rule: EraseFromTier_cases)
      (use that(1) bso.erase_content ssdo.erase_content in \<open>simp_all add: ts_inv_alt tier_probe_eqs\<close>)
  show "n = (case tier_probe s t k of None \<Rightarrow> 0 | Some d \<Rightarrow> length d)"
    if "ts_inv s" "EraseFromTier s k t = (n, s')"
    using that(2)
    by (cases rule: EraseFromTier_cases)
      (use that(1) bso.erase_freed ssdo.erase_freed in \<open>simp_all add: ts_inv_alt tier_probe_eqs\<close>)
  show "ts_capacity_bytes s' t = ts_capacity_bytes s t" if "EraseFromTier s k t = (n, s')"
    using that by (cases rule: EraseFromTier_cases)
      (auto simp: ts_capacity_bytes_def dest: bso.erase_capacity ssdo.erase_capacity)
qed

section \<open>Lemmas\<close>

lemma PutToTier_rest:
  assumes "PutToTier ts b t = (ok, ts')"
  shows "ts_cfg ts' = ts_cfg ts" "ts_access_counts ts' = ts_access_counts ts"
    "ts_visited ts' = ts_visited ts" "t' \<noteq> t \<Longrightarrow> tier_probe ts' t' = tier_probe ts t'"
    "ts_hbm ts' = None \<longleftrightarrow> ts_hbm ts = None"
    "ts_capacity_bytes ts' t' = ts_capacity_bytes ts t'"
proof -
  show "ts_cfg ts' = ts_cfg ts" "ts_access_counts ts' = ts_access_counts ts"
    "ts_visited ts' = ts_visited ts" "t' \<noteq> t \<Longrightarrow> tier_probe ts' t' = tier_probe ts t'"
    using assms by (cases rule: PutToTier_cases; cases t'; simp add: tier_probe_eqs)+
  show "ts_hbm ts' = None \<longleftrightarrow> ts_hbm ts = None"
    using assms by (cases rule: PutToTier_cases) (auto simp: opt_put_def split: option.splits prod.splits)
  show "ts_capacity_bytes ts' t' = ts_capacity_bytes ts t'"
    using assms by (cases rule: PutToTier_cases; cases t')
      (auto simp: ts_capacity_bytes_def dest: bso.put_capacity ssdo.put_capacity)
qed

lemma EraseFromTier_rest:
  assumes "EraseFromTier ts k t = (n, ts')"
  shows "ts_cfg ts' = ts_cfg ts" "ts_access_counts ts' = ts_access_counts ts"
    "ts_visited ts' = ts_visited ts" "t' \<noteq> t \<Longrightarrow> tier_probe ts' t' = tier_probe ts t'"
    "ts_capacity_bytes ts' t' = ts_capacity_bytes ts t'"
proof -
  show "ts_cfg ts' = ts_cfg ts" "ts_access_counts ts' = ts_access_counts ts"
    "ts_visited ts' = ts_visited ts" "t' \<noteq> t \<Longrightarrow> tier_probe ts' t' = tier_probe ts t'"
    using assms by (cases rule: EraseFromTier_cases; cases t'; simp add: tier_probe_eqs)+
  show "ts_capacity_bytes ts' t' = ts_capacity_bytes ts t'"
    using assms by (cases rule: EraseFromTier_cases; cases t')
      (auto simp: ts_capacity_bytes_def dest: bso.erase_capacity ssdo.erase_capacity)
qed

lemma PutToTier_refused: "PutToTier ts b t = (ok, ts') \<Longrightarrow> \<not> ok \<Longrightarrow> ts' = ts"
  using tier.put_refused [of ts b t ts'] by simp

text \<open>The copies of every block in every tier, after one primitive step.\<close>

lemma PutToTier_probe:
  assumes "ts_inv ts" "kv_ok b" "PutToTier ts b t = (ok, ts')"
  shows "tier_probe ts' t' k =
    (if t' = t \<and> k = kv_id b \<and> ok \<and> tier_probe ts t k = None then Some (kv_data b)
     else tier_probe ts t' k)"
  using tier.put_content [OF assms] PutToTier_rest(4) [OF assms(3), of t'] by (cases "t' = t") auto

lemma EraseFromTier_probe:
  assumes "ts_inv ts" "EraseFromTier ts k t = (n, ts')"
  shows "tier_probe ts' t' k' = (if t' = t \<and> k' = k then None else tier_probe ts t' k')"
  using tier.erase_content [OF assms] EraseFromTier_rest(4) [OF assms(2), of t'] by (cases "t' = t") auto

text \<open>A resident block can be rebuilt for another tier.\<close>

lemma bs_moved_ok:
  "bs_inv s \<Longrightarrow> bs_Get s k = Some d \<Longrightarrow> kv_ok (moved_block k d t)"
  by (fastforce simp: bs_inv_def bs_Get_def moved_block_def kv_ok_def split: option.splits)

lemma ssd_moved_ok:
  assumes "ssd_inv s" "ssd_content s k = Some d"
  shows "kv_ok (moved_block k d t)"
proof -
  obtain n where n: "umap_find (ss_index s) k = Some n"
    "d = take (slot_len (ss_mmap s) n) (sl_payload (ss_mmap s ! n))"
    using assms by (auto simp: ssd_content_inv)
  have geo: "ssd_geometry s" using assms(1) by (rule ssd_inv_parts)
  have sl: "n < ss_total_slots s" "slot_key (ss_mmap s) n = k"
    using ssd_index_slot [OF assms(1) n(1)] by simp_all
  have "length d \<le> ss_slot_payload_bytes s" using n(2) ssd_geometryD(4) [OF geo sl(1)] by simp
  moreover have "id_ok k"
    using ssd_geometryD(5) [OF geo sl(1)] sl(2) by (auto simp: slot_ok_def header_ok_def header_id_def id_ok_def)
  ultimately show ?thesis using ssd_geometryD(2) [OF geo] by (simp add: kv_ok_def moved_block_def)
qed

lemma moved_ok:
  "ts_inv ts \<Longrightarrow> tier_probe ts t k = Some d \<Longrightarrow> kv_ok (moved_block k d t')"
  by (cases t) (auto simp: tier_probe_eqs ts_inv_alt bs_moved_ok ssd_moved_ok split: option.splits)

lemma moved_block_sel [simp]: "kv_id (moved_block k d t) = k" "kv_data (moved_block k d t) = d"
  by (simp_all add: moved_block_def)

lemma ts_content_dom: "ts_content ts k \<noteq> None \<longleftrightarrow> (\<exists>t. tier_probe ts t k \<noteq> None)"
proof
  show "\<exists>t. tier_probe ts t k \<noteq> None" if "ts_content ts k \<noteq> None"
    using that by (auto simp: ts_content_def split: option.splits)
  assume "\<exists>t. tier_probe ts t k \<noteq> None"
  then obtain t where "tier_probe ts t k \<noteq> None" by blast
  then show "ts_content ts k \<noteq> None" by (cases t) (auto simp: ts_content_def split: option.splits)
qed

lemma ts_content_SomeD: "ts_content ts k = Some d \<Longrightarrow> \<exists>t. tier_probe ts t k = Some d"
  by (auto simp: ts_content_def split: option.splits)

text \<open>In a coherent store the content is determined by which blocks are resident.\<close>

lemma coherent_content:
  "coherent payload ts \<Longrightarrow>
    ts_content ts k = (if \<exists>t. tier_probe ts t k \<noteq> None then Some (payload k) else None)"
  using ts_content_dom [of ts k] ts_content_SomeD [of ts k]
  by (cases "ts_content ts k") (auto simp: coherent_def)

text \<open>
  The two-step move of \<open>Get\<close> and \<open>Demote\<close>: a copy into tier \<open>t\<close>, then the removal from
  another tier \<open>u\<close>.
\<close>

lemma move_step:
  assumes inv: "ts_inv ts" "tier_probe ts u k = Some d" "u \<noteq> t"
    and put: "PutToTier ts (moved_block k d t) t = (True, ts1)"
    and erase: "EraseFromTier ts1 k u = (n, ts2)"
  shows "ts_inv ts2"
    and "tier_probe ts2 v j = (if j = k \<and> v = u then None
           else if j = k \<and> v = t \<and> tier_probe ts t k = None then Some d else tier_probe ts v j)"
    and "ts_access_counts ts2 = ts_access_counts ts" "ts_visited ts2 = ts_visited ts"
    and "ts_cfg ts2 = ts_cfg ts" "ts_capacity_bytes ts2 v = ts_capacity_bytes ts v"
proof -
  note ok = moved_ok [OF inv(1,2), of t]
  have inv1: "ts_inv ts1" by (rule PutToTier_inv [OF inv(1) ok put])
  show "ts_inv ts2" by (rule EraseFromTier_inv [OF inv1 erase])
  show "tier_probe ts2 v j = (if j = k \<and> v = u then None
      else if j = k \<and> v = t \<and> tier_probe ts t k = None then Some d else tier_probe ts v j)"
    using PutToTier_probe [OF inv(1) ok put, of v j] EraseFromTier_probe [OF inv1 erase, of v j] by auto
qed (simp_all add: EraseFromTier_rest [OF erase] PutToTier_rest [OF put])

lemma ts_find_Some:
  assumes "ts_find ts k = Some (f, d)"
  shows "tier_probe ts f k = Some d" "t < f \<Longrightarrow> tier_probe ts t k \<in> {None, Some []}"
proof -
  show "tier_probe ts f k = Some d"
    using assms by (auto simp: ts_find_def probe_next_def split: if_splits option.splits prod.splits)
  show "t < f \<Longrightarrow> tier_probe ts t k \<in> {None, Some []}"
    using assms by (cases t; cases f) (auto simp: ts_find_def probe_next_def split: if_splits option.splits prod.splits)
qed

lemma ts_find_None:
  "ts_find ts k = None \<longleftrightarrow> (\<forall>t. tier_probe ts t k \<in> {None, Some []}) \<and>
     (tier_probe ts SSD k = Some [] \<or> (\<forall>t. tier_probe ts t k = None))"
proof -
  have all: "(\<forall>t. P t) \<longleftrightarrow> P HBM \<and> P DRAM \<and> P SSD" for P by (metis Tier.exhaust)
  show ?thesis
    unfolding all by (auto simp: ts_find_def probe_next_def split: if_splits option.splits prod.splits)
qed

lemma promote_cases:
  assumes "promote ts k f d c = (p, ts')"
  obtains (stay) "\<not> p" "ts' = ts"
    | (move) t ts1 n where "p" "t < f" "t = promo_target f" "PutToTier ts (moved_block k d t) t = (True, ts1)"
        "EraseFromTier ts1 k f = (n, ts')"
proof -
  define t0 where "t0 = promo_target f"
  define t where "t = (if t0 = HBM \<and> ts_hbm ts = None then DRAM else t0)"
  obtain ok ts1 where put: "PutToTier ts (moved_block k d t) t = (ok, ts1)" by force
  have lt: "t < f" "t = promo_target f" if "f \<noteq> HBM" "t \<noteq> f"
    using that by (cases f; simp add: t_def t0_def promo_target_def split: if_splits)+
  consider "\<not> p \<and> ts' = ts" | "\<not> p \<and> \<not> ok \<and> ts' = ts1"
    | "p \<and> ok \<and> f \<noteq> HBM \<and> t \<noteq> f \<and> ts' = snd (EraseFromTier ts1 k f)"
    using assms put by (auto simp: promote_def Let_def simp flip: t0_def t_def split: if_splits)
  then show thesis
  proof cases
    case 2
    then show thesis using stay PutToTier_refused [OF put] by blast
  next
    case 3
    then have "EraseFromTier ts1 k f = (fst (EraseFromTier ts1 k f), ts')" by simp
    moreover have "PutToTier ts (moved_block k d t) t = (True, ts1)" "p" "t < f" "t = promo_target f" using put 3 lt by auto
    ultimately show thesis using move by blast
  qed (use stay in blast)
qed

lemma bump_access_eq:
  "bump_access ts k = (access_count_for_testing ts k + 1,
     ts\<lparr>ts_access_counts := (ts_access_counts ts)(k \<mapsto> access_count_for_testing ts k + 1),
        ts_visited := insert k (ts_visited ts)\<rparr>)"
  by (simp add: bump_access_def access_count_for_testing_def Let_def)

lemma books_update [simp]:
  "ts_inv (ts\<lparr>ts_access_counts := c, ts_visited := v\<rparr>) = ts_inv ts"
  "tier_probe (ts\<lparr>ts_access_counts := c, ts_visited := v\<rparr>) t = tier_probe ts t"
  "ts_capacity_bytes (ts\<lparr>ts_access_counts := c, ts_visited := v\<rparr>) t = ts_capacity_bytes ts t"
  "ts_used_bytes (ts\<lparr>ts_access_counts := c, ts_visited := v\<rparr>) t = ts_used_bytes ts t"
  by (cases t; simp add: ts_inv_def tier_probe_eqs ts_capacity_bytes_def ts_used_bytes_def)+

lemma books_update_put:
  "fst (PutToTier (ts\<lparr>ts_access_counts := c, ts_visited := v\<rparr>) b t) = fst (PutToTier ts b t)"
  by (cases t) (simp_all add: PutToTier_def split: prod.splits)

text \<open>What \<open>Get\<close> does to the copies, the counters and the visited set.\<close>

lemma ts_Get_cases:
  assumes "ts_inv ts" "ts_Get ts k = (r, ts')"
  obtains (miss) "ts_find ts k = None" "r = None" "ts' = ts"
    | (hit) f d p where "ts_find ts k = Some (f, d)"
        "r = Some \<lparr>gr_data = d, gr_tier_found = f, gr_promoted = p\<rparr>"
        "ts_inv ts'" "\<And>t. ts_capacity_bytes ts' t = ts_capacity_bytes ts t" "ts_cfg ts' = ts_cfg ts"
        "ts_access_counts ts' = (ts_access_counts ts)(k \<mapsto> access_count_for_testing ts k + 1)"
        "ts_visited ts' = insert k (ts_visited ts)"
        "\<not> p \<longrightarrow> tier_probe ts' = tier_probe ts"
        "p \<longrightarrow> promo_target f < f"
        "p \<longrightarrow> (\<forall>v j. tier_probe ts' v j = (if j = k \<and> v = f then None
           else if j = k \<and> v = promo_target f \<and> tier_probe ts (promo_target f) k = None then Some d
           else tier_probe ts v j))"
proof (cases "ts_find ts k")
  case None
  then show thesis using miss assms(2) by (simp add: ts_Get_def)
next
  case (Some fd)
  obtain f d where fd: "fd = (f, d)" by force
  define c where "c = access_count_for_testing ts k + 1"
  define ts1 where "ts1 = ts\<lparr>ts_access_counts := (ts_access_counts ts)(k \<mapsto> c), ts_visited := insert k (ts_visited ts)\<rparr>"
  obtain p ts2 where promo: "promote ts1 k f d c = (p, ts2)" by force
  have bump: "bump_access ts k = (c, ts1)" by (simp add: bump_access_eq c_def ts1_def)
  have b: "ts_inv ts1 = ts_inv ts" "tier_probe ts1 = tier_probe ts"
    "\<And>t. ts_capacity_bytes ts1 t = ts_capacity_bytes ts t" "ts_cfg ts1 = ts_cfg ts"
    "ts_access_counts ts1 = (ts_access_counts ts)(k \<mapsto> access_count_for_testing ts k + 1)"
    "ts_visited ts1 = insert k (ts_visited ts)"
    by (simp_all add: ts1_def c_def fun_eq_iff)
  have r: "r = Some \<lparr>gr_data = d, gr_tier_found = f, gr_promoted = p\<rparr>" and ts': "ts' = ts2"
    using assms(2) Some fd bump promo by (simp_all add: ts_Get_def)
  have find: "ts_find ts k = Some (f, d)" using Some fd by simp
  have inv1: "ts_inv ts1" using assms(1) b(1) by simp
  have at: "tier_probe ts1 f k = Some d" using ts_find_Some(1) [OF find] b(2) by simp
  from promo show thesis
  proof (cases rule: promote_cases)
    case stay
    show thesis
      by (rule hit [OF find r]) (use stay ts' b inv1 in auto)
  next
    case (move t tsa n)
    note m = move_step [OF inv1 at less_imp_neq [OF move(2), symmetric] move(4,5)]
    have "\<forall>v j. tier_probe ts' v j = (if j = k \<and> v = f then None
           else if j = k \<and> v = promo_target f \<and> tier_probe ts (promo_target f) k = None then Some d
           else tier_probe ts v j)"
      using m(2) b(2) ts' move(3) by simp
    then show thesis
      by (intro hit [OF find r]) (use move(1-3) m(1,3-6) ts' b in auto)
  qed
qed

lemma put_chain_Some:
  assumes "put_chain ts b row = (Some t, ts')"
  shows "\<exists>pre post. row = pre @ t # post \<and> PutToTier ts b t = (True, ts') \<and>
    (\<forall>u\<in>set pre. \<not> fst (PutToTier ts b u))"
  using assms
proof (induction row)
  case (Cons c row)
  obtain ok ts1 where put: "PutToTier ts b c = (ok, ts1)" by force
  show ?case
  proof (cases ok)
    case True
    then have "c # row = [] @ t # row \<and> PutToTier ts b t = (True, ts')" using Cons.prems put by simp
    then show ?thesis by force
  next
    case False
    then have "put_chain ts b row = (Some t, ts')"
      using Cons.prems put PutToTier_refused [OF put] by (auto split: if_splits)
    from Cons.IH [OF this] obtain pre post where "row = pre @ t # post" "PutToTier ts b t = (True, ts')"
      "\<forall>u\<in>set pre. \<not> fst (PutToTier ts b u)" by blast
    then have "c # row = (c # pre) @ t # post \<and> PutToTier ts b t = (True, ts') \<and>
        (\<forall>u\<in>set (c # pre). \<not> fst (PutToTier ts b u))"
      using put False by simp
    then show ?thesis by blast
  qed
qed simp

lemma put_chain_None:
  assumes "put_chain ts b (row @ SSD # rest) = (None, ts')" "SSD \<notin> set row"
  shows "ts' = ts \<and> (\<forall>u\<in>set (row @ [SSD]). \<not> fst (PutToTier ts b u))"
  using assms
proof (induction row)
  case Nil
  obtain ok ts1 where put: "PutToTier ts b SSD = (ok, ts1)" by force
  then show ?case using Nil PutToTier_refused [OF put] by (auto split: if_splits)
next
  case (Cons c row)
  obtain ok ts1 where put: "PutToTier ts b c = (ok, ts1)" by force
  then have "\<not> ok \<and> put_chain ts b (row @ SSD # rest) = (None, ts')"
    using Cons.prems PutToTier_refused [OF put] by (auto split: if_splits)
  then show ?case using Cons.IH Cons.prems(2) put by simp
qed

lemma ts_Put_Some:
  assumes "ts_Put ts b hint = (Some t, ts')"
  shows "hint \<le> t \<and> PutToTier ts b t = (True, ts') \<and>
    (\<forall>u. hint \<le> u \<and> u < t \<longrightarrow> \<not> fst (PutToTier ts b u))"
proof -
  obtain pre post where row: "kFallthrough hint = pre @ t # post" and put: "PutToTier ts b t = (True, ts')"
    and pre: "\<forall>u\<in>set pre. \<not> fst (PutToTier ts b u)"
    using put_chain_Some assms unfolding ts_Put_def by blast
  have "hint \<le> t \<and> (\<forall>u. hint \<le> u \<and> u < t \<longrightarrow> u \<in> set pre)"
  proof (intro conjI allI impI)
    show "hint \<le> t" using row by (cases hint) (auto simp: kFallthrough_def Cons_eq_append_conv)
    show "u \<in> set pre" if "hint \<le> u \<and> u < t" for u
      using row that by (cases hint; cases u) (auto simp: kFallthrough_def Cons_eq_append_conv)
  qed
  then show ?thesis using put pre by blast
qed

lemma ts_Put_None:
  assumes "ts_Put ts b hint = (None, ts')"
  shows "ts' = ts \<and> (\<forall>u\<ge>hint. \<not> fst (PutToTier ts b u))"
proof -
  obtain row rest where row: "kFallthrough hint = row @ SSD # rest" "SSD \<notin> set row"
    "\<forall>u\<ge>hint. u \<in> set (row @ [SSD])"
  proof (cases hint)
    case HBM
    have "\<forall>u\<ge>HBM. u \<in> set ([HBM, DRAM] @ [SSD])" by (auto intro: Tier.exhaust)
    then show thesis using that [of "[HBM, DRAM]" "[]"] HBM by (simp add: kFallthrough_def)
  next
    case DRAM
    have "u \<in> set ([DRAM] @ [SSD])" if "DRAM \<le> u" for u using that by (cases u) auto
    then show thesis using that [of "[DRAM]" "[SSD]"] DRAM by (simp add: kFallthrough_def)
  next
    case SSD
    have "u \<in> set ([] @ [SSD])" if "SSD \<le> u" for u using that by (cases u) auto
    then show thesis using that [of "[]" "[SSD, SSD]"] SSD by (simp add: kFallthrough_def)
  qed
  have "ts' = ts \<and> (\<forall>u\<in>set (row @ [SSD]). \<not> fst (PutToTier ts b u))"
    by (rule put_chain_None [OF _ row(2)]) (use assms row(1) in \<open>simp add: ts_Put_def\<close>)
  then show ?thesis using row(3) by blast
qed

lemma ts_Demote_cases:
  assumes "ts_inv ts" "ts_Demote ts k = (ok, ts')"
  obtains (refuse) "\<not> ok" "ts' = ts"
    | (move) u t d where "ok" "u < t" "tier_probe ts u k = Some d" "\<forall>v<u. tier_probe ts v k = None"
        "ts_inv ts'"
        "\<And>v j. tier_probe ts' v j = (if j = k \<and> v = u then None
           else if j = k \<and> v = t \<and> tier_probe ts t k = None then Some d else tier_probe ts v j)"
        "ts_access_counts ts' = ts_access_counts ts" "ts_visited ts' = ts_visited ts"
        "ts_cfg ts' = ts_cfg ts" "\<And>v. ts_capacity_bytes ts' v = ts_capacity_bytes ts v"
proof -
  have moved: thesis
    if "ok" "u < t" "tier_probe ts u k = Some d" "\<forall>v<u. tier_probe ts v k = None"
      "PutToTier ts (moved_block k d t) t = (True, ts1)" "ts' = snd (EraseFromTier ts1 k u)" for u t d ts1
  proof -
    have e: "EraseFromTier ts1 k u = (fst (EraseFromTier ts1 k u), ts')" using that(6) by simp
    note m = move_step [OF assms(1) that(3) less_imp_neq [OF that(2)] that(5) e]
    show thesis by (rule move [OF that(1-4) m])
  qed
  show thesis
  proof (cases "tier_probe ts HBM k")
    case (Some d)
    obtain ok1 ts1 where put1: "PutToTier ts (moved_block k d DRAM) DRAM = (ok1, ts1)" by force
    obtain ok2 ts2 where put2: "PutToTier ts (moved_block k d SSD) SSD = (ok2, ts2)" by force
    have r: "\<not> ok1 \<Longrightarrow> ts1 = ts" "\<not> ok2 \<Longrightarrow> ts2 = ts" using PutToTier_refused [OF put1] PutToTier_refused [OF put2] by blast+
    consider "ok1" "ok \<and> ts' = snd (EraseFromTier ts1 k HBM)"
      | "\<not> ok1" "ok2" "ok \<and> ts' = snd (EraseFromTier ts2 k HBM)" | "\<not> ok \<and> ts' = ts"
      using assms(2) Some put1 put2 r by (cases ok1; cases ok2) (auto simp: ts_Demote_def)
    then show thesis
    proof cases
      case 1
      then show thesis using Some put1 by (intro moved [of HBM DRAM d ts1]) auto
    next
      case 2
      then show thesis using Some put2 by (intro moved [of HBM SSD d ts2]) auto
    qed (use refuse in blast)
  next
    case None
    note h = None
    show thesis
    proof (cases "tier_probe ts DRAM k")
      case None
      then show thesis using h assms(2) refuse by (simp add: ts_Demote_def)
    next
      case (Some d)
      obtain ok2 ts2 where put2: "PutToTier ts (moved_block k d SSD) SSD = (ok2, ts2)" by force
      have r: "\<not> ok2 \<Longrightarrow> ts2 = ts" using PutToTier_refused [OF put2] by blast
      have below: "\<forall>v<DRAM. tier_probe ts v k = None"
      proof (intro allI impI)
        fix v show "v < DRAM \<Longrightarrow> tier_probe ts v k = None" using h by (cases v) auto
      qed
      consider "ok2" "ok \<and> ts' = snd (EraseFromTier ts2 k DRAM)" | "\<not> ok \<and> ts' = ts"
        using h assms(2) Some put2 r by (cases ok2) (auto simp: ts_Demote_def)
      then show thesis
      proof cases
        case 1
        then show thesis using Some put2 below by (intro moved [of DRAM SSD d ts2]) auto
      qed (use refuse in blast)
    qed
  qed
qed

lemma ts_Erase_effect:
  assumes "ts_inv ts" "ts_Erase ts k = (n, ts')"
  shows "ts_inv ts'"
    and "tier_probe ts' v j = (if j = k then None else tier_probe ts v j)"
    and "ts_access_counts ts' = (ts_access_counts ts)(k := None)" "ts_visited ts' = ts_visited ts - {k}"
    and "ts_capacity_bytes ts' v = ts_capacity_bytes ts v"
    and "n = size_add (size_add (case tier_probe ts HBM k of None \<Rightarrow> 0 | Some d \<Rightarrow> length d)
               (case tier_probe ts DRAM k of None \<Rightarrow> 0 | Some d \<Rightarrow> length d))
               (case tier_probe ts SSD k of None \<Rightarrow> 0 | Some d \<Rightarrow> length d)"
proof -
  obtain n1 ts1 n2 ts2 n3 ts3 where e: "EraseFromTier ts k HBM = (n1, ts1)"
    "EraseFromTier ts1 k DRAM = (n2, ts2)" "EraseFromTier ts2 k SSD = (n3, ts3)"
    by (metis prod.collapse)
  have n: "n = size_add (size_add n1 n2) n3" and ts': "ts' = ts3\<lparr>ts_access_counts := (ts_access_counts ts3)(k := None),
      ts_visited := ts_visited ts3 - {k}\<rparr>"
    using assms(2) e by (simp_all add: ts_Erase_def)
  have inv1: "ts_inv ts1" by (rule EraseFromTier_inv [OF assms(1) e(1)])
  have inv2: "ts_inv ts2" by (rule EraseFromTier_inv [OF inv1 e(2)])
  have inv3: "ts_inv ts3" by (rule EraseFromTier_inv [OF inv2 e(3)])
  note p1 = EraseFromTier_probe [OF assms(1) e(1)] and p2 = EraseFromTier_probe [OF inv1 e(2)]
    and p3 = EraseFromTier_probe [OF inv2 e(3)]
  show "ts_inv ts'" using inv3 ts' by simp
  show "tier_probe ts' v j = (if j = k then None else tier_probe ts v j)"
    using p1 p2 p3 by (cases v) (simp_all add: ts')
  show "ts_access_counts ts' = (ts_access_counts ts)(k := None)" "ts_visited ts' = ts_visited ts - {k}"
    "ts_capacity_bytes ts' v = ts_capacity_bytes ts v"
    by (simp_all add: ts' EraseFromTier_rest [OF e(1)] EraseFromTier_rest [OF e(2)] EraseFromTier_rest [OF e(3)])
  show "n = size_add (size_add (case tier_probe ts HBM k of None \<Rightarrow> 0 | Some d \<Rightarrow> length d)
      (case tier_probe ts DRAM k of None \<Rightarrow> 0 | Some d \<Rightarrow> length d))
      (case tier_probe ts SSD k of None \<Rightarrow> 0 | Some d \<Rightarrow> length d)"
    using tier.erase_freed [OF assms(1) e(1)] tier.erase_freed [OF inv1 e(2)]
      tier.erase_freed [OF inv2 e(3)] p1 p2 n by simp
qed

lemma ts_Get_resident:
  assumes "ts_inv ts" "ts_Get ts k = (r, ts')"
  shows "(\<exists>t. tier_probe ts' t j \<noteq> None) \<longleftrightarrow> (\<exists>t. tier_probe ts t j \<noteq> None)"
  using assms
proof (cases rule: ts_Get_cases)
  case (hit f d p)
  note find = ts_find_Some [OF hit(1)]
  show ?thesis
  proof (cases p)
    case True
    then obtain t where t: "t < f" "\<forall>v j. tier_probe ts' v j = (if j = k \<and> v = f then None
        else if j = k \<and> v = t \<and> tier_probe ts t k = None then Some d else tier_probe ts v j)"
      using hit(9,10) by blast
    show ?thesis
    proof (cases "j = k")
      case True
      have "tier_probe ts' t k \<noteq> None" using t by (cases "tier_probe ts t k") auto
      then show ?thesis using find(1) True by auto
    qed (simp add: t(2))
  qed (use hit(8) in simp)
qed simp

lemma ts_Demote_resident:
  assumes "ts_inv ts" "ts_Demote ts k = (ok, ts')"
  shows "(\<exists>t. tier_probe ts' t j \<noteq> None) \<longleftrightarrow> (\<exists>t. tier_probe ts t j \<noteq> None)"
  using assms
proof (cases rule: ts_Demote_cases)
  case (move u t d)
  show ?thesis
  proof (cases "j = k")
    case True
    have "tier_probe ts' t k \<noteq> None" using move(2,6) by (cases "tier_probe ts t k") auto
    then show ?thesis using move(3) True by auto
  qed (simp add: move(6))
qed simp

lemma coherent_step:
  assumes "coherent payload ts" "tier_probe ts u k = Some d"
    and "\<And>v j. tier_probe ts' v j = (if j = k \<and> v = u then None
           else if j = k \<and> v = t \<and> tier_probe ts t k = None then Some d else tier_probe ts v j)"
  shows "coherent payload ts'"
  using assms(1,2) by (auto simp: coherent_def assms(3))

lemma coherent_Get:
  assumes "ts_inv ts" "coherent payload ts" "ts_Get ts k = (r, ts')"
  shows "coherent payload ts'"
  using assms(1,3)
proof (cases rule: ts_Get_cases)
  case (hit f d p)
  show ?thesis
  proof (cases p)
    case True
    then obtain t where "\<forall>v j. tier_probe ts' v j = (if j = k \<and> v = f then None
        else if j = k \<and> v = t \<and> tier_probe ts t k = None then Some d else tier_probe ts v j)"
      using hit(10) by blast
    then show ?thesis using coherent_step [OF assms(2) ts_find_Some(1) [OF hit(1)]] by blast
  qed (use hit(8) assms(2) in \<open>simp add: coherent_def\<close>)
qed (use assms in simp)

lemma coherent_Demote:
  assumes "ts_inv ts" "coherent payload ts" "ts_Demote ts k = (ok, ts')"
  shows "coherent payload ts'"
  using assms(1,3)
proof (cases rule: ts_Demote_cases)
  case (move u t d)
  then show ?thesis using coherent_step [OF assms(2) move(3)] by blast
qed (use assms in simp)

lemma ts_Put_effect:
  assumes "ts_inv ts" "kv_ok b" "ts_Put ts b hint = (r, ts')"
  shows "ts_inv ts'" "ts_capacity_bytes ts' v = ts_capacity_bytes ts v"
    "ts_access_counts ts' = ts_access_counts ts" "ts_visited ts' = ts_visited ts"
    "tier_probe ts' v j = (if r = Some v \<and> j = kv_id b \<and> tier_probe ts v j = None then Some (kv_data b)
       else tier_probe ts v j)"
proof -
  have all: "ts_inv ts' \<and> ts_capacity_bytes ts' v = ts_capacity_bytes ts v \<and>
    ts_access_counts ts' = ts_access_counts ts \<and> ts_visited ts' = ts_visited ts \<and>
    tier_probe ts' v j = (if r = Some v \<and> j = kv_id b \<and> tier_probe ts v j = None then Some (kv_data b)
       else tier_probe ts v j)"
  proof (cases r)
    case None
    then show ?thesis using ts_Put_None [of ts b hint ts'] assms(1,3) by simp
  next
    case (Some t)
    then have put: "PutToTier ts b t = (True, ts')" using ts_Put_Some [of ts b hint t ts'] assms(3) by simp
    show ?thesis
      using PutToTier_inv [OF assms(1,2) put] PutToTier_rest [OF put] PutToTier_probe [OF assms(1,2) put, of v j] Some
      by auto
  qed
  then show "ts_inv ts'" "ts_capacity_bytes ts' v = ts_capacity_bytes ts v"
    "ts_access_counts ts' = ts_access_counts ts" "ts_visited ts' = ts_visited ts"
    "tier_probe ts' v j = (if r = Some v \<and> j = kv_id b \<and> tier_probe ts v j = None then Some (kv_data b)
       else tier_probe ts v j)"
    by simp_all
qed

lemma ts_ClearVisited_rest [simp]:
  "ts_inv (ts_ClearVisited ts k) = ts_inv ts" "tier_probe (ts_ClearVisited ts k) t = tier_probe ts t"
  "ts_capacity_bytes (ts_ClearVisited ts k) t = ts_capacity_bytes ts t"
  "ts_used_bytes (ts_ClearVisited ts k) t = ts_used_bytes ts t"
  "ts_access_counts (ts_ClearVisited ts k) = ts_access_counts ts"
  "ts_visited (ts_ClearVisited ts k) = ts_visited ts - {k}"
  by (cases t; simp add: ts_ClearVisited_def ts_inv_def tier_probe_eqs ts_capacity_bytes_def ts_used_bytes_def)+

lemma ts_step_inv:
  assumes "ts_inv ts" "op_ok payload x"
  shows "ts_inv (ts_step ts x)" "ts_capacity_bytes (ts_step ts x) t = ts_capacity_bytes ts t"
proof -
  have all: "ts_inv (ts_step ts x) \<and> ts_capacity_bytes (ts_step ts x) t = ts_capacity_bytes ts t"
  proof (cases x)
    case (TPut b hint)
    then show ?thesis
      using assms ts_Put_effect(1,2) [OF assms(1), of b hint "fst (ts_Put ts b hint)"] by simp
  next
    case (TGet k)
    obtain r ts' where g: "ts_Get ts k = (r, ts')" by force
    from assms(1) g show ?thesis using TGet g assms(1) by (cases rule: ts_Get_cases) simp_all
  next
    case (TDemote k)
    obtain ok ts' where d: "ts_Demote ts k = (ok, ts')" by force
    from assms(1) d show ?thesis using TDemote d assms(1) by (cases rule: ts_Demote_cases) simp_all
  next
    case (TErase k)
    then show ?thesis
      using ts_Erase_effect(1,5) [OF assms(1), of k "fst (ts_Erase ts k)"] by simp
  qed (use assms in simp)
  then show "ts_inv (ts_step ts x)" "ts_capacity_bytes (ts_step ts x) t = ts_capacity_bytes ts t" by simp_all
qed

lemma ts_step_coherent:
  assumes "ts_inv ts" "coherent payload ts" "op_ok payload x"
  shows "coherent payload (ts_step ts x)"
proof (cases x)
  case (TPut b hint)
  then show ?thesis
    using assms ts_Put_effect(5) [OF assms(1), of b hint "fst (ts_Put ts b hint)"]
    by (auto simp: coherent_def split: if_splits)
next
  case (TErase k)
  then show ?thesis
    using assms ts_Erase_effect(2) [OF assms(1), of k "fst (ts_Erase ts k)"] by (auto simp: coherent_def)
next
  case (TGet k)
  then show ?thesis using coherent_Get [OF assms(1,2), of k "fst (ts_Get ts k)"] by simp
next
  case (TDemote k)
  then show ?thesis using coherent_Demote [OF assms(1,2), of k "fst (ts_Demote ts k)"] by simp
qed (use assms in \<open>simp add: coherent_def\<close>)

lemma books_ok_resident:
  "books_ok ts \<longleftrightarrow> (\<forall>k. (ts_access_counts ts k \<noteq> None \<or> k \<in> ts_visited ts) \<longrightarrow> (\<exists>t. tier_probe ts t k \<noteq> None))"
  unfolding books_ok_def using ts_content_dom [of ts] by (auto simp: subset_iff dom_def)

lemma ts_step_books:
  assumes "ts_inv ts" "books_ok ts" "op_ok payload x"
  shows "books_ok (ts_step ts x)"
proof (cases x)
  case (TPut b hint)
  then have "ts_access_counts (ts_step ts x) = ts_access_counts ts" "ts_visited (ts_step ts x) = ts_visited ts"
    "tier_probe ts v j \<noteq> None \<Longrightarrow> tier_probe (ts_step ts x) v j \<noteq> None" for v j
    using assms ts_Put_effect(3-5) [OF assms(1), of b hint "fst (ts_Put ts b hint)"] by auto
  then show ?thesis using assms(2) unfolding books_ok_resident by metis
next
  case (TGet k)
  obtain r ts' where g: "ts_Get ts k = (r, ts')" by force
  note res = ts_Get_resident [OF assms(1) g]
  from assms(1) g show ?thesis
  proof (cases rule: ts_Get_cases)
    case (hit f d p)
    have "\<exists>t. tier_probe ts t k \<noteq> None" using ts_find_Some(1) [OF hit(1)] by blast
    then have "books_ok ts'"
      unfolding books_ok_resident res hit(6,7) using assms(2) by (simp add: books_ok_resident)
    then show ?thesis using TGet g by simp
  qed (use TGet g assms(2) in simp)
next
  case (TDemote k)
  obtain ok ts' where d: "ts_Demote ts k = (ok, ts')" by force
  note res = ts_Demote_resident [OF assms(1) d]
  from assms(1) d show ?thesis
  proof (cases rule: ts_Demote_cases)
    case (move u t d')
    have "books_ok ts'"
      unfolding books_ok_resident res move(7,8) using assms(2) by (simp add: books_ok_resident)
    then show ?thesis using TDemote d by simp
  qed (use TDemote d assms(2) in simp)
next
  case (TErase k)
  then show ?thesis
    using assms(2) ts_Erase_effect(2,3,4) [OF assms(1), of k "fst (ts_Erase ts k)"]
    by (auto simp: books_ok_resident)
next
  case (TClearVisited k)
  then show ?thesis using assms(2) by (auto simp: books_ok_resident)
qed

lemma ts_run_keeps:
  assumes "ts_inv ts" "coherent payload ts" "books_ok ts" "\<forall>x\<in>set xs. op_ok payload x"
  shows "ts_inv (ts_run ts xs) \<and> coherent payload (ts_run ts xs) \<and> books_ok (ts_run ts xs) \<and>
    (\<forall>t. ts_capacity_bytes (ts_run ts xs) t = ts_capacity_bytes ts t)"
  using assms
proof (induction xs arbitrary: ts)
  case (Cons x xs)
  have "op_ok payload x" using Cons.prems(4) by simp
  note s = ts_step_inv [OF Cons.prems(1) this] ts_step_coherent [OF Cons.prems(1,2) this]
    ts_step_books [OF Cons.prems(1,3) this]
  show ?case using Cons.IH [OF s(1,3,4)] Cons.prems(4) s(2) by (simp add: ts_run_def)
qed (simp add: ts_run_def)

lemma ts_step_refines:
  assumes "ts_inv ts" "coherent payload ts" "op_ok payload x"
  shows "ts_content (ts_step ts x) = spec_step (ts_accepts ts x) x (ts_content ts)"
proof -
  note c = coherent_content [OF assms(2)] coherent_content [OF ts_step_coherent [OF assms]]
  show ?thesis
  proof (cases x)
    case (TPut b hint)
    obtain r ts' where put: "ts_Put ts b hint = (r, ts')" by force
    have b: "kv_ok b" "kv_data b = payload (kv_id b)" using assms(3) TPut by simp_all
    have "(\<exists>t. tier_probe ts' t k \<noteq> None) \<longleftrightarrow> (\<exists>t. tier_probe ts t k \<noteq> None) \<or> r \<noteq> None \<and> k = kv_id b" for k
      using ts_Put_effect(5) [OF assms(1) b(1) put] by auto
    then show ?thesis using TPut put c b(2) by (auto simp: fun_eq_iff)
  next
    case (TGet k)
    then show ?thesis using ts_Get_resident [OF assms(1), of k "fst (ts_Get ts k)"] c
      by (simp add: fun_eq_iff)
  next
    case (TDemote k)
    then show ?thesis using ts_Demote_resident [OF assms(1), of k "fst (ts_Demote ts k)"] c
      by (simp add: fun_eq_iff)
  next
    case (TErase k)
    then show ?thesis
      using ts_Erase_effect(2) [OF assms(1), of k "fst (ts_Erase ts k)"] c by (simp add: fun_eq_iff)
  next
    case (TClearVisited k)
    then show ?thesis using c by (simp add: fun_eq_iff)
  qed
qed

lemma bs_Get_new [simp]: "bs_Get (bs_new t n) = Map.empty"
  by (simp add: bs_Get_def bs_new_def fun_eq_iff)

lemma ts_new_fresh:
  assumes "cfg_ok cfg"
  shows "\<exists>ts. ts_new is_directory (\<lambda>_. []) env_ok cfg = Inr ts \<and> ts_inv ts \<and>
    (\<forall>t. tier_probe ts t = Map.empty) \<and> ts_access_counts ts = Map.empty \<and> ts_visited ts = {} \<and>
    ts_capacity_bytes ts HBM = tc_hbm_bytes cfg \<and> ts_capacity_bytes ts DRAM = tc_dram_bytes cfg"
proof -
  let ?hbm = "if tc_hbm_bytes cfg > 0 then Some (bs_new HBM (tc_hbm_bytes cfg)) else None"
  let ?ts = "\<lambda>ssd. \<lparr>ts_cfg = cfg, ts_hbm = ?hbm, ts_dram = Some (bs_new DRAM (tc_dram_bytes cfg)),
    ts_ssd = ssd, ts_access_counts = \<lambda>_. None, ts_visited = {}\<rparr>"
  have ok: "ts_inv (?ts ssd) \<and> (\<forall>t. tier_probe (?ts ssd) t = Map.empty) \<and>
      ts_capacity_bytes (?ts ssd) HBM = tc_hbm_bytes cfg \<and> ts_capacity_bytes (?ts ssd) DRAM = tc_dram_bytes cfg"
    if "opt_inv ssd_inv ssd" "opt_content ssd_content ssd = Map.empty" for ssd
  proof (intro conjI allI)
    show "ts_inv (?ts ssd)"
      using that(1) assms bs_inv_new by (simp add: ts_inv_def cfg_ok_def bs_new_def)
    show "tier_probe (?ts ssd) t = Map.empty" for t
      using that(2) by (cases t) (simp_all add: tier_probe_eqs)
  qed (simp_all add: ts_capacity_bytes_def opt_size_def bs_new_def)
  show ?thesis
  proof (cases "tc_ssd_bytes cfg > 0 \<and> tc_ssd_path cfg \<noteq> []")
    case True
    then have "ssd_params (tc_ssd_bytes cfg) (tc_ssd_slot_bytes cfg)" using assms by (simp add: cfg_ok_def)
    then obtain s where s: "ssd_open env_ok [] (tc_ssd_bytes cfg) (tc_ssd_slot_bytes cfg) = Inr s"
      "ssd_inv s" "ssd_content s = Map.empty"
      by (rule ssd_fresh)
    then have "ts_new is_directory (\<lambda>_. []) env_ok cfg = Inr (?ts (Some s))"
      using True by (simp add: ts_new_def Let_def)
    then show ?thesis using ok [of "Some s"] s by auto
  next
    case False
    then have "ts_new is_directory (\<lambda>_. []) env_ok cfg = Inr (?ts None)"
      by (auto simp: ts_new_def Let_def)
    then show ?thesis using ok [of None] by auto
  qed
qed

lemma fresh_store:
  assumes "cfg_ok cfg" "ts_new is_directory (\<lambda>_. []) env_ok cfg = Inr ts"
  shows "ts_inv ts" "coherent payload ts" "books_ok ts" "ts_content ts = Map.empty"
proof -
  have ts: "ts_inv ts" "tier_probe ts t = Map.empty" "ts_access_counts ts = Map.empty" "ts_visited ts = {}" for t
    using ts_new_fresh [OF assms(1), of is_directory] assms(2) by auto
  show "ts_inv ts" "coherent payload ts" "books_ok ts" "ts_content ts = Map.empty"
    by (simp_all add: ts coherent_def books_ok_resident ts_content_def fun_eq_iff)
qed

lemma sample_store:
  "0 < hbm \<Longrightarrow> ts_new is_directory (\<lambda>_. []) env_ok (sample_cfg hbm dram) = Inr (sample_store hbm dram)"
  "cfg_ok (sample_cfg hbm dram) \<longleftrightarrow> hbm \<le> 2 ^ 63 \<and> dram \<le> 2 ^ 63"
  by (simp_all add: ts_new_def sample_cfg_def sample_store_def cfg_ok_def)

lemma sample_44:
  "cfg_ok (sample_cfg 4 4)" "ts_new (\<lambda>_. False) (\<lambda>_. []) env_ok (sample_cfg 4 4) = Inr (sample_store 4 4)"
  by (simp_all add: sample_store)

lemma sample_run:
  assumes "\<forall>x\<in>set xs. op_ok (\<lambda>_. [7, 8]) x"
  shows "ts_inv (ts_run (sample_store 4 4) xs)" "coherent (\<lambda>_. [7, 8]) (ts_run (sample_store 4 4) xs)"
  using ts_run_keeps [OF fresh_store(1-3) [OF sample_44] assms] by blast+

lemmas sample_eval = ts_run_def ts_Put_def kFallthrough_def PutToTier_def EraseFromTier_def opt_put_def
  opt_erase_def bs_Put_def bs_Get_def bs_Erase_def bs_new_def size_add_def size_sub_def umap_emplace_def
  umap_erase_def sample_store_def sample_cfg_def ts_Get_def ts_find_def probe_next_def tier_probe_def
  bump_access_def promote_def promo_target_def moved_block_def ts_Demote_def access_count_for_testing_def

lemma ts_Get_exact:
  assumes "ts_inv ts" "coherent payload ts" "ts_Get ts k = (r, ts')"
  shows "r = None \<longleftrightarrow> ts_content ts k = None \<or> payload k = [] \<and> tier_probe ts SSD k \<noteq> None"
    and "r = Some res \<Longrightarrow> gr_data res = payload k \<and> tier_probe ts (gr_tier_found res) k = Some (payload k) \<and>
      (payload k \<noteq> [] \<longrightarrow> (\<forall>t<gr_tier_found res. tier_probe ts t k = None))"
    and "ts_content ts' = ts_content ts"
proof -
  have co: "tier_probe ts t k = Some d \<Longrightarrow> d = payload k" for t d
    using assms(2) by (auto simp: coherent_def)
  show "r = None \<longleftrightarrow> ts_content ts k = None \<or> payload k = [] \<and> tier_probe ts SSD k \<noteq> None"
  proof -
    have "r = None \<longleftrightarrow> ts_find ts k = None"
      using assms(1,3) by (cases rule: ts_Get_cases) auto
    then show ?thesis
      unfolding ts_find_None using co ts_content_dom [of ts k] by fastforce
  qed
  show "ts_content ts' = ts_content ts"
    using ts_step_refines [OF assms(1,2), of "TGet k"] assms(3) by simp
  show "gr_data res = payload k \<and> tier_probe ts (gr_tier_found res) k = Some (payload k) \<and>
      (payload k \<noteq> [] \<longrightarrow> (\<forall>t<gr_tier_found res. tier_probe ts t k = None))" if "r = Some res"
    using assms(1,3)
  proof (cases rule: ts_Get_cases)
    case (hit f d p)
    then have res: "gr_data res = d" "gr_tier_found res = f" using that by auto
    have d: "d = payload k" using co ts_find_Some(1) [OF hit(1)] by blast
    have "tier_probe ts t k = None" if "payload k \<noteq> []" "t < f" for t
      using ts_find_Some(2) [OF hit(1) that(2)] co [of t] that(1) by auto
    then show ?thesis using res d ts_find_Some(1) [OF hit(1)] by simp
  qed (use that in simp)
qed

section \<open>The specification is met\<close>

text \<open>What the tiers hold together is at most what the map holds, tier by tier.\<close>

lemma tier_below_content:
  assumes "ts_inv ts" "coherent payload ts"
  shows "content_size (tier_probe ts t) \<le> content_size (ts_content ts)"
proof -
  have dom: "dom (tier_probe ts u) \<subseteq> dom (ts_content ts)" for u
    using ts_content_dom [of ts] by (auto simp: dom_def)
  have fin: "finite (dom (ts_content ts))"
  proof (rule finite_subset)
    show "dom (ts_content ts) \<subseteq> (\<Union>u. dom (tier_probe ts u))" using ts_content_dom [of ts] by (auto simp: dom_def)
    have all: "(UNIV :: Tier set) = {HBM, DRAM, SSD}" by (auto intro: Tier.exhaust)
    show "finite (\<Union>u. dom (tier_probe ts u))" unfolding all using tier.finite_content [OF assms(1)] by simp
  qed
  have same: "length (the (tier_probe ts t k)) = length (the (ts_content ts k))" if "k \<in> dom (tier_probe ts t)" for k
    using that dom [of t] coherent_content [OF assms(2)] assms(2) by (auto simp: coherent_def)
  have "content_size (tier_probe ts t) = (\<Sum>k\<in>dom (tier_probe ts t). length (the (ts_content ts k)))"
    unfolding content_size_def by (rule sum.cong [OF refl same])
  also have "\<dots> \<le> content_size (ts_content ts)"
    unfolding content_size_def by (rule sum_mono2 [OF fin dom]) simp
  finally show ?thesis .
qed

lemma PutToTier_refuses:
  assumes "ts_inv ts" "kv_ok b" "\<not> fst (PutToTier ts b t)" "t \<noteq> SSD"
  shows "ts_capacity_bytes ts t < ts_used_bytes ts t + length (kv_data b) \<or> t = HBM \<and> ts_hbm ts = None"
proof -
  have full: "bs_capacity_bytes s < bs_used_bytes s + length (kv_data b)" if "bs_inv s" "\<not> fst (bs_Put s b)" for s
    using that(2) bs_put_exact [OF that(1) assms(2)]
    by (cases rule: bs_Put_cases [OF prod.collapse [symmetric], of s b]) auto
  show ?thesis
    using assms(1,3,4) full
    by (cases t) (auto simp: PutToTier_def opt_put_def ts_inv_def ts_capacity_bytes_def ts_used_bytes_def
        opt_size_def split: option.splits prod.splits)
qed

lemma copy_length:
  assumes "ts_inv ts" "tier_probe ts t k = Some d"
  shows "length d \<le> vector_max" "t = SSD \<Longrightarrow> length d < 2 ^ 32"
proof -
  show "length d \<le> vector_max" using moved_ok [OF assms] by (simp add: kv_ok_def)
  show "length d < 2 ^ 32" if t: "t = SSD"
  proof -
    obtain s where s: "ts_ssd ts = Some s" "ssd_inv s" "ssd_content s k = Some d"
      using assms(1) assms(2) [unfolded t tier_probe_eqs] by (cases "ts_ssd ts") (auto simp: ts_inv_def)
    obtain n where n: "umap_find (ss_index s) k = Some n" "d = take (slot_len (ss_mmap s) n) (sl_payload (ss_mmap s ! n))"
      using s(3) by (auto simp: ssd_content_inv [OF s(2)])
    have "length d \<le> ss_slot_payload_bytes s"
      using n ssd_index_slot(2) [OF s(2) n(1)] by (simp add: slot_live_def min_def)
    then show ?thesis using ssd_geometryD(2) [OF ssd_inv_parts(1) [OF s(2)]] by simp
  qed
qed

lemma ts_Erase_bytes:
  assumes "ts_inv ts" "coherent payload ts" "ts_Erase ts k = (n, ts')"
  shows "case ts_content ts k of None \<Rightarrow> n = 0
    | Some d \<Rightarrow> n = length d \<or> n = 2 * length d \<or> n = 3 * length d"
proof -
  let ?len = "\<lambda>t. case tier_probe ts t k of None \<Rightarrow> 0 | Some d \<Rightarrow> length d"
  let ?L = "length (payload k)"
  have co: "tier_probe ts t k = Some d \<Longrightarrow> d = payload k" for t d using assms(2) by (auto simp: coherent_def)
  have len: "?len t = 0 \<or> ?len t = ?L \<and> ?L \<le> vector_max" for t
    using co copy_length(1) [OF assms(1)] by (cases "tier_probe ts t k") auto
  have "?len SSD = 0 \<or> ?L < 2 ^ 32" using co copy_length(2) [OF assms(1), of SSD k] by (cases "tier_probe ts SSD k") auto
  then have "?len HBM + ?len DRAM + ?len SSD < size_mod" using len [of HBM] len [of DRAM] len [of SSD] by auto
  then have n: "n = ?len HBM + ?len DRAM + ?len SSD"
    unfolding ts_Erase_effect(6) [OF assms(1,3)] by (simp add: size_add_exact)
  show ?thesis
  proof (cases "ts_content ts k")
    case None
    then have "tier_probe ts t k = None" for t using ts_content_dom [of ts k] by auto
    then show ?thesis using None n by simp
  next
    case (Some d)
    then have d: "d = payload k" using coherent_content [OF assms(2)] by (auto split: if_splits)
    obtain t where "tier_probe ts t k = Some d" using ts_content_SomeD [OF Some] by blast
    then have "?len t = ?L" using d by simp
    then show ?thesis using Some d n len [of HBM] len [of DRAM] len [of SSD] by (cases t) auto
  qed
qed

lemma ts_Put_meets_spec:
  assumes "ts_inv ts" "coherent payload ts" "op_ok payload (TPut b hint)" "ts_Put ts b hint = (r, ts')"
  shows "map_spec (ts_capacity_bytes ts) (ts_content ts) (TPut b hint) (OutPut r) (ts_content ts')"
proof -
  have b: "kv_ok b" "kv_data b = payload (kv_id b)" using assms(3) by simp_all
  note ref = ts_step_refines [OF assms(1-3)]
  show ?thesis
  proof (cases r)
    case None
    have "ts_capacity_bytes ts t < content_size (ts_content ts) + length (kv_data b)"
      if t: "hint \<le> t" "t \<noteq> SSD" "0 < ts_capacity_bytes ts t" for t
    proof -
      have "\<not> fst (PutToTier ts b t)" using ts_Put_None [of ts b hint ts'] assms(4) None t(1) by blast
      from PutToTier_refuses [OF assms(1) b(1) this t(2)] show ?thesis
        using tier.used_content [OF assms(1), of t] tier_below_content [OF assms(1,2), of t] t(3)
        by (auto simp: ts_capacity_bytes_def opt_size_def)
    qed
    then show ?thesis using ref assms(4) None by simp
  next
    case (Some t)
    have "hint \<le> t" using ts_Put_Some [of ts b hint t ts'] assms(4) Some by blast
    moreover have "ts_content ts' = (ts_content ts)(kv_id b \<mapsto> kv_data b)"
      using ref assms(4) Some b(2) coherent_content [OF assms(2)] by (auto simp: fun_eq_iff)
    ultimately show ?thesis using Some by simp
  qed
qed

lemma ts_step_meets_spec:
  assumes "ts_inv ts" "coherent payload ts" "op_ok payload x"
  shows "map_spec (ts_capacity_bytes ts) (ts_content ts) x (ts_result ts x) (ts_content (ts_step ts x))"
proof -
  note ref = ts_step_refines [OF assms] and c = coherent_content [OF assms(2)]
  show ?thesis
  proof (cases x)
    case (TPut b hint)
    then show ?thesis
      using ts_Put_meets_spec [OF assms(1,2) _ prod.collapse [symmetric], of b hint] assms(3) by simp
  next
    case (TGet k)
    obtain r ts' where get: "ts_Get ts k = (r, ts')" by force
    note g = ts_Get_exact [OF assms(1,2) get]
    have "case r of Some res \<Rightarrow> ts_content ts k = Some (gr_data res)
        | None \<Rightarrow> ts_content ts k = None \<or> ts_content ts k = Some []"
    proof (cases r)
      case None
      then have "ts_content ts k = None \<or> payload k = []" using g(1) by blast
      then show ?thesis using None c [of k] by (auto split: if_splits)
    next
      case (Some res)
      then have "ts_content ts k \<noteq> None" "gr_data res = payload k" using g(1) g(2) [of res] by auto
      then show ?thesis using Some c [of k] by (auto split: if_splits)
    qed
    then show ?thesis using ref TGet get by simp
  next
    case (TDemote k)
    obtain ok ts' where d: "ts_Demote ts k = (ok, ts')" by force
    have "ok \<Longrightarrow> ts_content ts k \<noteq> None"
      using assms(1) d ts_content_dom [of ts k] by (cases rule: ts_Demote_cases) auto
    then show ?thesis using ref TDemote d by simp
  next
    case (TErase k)
    then show ?thesis using ref ts_Erase_bytes [OF assms(1,2) prod.collapse [symmetric], of k] by simp
  qed (use ref in simp)
qed

lemma ts_run_meets_spec:
  assumes "ts_inv ts" "coherent payload ts" "\<forall>x\<in>set xs. op_ok payload x" "\<forall>t. ts_capacity_bytes ts t = cap t"
  shows "map_run cap (ts_content ts) xs (ts_results ts xs) (ts_content (ts_run ts xs))"
  using assms
proof (induction xs arbitrary: ts)
  case (Cons x xs)
  have ok: "op_ok payload x" using Cons.prems(3) by simp
  have cap: "ts_capacity_bytes ts = cap" using Cons.prems(4) by blast
  note s = ts_step_inv [OF Cons.prems(1) ok] ts_step_coherent [OF Cons.prems(1,2) ok]
    ts_step_meets_spec [OF Cons.prems(1,2) ok, unfolded cap]
  have "map_run cap (ts_content (ts_step ts x)) xs (ts_results (ts_step ts x) xs) (ts_content (ts_run (ts_step ts x) xs))"
    using Cons.IH [OF s(1,3)] Cons.prems(3,4) s(2) by simp
  then show ?case using s(4) by (auto simp: ts_run_def)
qed (simp add: ts_run_def)

lemma threshold_above_one: "\<not> (2 :: u32) \<le> 1"
  by (simp add: word_le_nat_alt)

section \<open>Snapshots\<close>

lemma dom_umap_content: "dom (\<lambda>k. map_option g (umap_find m k)) = fst ` set m"
  by (simp add: dom_def flip: dom_map_of_conv_image_fst)

lemma bs_Snapshot_meta:
  assumes "bs_inv s" "order_ok ord"
  shows "snapshot_of (bs_Get s) (bs_Snapshot ord s)"
proof -
  have ok: "umap_ok (bs_blocks s)" using assms(1) by (simp add: bs_inv_def)
  have ids: "map bm_id (bs_Snapshot ord s) = ord (map fst (bs_blocks s))"
    using map_fst_umap_iter [of ord "bs_blocks s"]
    by (simp add: bs_Snapshot_def comp_def case_prod_unfold)
  have "bs_Get s (bm_id m) \<noteq> None \<and> bm_size_bytes m = length (the (bs_Get s (bm_id m)))"
    if "m \<in> set (bs_Snapshot ord s)" for m
    using that ok by (auto simp: bs_Snapshot_def bs_Get_umap set_umap_iter [OF assms(2) ok] set_umap_find)
  then show ?thesis
    unfolding snapshot_of_def ids
    using ok assms(2) by (simp add: umap_ok_def bs_Get_umap dom_umap_content)
qed

lemma ssd_Snapshot_meta:
  assumes "ssd_inv s" "order_ok ord"
  shows "snapshot_of (ssd_content s) (ssd_Snapshot ord s)"
proof -
  have ok: "umap_ok (ss_index s)" by (rule ssd_inv_parts [OF assms(1)])
  have ids: "map bm_id (ssd_Snapshot ord s) = ord (map fst (ss_index s))"
    using map_fst_umap_iter [of ord "ss_index s"]
    by (simp add: ssd_Snapshot_def comp_def case_prod_unfold Let_def)
  have "ssd_content s (bm_id m) \<noteq> None \<and> bm_size_bytes m = length (the (ssd_content s (bm_id m)))"
    if mem: "m \<in> set (ssd_Snapshot ord s)" for m
  proof -
    obtain k n where kn: "(k, n) \<in> set (ss_index s)" "bm_id m = k" "bm_size_bytes m = slot_len (ss_mmap s) n"
      using mem by (auto simp: ssd_Snapshot_def set_umap_iter [OF assms(2) ok] Let_def)
    have "umap_find (ss_index s) k = Some n" using kn(1) ok by (simp add: set_umap_find)
    then show ?thesis
      using ssd_len_take [OF assms(1) kn(1)] kn(2,3) by (simp add: ssd_content_inv [OF assms(1)])
  qed
  then show ?thesis
    unfolding snapshot_of_def ids
    using ok assms(2) by (simp add: umap_ok_def ssd_content_inv [OF assms(1)] dom_umap_content)
qed

lemma snapshot_of_overlay:
  "snapshot_of c ms \<Longrightarrow> snapshot_of c (map (\<lambda>m. m\<lparr>bm_visited := v m\<rparr>) ms)"
  by (simp add: snapshot_of_def comp_def)

lemma ts_Snapshot_meta:
  assumes "ts_inv ts" "order_ok ord"
  shows "snapshot_of (tier_probe ts t) (ts_Snapshot ord ts t)"
proof -
  have none: "snapshot_of Map.empty []" by (simp add: snapshot_of_def)
  show ?thesis
  proof (cases t)
    case HBM
    show ?thesis
    proof (cases "ts_hbm ts")
      case (Some s)
      then show ?thesis
        using HBM assms(1) snapshot_of_overlay [OF bs_Snapshot_meta [OF _ assms(2), of s]]
        by (simp add: ts_Snapshot_def tier_probe_eqs ts_inv_alt)
    qed (simp add: HBM ts_Snapshot_def tier_probe_eqs none)
  next
    case DRAM
    show ?thesis
    proof (cases "ts_dram ts")
      case (Some s)
      then show ?thesis
        using DRAM assms(1) snapshot_of_overlay [OF bs_Snapshot_meta [OF _ assms(2), of s]]
        by (simp add: ts_Snapshot_def tier_probe_eqs ts_inv_alt)
    qed (simp add: DRAM ts_Snapshot_def tier_probe_eqs none)
  next
    case SSD
    show ?thesis
    proof (cases "ts_ssd ts")
      case (Some s)
      then show ?thesis
        using SSD assms(1) snapshot_of_overlay [OF ssd_Snapshot_meta [OF _ assms(2), of s]]
        by (simp add: ts_Snapshot_def tier_probe_eqs ts_inv_alt)
    qed (simp add: SSD ts_Snapshot_def tier_probe_eqs none)
  qed
qed

lemma ts_Snapshot_visited:
  "m \<in> set (ts_Snapshot ord ts t) \<Longrightarrow> bm_visited m \<longleftrightarrow> bm_id m \<in> ts_visited ts"
  by (auto simp: ts_Snapshot_def Let_def)

lemma snapshot_sizes:
  assumes "snapshot_of c ms"
  shows "sum_list (map bm_size_bytes ms) = content_size c"
proof -
  have "sum_list (map bm_size_bytes ms) = sum_list (map (\<lambda>k. length (the (c k))) (map bm_id ms))"
    using assms by (auto simp: snapshot_of_def intro!: arg_cong [where f = sum_list])
  also have "\<dots> = (\<Sum>k\<in>set (map bm_id ms). length (the (c k)))"
    using assms by (intro sum_list_distinct_conv_sum_set) (simp add: snapshot_of_def)
  finally show ?thesis using assms by (simp add: snapshot_of_def content_size_def)
qed

section \<open>Properties\<close>



text \<open>
  Along such a run the byte counter of every tier equals the size of what the tier holds
  and stays within the capacity the tier had at start-up, the access counters and visited
  bits belong to resident blocks only, and every \<open>Get\<close> that hits returns the bytes the
  identity names.
\<close>

theorem ts_run_safe:
  assumes "cfg_ok cfg" "ts_new is_directory (\<lambda>_. []) env_ok cfg = Inr ts"
    and "\<forall>x\<in>set xs. op_ok payload x"
  shows "ts_used_bytes (ts_run ts xs) t = content_size (tier_probe (ts_run ts xs) t) \<and>
    ts_used_bytes (ts_run ts xs) t \<le> ts_capacity_bytes ts t \<and> books_ok (ts_run ts xs) \<and>
    (\<forall>res. fst (ts_Get (ts_run ts xs) k) = Some res \<longrightarrow> gr_data res = payload k)"
proof -
  note f = fresh_store [OF assms(1,2)]
  have run: "ts_inv (ts_run ts xs)" "coherent payload (ts_run ts xs)" "books_ok (ts_run ts xs)"
    "ts_capacity_bytes (ts_run ts xs) t = ts_capacity_bytes ts t"
    using ts_run_keeps [OF f(1,2,3) assms(3)] by simp_all
  have "\<forall>res. fst (ts_Get (ts_run ts xs) k) = Some res \<longrightarrow> gr_data res = payload k"
    using ts_Get_exact(2) [OF run(1,2) prod.collapse [symmetric]] by blast
  then show ?thesis
    using tier.used_content [OF run(1), of t] tier.used_capacity [OF run(1), of t] run(3,4) by simp
qed

theorem ts_run_safe_witness:
  "ts_used_bytes (ts_run (sample_store 4 4) [TPut (sample_block 1 [7, 8]) HBM, TGet (sample_id 1)]) HBM \<le> 4"
proof -
  have cap: "ts_capacity_bytes (sample_store 4 4) HBM = 4"
    by (simp add: ts_capacity_bytes_def sample_store_def opt_size_def bs_new_def)
  have "\<forall>x\<in>set [TPut (sample_block 1 [7, 8]) HBM, TGet (sample_id 1)]. op_ok (\<lambda>_. [7, 8]) x" by simp
  from ts_run_safe [OF sample_44 this, of HBM]
  show ?thesis unfolding cap by blast
qed

text \<open>
  C32. The exact result of \<open>Get\<close>: it misses when no tier holds the block, and also when the
  payload is empty and a copy sits on the SSD; otherwise it returns the payload from the
  fastest tier that holds it.  The logical content never changes.
\<close>

theorem ts_Get_returns:
  assumes "ts_inv ts" "coherent payload ts" "ts_Get ts k = (r, ts')"
  shows "(r = None \<longleftrightarrow> ts_content ts k = None \<or> payload k = [] \<and> tier_probe ts SSD k \<noteq> None) \<and>
    (\<forall>res. r = Some res \<longrightarrow> gr_data res = payload k \<and> tier_probe ts (gr_tier_found res) k = Some (payload k) \<and>
      (payload k \<noteq> [] \<longrightarrow> (\<forall>t<gr_tier_found res. tier_probe ts t k = None))) \<and>
    ts_content ts' = ts_content ts"
  using ts_Get_exact [OF assms] by blast

theorem ts_Get_returns_witness:
  "\<exists>res. fst (ts_Get (ts_run (sample_store 4 4) [TPut (sample_block 1 [7, 8]) HBM]) (sample_id 1)) = Some res \<and>
     gr_data res = [7, 8]"
proof -
  let ?ts = "ts_run (sample_store 4 4) [TPut (sample_block 1 [7, 8]) HBM]"
  note got = ts_Get_returns [OF sample_run prod.collapse [symmetric], of "[TPut (sample_block 1 [7, 8]) HBM]" "sample_id 1"]
  have "ts_content ?ts (sample_id 1) \<noteq> None" by (simp add: sample_eval ts_content_def)
  then obtain res where "fst (ts_Get ?ts (sample_id 1)) = Some res" using got by (auto simp: not_None_eq)
  then show ?thesis using got by (intro exI [of _ res]) simp
qed

text \<open>
  \<open>Put\<close> places the block in the first tier, from the hinted one downwards, that accepts
  it, never in a faster tier than the hint, and changes nothing else; when it reports
  failure every tier from the hint downwards refused and the store is unchanged.
\<close>

theorem ts_Put_first_fit:
  assumes "ts_inv ts" "kv_ok b" "ts_Put ts b hint = (r, ts')"
  shows "case r of
      None \<Rightarrow> ts' = ts \<and> (\<forall>u\<ge>hint. \<not> fst (PutToTier ts b u))
    | Some t \<Rightarrow> hint \<le> t \<and> (\<forall>u. hint \<le> u \<and> u < t \<longrightarrow> \<not> fst (PutToTier ts b u)) \<and>
        tier_probe ts' t (kv_id b) \<noteq> None \<and>
        (\<forall>v j. (v, j) \<noteq> (t, kv_id b) \<longrightarrow> tier_probe ts' v j = tier_probe ts v j)"
proof (cases r)
  case None
  then show ?thesis using ts_Put_None [of ts b hint ts'] assms(3) by simp
next
  case (Some t)
  then show ?thesis
    using ts_Put_Some [of ts b hint t ts'] assms(3) ts_Put_effect(5) [OF assms] by auto
qed

theorem ts_Put_first_fit_witness:
  "fst (ts_Put (sample_store 1 4) (sample_block 1 [7, 8]) HBM) = Some DRAM"
proof -
  have inv: "ts_inv (sample_store 1 4)"
    using fresh_store(1) [OF _ sample_store(1), of 1 4] by (simp add: sample_store(2))
  obtain r ts' where put: "ts_Put (sample_store 1 4) (sample_block 1 [7, 8]) HBM = (r, ts')" by force
  have refuse: "\<not> fst (PutToTier (sample_store 1 4) (sample_block 1 [7, 8]) HBM)"
    "fst (PutToTier (sample_store 1 4) (sample_block 1 [7, 8]) DRAM)"
    by (simp_all add: PutToTier_def sample_store_def opt_put_def bs_Put_def bs_new_def size_add_def)
  have "r \<noteq> None" "r \<noteq> Some SSD"
    using ts_Put_first_fit [OF inv _ put] refuse by (auto split: option.splits)
  moreover have "r \<noteq> Some HBM" using ts_Put_Some [of _ _ HBM HBM ts'] put refuse by auto
  ultimately show ?thesis using put by (cases r) (auto intro: Tier.exhaust)
qed

text \<open>
  \<open>Demote\<close> either refuses and leaves the store unchanged, or moves the fastest copy into a
  strictly slower tier; the logical content is the same in both cases.
\<close>

theorem ts_Demote_moves_down:
  assumes "ts_inv ts" "coherent payload ts" "ts_Demote ts k = (ok, ts')"
  shows "ts_content ts' = ts_content ts \<and> (\<not> ok \<longrightarrow> ts' = ts) \<and>
    (ok \<longrightarrow> (\<exists>u t. u < t \<and> tier_probe ts u k \<noteq> None \<and> (\<forall>v<u. tier_probe ts v k = None) \<and>
       tier_probe ts' u k = None \<and> tier_probe ts' t k = Some (payload k)))"
proof (intro conjI impI)
  show "ts_content ts' = ts_content ts"
    using ts_step_refines [OF assms(1,2), of "TDemote k"] assms(3) by simp
  show "ts' = ts" if "\<not> ok" using assms(1,3) by (cases rule: ts_Demote_cases) (use that in auto)
  show "\<exists>u t. u < t \<and> tier_probe ts u k \<noteq> None \<and> (\<forall>v<u. tier_probe ts v k = None) \<and>
      tier_probe ts' u k = None \<and> tier_probe ts' t k = Some (payload k)" if "ok"
    using assms(1,3)
  proof (cases rule: ts_Demote_cases)
    case (move u t d)
    have "tier_probe ts' t k \<noteq> None" using move(2,6) by (cases "tier_probe ts t k") auto
    then have "tier_probe ts' t k = Some (payload k)"
      using coherent_Demote [OF assms] by (auto simp: coherent_def)
    then show ?thesis using move(2-4,6) by (intro exI [of _ u] exI [of _ t]) simp
  qed (use that in simp)
qed

theorem ts_Demote_moves_down_witness:
  "ts_content (snd (ts_Demote (ts_run (sample_store 4 4) [TPut (sample_block 1 [7, 8]) HBM]) (sample_id 1))) =
   ts_content (ts_run (sample_store 4 4) [TPut (sample_block 1 [7, 8]) HBM])"
  using ts_Demote_moves_down [OF sample_run prod.collapse [symmetric], of "[TPut (sample_block 1 [7, 8]) HBM]" "sample_id 1"] by simp

text \<open>
  \<open>Erase\<close> removes every copy of the block, its access counter and its visited bit, keeps
  every other block, and returns the payload bytes of all the copies together.
\<close>

theorem ts_Erase_forgets:
  assumes "ts_inv ts" "ts_Erase ts k = (n, ts')"
  shows "ts_content ts' = (ts_content ts)(k := None) \<and> access_count_for_testing ts' k = 0 \<and>
    k \<notin> ts_visited ts' \<and> (ts_used_bytes ts HBM + ts_used_bytes ts DRAM + ts_used_bytes ts SSD < size_mod \<longrightarrow>
      ts_used_bytes ts' HBM + ts_used_bytes ts' DRAM + ts_used_bytes ts' SSD + n =
      ts_used_bytes ts HBM + ts_used_bytes ts DRAM + ts_used_bytes ts SSD)"
proof (intro conjI impI)
  note e = ts_Erase_effect [OF assms]
  show "ts_content ts' = (ts_content ts)(k := None)"
    by (auto simp: ts_content_def e(2) fun_eq_iff split: option.splits)
  show "access_count_for_testing ts' k = 0" "k \<notin> ts_visited ts'"
    by (simp_all add: access_count_for_testing_def e(3,4))
  let ?len = "\<lambda>t. case tier_probe ts t k of None \<Rightarrow> 0 | Some d \<Rightarrow> length d"
  have tier: "ts_used_bytes ts' t + ?len t = ts_used_bytes ts t" for t
  proof -
    obtain m ts1 where m: "EraseFromTier ts k t = (m, ts1)" by force
    have "tier_probe ts1 t = tier_probe ts' t"
      using tier.erase_content [OF assms(1) m] e(2) by (auto simp: fun_eq_iff)
    then have "ts_used_bytes ts1 t = ts_used_bytes ts' t"
      using tier.used_content [OF EraseFromTier_inv [OF assms(1) m], of t] tier.used_content [OF e(1), of t] by simp
    then show ?thesis using tier.used_erase [OF assms(1) m] tier.erase_freed [OF assms(1) m] by simp
  qed
  assume "ts_used_bytes ts HBM + ts_used_bytes ts DRAM + ts_used_bytes ts SSD < size_mod"
  then have "n = ?len HBM + ?len DRAM + ?len SSD"
    unfolding e(6) using tier [of HBM] tier [of DRAM] tier [of SSD] by (simp add: size_add_exact)
  then show "ts_used_bytes ts' HBM + ts_used_bytes ts' DRAM + ts_used_bytes ts' SSD + n =
      ts_used_bytes ts HBM + ts_used_bytes ts DRAM + ts_used_bytes ts SSD"
    using tier [of HBM] tier [of DRAM] tier [of SSD] by linarith
qed

theorem ts_Erase_forgets_witness:
  "ts_content (snd (ts_Erase (ts_run (sample_store 4 4) [TPut (sample_block 1 [7, 8]) HBM]) (sample_id 1))) (sample_id 1) = None"
  using ts_Erase_forgets [OF sample_run(1) prod.collapse [symmetric], of "[TPut (sample_block 1 [7, 8]) HBM]" "sample_id 1"] by simp

text \<open>
  When \<open>Get\<close> promotes: on a hit outside HBM, with promotion enabled and the bumped
  access counter at the threshold, it moves the block exactly one tier up, from SSD to DRAM
  or from DRAM to an HBM tier that exists, if that tier accepts the copy; otherwise the
  copies stay where they are.
\<close>

theorem ts_Get_promotes:
  assumes "ts_inv ts" "ts_find ts k = Some (f, d)" "ts_Get ts k = (Some res, ts')"
  shows "(gr_promoted res \<longleftrightarrow> tc_enable_promotion (ts_cfg ts) \<and>
      tc_promotion_access_threshold (ts_cfg ts) \<le> access_count_for_testing ts k + 1 \<and>
      f \<noteq> HBM \<and> fst (PutToTier ts (moved_block k d (promo_target f)) (promo_target f))) \<and>
    (if gr_promoted res
     then tier_probe ts' f k = None \<and> tier_probe ts' (promo_target f) k \<noteq> None
     else tier_probe ts' = tier_probe ts)"
proof
  have hbm: "fst (PutToTier ts b HBM) \<Longrightarrow> ts_hbm ts \<noteq> None" for b
    by (cases "ts_hbm ts") (auto simp: PutToTier_def opt_put_def)
  have simps: "promo_target SSD = DRAM" "promo_target DRAM = HBM" by (simp_all add: promo_target_def)
  show "gr_promoted res \<longleftrightarrow> tc_enable_promotion (ts_cfg ts) \<and>
      tc_promotion_access_threshold (ts_cfg ts) \<le> access_count_for_testing ts k + 1 \<and>
      f \<noteq> HBM \<and> fst (PutToTier ts (moved_block k d (promo_target f)) (promo_target f))"
    using assms(2,3) hbm
    by (cases f) (auto simp: ts_Get_def bump_access_eq promote_def Let_def books_update_put simps
        split: if_splits prod.splits dest: arg_cong [where f = fst])
  show "if gr_promoted res
     then tier_probe ts' f k = None \<and> tier_probe ts' (promo_target f) k \<noteq> None
     else tier_probe ts' = tier_probe ts"
    using assms(1,3)
    by (cases rule: ts_Get_cases)
      (use assms(2) in \<open>auto dest: less_imp_neq\<close>)
qed

theorem ts_Get_promotes_witness:
  "\<exists>res ts'. ts_Get (ts_run (sample_store 4 4) [TPut (sample_block 1 [7, 8]) DRAM, TGet (sample_id 1)]) (sample_id 1)
     = (Some res, ts') \<and> gr_promoted res \<and> tier_probe ts' DRAM (sample_id 1) = None"
proof -
  let ?ts = "ts_run (sample_store 4 4) [TPut (sample_block 1 [7, 8]) DRAM, TGet (sample_id 1)]"
  have inv: "ts_inv ?ts" by (rule sample_run) simp
  have find: "ts_find ?ts (sample_id 1) = Some (DRAM, [7, 8])"
    by (simp add: sample_eval threshold_above_one)
  have conf: "tc_enable_promotion (ts_cfg ?ts)"
    "tc_promotion_access_threshold (ts_cfg ?ts) \<le> access_count_for_testing ?ts (sample_id 1) + 1"
    "fst (PutToTier ?ts (moved_block (sample_id 1) [7, 8] HBM) HBM)" "promo_target DRAM = HBM"
    by (simp_all add: sample_eval threshold_above_one)
  obtain r ts' where g: "ts_Get ?ts (sample_id 1) = (r, ts')" by force
  from inv g have "r \<noteq> None" by (cases rule: ts_Get_cases) (use find in simp_all)
  then obtain res where get: "ts_Get ?ts (sample_id 1) = (Some res, ts')" using g by auto
  show ?thesis using ts_Get_promotes [OF inv find get] get conf by auto
qed

text \<open>
  \<open>Put\<close> looks for the block only in the tier it tries.  A block that was demoted and is
  inserted again with its original hint is stored twice: the second \<open>Put\<close> reports the hinted
  tier, and both tiers are charged for the same payload.
\<close>

theorem ts_reinsert_duplicates:
  "let b = sample_block 1 [7, 8];
       ts = ts_run (sample_store 4 4) [TPut b HBM, TDemote (kv_id b)];
       (r, ts') = ts_Put ts b HBM
   in r = Some HBM \<and> tier_probe ts DRAM (kv_id b) = Some [7, 8] \<and>
      tier_probe ts' HBM (kv_id b) = Some [7, 8] \<and> tier_probe ts' DRAM (kv_id b) = Some [7, 8] \<and>
      ts_used_bytes ts' HBM = 2 \<and> ts_used_bytes ts' DRAM = 2"
  by (simp add: sample_eval ts_used_bytes_def opt_size_def)

end
