(* ===== verification/Replication.thy ===== *)
theory Replication
  imports Tiered_Store Routing
begin

text \<open>
  The replicator of \<open>cache_server/src/replication.cpp\<close>: the bounded push queue, the worker
  loop, the fan-out fetch, and the re-replication round with its back-pressured sweep.  The
  replicator reads the router and the tiered store of its node; the record \<open>Node\<close> holds the
  three, and the components above extend it.  A push is one call of \<open>KvTransport::Send\<close>,
  whose outcome is a parameter.  Each method is one step here; in particular the sweep's check that
  the queue has room and the pushes that follow it are together, while the code releases the queue's
  mutex in between.  Theory \<open>Worker_Pool\<close> takes the holds of that mutex apart.  Counters for the metrics exporter and debug prints change
  no state that another component reads and are left out.
\<close>

section \<open>Definitions\<close>

record ReplicateTask =
  tk_peer_id :: string
  tk_block :: KvBlock

text \<open>
  The pool state.  \<open>rp_router\<close>, \<open>rp_store\<close> and \<open>rp_transport\<close> say whether the pointer of that
  name is set.
\<close>

record Replicator =
  rp_local_node_id :: string
  rp_router :: bool
  rp_store :: bool
  rp_transport :: bool
  rp_queue :: "ReplicateTask list"
  rp_overflow_drops :: u64
  rp_replicate_attempts :: u64
  rp_replicate_failures :: u64
  rp_rerep_round :: "BlockId list"
  rp_rerep_cursor :: size_t
  rp_rerep_active :: bool

record Node =
  nd_router :: Router
  nd_store :: TieredStore
  nd_replicator :: Replicator

abbreviation kReplicationQueueMax :: nat where
  "kReplicationQueueMax \<equiv> 1024"

abbreviation kReReplicationBatch :: nat where
  "kReReplicationBatch \<equiv> 256"

definition replicator_new :: "string \<Rightarrow> bool \<Rightarrow> bool \<Rightarrow> bool \<Rightarrow> Replicator" where
  "replicator_new local_node_id router store transport =
     \<lparr>rp_local_node_id = local_node_id, rp_router = router, rp_store = store, rp_transport = transport,
      rp_queue = [], rp_overflow_drops = 0, rp_replicate_attempts = 0, rp_replicate_failures = 0,
      rp_rerep_round = [], rp_rerep_cursor = 0, rp_rerep_active = False\<rparr>"

text \<open>
  One turn of a worker: nothing when the queue is empty, else the front task is taken and
  sent.  \<open>send\<close> is the outcome of the transport; an exception counts as a failed send.  The
  first component is the send that was made.
\<close>

definition worker_step ::
  "(string \<Rightarrow> BlockId \<Rightarrow> byte list \<Rightarrow> bool) \<Rightarrow> Replicator \<Rightarrow> ReplicateTask option \<times> Replicator" where
  "worker_step send rp =
     (case rp_queue rp of
        [] \<Rightarrow> (None, rp)
      | task # rest \<Rightarrow>
          let rp1 = rp\<lparr>rp_queue := rest, rp_replicate_attempts := rp_replicate_attempts rp + 1\<rparr>
          in if \<not> rp_transport rp1 then
               (None, rp1\<lparr>rp_replicate_failures := rp_replicate_failures rp1 + 1\<rparr>)
             else if send (tk_peer_id task) (kv_id (tk_block task)) (kv_data (tk_block task)) then (Some task, rp1)
             else (Some task, rp1\<lparr>rp_replicate_failures := rp_replicate_failures rp1 + 1\<rparr>))"

definition enqueue_push :: "KvBlock \<Rightarrow> string \<Rightarrow> Replicator \<Rightarrow> Replicator" where
  "enqueue_push block peer_id rp =
     (if length (rp_queue rp) \<ge> kReplicationQueueMax
      then rp\<lparr>rp_overflow_drops := rp_overflow_drops rp + 1\<rparr>
      else rp\<lparr>rp_queue := rp_queue rp @ [\<lparr>tk_peer_id = peer_id, tk_block = block\<rparr>]\<rparr>)"

definition ReplicateOut :: "'a Node_scheme \<Rightarrow> KvBlock \<Rightarrow> string list \<times> 'a Node_scheme" where
  "ReplicateOut n block =
     (let rp = nd_replicator n
      in if \<not> rp_router rp \<or> \<not> rp_transport rp then ([], n)
         else
           let route = Route (nd_router n) (kv_id block);
               submitted = filter (\<lambda>p. p \<noteq> rp_local_node_id rp) (rr_replicas route)
           in if submitted = [] then (submitted, n)
              else (submitted, n\<lparr>nd_replicator := fold (enqueue_push block) submitted rp\<rparr>))"

text \<open>
  The fan-out fetch.  \<open>answers\<close> are the results of the futures, one per peer, and \<open>polls\<close> the
  rounds of the polling loop before the deadline: for each round, which futures it finds
  ready.  \<open>pending\<close> are the futures that have not been consumed.
\<close>

fun poll_round ::
  "(bool \<times> KvBlock option) list \<Rightarrow> bool list \<Rightarrow> bool \<times> KvBlock option \<times> (bool \<times> KvBlock option) list" where
  "poll_round ((valid, ans) # fs) (ready # rs) =
     (if valid \<and> ready then
        (case ans of
           Some b \<Rightarrow> (True, Some b, (False, ans) # fs)
         | None \<Rightarrow> (let (_, got, fs') = poll_round fs rs in (True, got, (False, ans) # fs')))
      else (let (any, got, fs') = poll_round fs rs in (any, got, (valid, ans) # fs')))"
| "poll_round fs _ = (False, None, fs)"

fun poll_loop :: "(bool \<times> KvBlock option) list \<Rightarrow> bool list list \<Rightarrow> KvBlock option" where
  "poll_loop fs [] = None"
| "poll_loop fs (r # rs) =
     (let (any_ready, got, fs') = poll_round fs r
      in case got of
           Some b \<Rightarrow> Some b
         | None \<Rightarrow> if \<not> any_ready \<and> (\<forall>f\<in>set fs'. \<not> fst f) then None else poll_loop fs' rs)"

definition FetchFromAny ::
  "(string \<Rightarrow> BlockId \<Rightarrow> KvBlock option) \<Rightarrow> bool list list \<Rightarrow> Replicator \<Rightarrow> BlockId \<Rightarrow> string list \<Rightarrow> KvBlock option" where
  "FetchFromAny fetch polls rp i peers =
     (if peers = [] \<or> \<not> rp_transport rp then None
      else poll_loop (map (\<lambda>p. (True, fetch p i)) peers) polls)"

text \<open>The push targets of one block of a re-replication round.\<close>

definition rerep_targets :: "Router \<Rightarrow> string \<Rightarrow> BlockId \<Rightarrow> string list" where
  "rerep_targets router local i =
     (let route = Route router i
      in (if rr_primary route \<noteq> [] \<and> rr_primary route \<noteq> local then [rr_primary route] else []) @
         filter (\<lambda>r. r \<noteq> local) (rr_replicas route))"

function drain_loop :: "Router \<Rightarrow> TieredStore \<Rightarrow> Replicator \<Rightarrow> nat \<Rightarrow> TieredStore \<times> Replicator" where
  "drain_loop router store rp dispatched =
     (if dispatched < kReReplicationBatch \<and> rp_rerep_cursor rp < length (rp_rerep_round rp) then
        let i = rp_rerep_round rp ! rp_rerep_cursor rp;
            targets = rerep_targets router (rp_local_node_id rp) i;
            rp_next = rp\<lparr>rp_rerep_cursor := rp_rerep_cursor rp + 1\<rparr>
        in if targets = [] then drain_loop router store rp_next dispatched
           else if length (rp_queue rp) + length targets > kReplicationQueueMax then (store, rp)
           else
             (case ts_Get store i of
                (None, store1) \<Rightarrow> drain_loop router store1 rp_next dispatched
              | (Some got, store1) \<Rightarrow>
                  let blk = \<lparr>kv_id = i, kv_data = gr_data got, kv_tier = gr_tier_found got, kv_inserted_epoch = 0\<rparr>
                  in drain_loop router store1
                       (rp_next\<lparr>rp_queue := rp_queue rp @ map (\<lambda>p. \<lparr>tk_peer_id = p, tk_block = blk\<rparr>) targets\<rparr>)
                       (dispatched + 1))
      else (store, rp))"
  by pat_completeness auto
termination
  by (relation "measure (\<lambda>(router, store, rp, dispatched). length (rp_rerep_round rp) - rp_rerep_cursor rp)") auto

definition DrainReReplication :: "'a Node_scheme \<Rightarrow> 'a Node_scheme" where
  "DrainReReplication n =
     (let rp = nd_replicator n
      in if \<not> rp_router rp \<or> \<not> rp_transport rp \<or> \<not> rp_store rp then n
         else if \<not> rp_rerep_active rp then n
         else
           let (store, rp1) = drain_loop (nd_router n) (nd_store n) rp 0
           in n\<lparr>nd_store := store,
                nd_replicator :=
                  (if rp_rerep_cursor rp1 \<ge> length (rp_rerep_round rp1) then rp1\<lparr>rp_rerep_active := False\<rparr> else rp1)\<rparr>)"

definition in_route :: "Router \<Rightarrow> string \<Rightarrow> BlockId \<Rightarrow> bool" where
  "in_route router local i =
     (let route = Route router i
      in rr_primary route = local \<or> list_ex (\<lambda>r. r = local) (rr_replicas route))"

definition rerep_candidates :: "BlockId iter_order \<Rightarrow> Router \<Rightarrow> string \<Rightarrow> TieredStore \<Rightarrow> BlockId list" where
  "rerep_candidates ord router local store =
     concat (map (\<lambda>t. filter (in_route router local) (map bm_id (ts_Snapshot ord store t))) [HBM, DRAM, SSD])"

definition TriggerReReplication ::
  "BlockId iter_order \<Rightarrow> 'a Node_scheme \<Rightarrow> string list \<Rightarrow> 'a Node_scheme" where
  "TriggerReReplication ord n lost_peers =
     (let rp = nd_replicator n
      in if \<not> rp_router rp \<or> \<not> rp_transport rp \<or> \<not> rp_store rp then n
         else if lost_peers = [] then n
         else
           let candidates = rerep_candidates ord (nd_router n) (rp_local_node_id rp) (nd_store n)
           in DrainReReplication (n\<lparr>nd_replicator := rp\<lparr>rp_rerep_round := candidates, rp_rerep_cursor := 0,
                rp_rerep_active := (candidates \<noteq> [])\<rparr>\<rparr>))"

text \<open>What a push carries.\<close>

definition push_view :: "ReplicateTask \<Rightarrow> string \<times> BlockId \<times> byte list" where
  "push_view t = (tk_peer_id t, kv_id (tk_block t), kv_data (tk_block t))"

text \<open>
  Several turns of the workers, with the sends they make; the workers emptying the queue; and
  ticks of the sweep thread, each after the workers have emptied the queue.
\<close>

primrec work ::
  "(string \<Rightarrow> BlockId \<Rightarrow> byte list \<Rightarrow> bool) \<Rightarrow> nat \<Rightarrow> Replicator \<Rightarrow> ReplicateTask list \<times> Replicator" where
  "work send 0 rp = ([], rp)"
| "work send (Suc m) rp =
     (let (t, rp1) = worker_step send rp; (ts, rp2) = work send m rp1
      in (case t of None \<Rightarrow> ts | Some x \<Rightarrow> x # ts, rp2))"

definition flush :: "(string \<Rightarrow> BlockId \<Rightarrow> byte list \<Rightarrow> bool) \<Rightarrow> Replicator \<Rightarrow> ReplicateTask list \<times> Replicator" where
  "flush send rp = work send (length (rp_queue rp)) rp"

primrec sweep ::
  "(string \<Rightarrow> BlockId \<Rightarrow> byte list \<Rightarrow> bool) \<Rightarrow> nat \<Rightarrow> Node \<Rightarrow> ReplicateTask list \<times> Node" where
  "sweep send 0 n = ([], n)"
| "sweep send (Suc k) n =
     (let (sent, rp) = flush send (nd_replicator n);
          (more, n') = sweep send k (DrainReReplication (n\<lparr>nd_replicator := rp\<rparr>))
      in (sent @ more, n'))"

text \<open>The invariant of the pool, and the pushes that one block of a round needs.\<close>

definition rep_inv :: "Replicator \<Rightarrow> bool" where
  "rep_inv rp \<longleftrightarrow> length (rp_queue rp) \<le> kReplicationQueueMax \<and>
     rp_rerep_cursor rp \<le> length (rp_rerep_round rp) \<and>
     (rp_rerep_active rp \<longrightarrow> rp_rerep_cursor rp < length (rp_rerep_round rp))"

text \<open>All three pointers are set, as \<open>LetheCache\<close> sets them.\<close>

definition wired :: "Replicator \<Rightarrow> bool" where
  "wired rp \<longleftrightarrow> rp_router rp \<and> rp_store rp \<and> rp_transport rp"

text \<open>
  The content that \<open>Get\<close> shows: the logical content except for an empty payload that has a copy
  on the SSD, which \<open>Get\<close> misses.
\<close>

definition findable :: "TieredStore \<Rightarrow> content" where
  "findable ts = (\<lambda>k. map_option gr_data (fst (ts_Get ts k)))"

definition block_pushes :: "Router \<Rightarrow> string \<Rightarrow> content \<Rightarrow> BlockId \<Rightarrow> (string \<times> BlockId \<times> byte list) list" where
  "block_pushes router local m i =
     (case m i of None \<Rightarrow> [] | Some d \<Rightarrow> map (\<lambda>p. (p, i, d)) (rerep_targets router local i))"

text \<open>
  A node for concrete runs: one peer besides the local one, one block in DRAM, and an active
  round for that block.
\<close>

definition sample_node :: Node where
  "sample_node = \<lparr>nd_router = SetPeers (sort_key re_hash) sample_digest (sample_router ''a'' 2) [''a'', ''b''],
     nd_store = ts_run (sample_store 4 4) [TPut (sample_block 1 [7, 8]) DRAM],
     nd_replicator = (replicator_new ''a'' True True True)
       \<lparr>rp_rerep_round := [sample_id 1], rp_rerep_active := True\<rparr>\<rparr>"

text \<open>The steps of the replicator, with the router and the store as they are.\<close>

inductive rep_step :: "Node \<Rightarrow> Node \<Rightarrow> bool" where
  worker: "rep_step n (n\<lparr>nd_replicator := snd (worker_step send (nd_replicator n))\<rparr>)"
| out: "rep_step n (snd (ReplicateOut n b))"
| drain: "rep_step n (DrainReReplication n)"
| trigger: "rep_step n (TriggerReReplication ord n lost)"
| store: "rep_step n (n\<lparr>nd_store := st\<rparr>)"
| router: "rep_step n (n\<lparr>nd_router := rt\<rparr>)"

section \<open>Lemmas\<close>

declare drain_loop.simps [simp del]

lemma worker_step_rest [simp]:
  "rp_queue (snd (worker_step send rp)) = tl (rp_queue rp)"
  "rp_rerep_round (snd (worker_step send rp)) = rp_rerep_round rp"
  "rp_rerep_cursor (snd (worker_step send rp)) = rp_rerep_cursor rp"
  "rp_rerep_active (snd (worker_step send rp)) = rp_rerep_active rp"
  "rp_local_node_id (snd (worker_step send rp)) = rp_local_node_id rp"
  "rp_router (snd (worker_step send rp)) = rp_router rp"
  "rp_store (snd (worker_step send rp)) = rp_store rp"
  "rp_transport (snd (worker_step send rp)) = rp_transport rp"
  by (simp_all add: worker_step_def Let_def split: list.splits)

lemma work_rest:
  "work send m rp = (ts, rp') \<Longrightarrow>
    rp_queue rp' = drop m (rp_queue rp) \<and> rp_rerep_round rp' = rp_rerep_round rp \<and>
    rp_rerep_cursor rp' = rp_rerep_cursor rp \<and> rp_rerep_active rp' = rp_rerep_active rp \<and>
    rp_local_node_id rp' = rp_local_node_id rp \<and> rp_router rp' = rp_router rp \<and> rp_store rp' = rp_store rp \<and>
    rp_transport rp' = rp_transport rp \<and> (rp_transport rp \<longrightarrow> ts = take m (rp_queue rp))"
proof (induction m arbitrary: rp ts)
  case (Suc m)
  obtain t rp1 where one: "worker_step send rp = (t, rp1)" by force
  obtain ts1 where rest: "work send m rp1 = (ts1, rp')" and ts: "ts = (case t of None \<Rightarrow> ts1 | Some x \<Rightarrow> x # ts1)"
    using Suc.prems one by (auto simp: Let_def split: prod.splits)
  have front: "rp_transport rp \<longrightarrow> t = (case rp_queue rp of [] \<Rightarrow> None | x # _ \<Rightarrow> Some x)"
    using one by (auto simp: worker_step_def Let_def split: list.splits if_splits)
  have rp1: "rp1 = snd (worker_step send rp)" using one by simp
  show ?case
    using Suc.IH [OF rest] front ts unfolding rp1
    by (cases "rp_queue rp") (simp_all add: drop_Suc)
qed simp

lemma flush_rest:
  assumes "flush send rp = (ts, rp')"
  shows "rp_queue rp' = []" "rp_rerep_round rp' = rp_rerep_round rp" "rp_rerep_cursor rp' = rp_rerep_cursor rp"
    "rp_rerep_active rp' = rp_rerep_active rp" "rp_local_node_id rp' = rp_local_node_id rp"
    "rp_router rp' = rp_router rp" "rp_store rp' = rp_store rp" "rp_transport rp' = rp_transport rp"
    "rp_transport rp \<Longrightarrow> ts = rp_queue rp"
  using work_rest [OF assms [unfolded flush_def]] by simp_all

text \<open>The pushes that \<open>ReplicateOut\<close> queues.\<close>

lemma fold_enqueue:
  assumes "length (rp_queue rp) \<le> kReplicationQueueMax"
  shows "fold (enqueue_push b) ps rp =
    rp\<lparr>rp_queue := rp_queue rp @ map (\<lambda>p. \<lparr>tk_peer_id = p, tk_block = b\<rparr>)
         (take (kReplicationQueueMax - length (rp_queue rp)) ps),
       rp_overflow_drops := rp_overflow_drops rp + of_nat (length ps - (kReplicationQueueMax - length (rp_queue rp)))\<rparr>"
  using assms
proof (induction ps arbitrary: rp)
  case (Cons p ps)
  show ?case
  proof (cases "length (rp_queue rp) = kReplicationQueueMax")
    case True
    then show ?thesis using Cons.IH [of "enqueue_push b p rp"] by (simp add: enqueue_push_def)
  next
    case False
    then have lt: "length (rp_queue rp) < kReplicationQueueMax" using Cons.prems by simp
    then obtain m where m: "kReplicationQueueMax - length (rp_queue rp) = Suc m"
      by (metis Suc_diff_Suc)
    then have "kReplicationQueueMax - Suc (length (rp_queue rp)) = m" by simp
    then show ?thesis using Cons.IH [of "enqueue_push b p rp"] lt m by (simp add: enqueue_push_def)
  qed
qed simp

text \<open>One turn of the sweep's loop.\<close>

lemma drain_loop_cases:
  assumes "drain_loop rt st rp disp = (st', rp')"
  obtains (finished) "\<not> (disp < kReReplicationBatch \<and> rp_rerep_cursor rp < length (rp_rerep_round rp))"
      "st' = st" "rp' = rp"
    | (blocked) "disp < kReReplicationBatch" "rp_rerep_cursor rp < length (rp_rerep_round rp)"
      "length (rp_queue rp) + length (rerep_targets rt (rp_local_node_id rp)
         (rp_rerep_round rp ! rp_rerep_cursor rp)) > kReplicationQueueMax" "st' = st" "rp' = rp"
    | (skip) st1 where "disp < kReReplicationBatch" "rp_rerep_cursor rp < length (rp_rerep_round rp)"
      "rerep_targets rt (rp_local_node_id rp) (rp_rerep_round rp ! rp_rerep_cursor rp) = [] \<and> st1 = st \<or>
       ts_Get st (rp_rerep_round rp ! rp_rerep_cursor rp) = (None, st1)"
      "drain_loop rt st1 (rp\<lparr>rp_rerep_cursor := rp_rerep_cursor rp + 1\<rparr>) disp = (st', rp')"
    | (push) st1 got ts where "disp < kReReplicationBatch" "rp_rerep_cursor rp < length (rp_rerep_round rp)"
      "ts_Get st (rp_rerep_round rp ! rp_rerep_cursor rp) = (Some got, st1)"
      "length (rp_queue rp) + length ts \<le> kReplicationQueueMax"
      "map push_view ts = map (\<lambda>p. (p, rp_rerep_round rp ! rp_rerep_cursor rp, gr_data got))
         (rerep_targets rt (rp_local_node_id rp) (rp_rerep_round rp ! rp_rerep_cursor rp))"
      "drain_loop rt st1 (rp\<lparr>rp_rerep_cursor := rp_rerep_cursor rp + 1, rp_queue := rp_queue rp @ ts\<rparr>) (disp + 1)
         = (st', rp')"
proof (cases "disp < kReReplicationBatch \<and> rp_rerep_cursor rp < length (rp_rerep_round rp)")
  case False
  then have "st' = st \<and> rp' = rp" using assms by (subst (asm) drain_loop.simps) auto
  then show thesis using finished False by blast
next
  case True
  define i where "i = rp_rerep_round rp ! rp_rerep_cursor rp"
  define tg where "tg = rerep_targets rt (rp_local_node_id rp) i"
  have unroll: "(if tg = [] then drain_loop rt st (rp\<lparr>rp_rerep_cursor := rp_rerep_cursor rp + 1\<rparr>) disp
      else if length (rp_queue rp) + length tg > kReplicationQueueMax then (st, rp)
      else (case ts_Get st i of
          (None, st1) \<Rightarrow> drain_loop rt st1 (rp\<lparr>rp_rerep_cursor := rp_rerep_cursor rp + 1\<rparr>) disp
        | (Some got, st1) \<Rightarrow> drain_loop rt st1 (rp\<lparr>rp_rerep_cursor := rp_rerep_cursor rp + 1,
            rp_queue := rp_queue rp @ map (\<lambda>p. \<lparr>tk_peer_id = p, tk_block = \<lparr>kv_id = i, kv_data = gr_data got,
              kv_tier = gr_tier_found got, kv_inserted_epoch = 0\<rparr>\<rparr>) tg\<rparr>) (disp + 1))) = (st', rp')"
    using assms True unfolding drain_loop.simps [of rt st rp disp] Let_def i_def tg_def by simp
  obtain g st1 where g: "ts_Get st i = (g, st1)" by force
  note True' = conjunct1 [OF True] conjunct2 [OF True]
  consider "tg = []" | "tg \<noteq> []" "length (rp_queue rp) + length tg > kReplicationQueueMax"
    | "tg \<noteq> []" "\<not> length (rp_queue rp) + length tg > kReplicationQueueMax" "g = None"
    | got where "tg \<noteq> []" "\<not> length (rp_queue rp) + length tg > kReplicationQueueMax" "g = Some got"
    by (cases g) blast+
  then show thesis
  proof cases
    case 1
    show thesis by (rule skip [OF True', of st]) (use unroll 1 in \<open>simp_all flip: i_def tg_def\<close>)
  next
    case 2
    have "st' = st" "rp' = rp" using unroll 2 by simp_all
    then show thesis using blocked [OF True'] 2(2) unfolding tg_def i_def by blast
  next
    case 3
    show thesis by (rule skip [OF True', of st1]) (use unroll 3 g in \<open>simp_all flip: i_def tg_def\<close>)
  next
    case (4 got)
    show thesis
      by (rule push [OF True', of got st1 "map (\<lambda>p. \<lparr>tk_peer_id = p, tk_block = \<lparr>kv_id = i, kv_data = gr_data got,
              kv_tier = gr_tier_found got, kv_inserted_epoch = 0\<rparr>\<rparr>) tg"])
        (use unroll 4 g in \<open>simp_all add: push_view_def flip: i_def tg_def\<close>)
  qed
qed

lemma drain_loop_queue:
  assumes "drain_loop rt st rp disp = (st', rp')" "length (rp_queue rp) \<le> kReplicationQueueMax"
  shows "length (rp_queue rp') \<le> kReplicationQueueMax"
  using assms
proof (induction "length (rp_rerep_round rp) - rp_rerep_cursor rp" arbitrary: st rp disp rule: less_induct)
  case less
  from less.prems(1) show ?case
  proof (cases rule: drain_loop_cases)
    case (skip st1)
    show ?thesis by (rule less.hyps [OF _ skip(4)]) (use skip(2) less.prems(2) in simp_all)
  next
    case (push st1 got ts)
    show ?thesis by (rule less.hyps [OF _ push(6)]) (use push(2,4) in simp_all)
  qed (use less.prems(2) in simp_all)
qed

lemma drain_loop_frame:
  assumes "drain_loop rt st rp disp = (st', rp')"
  shows "rp_rerep_round rp' = rp_rerep_round rp \<and> rp_rerep_active rp' = rp_rerep_active rp \<and>
    rp_local_node_id rp' = rp_local_node_id rp \<and> rp_router rp' = rp_router rp \<and> rp_store rp' = rp_store rp \<and>
    rp_transport rp' = rp_transport rp \<and> rp_overflow_drops rp' = rp_overflow_drops rp \<and>
    rp_rerep_cursor rp \<le> rp_rerep_cursor rp' \<and>
    (rp_rerep_cursor rp \<le> length (rp_rerep_round rp) \<longrightarrow> rp_rerep_cursor rp' \<le> length (rp_rerep_round rp))"
  using assms
proof (induction "length (rp_rerep_round rp) - rp_rerep_cursor rp" arbitrary: st rp disp rule: less_induct)
  case less
  from less.prems(1) show ?case
  proof (cases rule: drain_loop_cases)
    case (skip st1)
    then have "length (rp_rerep_round rp) - Suc (rp_rerep_cursor rp) < length (rp_rerep_round rp) - rp_rerep_cursor rp"
      by simp
    then show ?thesis using less.hyps [OF _ skip(4)] skip(2) by simp
  next
    case (push st1 got ts)
    then have "length (rp_rerep_round rp) - Suc (rp_rerep_cursor rp) < length (rp_rerep_round rp) - rp_rerep_cursor rp"
      by simp
    then show ?thesis using less.hyps [OF _ push(6)] push(2) by simp
  qed simp_all
qed

lemma slice_step: "c < length xs \<Longrightarrow> c < c' \<Longrightarrow> drop c (take c' xs) = xs ! c # drop (Suc c) (take c' xs)"
  by (metis Cons_nth_drop_Suc length_take min_less_iff_conj nth_take)

text \<open>What \<open>Get\<close> shows is not changed by a \<open>Get\<close>, promotion included.\<close>

lemma findable_eq:
  assumes "ts_inv ts" "coherent payload ts"
  shows "findable ts k = (if payload k = [] \<and> tier_probe ts SSD k \<noteq> None then None else ts_content ts k)"
proof -
  obtain r ts' where g: "ts_Get ts k = (r, ts')" by force
  note get = ts_Get_exact [OF assms g]
  show ?thesis
  proof (cases r)
    case None
    then show ?thesis using get(1) g by (auto simp: findable_def)
  next
    case (Some res)
    then have "ts_content ts k \<noteq> None" "gr_data res = payload k" "\<not> (payload k = [] \<and> tier_probe ts SSD k \<noteq> None)"
      using get(1) get(2) [of res] by auto
    then show ?thesis using Some g coherent_content [OF assms(2), of k] by (auto simp: findable_def split: if_splits)
  qed
qed

lemma findable_Get:
  assumes "ts_inv ts" "coherent payload ts" "ts_Get ts i = (r, ts')"
  shows "findable ts' = findable ts"
proof
  fix k
  have inv: "ts_inv ts'" using ts_step_inv(1) [OF assms(1), of payload "TGet i"] assms(3) by simp
  have co: "coherent payload ts'" by (rule coherent_Get [OF assms])
  have "payload k = [] \<Longrightarrow> tier_probe ts' SSD k = tier_probe ts SSD k"
    using assms(1,3)
  proof (cases rule: ts_Get_cases)
    case (hit f d q)
    assume e: "payload k = []"
    show ?thesis
    proof (cases "q \<and> k = i")
      case True
      then obtain u where u: "u < f" "\<forall>v j. tier_probe ts' v j = (if j = i \<and> v = f then None
          else if j = i \<and> v = u \<and> tier_probe ts u i = None then Some d else tier_probe ts v j)"
        using hit(9,10) by blast
      have "tier_probe ts SSD i = None" using ts_Get_exact(1) [OF assms] hit(2) e True by auto
      then show ?thesis using u True by (cases u; cases f) auto
    next
      case False
      then show ?thesis using hit(8-10) by (cases q) auto
    qed
  qed simp
  then show "findable ts' k = findable ts k"
    unfolding findable_eq [OF assms(1,2)] findable_eq [OF inv co] ts_Get_exact(3) [OF assms] by auto
qed

text \<open>
  The sweep is lossless: everything between the old and the new cursor has been queued for
  all of its targets, in the order of the round, with the bytes that \<open>Get\<close> finds.
\<close>

lemma drain_loop_pushes:
  assumes "drain_loop rt st rp disp = (st', rp')" "ts_inv st" "coherent payload st"
  shows "ts_inv st' \<and> coherent payload st' \<and> findable st' = findable st \<and>
    map push_view (rp_queue rp') = map push_view (rp_queue rp) @
      concat (map (block_pushes rt (rp_local_node_id rp) (findable st))
        (drop (rp_rerep_cursor rp) (take (rp_rerep_cursor rp') (rp_rerep_round rp))))"
  using assms
proof (induction "length (rp_rerep_round rp) - rp_rerep_cursor rp" arbitrary: st rp disp rule: less_induct)
  case less
  let ?i = "rp_rerep_round rp ! rp_rerep_cursor rp"
  have get: "ts_inv st1 \<and> coherent payload st1 \<and> findable st1 = findable st" if "ts_Get st ?i = (r, st1)" for r st1
    using ts_step_inv(1) [OF less.prems(2), of payload "TGet ?i"] coherent_Get [OF less.prems(2,3) that]
      findable_Get [OF less.prems(2,3) that] that by simp
  from less.prems(1) show ?case
  proof (cases rule: drain_loop_cases)
    case (skip st1)
    have st1: "ts_inv st1" "coherent payload st1" "findable st1 = findable st"
      using skip(3) get less.prems(2,3) by auto
    have none: "block_pushes rt (rp_local_node_id rp) (findable st) ?i = []"
      using skip(3) by (auto simp: block_pushes_def findable_def split: option.splits)
    note frame = drain_loop_frame [OF skip(4)]
    have "length (rp_rerep_round rp) - Suc (rp_rerep_cursor rp) < length (rp_rerep_round rp) - rp_rerep_cursor rp"
      using skip(2) by simp
    then show ?thesis
      using less.hyps [OF _ skip(4) st1(1,2)] st1(3) skip(2) none frame
        slice_step [OF skip(2), of "rp_rerep_cursor rp'"] by simp
  next
    case (push st1 got ts)
    have st1: "ts_inv st1" "coherent payload st1" "findable st1 = findable st"
      using get [OF push(3)] by auto
    have one: "block_pushes rt (rp_local_node_id rp) (findable st) ?i = map push_view ts"
      using push(3,5) by (simp add: block_pushes_def findable_def)
    note frame = drain_loop_frame [OF push(6)]
    have "length (rp_rerep_round rp) - Suc (rp_rerep_cursor rp) < length (rp_rerep_round rp) - rp_rerep_cursor rp"
      using push(2) by simp
    then show ?thesis
      using less.hyps [OF _ push(6) st1(1,2)] st1(3) push(2) one frame
        slice_step [OF push(2), of "rp_rerep_cursor rp'"] by simp
  qed (use less.prems(2,3) in simp_all)
qed

lemma drain_loop_progress:
  assumes "drain_loop rt st rp disp = (st', rp')" "disp < kReReplicationBatch"
    and "rp_rerep_cursor rp < length (rp_rerep_round rp)"
    and "length (rp_queue rp) + length (rerep_targets rt (rp_local_node_id rp)
           (rp_rerep_round rp ! rp_rerep_cursor rp)) \<le> kReplicationQueueMax"
  shows "rp_rerep_cursor rp < rp_rerep_cursor rp'"
  using assms(1)
proof (cases rule: drain_loop_cases)
  case (skip st1)
  then show ?thesis using drain_loop_frame [OF skip(4)] by simp
next
  case (push st1 got ts)
  then show ?thesis using drain_loop_frame [OF push(6)] by simp
qed (use assms in simp_all)

lemma DrainReReplication_idle:
  "\<not> wired (nd_replicator n) \<or> \<not> rp_rerep_active (nd_replicator n) \<Longrightarrow> DrainReReplication n = n"
  by (auto simp: DrainReReplication_def wired_def Let_def)

lemma DrainReReplication_active:
  assumes "wired (nd_replicator n)" "rp_rerep_active (nd_replicator n)"
    and "drain_loop (nd_router n) (nd_store n) (nd_replicator n) 0 = (st, rp)"
  shows "DrainReReplication n = n\<lparr>nd_store := st, nd_replicator :=
     (if rp_rerep_cursor rp \<ge> length (rp_rerep_round rp) then rp\<lparr>rp_rerep_active := False\<rparr> else rp)\<rparr>"
  using assms by (simp add: DrainReReplication_def wired_def Let_def)

lemma rep_inv_Drain:
  assumes "rep_inv (nd_replicator n)"
  shows "rep_inv (nd_replicator (DrainReReplication n))"
proof (cases "wired (nd_replicator n) \<and> rp_rerep_active (nd_replicator n)")
  case True
  obtain st rp where d: "drain_loop (nd_router n) (nd_store n) (nd_replicator n) 0 = (st, rp)" by force
  have "length (rp_queue rp) \<le> kReplicationQueueMax"
    using drain_loop_queue [OF d] assms by (simp add: rep_inv_def)
  moreover have "rp_rerep_cursor rp \<le> length (rp_rerep_round rp)"
    using drain_loop_frame [OF d] assms by (simp add: rep_inv_def)
  ultimately show ?thesis
    using DrainReReplication_active [OF _ _ d] True by (simp add: rep_inv_def)
qed (use assms DrainReReplication_idle [of n] in auto)

lemma rep_inv_ReplicateOut:
  assumes "rep_inv (nd_replicator n)"
  shows "rep_inv (nd_replicator (snd (ReplicateOut n b)))"
proof -
  have "length (rp_queue (nd_replicator n)) \<le> kReplicationQueueMax" using assms by (simp add: rep_inv_def)
  then show ?thesis
    using assms by (auto simp: ReplicateOut_def Let_def fold_enqueue rep_inv_def)
qed

lemma rep_inv_Trigger:
  assumes "rep_inv (nd_replicator n)"
  shows "rep_inv (nd_replicator (TriggerReReplication ord n lost))"
  unfolding TriggerReReplication_def Let_def
  using assms by (auto simp: rep_inv_def intro!: rep_inv_Drain [unfolded rep_inv_def])

lemma rep_inv_step:
  assumes "rep_step n n'" "rep_inv (nd_replicator n)"
  shows "rep_inv (nd_replicator n')"
  using assms
proof cases
  case (worker send)
  then show ?thesis using assms(2) by (auto simp: rep_inv_def)
qed (use assms(2) rep_inv_ReplicateOut rep_inv_Drain rep_inv_Trigger in auto)

lemma rep_inv_reachable:
  assumes "rep_step\<^sup>*\<^sup>* n n'" "rep_inv (nd_replicator n)"
  shows "rep_inv (nd_replicator n')"
  using assms by (induction rule: rtranclp_induct) (auto intro: rep_inv_step)

text \<open>A sweep tick after the workers have emptied the queue.\<close>

lemma sweep_tick:
  assumes flush: "flush send (nd_replicator n) = (sent, rp)"
    and n': "n' = DrainReReplication (n\<lparr>nd_replicator := rp\<rparr>)"
    and wired: "wired (nd_replicator n)" "rep_inv (nd_replicator n)" "rp_rerep_active (nd_replicator n)"
    and store: "ts_inv (nd_store n)" "coherent payload (nd_store n)"
    and small: "\<forall>i\<in>set (rp_rerep_round (nd_replicator n)).
      length (rerep_targets (nd_router n) (rp_local_node_id (nd_replicator n)) i) \<le> kReplicationQueueMax"
  shows "sent = rp_queue (nd_replicator n)"
    and "nd_router n' = nd_router n" "wired (nd_replicator n')" "rep_inv (nd_replicator n')"
    and "rp_local_node_id (nd_replicator n') = rp_local_node_id (nd_replicator n)"
    and "rp_rerep_round (nd_replicator n') = rp_rerep_round (nd_replicator n)"
    and "rp_rerep_cursor (nd_replicator n) < rp_rerep_cursor (nd_replicator n')"
    and "rp_rerep_active (nd_replicator n') \<longleftrightarrow>
      rp_rerep_cursor (nd_replicator n') < length (rp_rerep_round (nd_replicator n'))"
    and "ts_inv (nd_store n')" "coherent payload (nd_store n')" "findable (nd_store n') = findable (nd_store n)"
    and "map push_view (rp_queue (nd_replicator n')) =
      concat (map (block_pushes (nd_router n) (rp_local_node_id (nd_replicator n)) (findable (nd_store n)))
        (drop (rp_rerep_cursor (nd_replicator n))
          (take (rp_rerep_cursor (nd_replicator n')) (rp_rerep_round (nd_replicator n)))))"
proof -
  note f = flush_rest [OF flush]
  obtain st rp1 where d: "drain_loop (nd_router n) (nd_store n) rp 0 = (st, rp1)" by force
  have w: "wired rp" using wired(1) f by (simp add: wired_def)
  have n'_eq: "n' = n\<lparr>nd_store := st, nd_replicator :=
      (if rp_rerep_cursor rp1 \<ge> length (rp_rerep_round rp1) then rp1\<lparr>rp_rerep_active := False\<rparr> else rp1)\<rparr>"
    using DrainReReplication_active [of "n\<lparr>nd_replicator := rp\<rparr>" st rp1] w wired(3) f(4) d n' by simp
  note frame = drain_loop_frame [OF d]
  have cursor: "rp_rerep_cursor rp < length (rp_rerep_round rp)"
    using wired(2,3) f by (simp add: rep_inv_def)
  have pushes: "ts_inv st \<and> coherent payload st \<and> findable st = findable (nd_store n) \<and>
      map push_view (rp_queue rp1) = map push_view (rp_queue rp) @
        concat (map (block_pushes (nd_router n) (rp_local_node_id rp) (findable (nd_store n)))
          (drop (rp_rerep_cursor rp) (take (rp_rerep_cursor rp1) (rp_rerep_round rp))))"
    by (rule drain_loop_pushes [OF d store])
  have "length (rerep_targets (nd_router n) (rp_local_node_id rp) (rp_rerep_round rp ! rp_rerep_cursor rp)) \<le> kReplicationQueueMax"
    using small cursor f(2,5) by simp
  then have progress: "rp_rerep_cursor rp < rp_rerep_cursor rp1"
    using drain_loop_progress [OF d _ cursor] f(1) by simp
  show "sent = rp_queue (nd_replicator n)" using f(9) wired(1) by (simp add: wired_def)
  show "rep_inv (nd_replicator n')"
    unfolding n' by (rule rep_inv_Drain) (use wired(2) f in \<open>simp add: rep_inv_def\<close>)
  show "nd_router n' = nd_router n" "wired (nd_replicator n')"
    "rp_local_node_id (nd_replicator n') = rp_local_node_id (nd_replicator n)"
    "rp_rerep_round (nd_replicator n') = rp_rerep_round (nd_replicator n)"
    using n'_eq frame f w by (simp_all add: wired_def)
  show "rp_rerep_cursor (nd_replicator n) < rp_rerep_cursor (nd_replicator n')"
    "rp_rerep_active (nd_replicator n') \<longleftrightarrow>
      rp_rerep_cursor (nd_replicator n') < length (rp_rerep_round (nd_replicator n'))"
    using n'_eq frame f(3,4) progress wired(3) by simp_all
  show "ts_inv (nd_store n')" "coherent payload (nd_store n')" "findable (nd_store n') = findable (nd_store n)"
    using n'_eq pushes by simp_all
  show "map push_view (rp_queue (nd_replicator n')) =
      concat (map (block_pushes (nd_router n) (rp_local_node_id (nd_replicator n)) (findable (nd_store n)))
        (drop (rp_rerep_cursor (nd_replicator n))
          (take (rp_rerep_cursor (nd_replicator n')) (rp_rerep_round (nd_replicator n)))))"
    using n'_eq pushes f(1,2,3,5) by simp
qed

lemma slice_append:
  "a \<le> b \<Longrightarrow> drop a (take b xs) @ drop b xs = drop a xs"
  by (metis append_take_drop_id drop_append drop_drop drop_take le_add_diff_inverse2 take_drop)

lemma sweep_idle:
  assumes "sweep send k n = (sent, n')" "wired (nd_replicator n)" "\<not> rp_rerep_active (nd_replicator n)"
  shows "\<not> rp_rerep_active (nd_replicator n') \<and>
    map push_view (sent @ rp_queue (nd_replicator n')) = map push_view (rp_queue (nd_replicator n))"
  using assms
proof (induction k arbitrary: n sent)
  case (Suc k)
  obtain s1 rp where fl: "flush send (nd_replicator n) = (s1, rp)" by force
  note f = flush_rest [OF fl]
  have same: "DrainReReplication (n\<lparr>nd_replicator := rp\<rparr>) = n\<lparr>nd_replicator := rp\<rparr>"
    by (rule DrainReReplication_idle) (use Suc.prems(3) f(4) in simp)
  obtain s2 where rest: "sweep send k (n\<lparr>nd_replicator := rp\<rparr>) = (s2, n')" and sent: "sent = s1 @ s2"
    using Suc.prems(1) fl same by (auto split: prod.splits)
  show ?case using Suc.IH [OF rest] Suc.prems(2,3) f sent by (simp add: wired_def)
qed simp

lemma sweep_complete:
  assumes "sweep send k n = (sent, n')" "length (rp_rerep_round (nd_replicator n)) - rp_rerep_cursor (nd_replicator n) \<le> k"
    and "wired (nd_replicator n)" "rep_inv (nd_replicator n)" "rp_rerep_active (nd_replicator n)"
    and "ts_inv (nd_store n)" "coherent payload (nd_store n)"
    and "\<forall>i\<in>set (rp_rerep_round (nd_replicator n)).
      length (rerep_targets (nd_router n) (rp_local_node_id (nd_replicator n)) i) \<le> kReplicationQueueMax"
  shows "\<not> rp_rerep_active (nd_replicator n') \<and>
    map push_view (sent @ rp_queue (nd_replicator n')) = map push_view (rp_queue (nd_replicator n)) @
      concat (map (block_pushes (nd_router n) (rp_local_node_id (nd_replicator n)) (findable (nd_store n)))
        (drop (rp_rerep_cursor (nd_replicator n)) (rp_rerep_round (nd_replicator n))))"
  using assms
proof (induction k arbitrary: n sent)
  case 0
  then show ?case by (simp add: rep_inv_def)
next
  case (Suc k)
  obtain s1 rp where fl: "flush send (nd_replicator n) = (s1, rp)" by force
  define n1 where "n1 = DrainReReplication (n\<lparr>nd_replicator := rp\<rparr>)"
  obtain s2 where rest: "sweep send k n1 = (s2, n')" and sent: "sent = s1 @ s2"
    using Suc.prems(1) fl by (auto simp: n1_def split: prod.splits)
  note tick = sweep_tick [OF fl n1_def Suc.prems(3-8)]
  let ?push = "block_pushes (nd_router n) (rp_local_node_id (nd_replicator n)) (findable (nd_store n))"
  show ?case
  proof (cases "rp_rerep_active (nd_replicator n1)")
    case True
    have fewer: "length (rp_rerep_round (nd_replicator n1)) - rp_rerep_cursor (nd_replicator n1) \<le> k"
      using Suc.prems(2) tick(6,7) by simp
    have "\<not> rp_rerep_active (nd_replicator n') \<and>
        map push_view (s2 @ rp_queue (nd_replicator n')) = map push_view (rp_queue (nd_replicator n1)) @
          concat (map (block_pushes (nd_router n1) (rp_local_node_id (nd_replicator n1)) (findable (nd_store n1)))
            (drop (rp_rerep_cursor (nd_replicator n1)) (rp_rerep_round (nd_replicator n1))))"
      by (rule Suc.IH [OF rest fewer tick(3,4) True tick(9,10)])
        (use Suc.prems(8) in \<open>simp_all add: tick(2,5,6)\<close>)
    then have "\<not> rp_rerep_active (nd_replicator n') \<and> map push_view (s2 @ rp_queue (nd_replicator n')) =
        concat (map ?push (drop (rp_rerep_cursor (nd_replicator n)) (rp_rerep_round (nd_replicator n))))"
      using slice_append [of "rp_rerep_cursor (nd_replicator n)" "rp_rerep_cursor (nd_replicator n1)"
          "rp_rerep_round (nd_replicator n)"] tick(7)
      by (simp add: tick(2,5,6,11,12) flip: map_append concat_append)
    then show ?thesis by (simp add: sent tick(1))
  next
    case False
    then have fin: "rp_rerep_cursor (nd_replicator n1) = length (rp_rerep_round (nd_replicator n))"
      using tick(4,6,8) by (simp add: rep_inv_def)
    show ?thesis
      using sweep_idle [OF rest tick(3) False] by (simp add: sent tick(1,12) fin)
  qed
qed

text \<open>No block has more targets than the route has members.\<close>

lemma length_route_replicas: "length (rr_replicas (Route rt i)) < max 1 (unat (rt_replication_factor rt))"
proof -
  let ?idx = "ring_search (rt_ring rt) (HashBlock i) 0 (length (rt_ring rt)) mod length (rt_ring rt)"
  let ?want = "max 1 (unat (rt_replication_factor rt))"
  have "length (route_walk (rt_peers rt) (rt_ring rt) ?idx ?want 0 [] {}) \<le> ?want"
    by (simp add: route_walk_take)
  then show ?thesis by (auto simp: Route_def Let_def)
qed

lemma length_rerep_targets:
  "length (rerep_targets rt local i) \<le> max 1 (unat (rt_replication_factor rt))"
proof -
  have "length (filter (\<lambda>r. r \<noteq> local) (rr_replicas (Route rt i))) \<le> length (rr_replicas (Route rt i))" by simp
  moreover have "length (rerep_targets rt local i) \<le> Suc (length (filter (\<lambda>r. r \<noteq> local) (rr_replicas (Route rt i))))"
    by (simp add: rerep_targets_def Let_def)
  ultimately show ?thesis using length_route_replicas [of rt i] by linarith
qed

text \<open>The polling loop.\<close>

lemma poll_round_sound:
  "poll_round fs rs = (any, Some b, fs') \<Longrightarrow> Some b \<in> snd ` set fs"
proof (induction fs rs arbitrary: any fs' rule: poll_round.induct)
  case (1 valid ans fs ready rs)
  then show ?case by (auto split: if_splits option.splits prod.splits)
qed simp_all

lemma poll_round_none:
  assumes "poll_round fs rs = (any, None, fs')" "length rs = length fs"
  shows "length fs' = length fs \<and> (\<forall>j<length fs. fs' ! j = (fst (fs ! j) \<and> \<not> rs ! j, snd (fs ! j)) \<and>
    (fst (fs ! j) \<and> rs ! j \<longrightarrow> snd (fs ! j) = None))"
  using assms
proof (induction fs rs arbitrary: any fs' rule: poll_round.induct)
  case (1 valid ans fs ready rs)
  obtain any1 got1 fs1 where rest: "poll_round fs rs = (any1, got1, fs1)" by (metis prod_cases3)
  have got: "got1 = None" "fs' = (valid \<and> \<not> ready, ans) # fs1" "valid \<and> ready \<longrightarrow> ans = None"
    using "1.prems"(1) rest by (auto split: if_splits option.splits)
  have "length fs1 = length fs \<and> (\<forall>j<length fs. fs1 ! j = (fst (fs ! j) \<and> \<not> rs ! j, snd (fs ! j)) \<and>
      (fst (fs ! j) \<and> rs ! j \<longrightarrow> snd (fs ! j) = None))"
    using "1.IH" rest got "1.prems"(2) by (cases "valid \<and> ready") auto
  then show ?case using got by (auto simp: nth_Cons split: nat.splits)
qed simp_all

lemma poll_round_answers: "poll_round fs rs = (any, got, fs') \<Longrightarrow> map snd fs' = map snd fs"
  by (induction fs rs arbitrary: any got fs' rule: poll_round.induct)
    (auto split: if_splits option.splits prod.splits)

lemma poll_loop_sound: "poll_loop fs rs = Some b \<Longrightarrow> Some b \<in> snd ` set fs"
proof (induction fs rs rule: poll_loop.induct)
  case (2 fs r rs)
  obtain any got fs' where round: "poll_round fs r = (any, got, fs')" by (metis prod_cases3)
  show ?case
  proof (cases got)
    case (Some b')
    then show ?thesis using "2.prems" round poll_round_sound [of fs r any b' fs'] by simp
  next
    case None
    have "snd ` set fs' = snd ` set fs"
      using poll_round_answers [OF round] by (metis list.set_map)
    then show ?thesis using "2.IH" "2.prems" round None by (auto split: if_splits)
  qed
qed simp

lemma poll_loop_complete:
  assumes "\<forall>r\<in>set rs. length r = length fs" "j < length fs" "fs ! j = (True, Some b)"
    and "\<exists>r\<in>set rs. r ! j"
  shows "poll_loop fs rs \<noteq> None"
  using assms
proof (induction rs arbitrary: fs)
  case (Cons r rs)
  obtain any got fs' where round: "poll_round fs r = (any, got, fs')" by (metis prod_cases3)
  show ?case
  proof (cases got)
    case None
    have len: "length r = length fs" using Cons.prems(1) by simp
    have all: "length fs' = length fs" "fs' ! j = (\<not> r ! j, Some b)" "\<not> r ! j"
      using poll_round_none [of fs r any fs'] round None len Cons.prems(2,3) by force+
    then have "fs' ! j = (True, Some b)" "fs' ! j \<in> set fs'" using Cons.prems(2) nth_mem [of j fs'] by simp_all
    then have "\<not> (\<forall>f\<in>set fs'. \<not> fst f)" by force
    moreover have "poll_loop fs' rs \<noteq> None"
      using Cons.IH [of fs'] Cons.prems all by auto
    ultimately show ?thesis using round None by auto
  qed (use round in simp)
qed simp

text \<open>A round covers every resident block of which the local node is in the route.\<close>

lemma set_rerep_candidates:
  assumes "ts_inv st" "order_ok ord"
  shows "set (rerep_candidates ord rt local st) = {i. ts_content st i \<noteq> None \<and> in_route rt local i}"
proof -
  have "set (map bm_id (ts_Snapshot ord st t)) = dom (tier_probe st t)" for t
    using ts_Snapshot_meta [OF assms] by (simp add: snapshot_of_def)
  then have "set (rerep_candidates ord rt local st) =
      {i. (tier_probe st HBM i \<noteq> None \<or> tier_probe st DRAM i \<noteq> None \<or> tier_probe st SSD i \<noteq> None) \<and> in_route rt local i}"
    by (auto simp: rerep_candidates_def)
  moreover have "(tier_probe st HBM i \<noteq> None \<or> tier_probe st DRAM i \<noteq> None \<or> tier_probe st SSD i \<noteq> None)
      \<longleftrightarrow> ts_content st i \<noteq> None" for i
    by (auto simp: ts_content_def split: option.splits)
  ultimately show ?thesis by simp
qed

lemma sample_node_inv:
  "ts_inv (nd_store sample_node)" "coherent (\<lambda>_. [7, 8]) (nd_store sample_node)"
  "wired (nd_replicator sample_node)" "rep_inv (nd_replicator sample_node)"
  by (simp_all add: sample_node_def sample_run wired_def rep_inv_def replicator_new_def)

section \<open>Properties\<close>

text \<open>
  In every state the replicator can reach, whatever the router and the store do meanwhile,
  the push queue holds at most 1024 tasks, the cursor stays within the round, and an active
  round has work left.
\<close>

theorem replicator_bounded:
  assumes "rep_step\<^sup>*\<^sup>* n n'" "nd_replicator n = replicator_new node router store transport"
  shows "length (rp_queue (nd_replicator n')) \<le> kReplicationQueueMax \<and>
    rp_rerep_cursor (nd_replicator n') \<le> length (rp_rerep_round (nd_replicator n')) \<and>
    (rp_rerep_active (nd_replicator n') \<longrightarrow>
      rp_rerep_cursor (nd_replicator n') < length (rp_rerep_round (nd_replicator n')))"
  using rep_inv_reachable [OF assms(1)] assms(2) by (simp add: rep_inv_def replicator_new_def)

theorem replicator_bounded_witness:
  "length (rp_queue (nd_replicator (DrainReReplication
     \<lparr>nd_router = sample_router ''a'' 2, nd_store = sample_store 4 4,
      nd_replicator = replicator_new ''a'' True True True\<rparr>))) \<le> kReplicationQueueMax"
  using replicator_bounded [OF r_into_rtranclp [of rep_step, OF rep_step.drain]] by simp

text \<open>
  \<open>ReplicateOut\<close> reports the successors of the block other than the local node, queues the
  push to each of them while the queue has room, and counts every push that did not fit.
\<close>

theorem ReplicateOut_queues:
  assumes "rep_inv (nd_replicator n)" "rp_router (nd_replicator n)" "rp_transport (nd_replicator n)"
    and "ReplicateOut n b = (submitted, n')"
  shows "submitted = filter (\<lambda>p. p \<noteq> rp_local_node_id (nd_replicator n)) (rr_replicas (Route (nd_router n) (kv_id b))) \<and>
    rp_queue (nd_replicator n') = rp_queue (nd_replicator n) @ map (\<lambda>p. \<lparr>tk_peer_id = p, tk_block = b\<rparr>)
      (take (kReplicationQueueMax - length (rp_queue (nd_replicator n))) submitted) \<and>
    rp_overflow_drops (nd_replicator n') = rp_overflow_drops (nd_replicator n) +
      of_nat (length submitted - (kReplicationQueueMax - length (rp_queue (nd_replicator n))))"
proof -
  have "length (rp_queue (nd_replicator n)) \<le> kReplicationQueueMax" using assms(1) by (simp add: rep_inv_def)
  then show ?thesis
    using assms(2-4) by (auto simp: ReplicateOut_def Let_def fold_enqueue split: if_splits)
qed

theorem ReplicateOut_queues_witness:
  "fst (ReplicateOut \<lparr>nd_router = router_new ''a'' 1 2, nd_store = sample_store 4 4,
     nd_replicator = replicator_new ''a'' True True True\<rparr> (sample_block 1 [7])) = []"
  using ReplicateOut_queues [OF _ _ _ prod.collapse [symmetric], of "\<lparr>nd_router = router_new ''a'' 1 2,
      nd_store = sample_store 4 4, nd_replicator = replicator_new ''a'' True True True\<rparr>" "sample_block 1 [7]"]
  by (simp add: rep_inv_def replicator_new_def Route_def router_new_def)



text \<open>
  A lost peer starts a round over exactly the resident blocks whose new route contains the
  local node; with no lost peer nothing happens.
\<close>

theorem TriggerReReplication_round:
  assumes "wired (nd_replicator n)" "ts_inv (nd_store n)" "order_ok ord"
  shows "set (rp_rerep_round (nd_replicator (TriggerReReplication ord n (p # lost)))) =
      {i. ts_content (nd_store n) i \<noteq> None \<and> in_route (nd_router n) (rp_local_node_id (nd_replicator n)) i} \<and>
    TriggerReReplication ord n [] = n"
proof
  have round: "rp_rerep_round (nd_replicator (DrainReReplication m)) = rp_rerep_round (nd_replicator m)" for m :: "'a Node_scheme"
    using drain_loop_frame
    by (auto simp: DrainReReplication_def Let_def split: prod.splits)
  show "set (rp_rerep_round (nd_replicator (TriggerReReplication ord n (p # lost)))) =
      {i. ts_content (nd_store n) i \<noteq> None \<and> in_route (nd_router n) (rp_local_node_id (nd_replicator n)) i}"
    using assms by (simp add: TriggerReReplication_def Let_def wired_def round set_rerep_candidates)
  show "TriggerReReplication ord n [] = n" by (simp add: TriggerReReplication_def Let_def)
qed

theorem TriggerReReplication_round_witness:
  "set (rp_rerep_round (nd_replicator (TriggerReReplication rev sample_node [''c'']))) =
   {i. ts_content (nd_store sample_node) i \<noteq> None \<and>
     in_route (nd_router sample_node) (rp_local_node_id (nd_replicator sample_node)) i}"
  using TriggerReReplication_round [OF sample_node_inv(3,1) order_ok_rev] by blast

text \<open>
  \<open>FetchFromAny\<close> returns only what one of the asked peers answered, and it returns something
  whenever the future of a peer that has the block is found ready before the deadline.
\<close>

theorem FetchFromAny_correct:
  assumes "rp_transport rp" "\<forall>r\<in>set polls. length r = length peers"
  shows "(\<forall>b. FetchFromAny fetch polls rp i peers = Some b \<longrightarrow> (\<exists>p\<in>set peers. fetch p i = Some b)) \<and>
    (\<forall>j<length peers. fetch (peers ! j) i \<noteq> None \<and> (\<exists>r\<in>set polls. r ! j) \<longrightarrow>
      FetchFromAny fetch polls rp i peers \<noteq> None)"
proof (intro conjI allI impI)
  show "\<exists>p\<in>set peers. fetch p i = Some b" if "FetchFromAny fetch polls rp i peers = Some b" for b
  proof -
    have "poll_loop (map (\<lambda>p. (True, fetch p i)) peers) polls = Some b"
      using that by (simp add: FetchFromAny_def split: if_splits)
    then show ?thesis using poll_loop_sound by fastforce
  qed
  fix j assume j: "j < length peers" "fetch (peers ! j) i \<noteq> None \<and> (\<exists>r\<in>set polls. r ! j)"
  then obtain b where "fetch (peers ! j) i = Some b" by blast
  then have "poll_loop (map (\<lambda>p. (True, fetch p i)) peers) polls \<noteq> None"
    using j assms(2) by (intro poll_loop_complete [of polls _ j b]) simp_all
  then show "FetchFromAny fetch polls rp i peers \<noteq> None"
    using j(1) assms(1) by (auto simp: FetchFromAny_def)
qed

theorem FetchFromAny_correct_witness:
  "FetchFromAny (\<lambda>p i. if p = ''b'' then Some (sample_block 1 [7]) else None) [[True, False], [False, True]]
     (replicator_new ''a'' True True True) (sample_id 1) [''a'', ''b''] \<noteq> None"
  using FetchFromAny_correct [of "replicator_new ''a'' True True True" "[[True, False], [False, True]]" "[''a'', ''b'']"
      "\<lambda>p i. if p = ''b'' then Some (sample_block 1 [7]) else None" "sample_id 1"]
  by (simp add: replicator_new_def numeral_2_eq_2 less_Suc_eq)

end
