(* ===== verification/Membership.thy ===== *)
theory Membership
  imports Replication
begin

text \<open>
  Cluster membership of \<open>cache_server/src/membership.cpp\<close>: the peer table, the failure detector
  with its suspect and dead thresholds, heartbeats in both directions, and the membership
  change that rebuilds the ring and starts re-replication.  Times are integers in one unit;
  the clock readings and the outcome of each outbound heartbeat are parameters.  Log lines and
  the epoch gauge are left out.  A turn of the heartbeat loop, a received heartbeat and a
  membership change are single steps here, although the code releases its lock between the
  update of the table, the copy of the living peers and the rebuild of the ring; theory
  \<open>Membership_Threads\<close> has those lock regions as steps of their own and shows when the two agree.
\<close>

section \<open>Definitions\<close>

record PeerInfo =
  pi_node_id :: string
  pi_address :: string
  pi_last_seen :: int
  pi_last_seen_epoch :: u64
  pi_suspected :: bool
  pi_alive :: bool
  pi_ever_seen :: bool

record MembershipConfig =
  mc_heartbeat_interval :: int
  mc_suspect_after :: int
  mc_dead_after :: int

text \<open>\<open>mb_router\<close> and \<open>mb_replicator\<close> say whether the pointer of that name is set.\<close>

record Membership =
  mb_cfg :: MembershipConfig
  mb_local_node_id :: string
  mb_router :: bool
  mb_replicator :: bool
  mb_peers :: "(string, PeerInfo) umap"
  mb_epoch :: u64

record Member_Node = Node +
  nd_membership :: Membership

text \<open>
  What the environment chooses: the order in which \<open>std::sort\<close> leaves equal hashes, the digest,
  and the iteration orders of the block tables and of the peer table.
\<close>

record Env =
  en_sort :: "RingEntry list \<Rightarrow> RingEntry list"
  en_blake3 :: "string \<Rightarrow> byte list"
  en_block_order :: "BlockId iter_order"
  en_peer_order :: "string iter_order"

definition en_ok :: "Env \<Rightarrow> bool" where
  "en_ok E \<longleftrightarrow> sort_ok (en_sort E) \<and> order_ok (en_block_order E) \<and> order_ok (en_peer_order E)"

definition default_config :: MembershipConfig where
  "default_config = \<lparr>mc_heartbeat_interval = 200, mc_suspect_after = 1000, mc_dead_after = 3000\<rparr>"

text \<open>The value \<open>PeerInfo{}\<close>, with the clock's origin as its time point.\<close>

definition default_peer :: PeerInfo where
  "default_peer = \<lparr>pi_node_id = [], pi_address = [], pi_last_seen = 0, pi_last_seen_epoch = 0,
     pi_suspected = False, pi_alive = True, pi_ever_seen = False\<rparr>"

definition membership_new ::
  "int \<Rightarrow> MembershipConfig \<Rightarrow> string \<Rightarrow> StaticPeer list \<Rightarrow> bool \<Rightarrow> bool \<Rightarrow> Membership" where
  "membership_new now cfg local_node_id seed_peers router replicator =
     \<lparr>mb_cfg = cfg, mb_local_node_id = local_node_id, mb_router = router, mb_replicator = replicator,
      mb_peers = fold (\<lambda>peer m. umap_emplace (sp_node_id peer)
        (default_peer\<lparr>pi_node_id := sp_node_id peer, pi_address := sp_address peer, pi_last_seen := now,
           pi_last_seen_epoch := 0, pi_alive := True\<rparr>) m) seed_peers [],
      mb_epoch = 0\<rparr>"

definition alive_ids :: "string iter_order \<Rightarrow> Membership \<Rightarrow> string list" where
  "alive_ids ord mb = mb_local_node_id mb # map fst (filter (\<lambda>(i, info). pi_alive info) (umap_iter ord (mb_peers mb)))"

definition OnMembershipChange :: "Env \<Rightarrow> 'a Member_Node_scheme \<Rightarrow> string list \<Rightarrow> 'a Member_Node_scheme" where
  "OnMembershipChange E n lost_peers =
     (let mb = (nd_membership n)\<lparr>mb_epoch := mb_epoch (nd_membership n) + 1\<rparr>;
          n1 = n\<lparr>nd_membership := mb\<rparr>;
          alive = alive_ids (en_peer_order E) mb;
          n2 = (if mb_router mb then n1\<lparr>nd_router := SetPeers (en_sort E) (en_blake3 E) (nd_router n1) alive\<rparr> else n1)
      in if mb_replicator mb \<and> lost_peers \<noteq> [] then TriggerReReplication (en_block_order E) n2 lost_peers else n2)"

text \<open>
  \<open>EvaluateSuspicions\<close>: the verdict on one entry of the table, and the pass over all entries.
  An entry's update reads that entry alone.
\<close>

definition judge :: "MembershipConfig \<Rightarrow> string \<Rightarrow> int \<Rightarrow> string \<Rightarrow> PeerInfo \<Rightarrow> bool \<times> PeerInfo" where
  "judge cfg local now i info =
     (if i = local then (False, info)
      else if \<not> pi_alive info then (False, info)
      else if \<not> pi_ever_seen info then (False, info)
      else
        let since = now - pi_last_seen info
        in if since > mc_dead_after cfg then (True, info\<lparr>pi_alive := False, pi_suspected := True\<rparr>)
           else if since > mc_suspect_after cfg then (False, info\<lparr>pi_suspected := True\<rparr>)
           else (False, info\<lparr>pi_suspected := False\<rparr>))"

definition EvaluateSuspicions :: "string iter_order \<Rightarrow> int \<Rightarrow> Membership \<Rightarrow> string list \<times> Membership" where
  "EvaluateSuspicions ord now mb =
     (let verdict = judge (mb_cfg mb) (mb_local_node_id mb) now
      in (map fst (filter (\<lambda>(i, info). fst (verdict i info)) (umap_iter ord (mb_peers mb))),
          mb\<lparr>mb_peers := map (\<lambda>(i, info). (i, snd (verdict i info))) (mb_peers mb)\<rparr>))"

definition heartbeat_targets :: "string iter_order \<Rightarrow> Membership \<Rightarrow> (string \<times> string) list" where
  "heartbeat_targets ord mb =
     map (\<lambda>(i, info). (i, pi_address info))
       (filter (\<lambda>(i, info). i \<noteq> mb_local_node_id mb \<and> pi_address info \<noteq> []) (umap_iter ord (mb_peers mb)))"

definition mark_seen :: "int \<Rightarrow> u64 \<Rightarrow> PeerInfo \<Rightarrow> PeerInfo" where
  "mark_seen now epoch info =
     info\<lparr>pi_last_seen := now, pi_last_seen_epoch := epoch, pi_suspected := False, pi_alive := True,
          pi_ever_seen := True\<rparr>"

text \<open>The update for the replies that arrived; the first component is \<open>resurrected\<close>.\<close>

fun record_replies :: "int \<Rightarrow> string list \<Rightarrow> Membership \<Rightarrow> string list \<times> Membership" where
  "record_replies now [] mb = ([], mb)"
| "record_replies now (p # ps) mb =
     (case umap_find (mb_peers mb) p of
        None \<Rightarrow> record_replies now ps mb
      | Some info \<Rightarrow>
          let (res, mb') = record_replies now ps
                (mb\<lparr>mb_peers := umap_modify p (mark_seen now (mb_epoch mb)) (mb_peers mb)\<rparr>)
          in (if pi_alive info then res else p # res, mb'))"

definition SendHeartbeatsToAllPeers ::
  "Env \<Rightarrow> (string \<Rightarrow> bool) \<Rightarrow> int \<Rightarrow> 'a Member_Node_scheme \<Rightarrow> 'a Member_Node_scheme" where
  "SendHeartbeatsToAllPeers E reply now n =
     (let targets = heartbeat_targets (en_peer_order E) (nd_membership n)
      in if targets = [] then n
         else
           let succeeded = filter reply (map fst targets)
           in if succeeded = [] then n
              else
                let (resurrected, mb) = record_replies now succeeded (nd_membership n);
                    n1 = n\<lparr>nd_membership := mb\<rparr>
                in if resurrected \<noteq> [] then OnMembershipChange E n1 [] else n1)"

text \<open>One turn of \<open>HeartbeatLoop\<close>; the replies come in at \<open>now\<close>, the evaluation reads the clock at \<open>now'\<close>.\<close>

definition heartbeat_tick ::
  "Env \<Rightarrow> (string \<Rightarrow> bool) \<Rightarrow> int \<Rightarrow> int \<Rightarrow> 'a Member_Node_scheme \<Rightarrow> 'a Member_Node_scheme" where
  "heartbeat_tick E reply now now' n =
     (let n1 = SendHeartbeatsToAllPeers E reply now n;
          (lost, mb) = EvaluateSuspicions (en_peer_order E) now' (nd_membership n1);
          n2 = n1\<lparr>nd_membership := mb\<rparr>
      in if lost \<noteq> [] then OnMembershipChange E n2 lost else n2)"

definition OnHeartbeat ::
  "Env \<Rightarrow> int \<Rightarrow> 'a Member_Node_scheme \<Rightarrow> string \<Rightarrow> u64 \<Rightarrow> HeartbeatReply \<times> 'a Member_Node_scheme" where
  "OnHeartbeat E now n peer_id peer_epoch =
     (let mb = nd_membership n;
          peers = umap_emplace peer_id (default_peer\<lparr>pi_node_id := peer_id\<rparr>) (mb_peers mb);
          was_dead = (case umap_find peers peer_id of None \<Rightarrow> False | Some info \<Rightarrow> \<not> pi_alive info);
          peers1 = umap_modify peer_id (mark_seen now (mb_epoch mb)) peers;
          reply = \<lparr>hr_alive_peers = map (\<lambda>(i, info). \<lparr>ps_node_id = pi_node_id info,
                       ps_last_seen_epoch = pi_last_seen_epoch info, ps_suspected = pi_suspected info\<rparr>)
                     (filter (\<lambda>(i, info). pi_alive info) (umap_iter (en_peer_order E) peers1)),
                   hr_cluster_epoch = mb_epoch mb\<rparr>;
          n1 = n\<lparr>nd_membership := mb\<lparr>mb_peers := peers1\<rparr>\<rparr>
      in (reply, if was_dead then OnMembershipChange E n1 [] else n1))"

definition AlivePeers :: "string iter_order \<Rightarrow> Membership \<Rightarrow> string list" where
  "AlivePeers ord mb =
     map (\<lambda>(i, info). pi_node_id info) (filter (\<lambda>(i, info). pi_alive info) (umap_iter ord (mb_peers mb)))"

definition AllPeerAddresses :: "string iter_order \<Rightarrow> Membership \<Rightarrow> string list" where
  "AllPeerAddresses ord mb =
     map (\<lambda>(i, info). pi_address info)
       (filter (\<lambda>(i, info). pi_address info \<noteq> [] \<and> pi_alive info) (umap_iter ord (mb_peers mb)))"

definition BumpEpochForTesting :: "Membership \<Rightarrow> Membership" where
  "BumpEpochForTesting mb = mb\<lparr>mb_epoch := mb_epoch mb + 1\<rparr>"

text \<open>The peers a node believes alive, and the table's well-formedness.\<close>

definition alive_set :: "Membership \<Rightarrow> string set" where
  "alive_set mb = {i. \<exists>info. umap_find (mb_peers mb) i = Some info \<and> pi_alive info}"

definition mb_inv :: "Membership \<Rightarrow> bool" where
  "mb_inv mb \<longleftrightarrow> umap_ok (mb_peers mb) \<and> umap_find (mb_peers mb) (mb_local_node_id mb) = None \<and>
     (\<forall>i info. umap_find (mb_peers mb) i = Some info \<longrightarrow> pi_node_id info = i)"

text \<open>The ring holds exactly the local node and the peers believed alive.\<close>

definition ring_in_sync :: "'a Member_Node_scheme \<Rightarrow> bool" where
  "ring_in_sync n \<longleftrightarrow> distinct (rt_peers (nd_router n)) \<and>
     set (rt_peers (nd_router n)) = insert (mb_local_node_id (nd_membership n)) (alive_set (nd_membership n))"

definition member_inv :: "'a Member_Node_scheme \<Rightarrow> bool" where
  "member_inv n \<longleftrightarrow> mb_inv (nd_membership n) \<and> mb_router (nd_membership n) \<and> ring_in_sync n"

text \<open>A member for concrete runs: local node \<open>a\<close>, one seed peer \<open>b\<close>.\<close>

definition sample_env :: Env where
  "sample_env = \<lparr>en_sort = sort_key re_hash, en_blake3 = sample_digest, en_block_order = (\<lambda>ks. ks),
     en_peer_order = (\<lambda>ks. ks)\<rparr>"

definition sample_member :: Member_Node where
  "sample_member = \<lparr>nd_router = SetPeers (sort_key re_hash) sample_digest (sample_router ''a'' 2) [''a'', ''b''],
     nd_store = ts_run (sample_store 4 4) [TPut (sample_block 1 [7, 8]) DRAM],
     nd_replicator = replicator_new ''a'' True True True,
     nd_membership = membership_new 0 default_config ''a'' [\<lparr>sp_node_id = ''b'', sp_address = ''h:1''\<rparr>] True True\<rparr>"

text \<open>The same node after it has declared its peer dead.\<close>

definition sample_dead :: Member_Node where
  "sample_dead = sample_member
     \<lparr>nd_router := SetPeers (sort_key re_hash) sample_digest (sample_router ''a'' 2) [''a''],
      nd_membership := (nd_membership sample_member)
        \<lparr>mb_peers := [(''b'', default_peer\<lparr>pi_node_id := ''b'', pi_alive := False, pi_ever_seen := True\<rparr>)]\<rparr>\<rparr>"

section \<open>Lemmas\<close>

lemma DrainReReplication_rest [simp]:
  "nd_router (DrainReReplication n) = nd_router n" "nd_membership (DrainReReplication m) = nd_membership m"
  by (simp_all add: DrainReReplication_def Let_def split: prod.splits)

lemma TriggerReReplication_rest [simp]:
  "nd_router (TriggerReReplication ord n lost) = nd_router n"
  "nd_membership (TriggerReReplication ord m lost) = nd_membership m"
  by (simp_all add: TriggerReReplication_def Let_def)

lemma OnMembershipChange_effect:
  "nd_membership (OnMembershipChange E n lost) = (nd_membership n)\<lparr>mb_epoch := mb_epoch (nd_membership n) + 1\<rparr>"
  "mb_router (nd_membership n) \<Longrightarrow> nd_router (OnMembershipChange E n lost) =
     SetPeers (en_sort E) (en_blake3 E) (nd_router n) (alive_ids (en_peer_order E) (nd_membership n))"
  by (simp_all add: OnMembershipChange_def Let_def alive_ids_def)

lemma umap_iter_find:
  "order_ok ord \<Longrightarrow> umap_ok m \<Longrightarrow> (k, v) \<in> set (umap_iter ord m) \<longleftrightarrow> umap_find m k = Some v"
  by (simp add: set_umap_iter set_umap_find)

lemma set_alive_ids:
  assumes "order_ok ord" "mb_inv mb"
  shows "set (alive_ids ord mb) = insert (mb_local_node_id mb) (alive_set mb)"
proof -
  have ok: "umap_ok (mb_peers mb)" using assms(2) by (simp add: mb_inv_def)
  show ?thesis
    by (auto simp: alive_ids_def alive_set_def umap_iter_find [OF assms(1) ok] image_iff)
qed

lemma distinct_alive_ids:
  assumes "order_ok ord" "mb_inv mb"
  shows "distinct (alive_ids ord mb)"
proof -
  have ok: "umap_ok (mb_peers mb)" using assms(2) by (simp add: mb_inv_def)
  have "distinct (map fst (umap_iter ord (mb_peers mb)))"
    using assms(1) ok by (simp add: umap_ok_def)
  moreover have "mb_local_node_id mb \<notin> fst ` set (umap_iter ord (mb_peers mb))"
    using assms(2) by (auto simp: mb_inv_def umap_iter_find [OF assms(1) ok])
  ultimately show ?thesis
    by (auto simp: alive_ids_def distinct_map_filter)
qed

text \<open>After a membership change the ring is in step with the table again.\<close>

lemma OnMembershipChange_sync:
  assumes "en_ok E" "mb_inv (nd_membership n)" "mb_router (nd_membership n)"
  shows "member_inv (OnMembershipChange E n lost)"
proof -
  have ord: "order_ok (en_peer_order E)" using assms(1) by (simp add: en_ok_def)
  show ?thesis
    using assms(2,3) set_alive_ids [OF ord assms(2)] distinct_alive_ids [OF ord assms(2)]
    by (simp add: member_inv_def ring_in_sync_def OnMembershipChange_effect mb_inv_def alive_set_def)
qed

lemma umap_find_map: "umap_find (map (\<lambda>(i, v). (i, f i v)) m) k = map_option (f k) (umap_find m k)"
  by (induction m) auto

lemma EvaluateSuspicions_find:
  "umap_find (mb_peers (snd (EvaluateSuspicions ord now mb))) i =
     map_option (\<lambda>info. snd (judge (mb_cfg mb) (mb_local_node_id mb) now i info)) (umap_find (mb_peers mb) i)"
  by (simp add: EvaluateSuspicions_def Let_def umap_find_map)

lemma EvaluateSuspicions_rest [simp]:
  "mb_local_node_id (snd (EvaluateSuspicions ord now mb)) = mb_local_node_id mb"
  "mb_cfg (snd (EvaluateSuspicions ord now mb)) = mb_cfg mb"
  "mb_router (snd (EvaluateSuspicions ord now mb)) = mb_router mb"
  "mb_replicator (snd (EvaluateSuspicions ord now mb)) = mb_replicator mb"
  "mb_epoch (snd (EvaluateSuspicions ord now mb)) = mb_epoch mb"
  "map fst (mb_peers (snd (EvaluateSuspicions ord now mb))) = map fst (mb_peers mb)"
  by (simp_all add: EvaluateSuspicions_def Let_def comp_def case_prod_unfold)

lemma judge_facts:
  "pi_node_id (snd (judge cfg local now i info)) = pi_node_id info"
  "pi_alive (snd (judge cfg local now i info)) \<longleftrightarrow> pi_alive info \<and> \<not> fst (judge cfg local now i info)"
  "fst (judge cfg local now i info) \<longleftrightarrow> i \<noteq> local \<and> pi_alive info \<and> pi_ever_seen info \<and>
     now - pi_last_seen info > mc_dead_after cfg"
  by (auto simp: judge_def Let_def)

lemma EvaluateSuspicions_inv: "mb_inv mb \<Longrightarrow> mb_inv (snd (EvaluateSuspicions ord now mb))"
  by (auto simp: mb_inv_def EvaluateSuspicions_find judge_facts umap_ok_def)

lemma EvaluateSuspicions_lost:
  assumes "order_ok ord" "mb_inv mb"
  shows "set (fst (EvaluateSuspicions ord now mb)) = {i. \<exists>info. umap_find (mb_peers mb) i = Some info \<and>
    fst (judge (mb_cfg mb) (mb_local_node_id mb) now i info)}"
proof -
  have ok: "umap_ok (mb_peers mb)" using assms(2) by (simp add: mb_inv_def)
  show ?thesis
    by (auto simp: EvaluateSuspicions_def Let_def umap_iter_find [OF assms(1) ok] image_iff)
qed

lemma EvaluateSuspicions_alive:
  assumes "order_ok ord" "mb_inv mb"
  shows "alive_set (snd (EvaluateSuspicions ord now mb)) = alive_set mb - set (fst (EvaluateSuspicions ord now mb))"
  unfolding EvaluateSuspicions_lost [OF assms]
  by (auto simp: alive_set_def EvaluateSuspicions_find judge_facts)

text \<open>Recording replies.\<close>

lemma mark_seen_sel [simp]:
  "pi_node_id (mark_seen now e info) = pi_node_id info" "pi_alive (mark_seen now e info)"
  "pi_ever_seen (mark_seen now e info)" "pi_last_seen (mark_seen now e info) = now"
  "pi_suspected (mark_seen now e info) = False" "pi_last_seen_epoch (mark_seen now e info) = e"
  "pi_address (mark_seen now e info) = pi_address info"
  by (simp_all add: mark_seen_def)

lemma record_replies_effect:
  assumes "record_replies now ps mb = (res, mb')"
  shows "mb_local_node_id mb' = mb_local_node_id mb" "mb_cfg mb' = mb_cfg mb" "mb_router mb' = mb_router mb"
    "mb_replicator mb' = mb_replicator mb" "mb_epoch mb' = mb_epoch mb"
    "umap_ok (mb_peers mb') = umap_ok (mb_peers mb)"
    "umap_find (mb_peers mb') i = map_option (if i \<in> set ps then mark_seen now (mb_epoch mb) else id) (umap_find (mb_peers mb) i)"
    "set res = {i \<in> set ps. \<exists>info. umap_find (mb_peers mb) i = Some info \<and> \<not> pi_alive info}"
proof -
  have idem: "mark_seen now e (mark_seen now e info) = mark_seen now e info" for e info
    by (simp add: mark_seen_def)
  have "mb_local_node_id mb' = mb_local_node_id mb \<and> mb_cfg mb' = mb_cfg mb \<and> mb_router mb' = mb_router mb \<and>
    mb_replicator mb' = mb_replicator mb \<and> mb_epoch mb' = mb_epoch mb \<and>
    umap_ok (mb_peers mb') = umap_ok (mb_peers mb) \<and>
    (\<forall>i. umap_find (mb_peers mb') i = map_option (if i \<in> set ps then mark_seen now (mb_epoch mb) else id) (umap_find (mb_peers mb) i)) \<and>
    set res = {i \<in> set ps. \<exists>info. umap_find (mb_peers mb) i = Some info \<and> \<not> pi_alive info}"
    using assms
  proof (induction ps arbitrary: mb res)
    case (Cons p ps)
    show ?case
    proof (cases "umap_find (mb_peers mb) p")
      case None
      then show ?thesis using Cons.IH [of mb res] Cons.prems by auto
    next
      case (Some info)
      define mb1 where "mb1 = mb\<lparr>mb_peers := umap_modify p (mark_seen now (mb_epoch mb)) (mb_peers mb)\<rparr>"
      obtain res1 where rest: "record_replies now ps mb1 = (res1, mb')"
        and res: "res = (if pi_alive info then res1 else p # res1)"
        using Cons.prems Some by (auto simp: mb1_def split: prod.splits)
      note IH = Cons.IH [OF rest]
      have ep: "mb_epoch mb1 = mb_epoch mb" by (simp add: mb1_def)
      have find1: "umap_find (mb_peers mb1) j = map_option (if j = p then mark_seen now (mb_epoch mb) else id) (umap_find (mb_peers mb) j)" for j
        by (simp add: mb1_def umap_find_modify option.map_id)
      have "umap_find (mb_peers mb') j = map_option (if j \<in> set (p # ps) then mark_seen now (mb_epoch mb) else id)
          (umap_find (mb_peers mb) j)" for j
      proof -
        have "umap_find (mb_peers mb') j = map_option (if j \<in> set ps then mark_seen now (mb_epoch mb) else id) (umap_find (mb_peers mb1) j)"
          using IH unfolding ep by blast
        then show ?thesis by (cases "umap_find (mb_peers mb) j") (simp_all add: find1 idem)
      qed
      moreover have "set res = {i \<in> set (p # ps). \<exists>info. umap_find (mb_peers mb) i = Some info \<and> \<not> pi_alive info}"
      proof -
        define Q where "Q i \<longleftrightarrow> (\<exists>info. umap_find (mb_peers mb) i = Some info \<and> \<not> pi_alive info)" for i
        have "set res1 = {i \<in> set ps. \<exists>info. umap_find (mb_peers mb1) i = Some info \<and> \<not> pi_alive info}"
          using IH by blast
        also have "\<dots> = {i \<in> set ps. i \<noteq> p \<and> (\<exists>info. umap_find (mb_peers mb) i = Some info \<and> \<not> pi_alive info)}"
          by (auto simp: find1 option.map_id split: if_splits)
        finally have res1: "set res1 = {i \<in> set ps. i \<noteq> p \<and> Q i}" unfolding Q_def .
        have "Q p \<longleftrightarrow> \<not> pi_alive info" using Some by (simp add: Q_def)
        then have "set res = {i \<in> set (p # ps). Q i}" using res res1 by (cases "pi_alive info") auto
        then show ?thesis unfolding Q_def .
      qed
      ultimately show ?thesis using IH by (simp add: mb1_def)
    qed
  qed (simp add: option.map_id)
  then show "mb_local_node_id mb' = mb_local_node_id mb" "mb_cfg mb' = mb_cfg mb" "mb_router mb' = mb_router mb"
    "mb_replicator mb' = mb_replicator mb" "mb_epoch mb' = mb_epoch mb"
    "umap_ok (mb_peers mb') = umap_ok (mb_peers mb)"
    "umap_find (mb_peers mb') i = map_option (if i \<in> set ps then mark_seen now (mb_epoch mb) else id) (umap_find (mb_peers mb) i)"
    "set res = {i \<in> set ps. \<exists>info. umap_find (mb_peers mb) i = Some info \<and> \<not> pi_alive info}"
    by blast+
qed

lemma record_replies_inv:
  assumes "record_replies now ps mb = (res, mb')" "mb_inv mb"
  shows "mb_inv mb'" "alive_set mb' = alive_set mb \<union> set res"
proof -
  note e = record_replies_effect [OF assms(1)]
  show "mb_inv mb'"
    using assms(2) unfolding mb_inv_def e(1,6,7) by (auto split: if_splits)
  show "alive_set mb' = alive_set mb \<union> set res"
    unfolding alive_set_def e(7,8) by (auto split: if_splits)
qed

text \<open>The unified effect of an outbound round, with or without a membership change.\<close>

lemma SendHeartbeats_cases:
  assumes "SendHeartbeatsToAllPeers E reply now n = n'"
  obtains (quiet) "n' = n" "filter reply (map fst (heartbeat_targets (en_peer_order E) (nd_membership n))) = []"
    | (seen) ps res mb where "ps = filter reply (map fst (heartbeat_targets (en_peer_order E) (nd_membership n)))"
        "record_replies now ps (nd_membership n) = (res, mb)"
        "n' = (if res \<noteq> [] then OnMembershipChange E (n\<lparr>nd_membership := mb\<rparr>) [] else n\<lparr>nd_membership := mb\<rparr>)"
proof (cases "filter reply (map fst (heartbeat_targets (en_peer_order E) (nd_membership n))) = []")
  case True
  then have "n' = n" using assms unfolding SendHeartbeatsToAllPeers_def Let_def by (metis (no_types, lifting))
  then show thesis using quiet True by blast
next
  case False
  obtain res mb where rec: "record_replies now (filter reply (map fst (heartbeat_targets (en_peer_order E) (nd_membership n))))
      (nd_membership n) = (res, mb)" by force
  have "heartbeat_targets (en_peer_order E) (nd_membership n) \<noteq> []" using False by auto
  then have "n' = (if res \<noteq> [] then OnMembershipChange E (n\<lparr>nd_membership := mb\<rparr>) [] else n\<lparr>nd_membership := mb\<rparr>)"
    using assms False rec unfolding SendHeartbeatsToAllPeers_def Let_def by simp
  then show thesis using seen [OF refl rec] by blast
qed

lemma member_inv_Send:
  assumes "en_ok E" "member_inv n"
  shows "member_inv (SendHeartbeatsToAllPeers E reply now n)"
  using refl [of "SendHeartbeatsToAllPeers E reply now n"]
proof (cases rule: SendHeartbeats_cases)
  case quiet
  then show ?thesis using assms(2) by simp
next
  case (seen ps res mb)
  have inv: "mb_inv (nd_membership n)" "mb_router (nd_membership n)" using assms(2) by (simp_all add: member_inv_def)
  note r = record_replies_inv [OF seen(2) inv(1)] and e = record_replies_effect [OF seen(2)]
  show ?thesis
  proof (cases "res = []")
    case True
    then show ?thesis
      using seen(3) assms(2) r e(1,3) by (simp add: member_inv_def ring_in_sync_def)
  next
    case False
    then show ?thesis
      using seen(3) OnMembershipChange_sync [OF assms(1), of "n\<lparr>nd_membership := mb\<rparr>"] r(1) e(3) inv(2) by simp
  qed
qed

lemma OnHeartbeat_known:
  assumes "umap_find (mb_peers (nd_membership n)) p = Some info"
  shows "snd (OnHeartbeat E now n p epoch) =
    (let n1 = n\<lparr>nd_membership := (nd_membership n)\<lparr>mb_peers :=
        umap_modify p (mark_seen now (mb_epoch (nd_membership n))) (mb_peers (nd_membership n))\<rparr>\<rparr>
     in if pi_alive info then n1 else OnMembershipChange E n1 [])"
  using assms by (simp add: OnHeartbeat_def Let_def umap_emplace_def)

lemma member_inv_heartbeat:
  assumes "en_ok E" "member_inv n" "umap_find (mb_peers (nd_membership n)) p \<noteq> None"
  shows "member_inv (snd (OnHeartbeat E now n p epoch))"
proof -
  obtain info where info: "umap_find (mb_peers (nd_membership n)) p = Some info" using assms(3) by blast
  define mb where "mb = (nd_membership n)\<lparr>mb_peers :=
    umap_modify p (mark_seen now (mb_epoch (nd_membership n))) (mb_peers (nd_membership n))\<rparr>"
  have inv: "mb_inv (nd_membership n)" using assms(2) by (simp add: member_inv_def)
  have find: "umap_find (mb_peers mb) i = map_option (if i = p then mark_seen now (mb_epoch (nd_membership n)) else id)
      (umap_find (mb_peers (nd_membership n)) i)" for i
    by (simp add: mb_def umap_find_modify option.map_id)
  have mb: "mb_inv mb" "alive_set mb = insert p (alive_set (nd_membership n))" "mb_router mb = mb_router (nd_membership n)"
    "mb_local_node_id mb = mb_local_node_id (nd_membership n)"
  proof -
    show "mb_inv mb" using inv unfolding mb_inv_def find by (auto simp: mb_def split: if_splits)
    show "alive_set mb = insert p (alive_set (nd_membership n))"
      unfolding alive_set_def find using info by (auto split: if_splits)
  qed (simp_all add: mb_def)
  have eq: "snd (OnHeartbeat E now n p epoch) =
      (if pi_alive info then n\<lparr>nd_membership := mb\<rparr> else OnMembershipChange E (n\<lparr>nd_membership := mb\<rparr>) [])"
    unfolding OnHeartbeat_known [OF info] by (simp add: mb_def Let_def)
  show ?thesis
  proof (cases "pi_alive info")
    case True
    then have "p \<in> alive_set (nd_membership n)" using info by (simp add: alive_set_def)
    then show ?thesis
      using eq True mb assms(2) by (simp add: member_inv_def ring_in_sync_def insert_absorb)
  next
    case False
    then show ?thesis
      using eq OnMembershipChange_sync [OF assms(1), of "n\<lparr>nd_membership := mb\<rparr>"] mb assms(2)
      by (simp add: member_inv_def)
  qed
qed

lemma SendHeartbeats_effect:
  assumes "member_inv n"
  obtains res where
    "\<And>i. umap_find (mb_peers (nd_membership (SendHeartbeatsToAllPeers E reply now n))) i =
       map_option (if i \<in> set (filter reply (map fst (heartbeat_targets (en_peer_order E) (nd_membership n))))
         then mark_seen now (mb_epoch (nd_membership n)) else id) (umap_find (mb_peers (nd_membership n)) i)"
    "set res \<subseteq> set (filter reply (map fst (heartbeat_targets (en_peer_order E) (nd_membership n))))"
    "set res \<inter> alive_set (nd_membership n) = {}" "set res \<subseteq> fst ` set (mb_peers (nd_membership n))"
    "alive_set (nd_membership (SendHeartbeatsToAllPeers E reply now n)) = alive_set (nd_membership n) \<union> set res"
    "mb_epoch (nd_membership (SendHeartbeatsToAllPeers E reply now n)) =
       mb_epoch (nd_membership n) + (if res = [] then 0 else 1)"
    "mb_cfg (nd_membership (SendHeartbeatsToAllPeers E reply now n)) = mb_cfg (nd_membership n)"
proof -
  let ?n' = "SendHeartbeatsToAllPeers E reply now n"
  from refl [of ?n'] show thesis
  proof (cases rule: SendHeartbeats_cases)
    case quiet
    then show thesis by (intro that [of "[]"]) (simp_all add: option.map_id)
  next
    case (seen ps res mb)
    have inv: "mb_inv (nd_membership n)" using assms by (simp add: member_inv_def)
    note e = record_replies_effect [OF seen(2)] and r = record_replies_inv [OF seen(2) inv]
    have mb': "nd_membership ?n' = mb\<lparr>mb_epoch := mb_epoch mb + (if res = [] then 0 else 1)\<rparr>"
      using seen(3) by (simp add: OnMembershipChange_effect)
    show thesis
    proof (rule that [of res])
      show "set res \<inter> alive_set (nd_membership n) = {}" unfolding e(8) alive_set_def by auto
      show "set res \<subseteq> set (filter reply (map fst (heartbeat_targets (en_peer_order E) (nd_membership n))))"
        unfolding e(8) seen(1) by blast
      show "set res \<subseteq> fst ` set (mb_peers (nd_membership n))"
        unfolding e(8) by (auto dest!: map_of_SomeD simp: image_iff) (metis fst_conv)
      show "alive_set (nd_membership ?n') = alive_set (nd_membership n) \<union> set res"
        using r(2) by (simp add: mb' alive_set_def)
    qed (use e seen(1) in \<open>simp_all add: mb'\<close>)
  qed
qed

lemma heartbeat_tick_split:
  assumes "EvaluateSuspicions (en_peer_order E) now' (nd_membership (SendHeartbeatsToAllPeers E reply now n)) = (lost, mb)"
  shows "nd_membership (heartbeat_tick E reply now now' n) = mb\<lparr>mb_epoch := mb_epoch mb + (if lost = [] then 0 else 1)\<rparr>"
  using assms by (simp add: heartbeat_tick_def Let_def OnMembershipChange_effect)

lemma alive_diff: "R \<inter> A = {} \<Longrightarrow> L \<inter> R = {} \<Longrightarrow> L \<subseteq> A \<union> R \<Longrightarrow> (A \<union> R) - L = A \<longleftrightarrow> R = {} \<and> L = {}"
  by blast

lemma u64_bumps: "(e :: u64) + 1 \<noteq> e" "e + 1 + 1 \<noteq> e"
  by simp_all

lemma membership_new_peers:
  assumes "distinct (map sp_node_id seeds)" "local \<notin> set (map sp_node_id seeds)"
  shows "mb_inv (membership_new now cfg local seeds r p)"
    and "alive_set (membership_new now cfg local seeds r p) = set (map sp_node_id seeds)"
proof -
  let ?info = "\<lambda>peer. default_peer\<lparr>pi_node_id := sp_node_id peer, pi_address := sp_address peer,
    pi_last_seen := now, pi_last_seen_epoch := 0, pi_alive := True\<rparr>"
  have peers: "mb_peers (membership_new now cfg local seeds r p) = map (\<lambda>s. (sp_node_id s, ?info s)) seeds"
  proof -
    have "fold (\<lambda>peer. umap_emplace (sp_node_id peer) (?info peer)) xs m = m @ map (\<lambda>s. (sp_node_id s, ?info s)) xs"
      if "distinct (map sp_node_id xs)" "set (map sp_node_id xs) \<inter> fst ` set m = {}" for xs m
      using that
    proof (induction xs arbitrary: m)
      case (Cons x xs)
      then have "umap_find m (sp_node_id x) = None" by (simp add: map_of_eq_None_iff)
      then show ?case using Cons by (auto simp: umap_emplace_def)
    qed simp
    from this [of seeds "[]"] show ?thesis using assms(1) by (simp add: membership_new_def)
  qed
  have find: "umap_find (map (\<lambda>s. (sp_node_id s, ?info s)) xs) i = Some v \<Longrightarrow> \<exists>s\<in>set xs. sp_node_id s = i \<and> v = ?info s" for xs i v
    by (induction xs) (auto split: if_splits)
  have dom: "umap_find (map (\<lambda>s. (sp_node_id s, ?info s)) seeds) i = None \<longleftrightarrow> i \<notin> set (map sp_node_id seeds)" for i
    by (auto simp: map_of_eq_None_iff image_iff)
  show "mb_inv (membership_new now cfg local seeds r p)"
    using assms dom find unfolding mb_inv_def peers
    by (auto simp: umap_ok_def comp_def membership_new_def)
  show "alive_set (membership_new now cfg local seeds r p) = set (map sp_node_id seeds)"
  proof (rule set_eqI)
    fix i
    show "i \<in> alive_set (membership_new now cfg local seeds r p) \<longleftrightarrow> i \<in> set (map sp_node_id seeds)"
      using dom [of i] find [of seeds i] unfolding alive_set_def peers
      by (cases "umap_find (map (\<lambda>s. (sp_node_id s, ?info s)) seeds) i") auto
  qed
qed

lemma sample_env_ok [simp]: "en_ok sample_env"
  by (simp add: en_ok_def sample_env_def)

lemma sample_member_inv: "member_inv sample_member"
  using membership_new_peers [of "[\<lparr>sp_node_id = ''b'', sp_address = ''h:1''\<rparr>]" "''a''" 0 default_config True True]
  by (simp add: member_inv_def sample_member_def ring_in_sync_def membership_new_def)

section \<open>Properties\<close>

text \<open>
  C33. The failure detector declares a peer dead exactly when it believed it alive, has heard
  from it at least once, and the last contact is longer ago than the dead threshold; all
  other peers keep their status, so a peer never heard from is never declared dead.
\<close>

theorem EvaluateSuspicions_exact:
  assumes "order_ok ord" "mb_inv mb"
  shows "set (fst (EvaluateSuspicions ord now mb)) = {i. \<exists>info. umap_find (mb_peers mb) i = Some info \<and>
      pi_alive info \<and> pi_ever_seen info \<and> now - pi_last_seen info > mc_dead_after (mb_cfg mb)} \<and>
    alive_set (snd (EvaluateSuspicions ord now mb)) = alive_set mb - set (fst (EvaluateSuspicions ord now mb)) \<and>
    (\<forall>i info. umap_find (mb_peers mb) i = Some info \<and> pi_alive info \<and> pi_ever_seen info \<longrightarrow>
      (\<exists>info'. umap_find (mb_peers (snd (EvaluateSuspicions ord now mb))) i = Some info' \<and>
        (mc_suspect_after (mb_cfg mb) \<le> mc_dead_after (mb_cfg mb) \<longrightarrow>
          (pi_suspected info' \<longleftrightarrow> now - pi_last_seen info > mc_suspect_after (mb_cfg mb)))))"
proof (intro conjI allI impI)
  have local: "umap_find (mb_peers mb) i = Some info \<Longrightarrow> i \<noteq> mb_local_node_id mb" for i info
    using assms(2) by (auto simp: mb_inv_def)
  show "set (fst (EvaluateSuspicions ord now mb)) = {i. \<exists>info. umap_find (mb_peers mb) i = Some info \<and>
      pi_alive info \<and> pi_ever_seen info \<and> now - pi_last_seen info > mc_dead_after (mb_cfg mb)}"
    unfolding EvaluateSuspicions_lost [OF assms] judge_facts(3) using local by blast
  show "alive_set (snd (EvaluateSuspicions ord now mb)) = alive_set mb - set (fst (EvaluateSuspicions ord now mb))"
    by (rule EvaluateSuspicions_alive [OF assms])
  fix i info
  assume a: "umap_find (mb_peers mb) i = Some info \<and> pi_alive info \<and> pi_ever_seen info"
  then show "\<exists>info'. umap_find (mb_peers (snd (EvaluateSuspicions ord now mb))) i = Some info' \<and>
      (mc_suspect_after (mb_cfg mb) \<le> mc_dead_after (mb_cfg mb) \<longrightarrow>
        (pi_suspected info' \<longleftrightarrow> now - pi_last_seen info > mc_suspect_after (mb_cfg mb)))"
    using local [of i info] by (auto simp: EvaluateSuspicions_find judge_def Let_def)
qed

theorem EvaluateSuspicions_exact_witness:
  "alive_set (snd (EvaluateSuspicions (\<lambda>ks. ks) 9000 (nd_membership sample_member))) =
   alive_set (nd_membership sample_member) - set (fst (EvaluateSuspicions (\<lambda>ks. ks) 9000 (nd_membership sample_member)))"
  using EvaluateSuspicions_exact [OF order_ok_id, of "nd_membership sample_member" 9000] sample_member_inv
  by (simp add: member_inv_def)

text \<open>
  C34. The cluster epoch moves exactly with the membership view: over one turn of the heartbeat
  loop that no handler interrupts and that takes no longer than the dead threshold, the epoch is unchanged if and only if
  the set of peers believed alive is unchanged.
\<close>

theorem epoch_tracks_membership:
  assumes "en_ok E" "member_inv n" "now' - now \<le> mc_dead_after (mb_cfg (nd_membership n))"
  shows "mb_epoch (nd_membership (heartbeat_tick E reply now now' n)) = mb_epoch (nd_membership n) \<longleftrightarrow>
    alive_set (nd_membership (heartbeat_tick E reply now now' n)) = alive_set (nd_membership n)"
proof -
  let ?n1 = "SendHeartbeatsToAllPeers E reply now n"
  let ?ps = "filter reply (map fst (heartbeat_targets (en_peer_order E) (nd_membership n)))"
  obtain res where s: "\<And>i. umap_find (mb_peers (nd_membership ?n1)) i = map_option (if i \<in> set ?ps
         then mark_seen now (mb_epoch (nd_membership n)) else id) (umap_find (mb_peers (nd_membership n)) i)"
    "set res \<subseteq> set ?ps" "set res \<inter> alive_set (nd_membership n) = {}"
    "alive_set (nd_membership ?n1) = alive_set (nd_membership n) \<union> set res"
    "mb_epoch (nd_membership ?n1) = mb_epoch (nd_membership n) + (if res = [] then 0 else 1)"
    "mb_cfg (nd_membership ?n1) = mb_cfg (nd_membership n)"
    using SendHeartbeats_effect [OF assms(2), of E reply now] by metis
  obtain lost mb where ev: "EvaluateSuspicions (en_peer_order E) now' (nd_membership ?n1) = (lost, mb)" by force
  have ord: "order_ok (en_peer_order E)" using assms(1) by (simp add: en_ok_def)
  have inv1: "mb_inv (nd_membership ?n1)" using member_inv_Send [OF assms(1,2)] by (simp add: member_inv_def)
  have lost: "set lost \<subseteq> alive_set (nd_membership ?n1)" "set lost \<inter> set res = {}"
  proof -
    have dead: "i \<in> set lost \<Longrightarrow> \<exists>info. umap_find (mb_peers (nd_membership ?n1)) i = Some info \<and> pi_alive info \<and>
        now' - pi_last_seen info > mc_dead_after (mb_cfg (nd_membership n))" for i
      using EvaluateSuspicions_lost [OF ord inv1, of now'] ev s(6) by (auto simp: judge_facts)
    then show "set lost \<subseteq> alive_set (nd_membership ?n1)" by (auto simp: alive_set_def)
    show "set lost \<inter> set res = {}"
      using dead s(1,2) assms(3) by fastforce
  qed
  have "alive_set (nd_membership (heartbeat_tick E reply now now' n)) = (alive_set (nd_membership n) \<union> set res) - set lost"
    using EvaluateSuspicions_alive [OF ord inv1, of now'] ev s(4) heartbeat_tick_split [OF ev] by (simp add: alive_set_def)
  moreover have "mb_epoch (nd_membership (heartbeat_tick E reply now now' n)) =
      mb_epoch (nd_membership n) + (if res = [] then 0 else 1) + (if lost = [] then 0 else 1)"
  proof -
    have "mb_epoch mb = mb_epoch (nd_membership ?n1)"
      using EvaluateSuspicions_rest(5) [of "en_peer_order E" now' "nd_membership ?n1"] unfolding ev by simp
    also have "\<dots> = mb_epoch (nd_membership n) + (if res = [] then 0 else 1)" by (rule s(5))
    finally have "mb_epoch mb = mb_epoch (nd_membership n) + (if res = [] then 0 else 1)" .
    moreover have "mb_epoch (mb\<lparr>mb_epoch := x\<rparr>) = x" for x by simp
    ultimately show ?thesis unfolding heartbeat_tick_split [OF ev] by (simp only:)
  qed
  moreover have "(alive_set (nd_membership n) \<union> set res) - set lost = alive_set (nd_membership n) \<longleftrightarrow> res = [] \<and> lost = []"
    using alive_diff [OF s(3) lost(2) lost(1) [unfolded s(4)]] by simp
  moreover have "e + (if r then 0 else 1) + (if l then 0 else 1) = e \<longleftrightarrow> r \<and> l" for e :: u64 and r l
    using u64_bumps [of e] by (cases r; cases l) simp_all
  ultimately show ?thesis by (simp only:)
qed

theorem epoch_tracks_membership_witness:
  "mb_epoch (nd_membership (heartbeat_tick sample_env (\<lambda>_. True) 100 101 sample_member)) = mb_epoch (nd_membership sample_member) \<longleftrightarrow>
   alive_set (nd_membership (heartbeat_tick sample_env (\<lambda>_. True) 100 101 sample_member)) = alive_set (nd_membership sample_member)"
  by (rule epoch_tracks_membership [OF sample_env_ok sample_member_inv])
    (simp add: sample_member_def membership_new_def default_config_def)

text \<open>
  When peers are lost, the ring is rebuilt first and the re-replication round is computed on
  the new ring: the round holds exactly the resident blocks for which the local node is in
  the route among the surviving peers.
\<close>

theorem lost_peer_starts_round:
  assumes "en_ok E" "mb_router (nd_membership n)" "mb_replicator (nd_membership n)"
    and "wired (nd_replicator n)" "ts_inv (nd_store n)"
  shows "set (rp_rerep_round (nd_replicator (OnMembershipChange E n (p # lost)))) =
    {i. ts_content (nd_store n) i \<noteq> None \<and>
      in_route (nd_router (OnMembershipChange E n (p # lost))) (rp_local_node_id (nd_replicator n)) i}"
proof -
  have ord: "order_ok (en_block_order E)" using assms(1) by (simp add: en_ok_def)
  have drain: "rp_rerep_round (nd_replicator (DrainReReplication m)) = rp_rerep_round (nd_replicator m)" for m :: "'a Member_Node_scheme"
    using drain_loop_frame by (auto simp: DrainReReplication_def Let_def split: prod.splits)
  show ?thesis
    using assms(2-5) by (simp add: OnMembershipChange_def Let_def TriggerReReplication_def wired_def drain
        set_rerep_candidates [OF assms(5) ord])
qed

theorem lost_peer_starts_round_witness:
  "set (rp_rerep_round (nd_replicator (OnMembershipChange sample_env sample_member [''b'']))) =
   {i. ts_content (nd_store sample_member) i \<noteq> None \<and>
     in_route (nd_router (OnMembershipChange sample_env sample_member [''b'']))
       (rp_local_node_id (nd_replicator sample_member)) i}"
  by (rule lost_peer_starts_round)
    (simp_all add: sample_member_def membership_new_def wired_def replicator_new_def sample_run)

text \<open>
  A heartbeat from a peer believed dead brings it back: it is alive and in the ring, the
  contact is recorded, and the epoch advances by one.
\<close>

theorem OnHeartbeat_resurrects:
  assumes "en_ok E" "member_inv n" "umap_find (mb_peers (nd_membership n)) p = Some info" "\<not> pi_alive info"
  shows "p \<in> alive_set (nd_membership (snd (OnHeartbeat E now n p epoch))) \<and>
    p \<in> set (rt_peers (nd_router (snd (OnHeartbeat E now n p epoch)))) \<and>
    mb_epoch (nd_membership (snd (OnHeartbeat E now n p epoch))) = mb_epoch (nd_membership n) + 1"
proof -
  have mem: "nd_membership (snd (OnHeartbeat E now n p epoch)) = (nd_membership n)\<lparr>mb_peers := umap_modify p
      (mark_seen now (mb_epoch (nd_membership n))) (mb_peers (nd_membership n)), mb_epoch := mb_epoch (nd_membership n) + 1\<rparr>"
    using assms(4) unfolding OnHeartbeat_known [OF assms(3)] by (simp add: Let_def OnMembershipChange_effect)
  then have "p \<in> alive_set (nd_membership (snd (OnHeartbeat E now n p epoch)))"
    using assms(3) by (simp add: alive_set_def umap_find_modify)
  moreover have "member_inv (snd (OnHeartbeat E now n p epoch))"
    using member_inv_heartbeat [OF assms(1,2)] assms(3) by simp
  ultimately show ?thesis using mem by (simp add: member_inv_def ring_in_sync_def)
qed

theorem OnHeartbeat_resurrects_witness:
  "''b'' \<in> set (rt_peers (nd_router (snd (OnHeartbeat sample_env 5 sample_dead ''b'' 0))))"
proof -
  have "member_inv sample_dead"
    by (auto simp: member_inv_def ring_in_sync_def mb_inv_def alive_set_def sample_dead_def sample_member_def
        membership_new_def umap_ok_def default_peer_def split: if_splits)
  then show ?thesis
    using OnHeartbeat_resurrects [OF sample_env_ok, of sample_dead "''b''"] by (simp add: sample_dead_def)
qed

text \<open>
  A heartbeat from a peer that is not in the table does not change the membership as the
  comment in the handler has it: the peer is alive from then on and reported to others, but
  the epoch and the ring stay as they were, so no block is routed to it.
\<close>

theorem unknown_peer_not_in_ring:
  assumes "umap_find (mb_peers (nd_membership n)) p = None" "p \<notin> set (rt_peers (nd_router n))"
  shows "p \<in> alive_set (nd_membership (snd (OnHeartbeat E now n p epoch))) \<and>
    p \<notin> set (rt_peers (nd_router (snd (OnHeartbeat E now n p epoch)))) \<and>
    mb_epoch (nd_membership (snd (OnHeartbeat E now n p epoch))) = mb_epoch (nd_membership n)"
  using assms
  by (simp add: OnHeartbeat_def Let_def umap_emplace_def umap_find_modify alive_set_def default_peer_def map_add_def)

theorem unknown_peer_not_in_ring_witness:
  "''c'' \<in> alive_set (nd_membership (snd (OnHeartbeat sample_env 5 sample_member ''c'' 0))) \<and>
   ''c'' \<notin> set (rt_peers (nd_router (snd (OnHeartbeat sample_env 5 sample_member ''c'' 0))))"
  using unknown_peer_not_in_ring [of sample_member "''c''" sample_env 5 0]
  by (simp add: sample_member_def membership_new_def umap_emplace_def)

end
