(* ===== verification/Epoch_Watcher.thy ===== *)
theory Epoch_Watcher
  imports Client_Ring Membership
begin

text \<open>
  The client's view of the membership, \<open>client/lethe_client/epoch_watcher.py\<close>: a thread polls one peer after the
  other for a snapshot of the cluster and swaps the client's ring when the snapshot is newer.  The
  probe is a parameter, as in the code: it raises (\<open>None\<close>), has nothing to report (\<open>Some None\<close>) or
  returns a snapshot.
\<close>

section \<open>Definitions\<close>

record EpochSnapshot =
  es_source_peer :: string
  es_epoch :: int
  es_alive_peers :: "PeerStatus list"

type_synonym probe = "string \<Rightarrow> EpochSnapshot option option"

record EpochWatcher =
  ew_seed_peers :: "string list"
  ew_ring :: HashRing
  ew_epoch :: int
  ew_alive_peers :: "PeerStatus list"
  ew_stop_evt :: bool
  ew_thread :: bool

definition watcher_new :: "string list \<Rightarrow> HashRing \<Rightarrow> EpochWatcher" where
  "watcher_new seed_peers ring =
     \<lparr>ew_seed_peers = seed_peers, ew_ring = ring, ew_epoch = 0,
      ew_alive_peers = map (\<lambda>p. \<lparr>ps_node_id = p, ps_last_seen_epoch = 0, ps_suspected = False\<rparr>) seed_peers,
      ew_stop_evt = False, ew_thread = False\<rparr>"

definition watcher_start :: "EpochWatcher \<Rightarrow> EpochWatcher" where
  "watcher_start w = (if ew_thread w then w else w\<lparr>ew_stop_evt := False, ew_thread := True\<rparr>)"

definition watcher_stop :: "EpochWatcher \<Rightarrow> EpochWatcher" where
  "watcher_stop w = w\<lparr>ew_stop_evt := True, ew_thread := False\<rparr>"

definition probe_candidates :: "EpochWatcher \<Rightarrow> string list" where
  "probe_candidates w =
     (let known = ew_alive_peers w;
          c1 = map ps_node_id (filter (\<lambda>p. \<not> ps_suspected p) known);
          c2 = (if c1 = [] then map ps_node_id known else c1)
      in if c2 = [] then ew_seed_peers w else c2)"

fun probe_loop :: "probe \<Rightarrow> string list \<Rightarrow> EpochSnapshot option" where
  "probe_loop probe [] = None"
| "probe_loop probe (peer_id # ids) =
     (case probe peer_id of
        None \<Rightarrow> probe_loop probe ids
      | Some None \<Rightarrow> probe_loop probe ids
      | Some (Some snap) \<Rightarrow> Some snap)"

definition probe_any_peer :: "probe \<Rightarrow> EpochWatcher \<Rightarrow> EpochSnapshot option" where
  "probe_any_peer probe w = probe_loop probe (probe_candidates w)"

definition apply_if_newer :: "(string \<Rightarrow> byte list) \<Rightarrow> EpochSnapshot \<Rightarrow> EpochWatcher \<Rightarrow> EpochWatcher" where
  "apply_if_newer blake3_full snap w =
     (if es_epoch snap \<le> ew_epoch w then w
      else w\<lparr>ew_epoch := es_epoch snap, ew_alive_peers := es_alive_peers snap,
             ew_ring := hash_ring_new blake3_full (map ps_node_id (es_alive_peers snap)) (py_vnodes_per_peer (ew_ring w))\<rparr>)"

text \<open>One turn of the loop, with the probe as it answers then.\<close>

definition watcher_turn :: "(string \<Rightarrow> byte list) \<Rightarrow> probe \<Rightarrow> EpochWatcher \<Rightarrow> EpochWatcher" where
  "watcher_turn blake3_full probe w =
     (if ew_stop_evt w then w
      else case probe_any_peer probe w of None \<Rightarrow> w | Some snap \<Rightarrow> apply_if_newer blake3_full snap w)"

text \<open>The snapshot that mirrors a server's reply to a heartbeat.\<close>

definition snapshot_of_reply :: "string \<Rightarrow> HeartbeatReply \<Rightarrow> EpochSnapshot" where
  "snapshot_of_reply server reply =
     \<lparr>es_source_peer = server, es_epoch = uint (hr_cluster_epoch reply), es_alive_peers = hr_alive_peers reply\<rparr>"

text \<open>A watcher whose ring is the one of its peers.\<close>

definition watcher_ok :: "(string \<Rightarrow> byte list) \<Rightarrow> int \<Rightarrow> EpochWatcher \<Rightarrow> bool" where
  "watcher_ok blake3_full v w \<longleftrightarrow> 0 \<le> ew_epoch w \<and>
     ew_ring w = hash_ring_new blake3_full (map ps_node_id (ew_alive_peers w)) v"

section \<open>Lemmas\<close>

lemma hash_ring_vnodes [simp]: "py_vnodes_per_peer (hash_ring_new b ps v) = v"
  by (simp add: hash_ring_new_def py_set_peers_def)

lemma hash_ring_names:
  "snd ` set (py_ring (hash_ring_new b ps v)) = (if 0 < v then set ps else {})"
  by (auto simp: hash_ring_new_def py_set_peers_def image_iff intro!: exI [of _ 0])

lemma py_route_subset: "py_route hr h n = Some ps \<Longrightarrow> set ps \<subseteq> snd ` set (py_ring hr)"
  using py_walk_returns [of "py_ring hr" n "py_vnodes_per_peer hr * 32" _ "[]" "{}" ps]
  by (auto simp: py_route_def Let_def split: if_splits)

lemma probe_loop_sound: "probe_loop probe ids = Some snap \<Longrightarrow> \<exists>p\<in>set ids. probe p = Some (Some snap)"
  by (induction probe ids rule: probe_loop.induct) (auto split: option.splits)

lemma probe_loop_fails: "probe_loop probe ids = None \<longleftrightarrow> (\<forall>p\<in>set ids. \<forall>snap. probe p \<noteq> Some (Some snap))"
  by (induction probe ids rule: probe_loop.induct) (auto split: option.splits)

lemma watcher_turn_cases:
  "watcher_turn b probe w = w \<or>
   (\<exists>snap p. probe p = Some (Some snap) \<and> ew_epoch w < es_epoch snap \<and> watcher_turn b probe w = apply_if_newer b snap w)"
proof (cases "probe_any_peer probe w")
  case (Some snap)
  then obtain p where "probe p = Some (Some snap)" using probe_loop_sound [of probe "probe_candidates w" snap] by (auto simp: probe_any_peer_def)
  moreover have "watcher_turn b probe w = w \<or> ew_epoch w < es_epoch snap \<and> watcher_turn b probe w = apply_if_newer b snap w"
    using Some by (cases "ew_epoch w < es_epoch snap"; cases "ew_stop_evt w")
      (simp_all add: watcher_turn_def, simp add: apply_if_newer_def)
  ultimately show ?thesis by blast
qed (simp add: watcher_turn_def)

text \<open>The names in a server's reply: the prober, and those of the table of peers.\<close>

lemma reply_names:
  assumes "mb_inv (nd_membership n)" "order_ok (en_peer_order E)"
  shows "prober \<in> ps_node_id ` set (hr_alive_peers (fst (OnHeartbeat E now n prober epoch)))"
    and "q \<in> ps_node_id ` set (hr_alive_peers (fst (OnHeartbeat E now n prober epoch))) \<Longrightarrow>
      q = prober \<or> umap_find (mb_peers (nd_membership n)) q \<noteq> None"
proof -
  define peers where "peers = umap_modify prober (mark_seen now (mb_epoch (nd_membership n)))
    (umap_emplace prober (default_peer\<lparr>pi_node_id := prober\<rparr>) (mb_peers (nd_membership n)))"
  have inv: "umap_ok (mb_peers (nd_membership n))"
    "\<And>i info. umap_find (mb_peers (nd_membership n)) i = Some info \<Longrightarrow> pi_node_id info = i"
    using assms(1) by (simp_all add: mb_inv_def)
  have ok: "umap_ok peers" using inv(1) by (auto simp: peers_def)
  have named: "pi_node_id info = i" "i = prober \<or> umap_find (mb_peers (nd_membership n)) i \<noteq> None"
    if "umap_find peers i = Some info" for i info
    using that inv(2) by (auto simp: peers_def umap_find_modify umap_find_emplace split: option.splits if_splits)
  have "hr_alive_peers (fst (OnHeartbeat E now n prober epoch)) =
      map (\<lambda>(i, info). \<lparr>ps_node_id = pi_node_id info, ps_last_seen_epoch = pi_last_seen_epoch info, ps_suspected = pi_suspected info\<rparr>)
        (filter (\<lambda>(i, info). pi_alive info) (umap_iter (en_peer_order E) peers))"
    by (simp add: OnHeartbeat_def Let_def peers_def)
  then have "ps_node_id ` set (hr_alive_peers (fst (OnHeartbeat E now n prober epoch))) =
      (\<lambda>(i, info). pi_node_id info) ` {p \<in> set peers. pi_alive (snd p)}"
    using set_umap_iter [OF assms(2) ok] by (auto simp: image_image case_prod_unfold)
  also have "\<dots> = {i. \<exists>info. umap_find peers i = Some info \<and> pi_alive info}"
  proof (intro set_eqI iffI)
    fix i assume "i \<in> (\<lambda>(i, info). pi_node_id info) ` {p \<in> set peers. pi_alive (snd p)}"
    then obtain j info where j: "(j, info) \<in> set peers" "pi_alive info" "i = pi_node_id info" by auto
    then have "umap_find peers j = Some info" using ok by (simp add: umap_ok_def)
    then show "i \<in> {i. \<exists>info. umap_find peers i = Some info \<and> pi_alive info}" using named(1) j by auto
  next
    fix i assume "i \<in> {i. \<exists>info. umap_find peers i = Some info \<and> pi_alive info}"
    then obtain info where i: "umap_find peers i = Some info" "pi_alive info" by auto
    then have "(i, info) \<in> set peers" by (simp add: map_of_SomeD)
    then show "i \<in> (\<lambda>(i, info). pi_node_id info) ` {p \<in> set peers. pi_alive (snd p)}" using i named(1) by force
  qed
  finally have names: "ps_node_id ` set (hr_alive_peers (fst (OnHeartbeat E now n prober epoch))) =
      {i. \<exists>info. umap_find peers i = Some info \<and> pi_alive info}" .
  have "\<exists>info. umap_find peers prober = Some info \<and> pi_alive info"
    by (cases "umap_find (mb_peers (nd_membership n)) prober") (simp_all add: peers_def umap_find_modify umap_find_emplace)
  then show "prober \<in> ps_node_id ` set (hr_alive_peers (fst (OnHeartbeat E now n prober epoch)))"
    by (simp add: names)
  show "q \<in> ps_node_id ` set (hr_alive_peers (fst (OnHeartbeat E now n prober epoch))) \<Longrightarrow>
      q = prober \<or> umap_find (mb_peers (nd_membership n)) q \<noteq> None"
    using named(2) by (auto simp only: names mem_Collect_eq)
qed

text \<open>
  The fall-back to other peers and to the seeds concerns empty lists only: while some known peer is not
  suspected but none of those answers, a turn changes nothing, whoever else would answer.
\<close>

lemma watcher_no_fallback:
  assumes "\<exists>p\<in>set (ew_alive_peers w). \<not> ps_suspected p"
    and "\<forall>p\<in>set (ew_alive_peers w). \<not> ps_suspected p \<longrightarrow> probe (ps_node_id p) = None"
  shows "watcher_turn b probe w = w"
proof -
  have "probe_candidates w = map ps_node_id (filter (\<lambda>p. \<not> ps_suspected p) (ew_alive_peers w))"
    using assms(1) by (auto simp: probe_candidates_def Let_def filter_empty_conv)
  then have "probe_any_peer probe w = None" using assms(2) by (auto simp: probe_any_peer_def probe_loop_fails)
  then show ?thesis by (simp add: watcher_turn_def)
qed

section \<open>Properties\<close>

text \<open>
  C38. Whatever the probes answer, the epoch of a watcher never decreases and its ring is always the ring of
  the peers it believes alive; once the epoch has moved, that set is the one a probed peer
  reported with this very epoch.
\<close>

theorem watcher_follows_reports:
  assumes "watcher_ok b v w"
  shows "watcher_ok b v (fold (watcher_turn b) probes w) \<and> ew_epoch w \<le> ew_epoch (fold (watcher_turn b) probes w) \<and>
    (ew_epoch (fold (watcher_turn b) probes w) = ew_epoch w \<and> fold (watcher_turn b) probes w = w \<or>
     (\<exists>probe\<in>set probes. \<exists>p snap. probe p = Some (Some snap) \<and> es_epoch snap = ew_epoch (fold (watcher_turn b) probes w) \<and>
       es_alive_peers snap = ew_alive_peers (fold (watcher_turn b) probes w)))"
  using assms
proof (induction probes rule: rev_induct)
  case (snoc probe probes)
  let ?w = "fold (watcher_turn b) probes w"
  from watcher_turn_cases [of b probe ?w] show ?case
  proof (elim disjE exE conjE)
    assume "watcher_turn b probe ?w = ?w"
    then show ?thesis using snoc by auto
  next
    fix snap p
    assume new: "probe p = Some (Some snap)" "ew_epoch ?w < es_epoch snap" "watcher_turn b probe ?w = apply_if_newer b snap ?w"
    have v: "py_vnodes_per_peer (ew_ring ?w) = v" using snoc by (simp add: watcher_ok_def)
    have "watcher_ok b v (apply_if_newer b snap ?w)" using snoc new(2) by (simp add: apply_if_newer_def watcher_ok_def v)
    moreover have "ew_epoch (apply_if_newer b snap ?w) = es_epoch snap" "ew_alive_peers (apply_if_newer b snap ?w) = es_alive_peers snap"
      using new(2) by (simp_all add: apply_if_newer_def)
    ultimately show ?thesis using snoc new by fastforce
  qed
qed simp

theorem watcher_follows_reports_witness:
  "watcher_ok (\<lambda>_. []) 1 (watcher_new [''a''] (hash_ring_new (\<lambda>_. []) [''a''] 1)) \<and>
   watcher_ok (\<lambda>_. []) 1 (fold (watcher_turn (\<lambda>_. [])) [\<lambda>_. None, \<lambda>_. Some (Some \<lparr>es_source_peer = ''a'', es_epoch = 2, es_alive_peers = []\<rparr>)]
     (watcher_new [''a''] (hash_ring_new (\<lambda>_. []) [''a''] 1)))"
proof -
  have "watcher_ok (\<lambda>_. []) 1 (watcher_new [''a''] (hash_ring_new (\<lambda>_. []) [''a''] 1))" by (simp add: watcher_ok_def watcher_new_def)
  then show ?thesis using watcher_follows_reports by blast
qed

text \<open>
  C39. A watcher that follows the reply of a server takes that server out of its ring.  A server does not list
  itself among its peers, so the ring built from its reply to a heartbeat never routes a block
  to it; and it does list the prober, who thereby becomes a member of the ring.
\<close>

theorem watcher_drops_server:
  assumes "watcher_ok b v w" "0 < v" "fst (OnHeartbeat E now n prober epoch) = reply"
    and "mb_inv (nd_membership n)" "server = mb_local_node_id (nd_membership n)"
    and "prober \<noteq> server" "order_ok (en_peer_order E)" "ew_epoch w < uint (hr_cluster_epoch reply)"
  shows "prober \<in> snd ` set (py_ring (ew_ring (apply_if_newer b (snapshot_of_reply server reply) w))) \<and>
    (\<forall>h k ps. py_route (ew_ring (apply_if_newer b (snapshot_of_reply server reply) w)) h k = Some ps \<longrightarrow> server \<notin> set ps)"
proof -
  let ?hr = "ew_ring (apply_if_newer b (snapshot_of_reply server reply) w)"
  have "?hr = hash_ring_new b (map ps_node_id (hr_alive_peers reply)) v"
    using assms(1,8) by (simp add: apply_if_newer_def snapshot_of_reply_def watcher_ok_def)
  then have names: "snd ` set (py_ring ?hr) = ps_node_id ` set (hr_alive_peers reply)"
    using assms(2) by (simp add: hash_ring_names)
  have "umap_find (mb_peers (nd_membership n)) server = None" using assms(4,5) by (simp add: mb_inv_def)
  then have no: "server \<notin> ps_node_id ` set (hr_alive_peers reply)"
    using reply_names(2) [OF assms(4,7), of server now prober epoch] assms(3,6) by auto
  have yes: "prober \<in> ps_node_id ` set (hr_alive_peers reply)"
    using reply_names(1) [OF assms(4,7), of prober now epoch] assms(3) by simp
  have "server \<notin> set ps" if "py_route ?hr h k = Some ps" for h k ps
    using py_route_subset [OF that] no unfolding names by (rule contra_subsetD)
  then show ?thesis using yes unfolding names by simp
qed

theorem watcher_drops_server_witness:
  "\<exists>w. ew_epoch w = 0 \<and> mb_epoch (nd_membership (sample_member\<lparr>nd_membership := (nd_membership sample_member)\<lparr>mb_epoch := 5\<rparr>\<rparr>)) = 5 \<and>
     ''client'' \<in> snd ` set (py_ring (ew_ring (apply_if_newer sample_digest (snapshot_of_reply ''a''
       (fst (OnHeartbeat sample_env 5 (sample_member\<lparr>nd_membership := (nd_membership sample_member)\<lparr>mb_epoch := 5\<rparr>\<rparr>) ''client'' 0))) w)))"
proof -
  let ?n = "sample_member\<lparr>nd_membership := (nd_membership sample_member)\<lparr>mb_epoch := 5\<rparr>\<rparr>"
  let ?w = "watcher_new [''a'', ''b''] (hash_ring_new sample_digest [''a'', ''b''] 2)"
  have inv: "mb_inv (nd_membership ?n)" using sample_member_inv by (simp add: member_inv_def mb_inv_def)
  have ok: "watcher_ok sample_digest 2 ?w" by (simp add: watcher_ok_def watcher_new_def comp_def)
  have here: "''a'' = mb_local_node_id (nd_membership ?n)" by (simp add: sample_member_def membership_new_def)
  have order: "order_ok (en_peer_order sample_env)" using sample_env_ok by (simp add: en_ok_def)
  have newer: "ew_epoch ?w < uint (hr_cluster_epoch (fst (OnHeartbeat sample_env 5 ?n ''client'' 0)))"
    by (simp add: watcher_new_def OnHeartbeat_def Let_def)
  note drops = watcher_drops_server [OF ok _ refl inv here _ order newer]
  have "''client'' \<in> snd ` set (py_ring (ew_ring (apply_if_newer sample_digest (snapshot_of_reply ''a''
       (fst (OnHeartbeat sample_env 5 ?n ''client'' 0))) ?w)))"
    by (rule conjunct1 [OF drops]) simp_all
  moreover have "ew_epoch ?w = 0" by (simp add: watcher_new_def)
  ultimately show ?thesis by (intro exI [of _ ?w]) simp
qed

end
