(* ===== verification/Std_String.thy ===== *)
theory Std_String
  imports Routing
begin

text \<open>
  The operations of the C++ standard library on strings that the parsers of the repository
  use: \<open>find\<close>, \<open>rfind\<close>, \<open>std::getline\<close> with a delimiter, \<open>std::stoi\<close> and \<open>std::strtoull\<close>, with
  the lemmas that the round trips of the parsers rest on.  An exception is \<open>None\<close>.
\<close>

section \<open>Definitions\<close>

definition find_char :: "char \<Rightarrow> string \<Rightarrow> nat option" where
  "find_char c s = (let n = length (takeWhile (\<lambda>x. x \<noteq> c) s) in if n < length s then Some n else None)"

definition find_from :: "char \<Rightarrow> string \<Rightarrow> nat \<Rightarrow> nat option" where
  "find_from c s i = map_option (\<lambda>n. i + n) (find_char c (drop i s))"

definition rfind_char :: "char \<Rightarrow> string \<Rightarrow> nat option" where
  "rfind_char c s = map_option (\<lambda>n. length s - 1 - n) (find_char c (rev s))"

text \<open>
  The items that a loop over \<open>std::getline(iss, item, d)\<close> sees: a delimiter at the very end does
  not produce an empty last item.
\<close>

function getline_items :: "char \<Rightarrow> string \<Rightarrow> string list" where
  "getline_items d s =
     (if s = [] then []
      else takeWhile (\<lambda>x. x \<noteq> d) s # getline_items d (tl (dropWhile (\<lambda>x. x \<noteq> d) s)))"
  by auto
termination
proof (relation "measure (\<lambda>(d, s). length s)")
  fix d :: char and s :: string
  assume "s \<noteq> []"
  moreover have "length (dropWhile (\<lambda>x. x \<noteq> d) s) \<le> length s" by (rule length_dropWhile_le)
  ultimately have "length (tl (dropWhile (\<lambda>x. x \<noteq> d) s)) < length s"
    by (simp only: length_tl length_greater_0_conv [symmetric])
  then show "((d, tl (dropWhile (\<lambda>x. x \<noteq> d) s)), d, s) \<in> measure (\<lambda>(d, s). length s)" by simp
qed simp

declare getline_items.simps [simp del]

definition is_digit :: "char \<Rightarrow> bool" where
  "is_digit c = (let n = (of_char c :: nat) in 48 \<le> n \<and> n \<le> 57)"

definition is_space :: "char \<Rightarrow> bool" where
  "is_space c = (let n = (of_char c :: nat) in n = 32 \<or> 9 \<le> n \<and> n \<le> 13)"

text \<open>The sign and the digits at the front of a string, after white space.\<close>

definition scan_int :: "string \<Rightarrow> (bool \<times> nat) option" where
  "scan_int s =
     (let s1 = dropWhile is_space s;
          neg = (s1 \<noteq> [] \<and> hd s1 = CHR ''-'');
          s2 = (if s1 \<noteq> [] \<and> (hd s1 = CHR ''-'' \<or> hd s1 = CHR ''+'') then tl s1 else s1);
          ds = takeWhile is_digit s2
      in if ds = [] then None else Some (neg, digits_value 0 ds))"

definition stoi :: "string \<Rightarrow> int option" where
  "stoi s =
     (case scan_int s of
        None \<Rightarrow> None
      | Some (neg, n) \<Rightarrow>
          let v = (if neg then - int n else int n)
          in if - (2 ^ 31) \<le> v \<and> v < 2 ^ 31 then Some v else None)"

text \<open>\<open>strtoull\<close> returns 0 when there is no number, the maximum when it is too large, and negates modulo \<open>2 ^ 64\<close>.\<close>

definition strtoull :: "string \<Rightarrow> u64" where
  "strtoull s =
     (case scan_int s of
        None \<Rightarrow> 0
      | Some (neg, n) \<Rightarrow>
          if n \<ge> 2 ^ 64 then - 1 else if neg then - word_of_nat n else word_of_nat n)"

text \<open>The inverse of splitting: items joined with a delimiter.\<close>

fun join :: "char \<Rightarrow> string list \<Rightarrow> string" where
  "join d [] = []"
| "join d [x] = x"
| "join d (x # y # zs) = x @ d # join d (y # zs)"

section \<open>Lemmas\<close>

lemma find_char_append: "c \<notin> set xs \<Longrightarrow> find_char c (xs @ c # ys) = Some (length xs)"
  by (simp add: find_char_def takeWhile_append)

lemma find_char_None: "find_char c s = None \<longleftrightarrow> c \<notin> set s"
proof
  assume "find_char c s = None"
  then have "length (takeWhile (\<lambda>x. x \<noteq> c) s) = length s"
    using length_takeWhile_le [of "\<lambda>x. x \<noteq> c" s] by (auto simp: find_char_def Let_def split: if_splits)
  then have "takeWhile (\<lambda>x. x \<noteq> c) s = s" by (metis takeWhile_eq_take take_all order_refl)
  then show "c \<notin> set s" by (metis (full_types) set_takeWhileD)
next
  assume "c \<notin> set s"
  then have "length (takeWhile (\<lambda>x. x \<noteq> c) s) = length s" by (metis (mono_tags, lifting) takeWhile_eq_all_conv)
  then show "find_char c s = None" by (simp only: find_char_def Let_def) simp
qed

lemma rfind_char_append:
  assumes "c \<notin> set ys"
  shows "rfind_char c (xs @ c # ys) = Some (length xs)"
  using assms by (simp add: rfind_char_def find_char_append)

lemma getline_items_Nil [simp]: "getline_items d [] = []"
  by (simp add: getline_items.simps)

lemma getline_items_last: "d \<notin> set x \<Longrightarrow> x \<noteq> [] \<Longrightarrow> getline_items d x = [x]"
proof -
  assume d: "d \<notin> set x" and x: "x \<noteq> []"
  have "takeWhile (\<lambda>y. y \<noteq> d) x = x" "dropWhile (\<lambda>y. y \<noteq> d) x = []"
    using d by (auto simp: takeWhile_eq_all_conv dropWhile_eq_Nil_conv)
  then show ?thesis using x by (subst getline_items.simps) (simp only: if_False list.sel getline_items_Nil)
qed

lemma getline_items_Cons: "d \<notin> set x \<Longrightarrow> getline_items d (x @ d # s) = x # getline_items d s"
proof -
  assume d: "d \<notin> set x"
  have "takeWhile (\<lambda>y. y \<noteq> d) (x @ d # s) = x" "dropWhile (\<lambda>y. y \<noteq> d) (x @ d # s) = d # s"
    using d by (auto simp: takeWhile_append dropWhile_append)
  then show ?thesis by (subst getline_items.simps) simp
qed

text \<open>Splitting undoes joining, for items without the delimiter and a last item that is not empty.\<close>

lemma getline_items_join:
  assumes "\<forall>x\<in>set xs. d \<notin> set x \<and> x \<noteq> []"
  shows "getline_items d (join d xs) = xs"
  using assms by (induction d xs rule: join.induct) (auto simp: getline_items_last getline_items_Cons)

lemma join_empty: "\<forall>x\<in>set xs. x \<noteq> [] \<Longrightarrow> join d xs = [] \<longleftrightarrow> xs = []"
  by (induction d xs rule: join.induct) auto

text \<open>Reading back a printed number.\<close>

lemma to_string_digits: "\<forall>c\<in>set (to_string n). is_digit c"
proof (induction n rule: to_string.induct)
  case (1 n)
  have "is_digit (char_of (48 + m))" if "m < 10" for m :: nat using that by (simp add: is_digit_def)
  then show ?case using 1 by (subst to_string.simps) auto
qed

lemma to_string_not_Nil: "to_string n \<noteq> []"
  by (subst to_string.simps) simp

lemma digit_not_space: "is_digit c \<Longrightarrow> \<not> is_space c \<and> c \<noteq> CHR ''-'' \<and> c \<noteq> CHR ''+''"
  by (auto simp: is_digit_def is_space_def Let_def)

lemma scan_int_to_string: "scan_int (to_string n) = Some (False, n)"
proof -
  obtain c s where cs: "to_string n = c # s" using to_string_not_Nil [of n] by (cases "to_string n") auto
  have "is_digit c" using to_string_digits [of n] cs by simp
  note c = digit_not_space [OF this]
  have "takeWhile is_digit (to_string n) = to_string n"
    using to_string_digits [of n] by (simp add: takeWhile_eq_all_conv)
  then show ?thesis using c digits_value_to_string [of n] by (simp add: scan_int_def cs)
qed

lemma stoi_to_string: "n < 2 ^ 31 \<Longrightarrow> stoi (to_string n) = Some (int n)"
  by (simp add: stoi_def scan_int_to_string)

lemma strtoull_to_string: "strtoull (to_string n) = (if n < 2 ^ 64 then word_of_nat n else - 1)"
  by (simp add: strtoull_def scan_int_to_string)

end
