(* ===== verification/Hash_Driver.thy ===== *)
theory Hash_Driver
  imports Client_Ring Std_String
begin

text \<open>
  The cross-language test driver \<open>tools/hash_compat_driver.cpp\<close>: its hexadecimal codec, the fields that it extracts
  from a line, its two modes and \<open>main\<close>, from the arguments and the input to the exit status and the
  output.  The messages on the error stream are left out.
\<close>

section \<open>Definitions\<close>

definition nyb :: "char \<Rightarrow> nat option" where
  "nyb ch =
     (let c = of_char ch :: nat
      in if 48 \<le> c \<and> c \<le> 57 then Some (c - 48)
         else if 97 \<le> c \<and> c \<le> 102 then Some (c - 97 + 10)
         else if 65 \<le> c \<and> c \<le> 70 then Some (c - 65 + 10)
         else None)"

fun hex_pairs :: "string \<Rightarrow> byte list option" where
  "hex_pairs (h # l # hex) =
     (case (nyb h, nyb l) of
        (Some hi, Some lo) \<Rightarrow> map_option (\<lambda>out. (push_bit 4 (word_of_nat hi) OR word_of_nat lo) # out) (hex_pairs hex)
      | _ \<Rightarrow> None)"
| "hex_pairs _ = Some []"

definition hex_to_bytes :: "string \<Rightarrow> byte list option" where
  "hex_to_bytes hex = (if length hex \<noteq> 64 then None else hex_pairs hex)"

definition kHex :: string where
  "kHex = ''0123456789abcdef''"

definition bytes_to_hex :: "byte list \<Rightarrow> string" where
  "bytes_to_hex data = concat (map (\<lambda>b. [kHex ! unat (drop_bit 4 b), kHex ! unat (b AND 0xF)]) data)"

definition token_bytes :: "u32 \<Rightarrow> byte list" where
  "token_bytes v =
     [ucast (v AND 0xFF), ucast (drop_bit 8 v AND 0xFF), ucast (drop_bit 16 v AND 0xFF), ucast (drop_bit 24 v AND 0xFF)]"

text \<open>One line of the default mode, \<open>None\<close> when the hash is rejected, and one of the ring mode.\<close>

definition default_line :: "(byte list \<Rightarrow> byte list) \<Rightarrow> string \<Rightarrow> u32 list \<Rightarrow> string option" where
  "default_line blake3 prev_hex tokens =
     map_option (\<lambda>prev. bytes_to_hex (blake3 (prev @ concat (map token_bytes tokens)))) (hex_to_bytes prev_hex)"

definition ring_key_line :: "(string \<Rightarrow> byte list) \<Rightarrow> string \<Rightarrow> u32 \<Rightarrow> string" where
  "ring_key_line blake3_full peer vn = bytes_to_hex (blake3_full (peer @ ''#'' @ to_string (unat vn)))"

text \<open>
  \<open>iss >> s\<close> and \<open>iss >> v\<close> for a number of 32 bits, on what is left of the stream.  The number is \<open>None\<close> when the extraction fails: no digits, or a
  value that is too large; a sign in front of an unsigned number negates it modulo \<open>2 ^ 32\<close>.
\<close>

definition extract_string :: "string \<Rightarrow> string \<times> string" where
  "extract_string s =
     (let s1 = dropWhile is_space s
      in (takeWhile (\<lambda>c. \<not> is_space c) s1, dropWhile (\<lambda>c. \<not> is_space c) s1))"

definition extract_u32 :: "string \<Rightarrow> (u32 \<times> string) option" where
  "extract_u32 s =
     (let s1 = dropWhile is_space s;
          neg = (s1 \<noteq> [] \<and> hd s1 = CHR ''-'');
          s2 = (if s1 \<noteq> [] \<and> (hd s1 = CHR ''-'' \<or> hd s1 = CHR ''+'') then tl s1 else s1);
          ds = takeWhile is_digit s2;
          n = digits_value 0 ds
      in if ds = [] \<or> n \<ge> 2 ^ 32 then None
         else Some (if neg then - word_of_nat n else word_of_nat n, dropWhile is_digit s2))"

function read_tokens :: "string \<Rightarrow> u32 list" where
  "read_tokens s = (case extract_u32 s of None \<Rightarrow> [] | Some (t, rest) \<Rightarrow> t # read_tokens rest)"
  by auto
termination
proof (relation "measure length")
  fix s p v rest
  assume p: "extract_u32 s = Some p" "(v, rest) = p"
  then obtain s2 where s2: "takeWhile is_digit s2 \<noteq> []" "rest = dropWhile is_digit s2" "length s2 \<le> length (dropWhile is_space s)"
    unfolding extract_u32_def by (auto simp: Let_def split: if_splits)
  have "length (takeWhile is_digit s2) + length rest = length s2" unfolding s2(2) by (metis length_append takeWhile_dropWhile_id)
  then show "(rest, s) \<in> measure length" using s2(1,3) length_dropWhile_le [of is_space s] by (cases "takeWhile is_digit s2") auto
qed simp

declare read_tokens.simps [simp del]

text \<open>A line of either mode, \<open>None\<close> when it is rejected, and the loop over the lines with the exit status and what has been printed.\<close>

definition default_mode_line :: "(byte list \<Rightarrow> byte list) \<Rightarrow> string \<Rightarrow> string option" where
  "default_mode_line blake3 line = (case extract_string line of (prev_hex, rest) \<Rightarrow> default_line blake3 prev_hex (read_tokens rest))"

definition ring_key_mode_line :: "(string \<Rightarrow> byte list) \<Rightarrow> string \<Rightarrow> string option" where
  "ring_key_mode_line blake3_full line =
     (case extract_string line of (peer, rest) \<Rightarrow>
        if peer = [] then None
        else case extract_u32 rest of None \<Rightarrow> None | Some (vn, _) \<Rightarrow> Some (ring_key_line blake3_full peer vn))"

fun run_mode :: "(string \<Rightarrow> string option) \<Rightarrow> string list \<Rightarrow> int \<times> string" where
  "run_mode mode_line [] = (0, [])"
| "run_mode mode_line (line # lines) =
     (if line = [] then run_mode mode_line lines
      else case mode_line line of
        None \<Rightarrow> (1, [])
      | Some out \<Rightarrow> (case run_mode mode_line lines of (rc, outs) \<Rightarrow> (rc, out @ CHR 0x0A # outs)))"

definition driver_main :: "(byte list \<Rightarrow> byte list) \<Rightarrow> (string \<Rightarrow> byte list) \<Rightarrow> string list \<Rightarrow> string \<Rightarrow> int \<times> string" where
  "driver_main blake3 blake3_full args input =
     (let ring_key = (''--mode=ring_key'' \<in> set args)
      in run_mode (if ring_key then ring_key_mode_line blake3_full else default_mode_line blake3) (getline_items CHR 0x0A input))"

text \<open>The lines that the tests write.\<close>

definition token_field :: "u32 \<Rightarrow> string" where
  "token_field v = CHR '' '' # to_string (unat v)"

definition hash_line :: "byte list \<times> u32 list \<Rightarrow> string" where
  "hash_line l = (case l of (prev, tokens) \<Rightarrow> bytes_to_hex prev @ concat (map token_field tokens))"

definition vnode_line :: "string \<times> u32 \<Rightarrow> string" where
  "vnode_line l = (case l of (peer, vn) \<Rightarrow> peer @ token_field vn)"

section \<open>Lemmas\<close>

lemma nyb_kHex: "n < 16 \<Longrightarrow> nyb (kHex ! n) = Some n"
proof -
  assume "n < 16"
  then have "n \<in> set [0..<16]" by simp
  moreover have "\<forall>n\<in>set [0..<16]. nyb (kHex ! n) = Some n" by code_simp
  ultimately show ?thesis by blast
qed

lemma nybbles_byte: "push_bit 4 (drop_bit 4 b) OR (b AND 0xF) = (b :: byte)"
proof -
  have "push_bit 4 (drop_bit 4 b) OR (b AND mask 4) = b"
    by (rule bit_word_eqI) (auto simp: bit_simps)
  then show ?thesis by (simp add: mask_eq_exp_minus_1)
qed

lemma nybble_bounds: "unat (drop_bit 4 (b :: byte)) < 16" "unat (b AND 0xF :: byte) < 16"
proof -
  have "unat b < 256" using unsigned_less [of b, where 'a = nat] by simp
  then show "unat (drop_bit 4 b) < 16" by (simp add: unsigned_drop_bit_eq drop_bit_eq_div [where 'a = nat] take_bit_nat_eq_self)
  have "b AND 0xF = take_bit 4 b" by (simp add: take_bit_eq_mask mask_eq_exp_minus_1)
  then show "unat (b AND 0xF) < 16" by (simp add: unsigned_take_bit_eq take_bit_eq_mod [where 'a = nat])
qed

lemma hex_pairs_inverse: "hex_pairs (bytes_to_hex bs) = Some bs"
  by (induction bs) (simp_all add: bytes_to_hex_def nyb_kHex nybble_bounds nybbles_byte)

lemma length_bytes_to_hex: "length (bytes_to_hex bs) = 2 * length bs"
  by (induction bs) (simp_all add: bytes_to_hex_def)

lemma hex_inverse: "length bs = 32 \<Longrightarrow> hex_to_bytes (bytes_to_hex bs) = Some bs"
  by (simp add: hex_to_bytes_def hex_pairs_inverse length_bytes_to_hex)

lemma octet: "(ucast (drop_bit n v AND 0xFF) :: byte) = word_of_nat (unat v div 2 ^ n mod 256)" for v :: u32
proof -
  have "drop_bit n v AND 0xFF = take_bit 8 (drop_bit n v)" by (simp add: take_bit_eq_mask mask_eq_exp_minus_1)
  moreover have "unat v mod 4294967296 = unat v" using unsigned_less [of v, where 'a = nat] by simp
  ultimately have "unat (drop_bit n v AND 0xFF) = unat v div 2 ^ n mod 256"
    by (simp add: unsigned_take_bit_eq unsigned_drop_bit_eq take_bit_eq_mod [where 'a = nat] drop_bit_eq_div [where 'a = nat])
  then show ?thesis by (metis of_nat_unat)
qed

lemma token_bytes_le: "token_bytes v = nat_to_le 4 (unat v)"
proof -
  have four: "(4 :: nat) = Suc (Suc (Suc (Suc 0)))" by simp
  show ?thesis
    unfolding token_bytes_def four using octet [of 0 v] octet [of 8 v] octet [of 16 v] octet [of 24 v]
    by (simp add: div_mult2_eq [symmetric])
qed

lemma pack_u32_token: "pack_u32 (uint v) = Some (token_bytes v)" for v :: u32
  using uint_lt2p [of v] by (simp add: pack_u32_def token_bytes_le)

lemma pack_tokens_words: "pack_tokens (map uint ts) = Some (concat (map token_bytes ts))"
  by (induction ts) (simp_all add: pack_u32_token)

subsection \<open>Extraction\<close>

lemma extract_string_word:
  assumes "w \<noteq> []" "\<forall>c\<in>set w. \<not> is_space c" "rest = [] \<or> is_space (hd rest)"
  shows "extract_string (w @ rest) = (w, rest)"
proof -
  have "dropWhile is_space (w @ rest) = w @ rest" using assms(1,2) by (cases w) auto
  moreover have "takeWhile (\<lambda>c. \<not> is_space c) rest = []" "dropWhile (\<lambda>c. \<not> is_space c) rest = rest" using assms(3) by (cases rest; simp)+
  ultimately show ?thesis using assms(2) by (simp add: extract_string_def)
qed

lemma space_is_space: "is_space CHR '' ''"
  by (simp add: is_space_def)

lemma extract_u32_field:
  assumes "rest = [] \<or> \<not> is_digit (hd rest)"
  shows "extract_u32 (token_field v @ rest) = Some (v, rest)"
proof -
  let ?d = "to_string (unat v)"
  obtain c s where cs: "?d = c # s" using to_string_not_Nil [of "unat v"] by (cases ?d) auto
  have "is_digit c" using to_string_digits [of "unat v"] cs by simp
  note c = digit_not_space [OF this]
  have "dropWhile is_space (token_field v @ rest) = ?d @ rest" using c by (simp add: token_field_def space_is_space cs)
  moreover have "takeWhile is_digit rest = []" "dropWhile is_digit rest = rest" using assms by (cases rest; simp)+
  then have "takeWhile is_digit (?d @ rest) = ?d" "dropWhile is_digit (?d @ rest) = rest" using to_string_digits [of "unat v"] by simp_all
  moreover have "hd (?d @ rest) \<noteq> CHR ''-''" "hd (?d @ rest) \<noteq> CHR ''+''" using c by (simp_all add: cs)
  moreover have "unat v < 2 ^ 32" using unsigned_less [of v, where 'a = nat] by simp
  ultimately show ?thesis using digits_value_to_string [of "unat v"] to_string_not_Nil [of "unat v"] by (simp add: extract_u32_def)
qed

lemma fields_start: "concat (map token_field vs) = [] \<or> is_space (hd (concat (map token_field vs))) \<and> \<not> is_digit (hd (concat (map token_field vs)))"
  by (cases vs) (simp_all add: token_field_def is_space_def is_digit_def)

text \<open>The tokens end where an extraction fails.\<close>

lemma read_tokens_fields:
  assumes "extract_u32 rest = None" "rest = [] \<or> \<not> is_digit (hd rest)"
  shows "read_tokens (concat (map token_field vs) @ rest) = vs"
proof (induction vs)
  case Nil
  show ?case using assms(1) by (subst read_tokens.simps) simp
next
  case (Cons v vs)
  have "extract_u32 (token_field v @ concat (map token_field vs) @ rest) = Some (v, concat (map token_field vs) @ rest)"
    by (rule extract_u32_field) (use fields_start [of vs] assms(2) in \<open>auto simp: hd_append\<close>)
  then show ?case using Cons by (subst read_tokens.simps) simp
qed

lemma extract_u32_empty: "extract_u32 [] = None"
  by (simp add: extract_u32_def)

lemma extract_u32_large:
  assumes "4294967296 \<le> n"
  shows "extract_u32 (CHR '' '' # to_string n) = None"
proof -
  obtain c s where cs: "to_string n = c # s" using to_string_not_Nil [of n] by (cases "to_string n") auto
  have "is_digit c" using to_string_digits [of n] cs by simp
  note c = digit_not_space [OF this]
  have "takeWhile is_digit (to_string n) = to_string n" using to_string_digits [of n] by (simp add: takeWhile_eq_all_conv)
  then show ?thesis using c digits_value_to_string [of n] assms by (simp add: extract_u32_def cs space_is_space)
qed

lemma hex_no_space: "c \<in> set (bytes_to_hex bs) \<Longrightarrow> \<not> is_space c"
proof -
  have "\<forall>c\<in>set kHex. \<not> is_space c" by code_simp
  moreover have "set (bytes_to_hex bs) \<subseteq> set kHex"
  proof (induction bs)
    case (Cons b bs)
    have "length kHex = 16" by (simp add: kHex_def)
    then have "kHex ! unat (drop_bit 4 b) \<in> set kHex" "kHex ! unat (b AND 0xF) \<in> set kHex" using nybble_bounds [of b] by (metis nth_mem)+
    then show ?case using Cons by (simp add: bytes_to_hex_def)
  qed (simp add: bytes_to_hex_def)
  ultimately show "c \<in> set (bytes_to_hex bs) \<Longrightarrow> \<not> is_space c" by blast
qed

lemma default_mode_hash_line:
  assumes "length prev = 32" "extract_u32 rest = None" "rest = [] \<or> is_space (hd rest)"
  shows "default_mode_line blake3 (hash_line (prev, tokens) @ rest) = map_option bytes_to_hex (chained_block_hash blake3 prev (map uint tokens))"
proof -
  have "bytes_to_hex prev \<noteq> []" using length_bytes_to_hex [of prev] assms(1) by auto
  moreover have "concat (map token_field tokens) @ rest = [] \<or> is_space (hd (concat (map token_field tokens) @ rest))"
    using fields_start [of tokens] assms(3) by (auto simp: hd_append)
  ultimately have "extract_string (bytes_to_hex prev @ concat (map token_field tokens) @ rest) = (bytes_to_hex prev, concat (map token_field tokens) @ rest)"
    using hex_no_space by (intro extract_string_word) blast+
  moreover have "rest = [] \<or> \<not> is_digit (hd rest)" using assms(3) digit_not_space by blast
  ultimately show ?thesis using assms(1) read_tokens_fields [OF assms(2)]
    by (simp add: hash_line_def default_mode_line_def default_line_def hex_inverse chained_block_hash_def pack_tokens_words)
qed

lemma ring_key_mode_vnode_line:
  assumes "peer \<noteq> []" "\<forall>c\<in>set peer. \<not> is_space c"
  shows "ring_key_mode_line blake3_full (vnode_line (peer, vn)) = Some (bytes_to_hex (blake3_full (vnode_key peer (unat vn))))"
proof -
  have "extract_string (vnode_line (peer, vn)) = (peer, token_field vn)"
    unfolding vnode_line_def prod.case by (rule extract_string_word [OF assms]) (simp add: token_field_def space_is_space)
  then show ?thesis using assms(1) extract_u32_field [of "[]" vn] by (simp add: ring_key_mode_line_def ring_key_line_def vnode_key_def)
qed

lemma run_mode_lines:
  assumes "\<And>x. x \<in> set xs \<Longrightarrow> line x \<noteq> [] \<and> CHR 0x0A \<notin> set (line x) \<and> mode_line (line x) = Some (out x)"
  shows "run_mode mode_line (getline_items CHR 0x0A (concat (map (\<lambda>x. line x @ [CHR 0x0A]) xs))) = (0, concat (map (\<lambda>x. out x @ [CHR 0x0A]) xs))"
  using assms
proof (induction xs)
  case (Cons x xs)
  have "getline_items CHR 0x0A (concat (map (\<lambda>x. line x @ [CHR 0x0A]) (x # xs))) =
      line x # getline_items CHR 0x0A (concat (map (\<lambda>x. line x @ [CHR 0x0A]) xs))"
    using getline_items_Cons [of "CHR 0x0A" "line x"] Cons.prems [of x] by simp
  then show ?case using Cons by simp
qed simp

lemma newline_not_digit: "CHR 0x0A \<notin> set (to_string n)"
proof
  assume "CHR 0x0A \<in> set (to_string n)"
  then have "is_digit CHR 0x0A" using to_string_digits by blast
  then show False by (simp add: is_digit_def)
qed

lemma newline_not_in_lines:
  "CHR 0x0A \<notin> set (hash_line l)" "\<forall>c\<in>set (fst v). \<not> is_space c \<Longrightarrow> CHR 0x0A \<notin> set (vnode_line v)"
proof -
  have nl: "is_space CHR 0x0A" by (simp add: is_space_def)
  show "CHR 0x0A \<notin> set (hash_line l)"
    using hex_no_space nl newline_not_digit by (cases l) (auto simp: hash_line_def token_field_def)
  show "\<forall>c\<in>set (fst v). \<not> is_space c \<Longrightarrow> CHR 0x0A \<notin> set (vnode_line v)"
    using nl newline_not_digit by (cases v) (auto simp: vnode_line_def token_field_def)
qed

section \<open>Properties\<close>

text \<open>
  The two languages hash alike.  For a previous hash of 32 bytes and tokens of 32 bits the driver prints the
  hexadecimal form of the client's chained block hash, and for a virtual node that of the digest
  from which the router takes the ring position.
\<close>

theorem driver_matches_client:
  assumes "length prev = 32" "length (blake3_full (vnode_key peer (unat vn))) = 32"
  shows "default_line blake3 (bytes_to_hex prev) tokens = map_option bytes_to_hex (chained_block_hash blake3 prev (map uint tokens)) \<and>
    map_option le_u64_from_digest (hex_to_bytes (ring_key_line blake3_full peer vn)) = Some (HashVirtualNode blake3_full peer (unat vn))"
  using assms hex_inverse [OF assms(2)]
  by (simp add: default_line_def hex_inverse chained_block_hash_def pack_tokens_words ring_key_line_def HashVirtualNode_def vnode_key_def)

theorem driver_matches_client_witness:
  "default_line sample_hash (bytes_to_hex (replicate 32 0)) [5] = map_option bytes_to_hex (chained_block_hash sample_hash (replicate 32 0) [5])"
  using driver_matches_client [of "replicate 32 0" sample_digest "''a''" 0 sample_hash "[5]"] by (simp add: sample_digest_def)

text \<open>
  The driver as a program.  On the lines that the tests write it exits with status 0 and prints, line by line, the client's chained
  block hashes or, with the argument \<open>--mode=ring_key\<close>, the digests from which the router takes the ring positions.
\<close>

theorem driver_main_exact:
  assumes "\<And>prev tokens. (prev, tokens) \<in> set hs \<Longrightarrow> length prev = 32"
    and "\<And>peer vn. (peer, vn) \<in> set vs \<Longrightarrow> peer \<noteq> [] \<and> (\<forall>c\<in>set peer. \<not> is_space c)"
  shows "driver_main blake3 blake3_full [] (concat (map (\<lambda>l. hash_line l @ [CHR 0x0A]) hs)) =
      (0, concat (map (\<lambda>(prev, tokens). bytes_to_hex (the (chained_block_hash blake3 prev (map uint tokens))) @ [CHR 0x0A]) hs)) \<and>
    driver_main blake3 blake3_full [''--mode=ring_key''] (concat (map (\<lambda>l. vnode_line l @ [CHR 0x0A]) vs)) =
      (0, concat (map (\<lambda>(peer, vn). bytes_to_hex (blake3_full (vnode_key peer (unat vn))) @ [CHR 0x0A]) vs))"
proof
  let ?h = "\<lambda>(prev, tokens). bytes_to_hex (the (chained_block_hash blake3 prev (map uint tokens)))"
  have "hash_line l \<noteq> [] \<and> CHR 0x0A \<notin> set (hash_line l) \<and> default_mode_line blake3 (hash_line l) = Some (?h l)" if "l \<in> set hs" for l
  proof -
    obtain prev tokens where l: "l = (prev, tokens)" by force
    have "length prev = 32" using assms(1) that l by blast
    moreover from this have "bytes_to_hex prev \<noteq> []" using length_bytes_to_hex [of prev] by auto
    ultimately show ?thesis using default_mode_hash_line [of prev "[]" blake3 tokens, OF _ extract_u32_empty] newline_not_in_lines(1) [of l]
      by (simp add: l hash_line_def chained_block_hash_def pack_tokens_words)
  qed
  from run_mode_lines [of hs hash_line "default_mode_line blake3" ?h, OF this]
  show "driver_main blake3 blake3_full [] (concat (map (\<lambda>l. hash_line l @ [CHR 0x0A]) hs)) =
      (0, concat (map (\<lambda>(prev, tokens). bytes_to_hex (the (chained_block_hash blake3 prev (map uint tokens))) @ [CHR 0x0A]) hs))"
    by (simp add: driver_main_def case_prod_beta')
  let ?v = "\<lambda>(peer, vn). bytes_to_hex (blake3_full (vnode_key peer (unat vn)))"
  have "vnode_line l \<noteq> [] \<and> CHR 0x0A \<notin> set (vnode_line l) \<and> ring_key_mode_line blake3_full (vnode_line l) = Some (?v l)" if "l \<in> set vs" for l
  proof -
    obtain peer vn where l: "l = (peer, vn)" by force
    have p: "peer \<noteq> []" "\<forall>c\<in>set peer. \<not> is_space c" using assms(2) that l by blast+
    show ?thesis using ring_key_mode_vnode_line [OF p] newline_not_in_lines(2) [of l] p by (simp add: l vnode_line_def)
  qed
  from run_mode_lines [of vs vnode_line "ring_key_mode_line blake3_full" ?v, OF this]
  show "driver_main blake3 blake3_full [''--mode=ring_key''] (concat (map (\<lambda>l. vnode_line l @ [CHR 0x0A]) vs)) =
      (0, concat (map (\<lambda>(peer, vn). bytes_to_hex (blake3_full (vnode_key peer (unat vn))) @ [CHR 0x0A]) vs))"
    by (simp add: driver_main_def case_prod_beta')
qed

theorem driver_main_exact_witness:
  "driver_main sample_hash sample_digest [] (hash_line (replicate 32 0, [5]) @ [CHR 0x0A]) =
     (0, bytes_to_hex (the (chained_block_hash sample_hash (replicate 32 0) [5])) @ [CHR 0x0A])"
  using driver_main_exact [of "[(replicate 32 0, [5])]" "[]" sample_hash sample_digest] by simp

text \<open>A token that is too large ends the list without an error: the driver prints the hash of the tokens before it and exits with status 0.\<close>

theorem driver_drops_bad_tokens:
  assumes "length prev = 32" "4294967296 \<le> n"
  shows "default_mode_line blake3 (hash_line (prev, tokens) @ CHR '' '' # to_string n) =
    map_option bytes_to_hex (chained_block_hash blake3 prev (map uint tokens))"
  by (rule default_mode_hash_line [OF assms(1) extract_u32_large [OF assms(2)]]) (simp add: space_is_space)

end
