(* ===== verification/Eviction.thy ===== *)
theory Eviction
  imports Membership
begin

text \<open>
  The evictor of \<open>cache_server/src/eviction.cpp\<close>: a pass of the visited-bit sweep over one tier,
  the batch broadcast of the evicted blocks, and the bounded record of what peers evicted.
  The sweep's loop is defined once over the two store operations it performs, so that its
  convergence can be proved against an interface (locale \<open>sieve_store\<close>), which the tiers of
  the tiered store then provide.
\<close>

section \<open>Definitions\<close>

record EvictionConfig =
  ec_high_watermark_pct :: size_t
  ec_low_watermark_pct :: size_t
  ec_broadcast_evictions :: bool

record PassResult =
  pr_hbm_evicted :: size_t
  pr_dram_evicted :: size_t
  pr_ssd_evicted :: size_t
  pr_bytes_freed :: size_t
  pr_blocks_broadcast :: size_t

record Evictor =
  ev_cfg :: EvictionConfig
  ev_local_node_id :: string
  ev_membership :: bool
  ev_running :: bool
  ev_threads :: "Tier list"
  ev_hand_hbm :: size_t
  ev_hand_dram :: size_t
  ev_hand_ssd :: size_t
  ev_peer_evicted :: "string \<Rightarrow> BlockId set option"

record Evict_Node = Member_Node +
  nd_evictor :: Evictor

record EvictBroadcastRequest =
  eb_evicted :: "BlockId list"
  eb_source_node :: string
  eb_epoch :: u64

definition evictor_new :: "EvictionConfig \<Rightarrow> string \<Rightarrow> bool \<Rightarrow> Evictor" where
  "evictor_new cfg local_node_id membership =
     \<lparr>ev_cfg = cfg, ev_local_node_id = local_node_id, ev_membership = membership, ev_running = False,
      ev_threads = [], ev_hand_hbm = 0, ev_hand_dram = 0, ev_hand_ssd = 0, ev_peer_evicted = (\<lambda>_. None)\<rparr>"

text \<open>\<open>Start\<close> spawns a thread per configured tier; \<open>Shutdown\<close> joins them.\<close>

definition evictor_Start :: "TieredStore \<Rightarrow> Evictor \<Rightarrow> Evictor" where
  "evictor_Start store ev =
     (if ev_running ev then ev
      else ev\<lparr>ev_running := True,
              ev_threads := ev_threads ev @ filter (\<lambda>t. ts_capacity_bytes store t \<noteq> 0) [HBM, DRAM, SSD]\<rparr>)"

definition evictor_Shutdown :: "Evictor \<Rightarrow> Evictor" where
  "evictor_Shutdown ev = ev\<lparr>ev_running := False, ev_threads := []\<rparr>"

definition ev_hand :: "Evictor \<Rightarrow> Tier \<Rightarrow> size_t" where
  "ev_hand ev t = (case t of HBM \<Rightarrow> ev_hand_hbm ev | DRAM \<Rightarrow> ev_hand_dram ev | SSD \<Rightarrow> ev_hand_ssd ev)"

definition set_hand :: "Tier \<Rightarrow> size_t \<Rightarrow> Evictor \<Rightarrow> Evictor" where
  "set_hand t h ev =
     (case t of HBM \<Rightarrow> ev\<lparr>ev_hand_hbm := h\<rparr> | DRAM \<Rightarrow> ev\<lparr>ev_hand_dram := h\<rparr> | SSD \<Rightarrow> ev\<lparr>ev_hand_ssd := h\<rparr>)"

text \<open>The victim branch: demote, or erase when that fails or the tier is the slowest.\<close>

definition evict_one :: "Tier \<Rightarrow> TieredStore \<Rightarrow> BlockMeta \<Rightarrow> size_t \<times> TieredStore" where
  "evict_one tier store meta =
     (let (demoted, store1) = (if tier \<noteq> SSD then ts_Demote store (bm_id meta) else (False, store))
      in if demoted then (bm_size_bytes meta, store1) else ts_Erase store1 (bm_id meta))"

text \<open>
  The loop, with the number of steps left as its first argument; the state is the store, the
  snapshot, the hand, the bytes freed and the victims so far.
\<close>

fun sieve_loop ::
  "('s \<Rightarrow> BlockMeta \<Rightarrow> size_t \<times> 's) \<Rightarrow> ('s \<Rightarrow> BlockId \<Rightarrow> 's) \<Rightarrow> nat \<Rightarrow> size_t \<Rightarrow>
   's \<times> BlockMeta list \<times> size_t \<times> size_t \<times> BlockId list \<Rightarrow> 's \<times> BlockMeta list \<times> size_t \<times> size_t \<times> BlockId list" where
  "sieve_loop evict clear 0 need st = st"
| "sieve_loop evict clear (Suc steps) need (store, blocks, hand, freed, evicted) =
     (if freed < need then
        let hand1 = (if hand \<ge> length blocks then 0 else hand);
            meta = blocks ! hand1
        in if bm_visited meta then
             sieve_loop evict clear steps need
               (clear store (bm_id meta), blocks[hand1 := meta\<lparr>bm_visited := False\<rparr>], hand1 + 1, freed, evicted)
           else
             let (bytes_removed, store1) = evict store meta
             in sieve_loop evict clear steps need
                  (store1, blocks, hand1 + 1, size_add freed bytes_removed, evicted @ [bm_id meta])
      else (store, blocks, hand, freed, evicted))"

definition empty_result :: PassResult where
  "empty_result = \<lparr>pr_hbm_evicted = 0, pr_dram_evicted = 0, pr_ssd_evicted = 0, pr_bytes_freed = 0, pr_blocks_broadcast = 0\<rparr>"

definition count_evicted :: "Tier \<Rightarrow> size_t \<Rightarrow> PassResult \<Rightarrow> PassResult" where
  "count_evicted tier c r =
     (case tier of HBM \<Rightarrow> r\<lparr>pr_hbm_evicted := c\<rparr> | DRAM \<Rightarrow> r\<lparr>pr_dram_evicted := c\<rparr> | SSD \<Rightarrow> r\<lparr>pr_ssd_evicted := c\<rparr>)"

definition BroadcastEvictionsToPeers ::
  "Env \<Rightarrow> 'a Evict_Node_scheme \<Rightarrow> BlockId list \<Rightarrow> (string \<times> EvictBroadcastRequest) list" where
  "BroadcastEvictionsToPeers E n evicted =
     (if \<not> ev_membership (nd_evictor n) then []
      else
        let addresses = AllPeerAddresses (en_peer_order E) (nd_membership n);
            req = \<lparr>eb_evicted = evicted, eb_source_node = ev_local_node_id (nd_evictor n),
                   eb_epoch = mb_epoch (nd_membership n)\<rparr>
        in map (\<lambda>a. (a, req)) addresses)"

definition watermark :: "size_t \<Rightarrow> size_t \<Rightarrow> size_t" where
  "watermark cap pct = size_mul cap pct div 100"

text \<open>A pass; the second component of the result are the requests it sends.\<close>

definition RunPassForTier ::
  "Env \<Rightarrow> 'a Evict_Node_scheme \<Rightarrow> Tier \<Rightarrow> PassResult \<times> (string \<times> EvictBroadcastRequest) list \<times> 'a Evict_Node_scheme" where
  "RunPassForTier E n tier =
     (let store = nd_store n;
          ev = nd_evictor n;
          cap = ts_capacity_bytes store tier;
          used = ts_used_bytes store tier
      in if cap = 0 \<or> used = 0 then (empty_result, [], n)
         else
           let high = watermark cap (ec_high_watermark_pct (ev_cfg ev));
               low = watermark cap (ec_low_watermark_pct (ev_cfg ev))
           in if used \<le> high then (empty_result, [], n)
              else
                let blocks = ts_Snapshot (en_block_order E) store tier
                in if blocks = [] then (empty_result, [], n)
                   else
                     let need = size_sub used low;
                         max_steps = size_mul (length blocks) 2;
                         (store1, _, hand, freed, evicted) =
                           sieve_loop (evict_one tier) ts_ClearVisited max_steps need
                             (store, blocks, ev_hand ev tier, 0, []);
                         n1 = n\<lparr>nd_store := store1, nd_evictor := set_hand tier hand ev\<rparr>;
                         r = (count_evicted tier (length evicted) empty_result)\<lparr>pr_bytes_freed := freed\<rparr>
                     in if ec_broadcast_evictions (ev_cfg ev) \<and> evicted \<noteq> [] then
                          (r\<lparr>pr_blocks_broadcast := length evicted\<rparr>, BroadcastEvictionsToPeers E n1 evicted, n1)
                        else (r, [], n1))"

abbreviation kPerPeerBound :: nat where
  "kPerPeerBound \<equiv> 4096"

definition OnPeerEviction :: "Evictor \<Rightarrow> BlockId list \<Rightarrow> string \<Rightarrow> Evictor" where
  "OnPeerEviction ev evicted peer =
     (let set0 = (case ev_peer_evicted ev peer of None \<Rightarrow> {} | Some s \<Rightarrow> s);
          set1 = (if card set0 > kPerPeerBound then {} else set0)
      in ev\<lparr>ev_peer_evicted := (ev_peer_evicted ev)(peer \<mapsto> foldl (\<lambda>s i. insert i s) set1 evicted)\<rparr>)"

definition peer_evicted_count_for_testing :: "Evictor \<Rightarrow> string \<Rightarrow> size_t" where
  "peer_evicted_count_for_testing ev peer =
     (case ev_peer_evicted ev peer of None \<Rightarrow> 0 | Some s \<Rightarrow> card s)"

text \<open>Every block of a tier is in that tier alone.\<close>

definition single_copy :: "TieredStore \<Rightarrow> Tier \<Rightarrow> bool" where
  "single_copy ts t \<longleftrightarrow> (\<forall>k u. tier_probe ts t k \<noteq> None \<and> u \<noteq> t \<longrightarrow> tier_probe ts u k = None)"

definition evict_inv :: "Tier \<Rightarrow> TieredStore \<Rightarrow> bool" where
  "evict_inv t ts \<longleftrightarrow> ts_inv ts \<and> single_copy ts t"

definition tier_size :: "Tier \<Rightarrow> TieredStore \<Rightarrow> BlockId \<Rightarrow> size_t option" where
  "tier_size t ts k = map_option length (tier_probe ts t k)"

text \<open>What an evictor has recorded after a sequence of broadcasts, each from the named peer.\<close>

definition receive_all :: "Evictor \<Rightarrow> (BlockId list \<times> string) list \<Rightarrow> Evictor" where
  "receive_all ev batches = foldl (\<lambda>e (evicted, peer). OnPeerEviction e evicted peer) ev batches"

text \<open>The watermarks of a tier, and a node for concrete passes: HBM and DRAM of 8 bytes each.\<close>

definition high_mark :: "'a Evict_Node_scheme \<Rightarrow> Tier \<Rightarrow> size_t" where
  "high_mark n t = watermark (ts_capacity_bytes (nd_store n) t) (ec_high_watermark_pct (ev_cfg (nd_evictor n)))"

definition low_mark :: "'a Evict_Node_scheme \<Rightarrow> Tier \<Rightarrow> size_t" where
  "low_mark n t = watermark (ts_capacity_bytes (nd_store n) t) (ec_low_watermark_pct (ev_cfg (nd_evictor n)))"

definition default_eviction :: EvictionConfig where
  "default_eviction = \<lparr>ec_high_watermark_pct = 90, ec_low_watermark_pct = 75, ec_broadcast_evictions = True\<rparr>"

definition sample_full :: "ts_op list" where
  "sample_full = [TPut (sample_block 1 [7]) HBM, TPut (sample_block 2 [1, 2, 3, 4, 5, 6, 7]) HBM]"

definition sample_cold :: "ts_op list" where
  "sample_cold = [TPut (sample_block 1 [1, 2, 3, 4, 5, 6, 7, 8]) DRAM]"

definition sample_payload :: "BlockId \<Rightarrow> byte list" where
  "sample_payload k = (if k = sample_id 1 then [7] else [1, 2, 3, 4, 5, 6, 7])"

definition sample_evict :: "ts_op list \<Rightarrow> Evict_Node" where
  "sample_evict ops = \<lparr>nd_router = nd_router sample_member, nd_store = ts_run (sample_store 8 8) ops,
     nd_replicator = nd_replicator sample_member, nd_membership = nd_membership sample_member,
     nd_evictor = evictor_new default_eviction ''a'' True\<rparr>"

text \<open>The store operations a pass may perform when it reports the blocks \<open>V\<close> as evicted.\<close>

definition pass_ops :: "BlockId set \<Rightarrow> ts_op set" where
  "pass_ops V = range TClearVisited \<union> range TDemote \<union> TErase ` V"

section \<open>The sweep against an interface\<close>

text \<open>A stale hand, past the end of a shorter snapshot, is the same as a hand at the start.\<close>

lemma sieve_loop_wrap:
  assumes "length blocks \<le> hand" "freed < need"
  shows "sieve_loop evict clear (Suc k) need (s, blocks, hand, freed, ev) =
    sieve_loop evict clear (Suc k) need (s, blocks, 0, freed, ev)"
  using assms by (simp add: Let_def)


text \<open>
  What the sweep needs of a tier: clearing a visited bit changes no bytes, and evicting a
  resident block frees exactly its size in the tier and leaves the other blocks alone.
\<close>

locale sieve_store =
  fixes inv :: "'s \<Rightarrow> bool"
    and size_of :: "'s \<Rightarrow> BlockId \<Rightarrow> size_t option"
    and used :: "'s \<Rightarrow> size_t"
    and evict :: "'s \<Rightarrow> BlockMeta \<Rightarrow> size_t \<times> 's"
    and clear :: "'s \<Rightarrow> BlockId \<Rightarrow> 's"
  assumes used_bound: "inv s \<Longrightarrow> used s < size_mod"
    and clear_inv: "inv s \<Longrightarrow> inv (clear s k)"
    and clear_size: "size_of (clear s k) = size_of s"
    and clear_used: "used (clear s k) = used s"
    and evict_keeps: "inv s \<Longrightarrow> size_of s (bm_id m) = Some (bm_size_bytes m) \<Longrightarrow> evict s m = (n, s') \<Longrightarrow> inv s'"
    and evict_freed: "inv s \<Longrightarrow> size_of s (bm_id m) = Some (bm_size_bytes m) \<Longrightarrow> evict s m = (n, s') \<Longrightarrow>
      n = bm_size_bytes m \<and> used s' + n = used s"
    and evict_other: "inv s \<Longrightarrow> size_of s (bm_id m) = Some (bm_size_bytes m) \<Longrightarrow> evict s m = (n, s') \<Longrightarrow>
      k \<noteq> bm_id m \<Longrightarrow> size_of s' k = size_of s k"
begin

lemma rotate_step:
  assumes "hand \<le> length blocks" "m < length blocks"
  shows "take (Suc m) (rotate hand blocks) =
    blocks ! (if hand \<ge> length blocks then 0 else hand) #
      take m (rotate ((if hand \<ge> length blocks then 0 else hand) + 1) blocks)"
proof -
  let ?h = "if hand \<ge> length blocks then 0 else hand"
  have ne: "blocks \<noteq> []" using assms(2) by auto
  have h: "hand mod length blocks = ?h" "?h < length blocks" using assms(1) ne by auto
  have "rotate hand blocks = rotate ?h blocks" using h(1) rotate_conv_mod [of hand blocks] by simp
  moreover have "rotate ?h blocks = blocks ! ?h # tl (rotate ?h blocks)"
    using h(2) hd_rotate_conv_nth [of blocks ?h] ne by (metis hd_Cons_tl length_rotate list.size(3) mod_less not_less_zero)
  moreover have "rotate (Suc ?h) blocks = tl (rotate ?h blocks) @ [hd (rotate ?h blocks)]"
    using ne rotate1_hd_tl [of "rotate ?h blocks"] by (simp add: rotate_Suc)
  moreover have "length (tl (rotate ?h blocks)) \<ge> m" using assms(2) by simp
  ultimately show ?thesis by (metis Suc_eq_plus1 take_Suc_Cons take_append diff_is_0_eq take0 append_Nil2)
qed

text \<open>A stretch of unvisited blocks that holds enough bytes is evicted until the need is met.\<close>

lemma sweep_unvisited:
  assumes "inv s" "hand \<le> length blocks" "m \<le> length blocks" "m \<le> steps"
    and "\<forall>b\<in>set (take m (rotate hand blocks)). \<not> bm_visited b \<and> size_of s (bm_id b) = Some (bm_size_bytes b)"
    and "distinct (map bm_id (take m (rotate hand blocks)))"
    and "freed + used s < size_mod"
    and "need \<le> freed + sum_list (map bm_size_bytes (take m (rotate hand blocks)))"
    and "sieve_loop evict clear steps need (s, blocks, hand, freed, ev) = (s', blocks', hand', freed', ev')"
  shows "inv s' \<and> freed' + used s' = freed + used s \<and> need \<le> freed' \<and>
    (\<exists>vs. ev' = ev @ vs \<and> distinct vs \<and> set vs \<subseteq> bm_id ` set (take m (rotate hand blocks)))"
  using assms
proof (induction m arbitrary: s hand freed ev steps)
  case 0
  then show ?case by (cases steps) auto
next
  case (Suc m)
  show ?case
  proof (cases "freed < need")
    case False
    then show ?thesis using Suc.prems by (cases steps) auto
  next
    case True
    obtain k where k: "steps = Suc k" "m \<le> k" using Suc.prems(4) by (cases steps) auto
    define h where "h = (if hand \<ge> length blocks then 0 else hand)"
    define b where "b = blocks ! h"
    define rest where "rest = take m (rotate (h + 1) blocks)"
    have tk: "take (Suc m) (rotate hand blocks) = b # rest"
      using rotate_step [OF Suc.prems(2), of m] Suc.prems(3) by (simp add: h_def b_def rest_def)
    have b: "\<not> bm_visited b" "size_of s (bm_id b) = Some (bm_size_bytes b)" using Suc.prems(5) tk by auto
    obtain n s1 where e: "evict s b = (n, s1)" by force
    note f = evict_freed [OF Suc.prems(1) b(2) e]
    have loop: "sieve_loop evict clear k need (s1, blocks, h + 1, size_add freed n, ev @ [bm_id b]) = (s', blocks', hand', freed', ev')"
      using Suc.prems(9) True b(1) e k(1) by (simp add: Let_def b_def flip: h_def)
    have add: "size_add freed n = freed + n" using Suc.prems(7) f by (intro size_add_exact) linarith
    have "inv s' \<and> size_add freed n + used s1 = size_add freed n + used s1 \<and> need \<le> freed' \<and>
        freed' + used s' = size_add freed n + used s1 \<and>
        (\<exists>vs. ev' = (ev @ [bm_id b]) @ vs \<and> distinct vs \<and> set vs \<subseteq> bm_id ` set (take m (rotate (h + 1) blocks)))"
    proof -
      have h1: "h + 1 \<le> length blocks" using Suc.prems(2,3) by (simp add: h_def)
      have "inv s' \<and> freed' + used s' = size_add freed n + used s1 \<and> need \<le> freed' \<and>
          (\<exists>vs. ev' = (ev @ [bm_id b]) @ vs \<and> distinct vs \<and> set vs \<subseteq> bm_id ` set (take m (rotate (h + 1) blocks)))"
      proof (rule Suc.IH [OF evict_keeps [OF Suc.prems(1) b(2) e] h1 _ k(2) _ _ _ _ loop])
        show "\<forall>b'\<in>set (take m (rotate (h + 1) blocks)). \<not> bm_visited b' \<and> size_of s1 (bm_id b') = Some (bm_size_bytes b')"
        proof
          fix c assume c: "c \<in> set (take m (rotate (h + 1) blocks))"
          then have "bm_id c \<in> bm_id ` set (take m (rotate (h + 1) blocks))" by (rule imageI)
          then have "bm_id c \<noteq> bm_id b" using Suc.prems(6) unfolding tk rest_def by auto
          moreover have "\<not> bm_visited c" "size_of s (bm_id c) = Some (bm_size_bytes c)"
            using Suc.prems(5) c unfolding tk rest_def by auto
          ultimately show "\<not> bm_visited c \<and> size_of s1 (bm_id c) = Some (bm_size_bytes c)"
            using evict_other [OF Suc.prems(1) b(2) e] by simp
        qed
        show "need \<le> size_add freed n + sum_list (map bm_size_bytes (take m (rotate (h + 1) blocks)))"
          using Suc.prems(8) f add unfolding tk rest_def by simp
      qed (use Suc.prems(3,6,7) f add in \<open>simp_all add: tk rest_def\<close>)
      then show ?thesis by blast
    qed
    then obtain vs where vs: "inv s'" "freed' + used s' = size_add freed n + used s1" "need \<le> freed'"
      "ev' = ev @ bm_id b # vs" "distinct vs" "set vs \<subseteq> bm_id ` set rest" unfolding rest_def by auto
    have "distinct (bm_id b # vs)" "set (bm_id b # vs) \<subseteq> bm_id ` set (take (Suc m) (rotate hand blocks))"
      using Suc.prems(6) vs(5,6) unfolding tk by auto
    then show ?thesis using vs(1-4) add f by (intro conjI exI [of _ "bm_id b # vs"]) simp_all
  qed
qed

text \<open>A stretch of visited blocks costs one step each, only clears bits, and goes to the back.\<close>

lemma rotate_update:
  assumes "h < length xs"
  shows "rotate (h + 1) (xs[h := x]) = tl (rotate h xs) @ [x]"
proof -
  have upd: "xs[h := x] = take h xs @ x # drop (h + 1) xs" using assms by (simp add: upd_conv_take_nth_drop)
  have len: "length (take h xs) = h" using assms by simp
  have "drop h xs = xs ! h # drop (h + 1) xs" using assms by (simp add: Cons_nth_drop_Suc)
  then have tl: "tl (rotate h xs) = drop (h + 1) xs @ take h xs"
    using assms by (simp add: rotate_drop_take)
  show ?thesis
  proof (cases "h + 1 = length xs")
    case True
    then have "rotate (h + 1) (xs[h := x]) = xs[h := x]" using rotate_length01 [of "xs[h := x]"]
      by (metis length_list_update mod_self rotate0 rotate_conv_mod id_apply)
    then show ?thesis using True upd tl by simp
  next
    case False
    then have "(h + 1) mod length (xs[h := x]) = h + 1" using assms by simp
    then have "rotate (h + 1) (xs[h := x]) = drop (h + 1) (xs[h := x]) @ take (h + 1) (xs[h := x])"
      by (simp only: rotate_drop_take)
    then show ?thesis using len tl by (simp add: upd)
  qed
qed

lemma sweep_visited:
  assumes "inv s" "hand \<le> length blocks" "rotate hand blocks = vs @ us" "\<forall>b\<in>set vs. bm_visited b" "freed < need"
  shows "\<exists>s1 blocks1 hand1. sieve_loop evict clear (length vs + k) need (s, blocks, hand, freed, ev) =
      sieve_loop evict clear k need (s1, blocks1, hand1, freed, ev) \<and>
    inv s1 \<and> size_of s1 = size_of s \<and> used s1 = used s \<and> length blocks1 = length blocks \<and> hand1 \<le> length blocks \<and>
    rotate hand1 blocks1 = us @ map (\<lambda>b. b\<lparr>bm_visited := False\<rparr>) vs \<and>
    s1 = foldl (\<lambda>s b. clear s (bm_id b)) s vs"
  using assms
proof (induction vs arbitrary: s hand blocks us)
  case Nil
  then show ?case by (intro exI [of _ s] exI [of _ blocks] exI [of _ hand]) simp
next
  case (Cons b vs)
  have ne: "blocks \<noteq> []" using Cons.prems(3) by auto
  define h where "h = (if hand \<ge> length blocks then 0 else hand)"
  have h: "h < length blocks" "hand mod length blocks = h" using Cons.prems(2) ne by (auto simp: h_def)
  have rot: "rotate h blocks = b # vs @ us" using Cons.prems(3) h(2) rotate_conv_mod [of hand blocks] by simp
  have hd: "blocks ! h = b" using hd_rotate_conv_nth [OF ne, of h] rot h(1) by simp
  let ?c = "b\<lparr>bm_visited := False\<rparr>" and ?blocks = "blocks[h := b\<lparr>bm_visited := False\<rparr>]"
  have step: "sieve_loop evict clear (length (b # vs) + k) need (s, blocks, hand, freed, ev) =
      sieve_loop evict clear (length vs + k) need (clear s (bm_id b), ?blocks, h + 1, freed, ev)"
    using Cons.prems(4,5) hd by (simp add: Let_def flip: h_def)
  have rot1: "rotate (h + 1) ?blocks = vs @ us @ [?c]" using rotate_update [OF h(1), of ?c] rot by simp
  have "\<exists>s1 blocks1 hand1. sieve_loop evict clear (length vs + k) need (clear s (bm_id b), ?blocks, h + 1, freed, ev) =
      sieve_loop evict clear k need (s1, blocks1, hand1, freed, ev) \<and>
    inv s1 \<and> size_of s1 = size_of (clear s (bm_id b)) \<and> used s1 = used (clear s (bm_id b)) \<and>
    length blocks1 = length ?blocks \<and> hand1 \<le> length ?blocks \<and>
    rotate hand1 blocks1 = (us @ [?c]) @ map (\<lambda>b. b\<lparr>bm_visited := False\<rparr>) vs \<and>
    s1 = foldl (\<lambda>s b. clear s (bm_id b)) (clear s (bm_id b)) vs"
    by (rule Cons.IH [OF clear_inv [OF Cons.prems(1)] _ rot1]) (use h(1) Cons.prems(4,5) in simp_all)
  then show ?case unfolding step clear_size clear_used by auto
qed

text \<open>A single victim at the hand.\<close>

lemma sweep_victim:
  assumes "hand \<le> length blocks" "rotate hand blocks = b # us" "\<not> bm_visited b" "freed < need" "evict s b = (n, s1)"
  shows "\<exists>h. sieve_loop evict clear (Suc k) need (s, blocks, hand, freed, ev) =
      sieve_loop evict clear k need (s1, blocks, h, size_add freed n, ev @ [bm_id b]) \<and>
    h \<le> length blocks \<and> rotate h blocks = us @ [b]"
proof -
  have ne: "blocks \<noteq> []" using assms(2) by auto
  define h where "h = (if hand \<ge> length blocks then 0 else hand)"
  have h: "h < length blocks" "hand mod length blocks = h" using assms(1) ne by (auto simp: h_def)
  have rot: "rotate h blocks = b # us" using assms(2) h(2) rotate_conv_mod [of hand blocks] by simp
  have hd: "blocks ! h = b" using hd_rotate_conv_nth [OF ne, of h] rot h(1) by simp
  have "rotate (h + 1) blocks = us @ [b]" using rotate_update [OF h(1), of b] rot hd by simp
  moreover have "sieve_loop evict clear (Suc k) need (s, blocks, hand, freed, ev) =
      sieve_loop evict clear k need (s1, blocks, h + 1, size_add freed n, ev @ [bm_id b])"
    using assms(3-5) hd by (simp add: Let_def flip: h_def)
  ultimately show ?thesis using h(1) by (intro exI [of _ "h + 1"]) simp
qed

text \<open>
  One cold block at the hand, all others hot, and the cold block not enough: it is evicted
  first, the lap clears the hot blocks' bits, and the second lap meets the cold entry again.
  If evicting it a second time reports its size once more and leaves the tier alone, the
  sweep counts those bytes twice.
\<close>

lemma sweep_one_cold:
  assumes "inv s" "hand \<le> length blocks" "rotate hand blocks = c # hs"
    and "\<not> bm_visited c" "\<forall>b\<in>set hs. bm_visited b" "distinct (map bm_id (c # hs))"
    and "\<forall>b\<in>set (c # hs). size_of s (bm_id b) = Some (bm_size_bytes b)"
    and "used s = sum_list (map bm_size_bytes (c # hs))" "used s * 2 \<le> size_mod"
    and "bm_size_bytes c < need" "need \<le> used s" "evict s c = (bm_size_bytes c, s1)"
    and "evict (foldl (\<lambda>s b. clear s (bm_id b)) s1 hs) c = (bm_size_bytes c, s3)"
    and "inv s3" "size_of s3 = size_of s1" "used s3 = used s1"
    and "sieve_loop evict clear (length blocks * 2) need (s, blocks, hand, 0, []) = (s', blocks', hand', freed, victims)"
  shows "freed + used s' = used s + bm_size_bytes c \<and>
    (\<exists>b0 h0 f0 v0. sieve_loop evict clear (length hs) need (s3, b0, h0, f0, v0) = (s', blocks', hand', freed, victims))"
proof -
  let ?un = "\<lambda>b. b\<lparr>bm_visited := False\<rparr>" and ?z = "bm_size_bytes c"
  have len: "length blocks * 2 = Suc (length hs + Suc (length hs))"
    using arg_cong [OF assms(3), of length] by simp
  have c: "size_of s (bm_id c) = Some ?z" using assms(7) by simp
  have pos: "0 < need" using assms(10) by simp
  have s1: "inv s1" "used s1 + ?z = used s" "k \<noteq> bm_id c \<Longrightarrow> size_of s1 k = size_of s k" for k
    using evict_keeps [OF assms(1) c assms(12)] evict_freed [OF assms(1) c assms(12)] evict_other [OF assms(1) c assms(12)] by auto
  have z: "size_add 0 ?z = ?z" "size_add ?z ?z = ?z + ?z" "2 * ?z + used s1 < size_mod"
    using assms(9-11) s1(2) used_bound [OF assms(1)] by (simp_all add: size_add_exact)
  obtain h where one: "sieve_loop evict clear (length blocks * 2) need (s, blocks, hand, 0, []) =
      sieve_loop evict clear (length hs + Suc (length hs)) need (s1, blocks, h, ?z, [bm_id c])"
    "h \<le> length blocks" "rotate h blocks = hs @ [c]"
    using sweep_victim [OF assms(2-4) pos assms(12), of "length hs + Suc (length hs)" "[]"] len z(1) by auto
  obtain s2 bs h2 where two: "sieve_loop evict clear (length hs + Suc (length hs)) need (s1, blocks, h, ?z, [bm_id c]) =
      sieve_loop evict clear (Suc (length hs)) need (s2, bs, h2, ?z, [bm_id c])"
    "length bs = length blocks" "h2 \<le> length bs" "rotate h2 bs = c # map ?un hs"
    "s2 = foldl (\<lambda>s b. clear s (bm_id b)) s1 hs"
    using sweep_visited [OF s1(1) one(2,3) assms(5,10), of "Suc (length hs)" "[bm_id c]"] by auto
  obtain h3 where three: "sieve_loop evict clear (Suc (length hs)) need (s2, bs, h2, ?z, [bm_id c]) =
      sieve_loop evict clear (length hs) need (s3, bs, h3, ?z + ?z, [bm_id c, bm_id c])"
    "h3 \<le> length bs" "rotate h3 bs = map ?un hs @ [c]"
    using sweep_victim [OF two(3,4) assms(4,10), of s2 ?z s3 "length hs" "[bm_id c]"] assms(13) two(5) z(2) by auto
  have loop: "sieve_loop evict clear (length hs) need (s3, bs, h3, ?z + ?z, [bm_id c, bm_id c]) =
      (s', blocks', hand', freed, victims)"
    using assms(17) one(1) two(1) three(1) by simp
  have rest: "take (length hs) (rotate h3 bs) = map ?un hs" by (simp add: three(3))
  have lh: "length hs \<le> length bs" using two(2) len by simp
  have "inv s' \<and> freed + used s' = ?z + ?z + used s3 \<and> need \<le> freed \<and>
      (\<exists>vs. victims = [bm_id c, bm_id c] @ vs \<and> distinct vs \<and> set vs \<subseteq> bm_id ` set (take (length hs) (rotate h3 bs)))"
  proof (rule sweep_unvisited [OF assms(14) three(2) lh order.refl _ _ _ _ loop], unfold rest)
    show "\<forall>b\<in>set (map ?un hs). \<not> bm_visited b \<and> size_of s3 (bm_id b) = Some (bm_size_bytes b)"
      using assms(6,7,15) s1(3) by (force simp: image_iff)
    show "need \<le> ?z + ?z + sum_list (map bm_size_bytes (map ?un hs))"
      using assms(8,11) by (simp add: comp_def)
  qed (use assms(6,16) z(3) in \<open>simp_all add: comp_def\<close>)
  then show ?thesis using loop assms(16) s1(2) by (intro conjI exI) auto
qed

text \<open>
  One pass over a snapshot that is all unvisited or all visited frees at least what is
  needed, and what it reports as freed is what left the tier.
\<close>

lemma sum_list_rotate: "sum_list (rotate n xs) = sum_list (xs :: nat list)"
proof -
  have "sum_list (rotate n xs) = sum_list (take (n mod length xs) xs @ drop (n mod length xs) xs)"
    by (simp only: rotate_drop_take sum_list_append add.commute)
  then show ?thesis by simp
qed

lemma sweep_uniform:
  assumes "inv s" "hand \<le> length blocks" "need \<le> used s" "used s = sum_list (map bm_size_bytes blocks)"
    and "distinct (map bm_id blocks)" "\<forall>b\<in>set blocks. size_of s (bm_id b) = Some (bm_size_bytes b)"
    and "(\<forall>b\<in>set blocks. bm_visited b) \<or> (\<forall>b\<in>set blocks. \<not> bm_visited b)"
    and "sieve_loop evict clear (length blocks * 2) need (s, blocks, hand, 0, []) = (s', blocks', hand', freed, victims)"
  shows "inv s' \<and> freed + used s' = used s \<and> need \<le> freed \<and> distinct victims \<and> set victims \<subseteq> bm_id ` set blocks"
proof -
  have unvisited: "inv s' \<and> freed + used s' = used s \<and> need \<le> freed \<and> distinct victims \<and> set victims \<subseteq> bm_id ` set bs"
    if "inv s0" "h \<le> length bs" "length bs \<le> k" "need \<le> used s0" "used s0 = sum_list (map bm_size_bytes bs)" "used s0 = used s"
      "distinct (map bm_id bs)" "\<forall>b\<in>set bs. \<not> bm_visited b \<and> size_of s0 (bm_id b) = Some (bm_size_bytes b)"
      "sieve_loop evict clear k need (s0, bs, h, 0, []) = (s', blocks', hand', freed, victims)" for s0 bs h k
  proof -
    have all: "take (length bs) (rotate h bs) = rotate h bs" by simp
    have "inv s' \<and> freed + used s' = 0 + used s0 \<and> need \<le> freed \<and>
        (\<exists>vs. victims = [] @ vs \<and> distinct vs \<and> set vs \<subseteq> bm_id ` set (take (length bs) (rotate h bs)))"
      by (rule sweep_unvisited [OF that(1,2) order.refl that(3) _ _ _ _ that(9)])
        (use that used_bound [OF that(1)] in \<open>simp_all add: sum_list_rotate flip: rotate_map\<close>)
    then show ?thesis using that(6) by auto
  qed
  show ?thesis
  proof (cases "\<forall>b\<in>set blocks. \<not> bm_visited b")
    case True
    then show ?thesis using unvisited [OF assms(1,2) _ assms(3,4) refl assms(5) _ assms(8)] assms(6) by simp
  next
    case False
    then have vis: "\<forall>b\<in>set (rotate hand blocks). bm_visited b" using assms(7) by auto
    show ?thesis
    proof (cases "need = 0")
      case True
      then have "s' = s \<and> freed = 0 \<and> victims = []" using assms(8) by (cases "length blocks * 2") auto
      then show ?thesis using True assms(1) by simp
    next
      case pos: False
      let ?un = "\<lambda>b. b\<lparr>bm_visited := False\<rparr>"
      obtain s1 bs1 h1 where one: "sieve_loop evict clear (length (rotate hand blocks) + length blocks) need (s, blocks, hand, 0, []) =
          sieve_loop evict clear (length blocks) need (s1, bs1, h1, 0, [])"
        "inv s1" "size_of s1 = size_of s" "used s1 = used s" "length bs1 = length blocks" "h1 \<le> length blocks"
        "rotate h1 bs1 = [] @ map ?un (rotate hand blocks)"
        using sweep_visited [OF assms(1,2), of "rotate hand blocks" "[]" 0 need "length blocks" "[]"] vis pos by auto
      have mem: "set bs1 = ?un ` set blocks" using one(7) by (metis append_Nil set_map set_rotate)
      have ids: "distinct (map bm_id bs1)" "sum_list (map bm_size_bytes bs1) = sum_list (map bm_size_bytes blocks)"
      proof -
        have "map bm_id (rotate h1 bs1) = map bm_id (rotate hand blocks)" "map bm_size_bytes (rotate h1 bs1) = map bm_size_bytes (rotate hand blocks)"
          unfolding one(7) by simp_all
        then show "distinct (map bm_id bs1)" "sum_list (map bm_size_bytes bs1) = sum_list (map bm_size_bytes blocks)"
          by (metis assms(5) distinct_rotate rotate_map, metis rotate_map sum_list_rotate)
      qed
      have "sieve_loop evict clear (length blocks) need (s1, bs1, h1, 0, []) = (s', blocks', hand', freed, victims)"
        using one(1) assms(8) by (simp add: mult_2_right)
      then have "inv s' \<and> freed + used s' = used s \<and> need \<le> freed \<and> distinct victims \<and> set victims \<subseteq> bm_id ` set bs1"
        by (intro unvisited [OF one(2)]) (use one(3-6) assms(3,4,6) ids mem in auto)
      then show ?thesis using mem by (auto simp: image_image)
    qed
  qed
qed

end


section \<open>The tiers provide the interface\<close>

lemma ts_used_bound: "ts_inv ts \<Longrightarrow> ts_used_bytes ts t < size_mod"
  by (cases t) (auto simp: ts_inv_def ts_used_bytes_def opt_size_def bs_inv_def dest: ssd_inv_parts(11) split: option.splits)

lemma content_size_remove:
  assumes "finite (dom c)" "c k = Some d"
  shows "content_size (c(k := None)) + length d = content_size c"
proof -
  have "(\<Sum>j\<in>dom c - {k}. length (the ((c(k := None)) j))) = (\<Sum>j\<in>dom c - {k}. length (the (c j)))"
    by (rule sum.cong) auto
  then show ?thesis
    using sum.remove [OF assms(1), of k "\<lambda>j. length (the (c j))"] assms(2) by (simp add: content_size_def domI)
qed

lemma tier_used_remove:
  assumes "ts_inv ts" "ts_inv ts'" "tier_probe ts t k = Some d" "tier_probe ts' t = (tier_probe ts t)(k := None)"
  shows "ts_used_bytes ts' t + length d = ts_used_bytes ts t"
  using content_size_remove [OF tier.finite_content [OF assms(1)] assms(3)] tier.used_content [OF assms(1), of t]
    tier.used_content [OF assms(2), of t] assms(4) by simp

lemma evict_one_effect:
  assumes "evict_inv t ts" "tier_size t ts (bm_id m) = Some (bm_size_bytes m)" "evict_one t ts m = (n, ts')"
  shows "ts_inv ts' \<and> n = bm_size_bytes m \<and> tier_probe ts' t = (tier_probe ts t)(bm_id m := None) \<and>
    (\<forall>v j. j \<noteq> bm_id m \<longrightarrow> tier_probe ts' v j = tier_probe ts v j)"
proof -
  let ?k = "bm_id m"
  have inv: "ts_inv ts" and single: "\<And>u. u \<noteq> t \<Longrightarrow> tier_probe ts u ?k = None"
    using assms(1,2) by (auto simp: evict_inv_def single_copy_def tier_size_def)
  obtain d where d: "tier_probe ts t ?k = Some d" "length d = bm_size_bytes m"
    using assms(2) by (auto simp: tier_size_def)
  have bound: "length d < size_mod"
    using content_size_remove [OF tier.finite_content [OF inv] d(1)] tier.used_content [OF inv, of t] ts_used_bound [OF inv, of t]
    by simp
  have erased: ?thesis if e: "ts_Erase ts ?k = (n, ts')"
  proof -
    note eff = ts_Erase_effect [OF inv e]
    have "n = length d" unfolding eff(6) using d single bound by (cases t) (simp_all add: size_add_def)
    then show ?thesis using eff(1,2) d(2) by auto
  qed
  show ?thesis
  proof (cases "t = SSD")
    case True
    then show ?thesis using erased assms(3) by (simp add: evict_one_def)
  next
    case False
    obtain ok ts1 where dem: "ts_Demote ts ?k = (ok, ts1)" by force
    from inv dem show ?thesis
    proof (cases rule: ts_Demote_cases)
      case refuse
      then show ?thesis using erased assms(3) False dem by (simp add: evict_one_def)
    next
      case (move u v d')
      have u: "u = t" using move(3) single by force
      have "n = bm_size_bytes m" "ts' = ts1" using move(1) assms(3) False dem by (simp_all add: evict_one_def)
      then show ?thesis using move(2,5,6) u by (auto simp: fun_eq_iff)
    qed
  qed
qed

interpretation sieve: sieve_store "evict_inv t" "tier_size t" "\<lambda>ts. ts_used_bytes ts t" "evict_one t" ts_ClearVisited
  for t
proof
  fix s k m n s'
  show "evict_inv t s \<Longrightarrow> ts_used_bytes s t < size_mod" by (simp only: evict_inv_def ts_used_bound)
  show "evict_inv t s \<Longrightarrow> evict_inv t (ts_ClearVisited s k)" by (simp add: evict_inv_def single_copy_def)
  show "tier_size t (ts_ClearVisited s k) = tier_size t s" by (simp add: tier_size_def fun_eq_iff)
  show "ts_used_bytes (ts_ClearVisited s k) t = ts_used_bytes s t" by simp
  assume ev: "evict_inv t s" "tier_size t s (bm_id m) = Some (bm_size_bytes m)" "evict_one t s m = (n, s')"
  note eff = evict_one_effect [OF ev]
  show "evict_inv t s'" unfolding evict_inv_def single_copy_def
  proof (intro conjI allI impI)
    show "ts_inv s'" using eff by blast
    fix j u assume j: "tier_probe s' t j \<noteq> None \<and> u \<noteq> t"
    then have "j \<noteq> bm_id m" using eff by auto
    then show "tier_probe s' u j = None" using eff j ev(1) by (simp add: evict_inv_def single_copy_def)
  qed
  show "n = bm_size_bytes m \<and> ts_used_bytes s' t + n = ts_used_bytes s t"
  proof -
    obtain d where d: "tier_probe s t (bm_id m) = Some d" "length d = bm_size_bytes m"
      using ev(2) by (auto simp: tier_size_def)
    have "ts_inv s" "ts_inv s'" using ev(1) eff by (auto simp: evict_inv_def)
    then show ?thesis using tier_used_remove [of s s' t "bm_id m" d] d eff by simp
  qed
  show "k \<noteq> bm_id m \<Longrightarrow> tier_size t s' k = tier_size t s k" using eff by (simp add: tier_size_def)
qed

text \<open>Evicting from HBM when DRAM has room, and evicting the demoted block once more without an SSD.\<close>

lemma no_ssd:
  assumes "ts_inv ts" "ts_capacity_bytes ts SSD = 0"
  shows "PutToTier ts b SSD = (False, ts)" "tier_probe ts SSD k = None"
proof -
  have none: "ts_ssd ts = None"
  proof (cases "ts_ssd ts")
    case (Some s)
    then have "ssd_inv s" using assms(1) by (simp add: ts_inv_def)
    from ssd_inv_parts(1) [OF this] show ?thesis
      using Some assms(2) by (auto simp: ts_capacity_bytes_def opt_size_def ssd_geometry_def)
  qed
  then show "PutToTier ts b SSD = (False, ts)" by (cases ts) (simp add: PutToTier_def opt_put_def)
  show "tier_probe ts SSD k = None" using none by (simp add: tier_probe_eqs)
qed

lemma evict_hbm_demotes:
  assumes "evict_inv HBM ts" "tier_probe ts HBM (bm_id m) = Some d" "length d = bm_size_bytes m"
    and "ts_used_bytes ts DRAM + length d \<le> ts_capacity_bytes ts DRAM" "evict_one HBM ts m = (n, ts')"
  shows "n = bm_size_bytes m" "tier_probe ts' HBM (bm_id m) = None" "tier_probe ts' DRAM (bm_id m) = Some d"
    "ts_capacity_bytes ts' v = ts_capacity_bytes ts v"
proof -
  let ?k = "bm_id m"
  have inv: "ts_inv ts" and dram: "tier_probe ts DRAM ?k = None"
    using assms(1,2) by (auto simp: evict_inv_def single_copy_def)
  have ok: "kv_ok (moved_block ?k d DRAM)" by (rule moved_ok [OF inv assms(2)])
  obtain ok1 ts1 where put: "PutToTier ts (moved_block ?k d DRAM) DRAM = (ok1, ts1)" by force
  have "ok1" using PutToTier_refuses [OF inv ok, of DRAM] put assms(4) by auto
  then have dem: "ts_Demote ts ?k = (True, snd (EraseFromTier ts1 ?k HBM))"
    using assms(2) put by (simp add: ts_Demote_def)
  then have ts': "ts' = snd (EraseFromTier ts1 ?k HBM)" and "n = bm_size_bytes m"
    using assms(5) by (simp_all add: evict_one_def)
  then show "n = bm_size_bytes m" by simp
  have e: "EraseFromTier ts1 ?k HBM = (fst (EraseFromTier ts1 ?k HBM), ts')" using ts' by simp
  have m: "\<And>v j. tier_probe ts' v j = (if j = ?k \<and> v = HBM then None
      else if j = ?k \<and> v = DRAM \<and> tier_probe ts DRAM ?k = None then Some d else tier_probe ts v j)"
    "\<And>v. ts_capacity_bytes ts' v = ts_capacity_bytes ts v"
    using move_step [OF inv assms(2) _ _ e, of DRAM] put \<open>ok1\<close> by auto
  show "tier_probe ts' HBM ?k = None" "tier_probe ts' DRAM ?k = Some d"
    "ts_capacity_bytes ts' v = ts_capacity_bytes ts v" using m dram by simp_all
qed

lemma evict_demoted_again:
  assumes "ts_inv ts" "tier_probe ts HBM (bm_id m) = None" "tier_probe ts DRAM (bm_id m) = Some d"
    and "ts_capacity_bytes ts SSD = 0" "length d = bm_size_bytes m" "evict_one HBM ts m = (n, ts')"
  shows "n = bm_size_bytes m" "ts_inv ts'" "tier_probe ts' HBM = tier_probe ts HBM" "ts_content ts' (bm_id m) = None"
    "u \<noteq> DRAM \<or> j \<noteq> bm_id m \<Longrightarrow> tier_probe ts' u j = tier_probe ts u j"
proof -
  note no = no_ssd [OF assms(1,4)]
  have "ts_Demote ts (bm_id m) = (False, ts)" using assms(2,3) no(1) by (simp add: ts_Demote_def)
  then have e: "ts_Erase ts (bm_id m) = (n, ts')" using assms(6) by (simp add: evict_one_def)
  note eff = ts_Erase_effect [OF assms(1) e]
  have "length d \<le> vector_max" using moved_ok [OF assms(1,3)] by (simp add: kv_ok_def)
  then show "n = bm_size_bytes m"
    using eff(6) assms(2,3,5) no(2) by (simp add: size_add_def)
  show "ts_inv ts'" by (rule eff(1))
  show "ts_content ts' (bm_id m) = None" by (simp add: ts_content_def eff(2))
  show all: "u \<noteq> DRAM \<or> j \<noteq> bm_id m \<Longrightarrow> tier_probe ts' u j = tier_probe ts u j" for u j
    using assms(2) no(2) by (cases u) (auto simp: eff(2))
  show "tier_probe ts' HBM = tier_probe ts HBM" by (rule ext) (simp add: all)
qed

lemma clear_all_keeps:
  "ts_inv (foldl (\<lambda>s b. ts_ClearVisited s (bm_id b)) ts bs) = ts_inv ts"
  "tier_probe (foldl (\<lambda>s b. ts_ClearVisited s (bm_id b)) ts bs) t = tier_probe ts t"
  "ts_capacity_bytes (foldl (\<lambda>s b. ts_ClearVisited s (bm_id b)) ts bs) t = ts_capacity_bytes ts t"
  by (induction bs arbitrary: ts) simp_all

lemma evict_hbm_twice:
  assumes "evict_inv HBM s" "coherent payload s" "tier_size HBM s (bm_id c) = Some (bm_size_bytes c)"
    and "ts_used_bytes s DRAM + bm_size_bytes c \<le> ts_capacity_bytes s DRAM" "ts_capacity_bytes s SSD = 0"
  obtains s1 s3 where "evict_one HBM s c = (bm_size_bytes c, s1)"
    "evict_one HBM (foldl (\<lambda>s b. ts_ClearVisited s (bm_id b)) s1 hs) c = (bm_size_bytes c, s3)"
    "evict_inv HBM s3" "tier_size HBM s3 = tier_size HBM s1" "ts_used_bytes s3 HBM = ts_used_bytes s1 HBM"
    "ts_content s3 (bm_id c) = None" "coherent payload s3"
proof -
  obtain d where d: "tier_probe s HBM (bm_id c) = Some d" "length d = bm_size_bytes c"
    using assms(3) by (auto simp: tier_size_def)
  obtain z s1 where one: "evict_one HBM s c = (z, s1)" by force
  have room: "ts_used_bytes s DRAM + length d \<le> ts_capacity_bytes s DRAM" using assms(4) d(2) by simp
  note e1 = evict_hbm_demotes [OF assms(1) d room one]
  have ei1: "evict_inv HBM s1" by (rule sieve.evict_keeps [OF assms(1,3) one])
  have i1: "ts_inv s1" "ts_capacity_bytes s1 SSD = 0" using ei1 e1(4) assms(5) by (simp_all add: evict_inv_def)
  obtain z3 s3 where three: "evict_one HBM (foldl (\<lambda>s b. ts_ClearVisited s (bm_id b)) s1 hs) c = (z3, s3)" by force
  note e3 = evict_demoted_again [OF _ _ _ _ d(2) three, unfolded clear_all_keeps, OF i1(1) e1(2,3) i1(2)]
  have hbm: "tier_size HBM s3 = tier_size HBM s1" "ts_used_bytes s3 HBM = ts_used_bytes s1 HBM"
    using e3(3) tier.used_content [OF e3(2), of HBM] tier.used_content [OF i1(1), of HBM]
    by (simp_all add: tier_size_def [abs_def])
  have ei3: "evict_inv HBM s3"
    using ei1 e3(2,3,5) unfolding evict_inv_def single_copy_def by (metis e1(2))
  have co: "coherent payload s3"
  proof (unfold coherent_def, intro allI impI)
    fix u j dj assume p: "tier_probe s3 u j = Some dj"
    then have j: "j \<noteq> bm_id c" using e3(4) ts_content_dom [of s3 "bm_id c"] by auto
    then have "tier_probe s u j = Some dj"
      using p e3(5) evict_one_effect [OF assms(1,3) one] by simp
    then show "dj = payload j" using assms(2) by (auto simp: coherent_def)
  qed
  show thesis by (rule that [OF one [unfolded e1(1)] three [unfolded e3(1)] ei3 hbm e3(4) co])
qed

section \<open>A pass as a run of store operations\<close>

text \<open>
  Whatever the visited bits and the copies, a pass is a sequence of store operations that
  erases only blocks it reports.
\<close>

lemma ts_run_append: "ts_run ts (xs @ ys) = ts_run (ts_run ts xs) ys"
  by (simp add: ts_run_def)

lemma evict_one_run:
  "\<exists>xs. snd (evict_one t ts m) = ts_run ts xs \<and> set xs \<subseteq> {TDemote (bm_id m), TErase (bm_id m)}"
proof -
  let ?k = "bm_id m"
  consider (demoted) "snd (evict_one t ts m) = ts_run ts [TDemote ?k]"
    | (kept) "snd (evict_one t ts m) = ts_run ts [TDemote ?k, TErase ?k]"
    | (erased) "snd (evict_one t ts m) = ts_run ts [TErase ?k]"
    by (cases "t = SSD"; cases "fst (ts_Demote ts ?k)") (auto simp: evict_one_def ts_run_def case_prod_beta)
  then show ?thesis
  proof cases
    case demoted
    then show ?thesis by (intro exI [of _ "[TDemote ?k]"]) simp
  next
    case kept
    then show ?thesis by (intro exI [of _ "[TDemote ?k, TErase ?k]"]) simp
  next
    case erased
    then show ?thesis by (intro exI [of _ "[TErase ?k]"]) simp
  qed
qed

lemma sieve_loop_run:
  "sieve_loop (evict_one t) ts_ClearVisited k need (s, blocks, hand, freed, ev) = (s', blocks', hand', freed', ev') \<Longrightarrow>
   \<exists>xs vs. s' = ts_run s xs \<and> ev' = ev @ vs \<and> set xs \<subseteq> pass_ops (set vs)"
proof (induction k arbitrary: s blocks hand freed ev)
  case 0
  then show ?case by (intro exI [of _ "[]"]) (simp add: ts_run_def)
next
  case (Suc k)
  define h where "h = (if hand \<ge> length blocks then 0 else hand)"
  let ?m = "blocks ! h"
  show ?case
  proof (cases "freed < need")
    case False
    then show ?thesis using Suc.prems by (intro exI [of _ "[]"]) (simp add: ts_run_def)
  next
    case need: True
    show ?thesis
    proof (cases "bm_visited ?m")
      case True
      then have "sieve_loop (evict_one t) ts_ClearVisited k need (ts_ClearVisited s (bm_id ?m),
          blocks[h := ?m\<lparr>bm_visited := False\<rparr>], h + 1, freed, ev) = (s', blocks', hand', freed', ev')"
        using Suc.prems need by (simp add: Let_def flip: h_def)
      from Suc.IH [OF this] obtain xs vs where
        r: "s' = ts_run (ts_ClearVisited s (bm_id ?m)) xs" "ev' = ev @ vs" "set xs \<subseteq> pass_ops (set vs)" by blast
      have "s' = ts_run s (TClearVisited (bm_id ?m) # xs)" using r(1) by (simp add: ts_run_def)
      moreover have "set (TClearVisited (bm_id ?m) # xs) \<subseteq> pass_ops (set vs)" using r(3) by (simp add: pass_ops_def)
      ultimately show ?thesis using r(2) by blast
    next
      case False
      obtain n s1 where e: "evict_one t s ?m = (n, s1)" by force
      have "sieve_loop (evict_one t) ts_ClearVisited k need (s1, blocks, h + 1, size_add freed n, ev @ [bm_id ?m]) =
          (s', blocks', hand', freed', ev')"
        using Suc.prems need False e by (simp add: Let_def flip: h_def)
      from Suc.IH [OF this] obtain xs vs where
        r: "s' = ts_run s1 xs" "ev' = (ev @ [bm_id ?m]) @ vs" "set xs \<subseteq> pass_ops (set vs)" by blast
      obtain ys where ys: "s1 = ts_run s ys" "set ys \<subseteq> {TDemote (bm_id ?m), TErase (bm_id ?m)}"
        using evict_one_run [of t s ?m] e by auto
      have "s' = ts_run s (ys @ xs)" using r(1) ys(1) by (simp add: ts_run_append)
      moreover have "set (ys @ xs) \<subseteq> pass_ops (set (bm_id ?m # vs))" using r(3) ys(2) by (auto simp: pass_ops_def)
      moreover have "ev' = ev @ bm_id ?m # vs" using r(2) by simp
      ultimately show ?thesis by blast
    qed
  qed
qed

lemma pass_ops_ok: "set xs \<subseteq> pass_ops V \<Longrightarrow> \<forall>x\<in>set xs. op_ok payload x"
  by (auto simp: pass_ops_def)

lemma pass_ops_content:
  assumes "ts_inv ts" "coherent payload ts" "set xs \<subseteq> pass_ops V"
  shows "ts_content (ts_run ts xs) k = ts_content ts k \<or> ts_content (ts_run ts xs) k = None \<and> k \<in> V"
  using assms
proof (induction xs arbitrary: ts)
  case (Cons x xs)
  have x: "x \<in> pass_ops V" "op_ok payload x" using Cons.prems(3) by (auto simp: pass_ops_def)
  note s = ts_step_inv(1) [OF Cons.prems(1) x(2)] ts_step_coherent [OF Cons.prems(1,2) x(2)]
  have one: "ts_content (ts_step ts x) k = ts_content ts k \<or> ts_content (ts_step ts x) k = None \<and> k \<in> V"
    unfolding ts_step_refines [OF Cons.prems(1,2) x(2)] using x(1) by (auto simp: pass_ops_def split: if_splits)
  have "ts_run ts (x # xs) = ts_run (ts_step ts x) xs" by (simp add: ts_run_def)
  moreover have "set xs \<subseteq> pass_ops V" using Cons.prems(3) by simp
  ultimately show ?case using Cons.IH [OF s] one by auto
qed (simp add: ts_run_def)

lemma RunPassForTier_cases:
  assumes "RunPassForTier E n t = (r, msgs, n')"
  obtains (idle) "ts_capacity_bytes (nd_store n) t = 0 \<or> ts_used_bytes (nd_store n) t = 0 \<or>
        ts_used_bytes (nd_store n) t \<le> high_mark n t \<or> ts_Snapshot (en_block_order E) (nd_store n) t = []"
        "r = empty_result" "msgs = []" "n' = n"
    | (sweep) store blocks hand freed evicted where
        "high_mark n t < ts_used_bytes (nd_store n) t" "ts_Snapshot (en_block_order E) (nd_store n) t \<noteq> []"
        "sieve_loop (evict_one t) ts_ClearVisited (size_mul (length (ts_Snapshot (en_block_order E) (nd_store n) t)) 2)
           (size_sub (ts_used_bytes (nd_store n) t) (low_mark n t))
           (nd_store n, ts_Snapshot (en_block_order E) (nd_store n) t, ev_hand (nd_evictor n) t, 0, []) =
         (store, blocks, hand, freed, evicted)"
        "n' = n\<lparr>nd_store := store, nd_evictor := set_hand t hand (nd_evictor n)\<rparr>" "pr_bytes_freed r = freed"
        "msgs = (if ec_broadcast_evictions (ev_cfg (nd_evictor n)) \<and> evicted \<noteq> []
                 then BroadcastEvictionsToPeers E n' evicted else [])"
proof (cases "ts_capacity_bytes (nd_store n) t = 0 \<or> ts_used_bytes (nd_store n) t = 0 \<or>
        ts_used_bytes (nd_store n) t \<le> high_mark n t \<or> ts_Snapshot (en_block_order E) (nd_store n) t = []")
  case True
  then have "RunPassForTier E n t = (empty_result, [], n)"
    unfolding RunPassForTier_def high_mark_def Let_def by (simp only: if_cancel simp_thms split: if_split) argo
  then show ?thesis using idle True assms by simp
next
  case False
  obtain store blocks hand freed evicted where l:
    "sieve_loop (evict_one t) ts_ClearVisited (size_mul (length (ts_Snapshot (en_block_order E) (nd_store n) t)) 2)
       (size_sub (ts_used_bytes (nd_store n) t) (low_mark n t))
       (nd_store n, ts_Snapshot (en_block_order E) (nd_store n) t, ev_hand (nd_evictor n) t, 0, []) =
     (store, blocks, hand, freed, evicted)" using prod_cases5 by blast
  show ?thesis
    by (rule sweep [OF _ _ l])
      (use False l assms in \<open>auto simp: RunPassForTier_def high_mark_def low_mark_def Let_def split: if_splits\<close>)
qed

lemma set_hand_sel [simp]: "ev_cfg (set_hand t h ev) = ev_cfg ev" "ev_membership (set_hand t h ev) = ev_membership ev"
  "ev_local_node_id (set_hand t h ev) = ev_local_node_id ev" "ev_peer_evicted (set_hand t h ev) = ev_peer_evicted ev"
  by (simp_all add: set_hand_def split: Tier.splits)

text \<open>What a pass keeps, and that it reports every block that it removed from the node.\<close>

lemma RunPassForTier_keeps:
  assumes "ts_inv (nd_store n)" "coherent payload (nd_store n)" "books_ok (nd_store n)"
    and "RunPassForTier E n t = (r, msgs, n')"
  shows "ts_inv (nd_store n') \<and> coherent payload (nd_store n') \<and> books_ok (nd_store n') \<and>
    nd_membership n' = nd_membership n \<and> nd_router n' = nd_router n \<and> nd_replicator n' = nd_replicator n \<and>
    (\<forall>u. ts_capacity_bytes (nd_store n') u = ts_capacity_bytes (nd_store n) u)"
  using assms(4)
proof (cases rule: RunPassForTier_cases)
  case (sweep store blocks hand freed evicted)
  obtain xs where xs: "store = ts_run (nd_store n) xs" "set xs \<subseteq> pass_ops (set evicted)"
    using sieve_loop_run [OF sweep(3)] by auto
  show ?thesis
    using ts_run_keeps [OF assms(1-3) pass_ops_ok [OF xs(2)]] xs(1) sweep(4) by simp
qed (use assms(1-3) in simp)

lemma RunPassForTier_content:
  assumes "ts_inv (nd_store n)" "coherent payload (nd_store n)" "RunPassForTier E n t = (r, msgs, n')"
    and "ec_broadcast_evictions (ev_cfg (nd_evictor n))" "ev_membership (nd_evictor n)"
    and "ts_content (nd_store n') k \<noteq> ts_content (nd_store n) k"
  shows "ts_content (nd_store n') k = None \<and>
    (\<forall>a\<in>set (AllPeerAddresses (en_peer_order E) (nd_membership n)). \<exists>req. (a, req) \<in> set msgs \<and> k \<in> set (eb_evicted req))"
  using assms(3)
proof (cases rule: RunPassForTier_cases)
  case (sweep store blocks hand freed evicted)
  obtain xs where xs: "store = ts_run (nd_store n) xs" "set xs \<subseteq> pass_ops (set evicted)"
    using sieve_loop_run [OF sweep(3)] by auto
  have n': "nd_store n' = store" "nd_membership n' = nd_membership n" "ev_membership (nd_evictor n')"
    using sweep(4) assms(5) by simp_all
  then have k: "ts_content (nd_store n') k = None" "k \<in> set evicted"
    using pass_ops_content [OF assms(1,2) xs(2), of k] assms(6) xs(1) by auto
  then have "msgs = BroadcastEvictionsToPeers E n' evicted" using sweep(6) assms(4) by auto
  then show ?thesis using n' k by (auto simp: BroadcastEvictionsToPeers_def Let_def)
qed (use assms(6) in simp)

text \<open>The snapshot is what the sweep's convergence asks for.\<close>

lemma snapshot_sweepable:
  assumes "evict_inv t ts" "order_ok ord"
  shows "ts_used_bytes ts t = sum_list (map bm_size_bytes (ts_Snapshot ord ts t))"
    "distinct (map bm_id (ts_Snapshot ord ts t))" "length (ts_Snapshot ord ts t) = card (dom (tier_probe ts t))"
    "\<forall>b\<in>set (ts_Snapshot ord ts t). tier_size t ts (bm_id b) = Some (bm_size_bytes b)"
proof -
  have inv: "ts_inv ts" using assms(1) by (simp add: evict_inv_def)
  note s = ts_Snapshot_meta [OF inv assms(2), of t]
  show "ts_used_bytes ts t = sum_list (map bm_size_bytes (ts_Snapshot ord ts t))"
    using snapshot_sizes [OF s] tier.used_content [OF inv] by simp
  show d: "distinct (map bm_id (ts_Snapshot ord ts t))" using s by (simp add: snapshot_of_def)
  show "length (ts_Snapshot ord ts t) = card (dom (tier_probe ts t))"
    using distinct_card [OF d] s by (simp add: snapshot_of_def)
  show "\<forall>b\<in>set (ts_Snapshot ord ts t). tier_size t ts (bm_id b) = Some (bm_size_bytes b)"
    using s by (auto simp: snapshot_of_def tier_size_def)
qed

text \<open>A pass over a tier under pressure is the sweep, from the hand or from the start if the hand is stale.\<close>

lemma pass_sweeps:
  assumes "en_ok E" "evict_inv t (nd_store n)"
    and "ec_low_watermark_pct (ev_cfg (nd_evictor n)) \<le> ec_high_watermark_pct (ev_cfg (nd_evictor n))"
    and "ts_capacity_bytes (nd_store n) t * ec_high_watermark_pct (ev_cfg (nd_evictor n)) < size_mod"
    and "card (dom (tier_probe (nd_store n) t)) * 2 < size_mod"
    and "high_mark n t < ts_used_bytes (nd_store n) t" "RunPassForTier E n t = (r, msgs, n')"
  defines "bs \<equiv> ts_Snapshot (en_block_order E) (nd_store n) t" and "hand \<equiv> ev_hand (nd_evictor n) t"
  obtains bs' hand' evicted where
    "sieve_loop (evict_one t) ts_ClearVisited (length bs * 2) (ts_used_bytes (nd_store n) t - low_mark n t)
       (nd_store n, bs, (if length bs \<le> hand then 0 else hand), 0, []) = (nd_store n', bs', hand', pr_bytes_freed r, evicted)"
    "low_mark n t < ts_used_bytes (nd_store n) t"
proof -
  let ?s = "nd_store n" and ?need = "ts_used_bytes (nd_store n) t - low_mark n t"
  have inv: "ts_inv ?s" and ord: "order_ok (en_block_order E)" using assms(1,2) by (auto simp: evict_inv_def en_ok_def)
  note snap = snapshot_sweepable [OF assms(2) ord, folded bs_def]
  have "ts_capacity_bytes ?s t * ec_low_watermark_pct (ev_cfg (nd_evictor n)) < size_mod"
    using assms(3,4) by (meson le_less_trans mult_le_mono2)
  then have "low_mark n t \<le> high_mark n t"
    using assms(3,4) by (simp add: low_mark_def high_mark_def watermark_def size_mul_exact div_le_mono)
  then have low: "low_mark n t < ts_used_bytes ?s t" using assms(6) by simp
  have steps: "size_mul (length bs) 2 = length bs * 2" using assms(5) snap(3) by (simp add: size_mul_exact)
  have need: "size_sub (ts_used_bytes ?s t) (low_mark n t) = ?need" "0 < ?need"
    using low ts_used_bound [OF inv, of t] by (auto simp: size_sub_exact)
  have busy: "ts_capacity_bytes ?s t \<noteq> 0" "ts_used_bytes ?s t \<noteq> 0"
    using assms(6) tier.used_capacity [OF inv, of t] by linarith+
  then have ne: "bs \<noteq> []" using snap(1) by auto
  from assms(7) show thesis
  proof (cases rule: RunPassForTier_cases)
    case idle
    then show thesis using busy ne assms(6) by (auto simp: bs_def)
  next
    case (sweep store blocks hd freed evicted)
    note loop = sweep(3) [folded bs_def hand_def, unfolded steps need(1)]
    obtain k where k: "length bs * 2 = Suc k" using ne by (cases "length bs * 2") auto
    have "sieve_loop (evict_one t) ts_ClearVisited (length bs * 2) ?need
        (?s, bs, (if length bs \<le> hand then 0 else hand), 0, []) = (store, blocks, hd, freed, evicted)"
    proof (cases "length bs \<le> hand")
      case True
      note wrap = sieve_loop_wrap [OF True need(2), of "evict_one t" ts_ClearVisited k ?s "[]"]
      show ?thesis using loop unfolding k wrap if_P [OF True] .
    next
      case False
      show ?thesis using loop unfolding if_not_P [OF False] .
    qed
    then show thesis using that [OF _ low] sweep(4,5) by simp
  qed
qed

text \<open>The sample store: two blocks that fill HBM.\<close>

lemma few_steps:
  "sieve_loop evict clear 2 = sieve_loop evict clear (Suc (Suc 0))"
  "sieve_loop evict clear 4 = sieve_loop evict clear (Suc (Suc (Suc (Suc 0))))"
  by (simp_all add: numeral_eq_Suc)

lemma sample_full_store:
  "tier_probe (ts_run (sample_store 8 8) sample_full) HBM = [sample_id 1 \<mapsto> [7], sample_id 2 \<mapsto> [1, 2, 3, 4, 5, 6, 7]]"
  "tier_probe (ts_run (sample_store 8 8) sample_full) DRAM = Map.empty"
  "tier_probe (ts_run (sample_store 8 8) sample_full) SSD = Map.empty"
  "ts_visited (ts_run (sample_store 8 8) sample_full) = {}"
  "ts_capacity_bytes (ts_run (sample_store 8 8) sample_full) HBM = 8"
  "ts_used_bytes (ts_run (sample_store 8 8) sample_full) HBM = 8"
  by (auto simp add: sample_full_def sample_eval fun_eq_iff ts_capacity_bytes_def ts_used_bytes_def opt_size_def)

lemmas sample_pass_eval = sample_full_def sample_evict_def RunPassForTier_def Let_def ts_used_bytes_def opt_size_def
  ts_capacity_bytes_def ts_Snapshot_def bs_Snapshot_def umap_iter_def sample_env_def watermark_def size_mul_def
  evict_one_def ts_Erase_def ts_ClearVisited_def evictor_new_def default_eviction_def low_mark_def ev_hand_def
  set_hand_def count_evicted_def empty_result_def ts_content_def few_steps

lemma sample_88_keeps:
  assumes "\<forall>x\<in>set xs. op_ok payload x"
  shows "ts_inv (ts_run (sample_store 8 8) xs)" "coherent payload (ts_run (sample_store 8 8) xs)"
    "books_ok (ts_run (sample_store 8 8) xs)"
proof -
  have cfg: "cfg_ok (sample_cfg 8 8)" "ts_new (\<lambda>_. False) (\<lambda>_. []) env_ok (sample_cfg 8 8) = Inr (sample_store 8 8)"
    by (simp_all add: sample_store)
  from ts_run_keeps [OF fresh_store(1-3) [OF cfg] assms]
  show "ts_inv (ts_run (sample_store 8 8) xs)" "coherent payload (ts_run (sample_store 8 8) xs)"
    "books_ok (ts_run (sample_store 8 8) xs)" by blast+
qed

lemma sample_full_keeps:
  "ts_inv (ts_run (sample_store 8 8) sample_full)" "coherent sample_payload (ts_run (sample_store 8 8) sample_full)"
  "books_ok (ts_run (sample_store 8 8) sample_full)"
  by (rule sample_88_keeps [where payload = sample_payload]; simp add: sample_full_def sample_payload_def)+

lemma sample_full_single: "evict_inv HBM (ts_run (sample_store 8 8) sample_full)"
  unfolding evict_inv_def single_copy_def
proof (intro conjI allI impI)
  show "ts_inv (ts_run (sample_store 8 8) sample_full)" by (rule sample_full_keeps)
  fix k u assume "tier_probe (ts_run (sample_store 8 8) sample_full) HBM k \<noteq> None \<and> u \<noteq> HBM"
  then show "tier_probe (ts_run (sample_store 8 8) sample_full) u k = None" by (cases u) (simp_all add: sample_full_store)
qed

lemma foldl_insert: "foldl (\<lambda>s i. insert i s) S xs = S \<union> set xs"
  by (induction xs arbitrary: S) auto

lemma OnPeerEviction_record:
  "ev_peer_evicted (OnPeerEviction ev ids p) q =
     (if q = p then Some ((case ev_peer_evicted ev p of None \<Rightarrow> {} | Some s \<Rightarrow> if card s > kPerPeerBound then {} else s) \<union> set ids)
      else ev_peer_evicted ev q)"
  by (simp add: OnPeerEviction_def foldl_insert Let_def split: option.splits)

lemma OnPeerEviction_count:
  assumes "\<forall>q. peer_evicted_count_for_testing ev q \<le> kPerPeerBound + b" "length ids \<le> b"
  shows "peer_evicted_count_for_testing (OnPeerEviction ev ids p) q \<le> kPerPeerBound + b"
proof (cases "q = p")
  case True
  let ?old = "case ev_peer_evicted ev p of None \<Rightarrow> {} | Some s \<Rightarrow> if card s > kPerPeerBound then {} else s"
  have "card ?old \<le> kPerPeerBound" by (simp split: option.splits)
  moreover have "card (?old \<union> set ids) \<le> card ?old + card (set ids)" by (rule card_Un_le)
  moreover have "card (set ids) \<le> b" using card_length [of ids] assms(2) by simp
  ultimately have "card (?old \<union> set ids) \<le> kPerPeerBound + b" by linarith
  then show ?thesis using True by (simp add: peer_evicted_count_for_testing_def OnPeerEviction_record)
next
  case False
  then show ?thesis using assms(1) by (simp add: peer_evicted_count_for_testing_def OnPeerEviction_record)
qed

section \<open>Properties\<close>

text \<open>
  C5. A pass brings a tier under pressure below its low watermark.  When the tier's blocks are
  stored there alone and their visited bits agree (all set, or none), and the watermark
  products fit in 64 bits, a pass over a tier above the high watermark ends with at most the
  low watermark in use and reports as freed exactly the bytes that left the tier; a pass over
  any other tier changes nothing.
\<close>

theorem RunPassForTier_drains:
  assumes "en_ok E" "evict_inv t (nd_store n)"
    and "ec_low_watermark_pct (ev_cfg (nd_evictor n)) \<le> ec_high_watermark_pct (ev_cfg (nd_evictor n))"
    and "ts_capacity_bytes (nd_store n) t * ec_high_watermark_pct (ev_cfg (nd_evictor n)) < size_mod"
    and "card (dom (tier_probe (nd_store n) t)) * 2 < size_mod"
    and "dom (tier_probe (nd_store n) t) \<subseteq> ts_visited (nd_store n) \<or>
         dom (tier_probe (nd_store n) t) \<inter> ts_visited (nd_store n) = {}"
    and "RunPassForTier E n t = (r, msgs, n')"
  shows "if ts_used_bytes (nd_store n) t \<le> high_mark n t then n' = n \<and> r = empty_result \<and> msgs = []
    else ts_used_bytes (nd_store n') t \<le> low_mark n t \<and>
         pr_bytes_freed r + ts_used_bytes (nd_store n') t = ts_used_bytes (nd_store n) t"
proof (cases "ts_used_bytes (nd_store n) t \<le> high_mark n t")
  case True
  then have "RunPassForTier E n t = (empty_result, [], n)"
    by (simp add: RunPassForTier_def high_mark_def Let_def)
  then show ?thesis using True assms(7) by simp
next
  case False
  let ?s = "nd_store n" and ?bs = "ts_Snapshot (en_block_order E) (nd_store n) t" and ?hand = "ev_hand (nd_evictor n) t"
  have inv: "ts_inv ?s" and ord: "order_ok (en_block_order E)" using assms(1,2) by (auto simp: evict_inv_def en_ok_def)
  note snap = snapshot_sweepable [OF assms(2) ord]
  obtain bs' hand' evicted where loop: "sieve_loop (evict_one t) ts_ClearVisited (length ?bs * 2)
      (ts_used_bytes ?s t - low_mark n t) (?s, ?bs, (if length ?bs \<le> ?hand then 0 else ?hand), 0, []) =
      (nd_store n', bs', hand', pr_bytes_freed r, evicted)"
    using pass_sweeps [OF assms(1-5) _ assms(7)] False by (metis not_le)
  have resident: "bm_id b \<in> dom (tier_probe ?s t)" if "b \<in> set ?bs" for b
    using ts_Snapshot_meta [OF inv ord, of t] that by (auto simp: snapshot_of_def)
  have vis: "(\<forall>b\<in>set ?bs. bm_visited b) \<or> (\<forall>b\<in>set ?bs. \<not> bm_visited b)"
    using assms(6)
  proof
    assume "dom (tier_probe ?s t) \<subseteq> ts_visited ?s"
    then show ?thesis using resident by (intro disjI1 ballI) (simp add: ts_Snapshot_visited subset_iff)
  next
    assume "dom (tier_probe ?s t) \<inter> ts_visited ?s = {}"
    then show ?thesis using resident by (intro disjI2 ballI) (simp add: ts_Snapshot_visited disjoint_iff)
  qed
  have "(if length ?bs \<le> ?hand then 0 else ?hand) \<le> length ?bs" by simp
  from sieve.sweep_uniform [OF assms(2) this diff_le_self snap(1,2,4) vis loop] show ?thesis using False by auto
qed

theorem RunPassForTier_drains_witness:
  "\<exists>r msgs n'. RunPassForTier sample_env (sample_evict sample_full) HBM = (r, msgs, n') \<and>
     ts_used_bytes (nd_store n') HBM \<le> 6 \<and> pr_bytes_freed r + ts_used_bytes (nd_store n') HBM = 8"
proof -
  obtain r msgs n' where run: "RunPassForTier sample_env (sample_evict sample_full) HBM = (r, msgs, n')" by (metis prod_cases3)
  have n: "nd_store (sample_evict sample_full) = ts_run (sample_store 8 8) sample_full"
    "ev_cfg (nd_evictor (sample_evict sample_full)) = default_eviction"
    by (simp_all add: sample_evict_def evictor_new_def)
  have marks: "high_mark (sample_evict sample_full) HBM = 7" "low_mark (sample_evict sample_full) HBM = 6"
    by (simp_all add: high_mark_def low_mark_def n sample_full_store watermark_def size_mul_def default_eviction_def)
  have "if ts_used_bytes (nd_store (sample_evict sample_full)) HBM \<le> high_mark (sample_evict sample_full) HBM
      then n' = sample_evict sample_full \<and> r = empty_result \<and> msgs = []
      else ts_used_bytes (nd_store n') HBM \<le> low_mark (sample_evict sample_full) HBM \<and>
        pr_bytes_freed r + ts_used_bytes (nd_store n') HBM = ts_used_bytes (nd_store (sample_evict sample_full)) HBM"
    by (rule RunPassForTier_drains [OF sample_env_ok _ _ _ _ _ run])
      (simp_all add: n sample_full_single sample_full_store default_eviction_def card_insert_if)
  then show ?thesis using run by (simp add: marks n sample_full_store)
qed

text \<open>
  C35. No silent loss: a pass keeps the store's invariants, and whatever the visited bits and the
  copies, a block that the pass removes from the node's logical content is gone entirely and
  is named in the batch sent to every address the membership lists.
\<close>

theorem evictions_announced:
  assumes "ts_inv (nd_store n)" "coherent payload (nd_store n)" "books_ok (nd_store n)"
    and "ec_broadcast_evictions (ev_cfg (nd_evictor n))" "ev_membership (nd_evictor n)"
    and "RunPassForTier E n t = (r, msgs, n')"
  shows "ts_inv (nd_store n') \<and> coherent payload (nd_store n') \<and> books_ok (nd_store n') \<and>
    (\<forall>k. ts_content (nd_store n') k \<noteq> ts_content (nd_store n) k \<longrightarrow> ts_content (nd_store n') k = None \<and>
      (\<forall>a\<in>set (AllPeerAddresses (en_peer_order E) (nd_membership n)).
         \<exists>req. (a, req) \<in> set msgs \<and> k \<in> set (eb_evicted req)))"
  using RunPassForTier_keeps [OF assms(1-3,6)] RunPassForTier_content [OF assms(1,2,6,4,5)] by blast

theorem evictions_announced_witness:
  "\<exists>r msgs n' req. RunPassForTier sample_env (sample_evict sample_cold) DRAM = (r, msgs, n') \<and>
     ts_content (nd_store (sample_evict sample_cold)) (sample_id 1) \<noteq> None \<and>
     ts_content (nd_store n') (sample_id 1) = None \<and> (''h:1'', req) \<in> set msgs \<and> sample_id 1 \<in> set (eb_evicted req)"
proof -
  obtain r msgs n' where run: "RunPassForTier sample_env (sample_evict sample_cold) DRAM = (r, msgs, n')" by (metis prod_cases3)
  have n: "nd_store (sample_evict sample_cold) = ts_run (sample_store 8 8) sample_cold"
    "ev_cfg (nd_evictor (sample_evict sample_cold)) = default_eviction" "ev_membership (nd_evictor (sample_evict sample_cold))"
    by (simp_all add: sample_evict_def evictor_new_def)
  have "\<forall>x\<in>set sample_cold. op_ok (\<lambda>_. [1, 2, 3, 4, 5, 6, 7, 8]) x" by (simp add: sample_cold_def)
  note ok = sample_88_keeps [OF this]
  have before: "ts_content (nd_store (sample_evict sample_cold)) (sample_id 1) \<noteq> None"
    unfolding n(1) by (simp add: sample_cold_def sample_eval ts_content_def)
  have after: "ts_content (nd_store n') (sample_id 1) = None"
    using arg_cong [OF run, of "\<lambda>x. ts_content (nd_store (snd (snd x))) (sample_id 1)"]
    by (simp add: sample_eval sample_pass_eval sample_cold_def)
  have "''h:1'' \<in> set (AllPeerAddresses (en_peer_order sample_env) (nd_membership (sample_evict sample_cold)))"
    by (simp add: AllPeerAddresses_def sample_evict_def sample_member_def membership_new_def sample_env_def umap_iter_def
        umap_emplace_def default_peer_def)
  moreover have "ts_content (nd_store n') (sample_id 1) \<noteq> ts_content (nd_store (sample_evict sample_cold)) (sample_id 1)"
    using before after by metis
  moreover have "ec_broadcast_evictions (ev_cfg (nd_evictor (sample_evict sample_cold)))"
    by (simp add: n(2) default_eviction_def)
  ultimately obtain req where "(''h:1'', req) \<in> set msgs" "sample_id 1 \<in> set (eb_evicted req)"
    using evictions_announced [OF ok [folded n(1)] _ n(3) run] by blast
  then show ?thesis using run before after by blast
qed

text \<open>
  C36. The second lap of the sweep meets snapshot entries that the first lap has evicted.
  Take a pass over HBM, above its high watermark and without an SSD tier, whose hand stands at
  the only unvisited block, when that block alone does not free enough and DRAM has room for
  it.  The first lap demotes the block to DRAM and clears the other bits; the second lap finds
  the entry again and erases the copy in DRAM.  Whatever the other blocks and their sizes, the
  pass then reports its bytes twice: more than what left HBM, by exactly the size of that
  block; and the block is gone from the node.
\<close>

theorem sieve_second_lap_overcounts:
  assumes "en_ok E" "evict_inv HBM (nd_store n)" "coherent payload (nd_store n)"
    and "ec_low_watermark_pct (ev_cfg (nd_evictor n)) \<le> ec_high_watermark_pct (ev_cfg (nd_evictor n))"
    and "ts_capacity_bytes (nd_store n) HBM * ec_high_watermark_pct (ev_cfg (nd_evictor n)) < size_mod"
    and "card (dom (tier_probe (nd_store n) HBM)) * 2 < size_mod"
    and "high_mark n HBM < ts_used_bytes (nd_store n) HBM" "ts_capacity_bytes (nd_store n) SSD = 0"
    and "ts_Snapshot (en_block_order E) (nd_store n) HBM = bs"
    and "rotate (if length bs \<le> ev_hand (nd_evictor n) HBM then 0 else ev_hand (nd_evictor n) HBM) bs = c # hs"
    and "bm_id c \<notin> ts_visited (nd_store n)" "bm_id ` set hs \<subseteq> ts_visited (nd_store n)"
    and "bm_size_bytes c + low_mark n HBM < ts_used_bytes (nd_store n) HBM"
    and "ts_used_bytes (nd_store n) DRAM + bm_size_bytes c \<le> ts_capacity_bytes (nd_store n) DRAM"
    and "RunPassForTier E n HBM = (r, msgs, n')"
  shows "pr_bytes_freed r + ts_used_bytes (nd_store n') HBM = ts_used_bytes (nd_store n) HBM + bm_size_bytes c \<and>
    ts_content (nd_store n) (bm_id c) \<noteq> None \<and> ts_content (nd_store n') (bm_id c) = None"
proof -
  let ?s = "nd_store n" and ?need = "ts_used_bytes (nd_store n) HBM - low_mark n HBM"
  let ?hand = "if length bs \<le> ev_hand (nd_evictor n) HBM then 0 else ev_hand (nd_evictor n) HBM"
  have inv: "ts_inv ?s" and ord: "order_ok (en_block_order E)" using assms(1,2) by (auto simp: evict_inv_def en_ok_def)
  note snap = snapshot_sweepable [OF assms(2) ord, unfolded assms(9)]
  have set: "set bs = set (c # hs)" using assms(10) by (metis set_rotate)
  have vis: "\<not> bm_visited c" "\<forall>b\<in>set hs. bm_visited b"
    using assms(11,12) ts_Snapshot_visited [of _ "en_block_order E" ?s HBM, unfolded assms(9)] set by auto
  have ids: "distinct (map bm_id (c # hs))" "ts_used_bytes ?s HBM = sum_list (map bm_size_bytes (c # hs))"
    using snap(1,2) assms(10) by (metis distinct_rotate rotate_map, metis rotate_map sieve.sum_list_rotate)
  obtain bs' hand' evicted where loop: "sieve_loop (evict_one HBM) ts_ClearVisited (length bs * 2) ?need (?s, bs, ?hand, 0, []) =
      (nd_store n', bs', hand', pr_bytes_freed r, evicted)" and low: "low_mark n HBM < ts_used_bytes ?s HBM"
    using pass_sweeps [OF assms(1,2,4-7,15)] assms(9) by metis
  have cs: "tier_size HBM ?s (bm_id c) = Some (bm_size_bytes c)" using snap(4) set by simp
  obtain s1 s3 where e: "evict_one HBM ?s c = (bm_size_bytes c, s1)"
    "evict_one HBM (foldl (\<lambda>s b. ts_ClearVisited s (bm_id b)) s1 hs) c = (bm_size_bytes c, s3)"
    and s3: "evict_inv HBM s3" "tier_size HBM s3 = tier_size HBM s1" "ts_used_bytes s3 HBM = ts_used_bytes s1 HBM"
    "ts_content s3 (bm_id c) = None" "coherent payload s3"
    using evict_hbm_twice [OF assms(2,3) cs assms(14,8)] .
  have half: "ts_used_bytes ?s HBM * 2 \<le> size_mod"
    using inv by (auto simp: ts_inv_def ts_used_bytes_def opt_size_def bs_inv_def split: option.splits)
  have "?hand \<le> length bs" by simp
  from sieve.sweep_one_cold [OF assms(2) this assms(10) vis ids(1) _ ids(2) half _ diff_le_self e s3(1-3) loop]
  have lap: "pr_bytes_freed r + ts_used_bytes (nd_store n') HBM = ts_used_bytes ?s HBM + bm_size_bytes c"
    "\<exists>b0 h0 f0 v0. sieve_loop (evict_one HBM) ts_ClearVisited (length hs) ?need (s3, b0, h0, f0, v0) =
      (nd_store n', bs', hand', pr_bytes_freed r, evicted)"
    using snap(4) set assms(13) by auto
  obtain xs vs where "nd_store n' = ts_run s3 xs" "set xs \<subseteq> pass_ops (set vs)"
    using lap(2) sieve_loop_run by blast
  then have "ts_content (nd_store n') (bm_id c) = None"
    using pass_ops_content [OF _ s3(5), of xs "set vs" "bm_id c"] s3(1,4) by (auto simp: evict_inv_def)
  moreover have "ts_content ?s (bm_id c) \<noteq> None" using cs ts_content_dom [of ?s "bm_id c"] by (auto simp: tier_size_def)
  ultimately show ?thesis using lap(1) by blast
qed

theorem sieve_second_lap_overcounts_witness:
  "\<exists>r msgs n'. RunPassForTier sample_env (sample_evict (sample_full @ [TGet (sample_id 2)])) HBM = (r, msgs, n') \<and>
     pr_bytes_freed r + ts_used_bytes (nd_store n') HBM = 8 + 1 \<and> ts_content (nd_store n') (sample_id 1) = None"
proof -
  let ?xs = "sample_full @ [TGet (sample_id 2)]"
  let ?n = "sample_evict ?xs" and ?s = "ts_run (sample_store 8 8) ?xs"
  obtain r msgs n' where run: "RunPassForTier sample_env ?n HBM = (r, msgs, n')" by (metis prod_cases3)
  have n: "nd_store ?n = ?s" "nd_evictor ?n = evictor_new default_eviction ''a'' True" by (simp_all add: sample_evict_def)
  have probe: "tier_probe ?s HBM = [sample_id 1 \<mapsto> [7], sample_id 2 \<mapsto> [1, 2, 3, 4, 5, 6, 7]]"
    "tier_probe ?s DRAM = Map.empty" "tier_probe ?s SSD = Map.empty"
    by (auto simp: sample_full_def sample_eval fun_eq_iff)
  have keeps: "ts_inv ?s" "coherent sample_payload ?s"
    by (rule sample_88_keeps [where payload = sample_payload]; simp add: sample_full_def sample_payload_def)+
  have ei: "evict_inv HBM ?s"
    unfolding evict_inv_def single_copy_def
  proof (intro conjI allI impI keeps(1))
    fix k u assume "tier_probe ?s HBM k \<noteq> None \<and> u \<noteq> HBM"
    then show "tier_probe ?s u k = None" by (cases u) (simp_all add: probe)
  qed
  have sizes: "ts_used_bytes ?s HBM = 8" "ts_capacity_bytes ?s HBM = 8" "ts_capacity_bytes ?s SSD = 0"
    "ts_used_bytes ?s DRAM = 0" "ts_capacity_bytes ?s DRAM = 8" "ts_visited ?s = {sample_id 2}"
    by (simp_all add: sample_full_def sample_eval ts_used_bytes_def ts_capacity_bytes_def opt_size_def)
  define c where "c = hd (ts_Snapshot (en_block_order sample_env) ?s HBM)"
  define h where "h = hd (tl (ts_Snapshot (en_block_order sample_env) ?s HBM))"
  have snap: "ts_Snapshot (en_block_order sample_env) ?s HBM = [c, h]" "bm_id c = sample_id 1" "bm_id h = sample_id 2" "bm_size_bytes c = 1"
    by (simp_all add: c_def h_def sample_full_def sample_eval ts_Snapshot_def bs_Snapshot_def umap_iter_def sample_env_def)
  have marks: "high_mark ?n HBM = 7" "low_mark ?n HBM = 6"
    by (simp_all add: high_mark_def low_mark_def n sizes watermark_def size_mul_def evictor_new_def default_eviction_def)
  have "card (dom (tier_probe ?s HBM)) \<le> 2" unfolding probe by (simp add: card_insert_if)
  then show ?thesis
    using sieve_second_lap_overcounts [of sample_env ?n sample_payload "[c, h]" c "[h]" r msgs n', unfolded n(1), OF _ ei keeps(2)]
      run snap sizes marks sample_env_ok by (simp add: n(2) evictor_new_def default_eviction_def ev_hand_def)
qed

text \<open>
  The record of what peers evicted stays bounded: after any sequence of broadcasts of at most
  \<open>b\<close> blocks each, at most \<open>4096 + b\<close> blocks are remembered per peer; and the blocks of
  the broadcast just received are always among those remembered for its sender, while the other
  peers' records are left alone.
\<close>

theorem OnPeerEviction_bounded:
  assumes "\<forall>(evicted, peer)\<in>set batches. length evicted \<le> b"
  shows "peer_evicted_count_for_testing (receive_all (evictor_new cfg me m) batches) q \<le> kPerPeerBound + b \<and>
    (\<exists>s. ev_peer_evicted (receive_all (evictor_new cfg me m) (batches @ [(ids, p)])) p = Some s \<and> set ids \<subseteq> s) \<and>
    (q \<noteq> p \<longrightarrow> ev_peer_evicted (receive_all (evictor_new cfg me m) (batches @ [(ids, p)])) q =
      ev_peer_evicted (receive_all (evictor_new cfg me m) batches) q)"
proof -
  have bound: "\<forall>q. peer_evicted_count_for_testing (receive_all ev batches) q \<le> kPerPeerBound + b"
    if "\<forall>q. peer_evicted_count_for_testing ev q \<le> kPerPeerBound + b" for ev
    using that assms
  proof (induction batches arbitrary: ev)
    case (Cons x xs)
    obtain i r where x: "x = (i, r)" by force
    have "length i \<le> b" using Cons.prems(2) x by simp
    then have "\<forall>q. peer_evicted_count_for_testing (OnPeerEviction ev i r) q \<le> kPerPeerBound + b"
      using OnPeerEviction_count [OF Cons.prems(1)] by blast
    from Cons.IH [OF this] Cons.prems(2) show ?case by (simp add: receive_all_def x)
  qed (simp add: receive_all_def)
  have "peer_evicted_count_for_testing (evictor_new cfg me m) q = 0" for q
    by (simp add: peer_evicted_count_for_testing_def evictor_new_def)
  then show ?thesis using bound [of "evictor_new cfg me m"] by (simp add: receive_all_def OnPeerEviction_record)
qed

theorem OnPeerEviction_bounded_witness:
  "peer_evicted_count_for_testing (receive_all (evictor_new default_eviction ''a'' True) [([sample_id 1], ''b'')]) ''b'' \<le> kPerPeerBound + 1"
  using OnPeerEviction_bounded [of "[([sample_id 1], ''b'')]" 1 default_eviction "''a''" True "''b''"] by simp

end
