(* ===== verification/Transport.thy ===== *)
theory Transport
  imports Types
begin

text \<open>
  The wire messages that blocks travel in, the interface \<open>KvTransport\<close> of
  \<open>cache_server/include/lethe/kv_transport.hpp\<close> as a locale, and its gRPC implementation
  \<open>cache_server/src/grpc_stream_transport.cpp\<close>.  A remote call is a parameter: a function from
  the address dialled and the request to the reply, or to \<open>None\<close> when the call fails or
  misses its deadline.
\<close>

section \<open>Definitions\<close>

subsection \<open>Messages\<close>

record PbBlockId =
  pb_hash :: "byte list"
  pb_layer :: u32
  pb_head_group :: u32
  pb_model_id :: u32

definition BlockIdToProto :: "BlockId \<Rightarrow> PbBlockId" where
  "BlockIdToProto src =
     \<lparr>pb_hash = id_hash src, pb_layer = id_layer src, pb_head_group = id_head_group src,
      pb_model_id = id_model_id src\<rparr>"

definition BlockIdFromProto :: "PbBlockId \<Rightarrow> BlockId" where
  "BlockIdFromProto src =
     (let h = pb_hash src; n = min (length h) 32
      in \<lparr>id_hash = take n h @ replicate (32 - n) 0, id_layer = pb_layer src,
          id_head_group = pb_head_group src, id_model_id = pb_model_id src\<rparr>)"

record PbBlock =
  bl_id :: PbBlockId
  bl_kv_data :: "byte list"
  bl_tier_hint :: u32

record InsertRequest =
  ir_request_id :: string
  ir_source_node :: string
  ir_blocks :: "PbBlock list"

record InsertResponse =
  is_accepted_count :: u32
  is_rejected_count :: u32

record FetchRequest =
  fq_id :: PbBlockId
  fq_requesting_node :: string

record FetchResponse =
  fs_id :: PbBlockId
  fs_kv_data :: "byte list"
  fs_found :: bool
  fs_tier :: u32

type_synonym ('q, 'r) rpc = "string \<Rightarrow> 'q \<Rightarrow> 'r option"

definition tier_code :: "Tier \<Rightarrow> u32" where
  "tier_code t = word_of_nat (tier_rank t)"

subsection \<open>The gRPC transport\<close>

record GrpcStreamTransport =
  gt_peers :: "(string, string) umap"

definition grpc_new :: GrpcStreamTransport where
  "grpc_new = \<lparr>gt_peers = []\<rparr>"

definition stub_for :: "GrpcStreamTransport \<Rightarrow> string \<Rightarrow> string option" where
  "stub_for t peer_id = umap_find (gt_peers t) peer_id"

definition grpc_Shutdown :: "GrpcStreamTransport \<Rightarrow> GrpcStreamTransport" where
  "grpc_Shutdown t = t\<lparr>gt_peers := []\<rparr>"

definition grpc_Connect :: "GrpcStreamTransport \<Rightarrow> string \<Rightarrow> string \<Rightarrow> GrpcStreamTransport" where
  "grpc_Connect t peer_id address =
     (case umap_find (gt_peers t) peer_id of
        Some _ \<Rightarrow> t
      | None \<Rightarrow> t\<lparr>gt_peers := umap_emplace peer_id address (gt_peers t)\<rparr>)"

definition grpc_Disconnect :: "GrpcStreamTransport \<Rightarrow> string \<Rightarrow> GrpcStreamTransport" where
  "grpc_Disconnect t peer_id = t\<lparr>gt_peers := umap_erase peer_id (gt_peers t)\<rparr>"

definition push_request :: "BlockId \<Rightarrow> byte list \<Rightarrow> InsertRequest" where
  "push_request i d =
     \<lparr>ir_request_id = [], ir_source_node = [],
      ir_blocks = [\<lparr>bl_id = BlockIdToProto i, bl_kv_data = d, bl_tier_hint = tier_code DRAM\<rparr>]\<rparr>"

definition grpc_Send ::
  "(InsertRequest, InsertResponse) rpc \<Rightarrow> GrpcStreamTransport \<Rightarrow> string \<Rightarrow> BlockId \<Rightarrow> byte list \<Rightarrow> bool" where
  "grpc_Send insert_rpc t peer_id i d =
     (case stub_for t peer_id of
        None \<Rightarrow> False
      | Some address \<Rightarrow>
          (case insert_rpc address (push_request i d) of
             None \<Rightarrow> False
           | Some resp \<Rightarrow> is_accepted_count resp > 0))"

definition grpc_Fetch ::
  "(FetchRequest, FetchResponse) rpc \<Rightarrow> GrpcStreamTransport \<Rightarrow> string \<Rightarrow> BlockId \<Rightarrow> KvBlock option" where
  "grpc_Fetch fetch_rpc t peer_id i =
     (case stub_for t peer_id of
        None \<Rightarrow> None
      | Some address \<Rightarrow>
          (case fetch_rpc address \<lparr>fq_id = BlockIdToProto i, fq_requesting_node = ''lethe-fetch''\<rparr> of
             None \<Rightarrow> None
           | Some resp \<Rightarrow>
               if \<not> fs_found resp then None
               else Some \<lparr>kv_id = BlockIdFromProto (fs_id resp), kv_data = fs_kv_data resp, kv_tier = DRAM,
                          kv_inserted_epoch = 0\<rparr>))"

section \<open>The interface\<close>

text \<open>
  What the replicator relies on, whichever transport is plugged in: connecting is idempotent and
  affects one peer, a fetch reaches connected peers only, and what it returns is what a
  peer answered.
\<close>

locale kv_transport =
  fixes connected :: "'t \<Rightarrow> string \<Rightarrow> bool"
    and connect :: "'t \<Rightarrow> string \<Rightarrow> string \<Rightarrow> 't"
    and disconnect :: "'t \<Rightarrow> string \<Rightarrow> 't"
    and fetch :: "(FetchRequest, FetchResponse) rpc \<Rightarrow> 't \<Rightarrow> string \<Rightarrow> BlockId \<Rightarrow> KvBlock option"
  assumes connect_connected: "connected (connect t p a) q \<longleftrightarrow> q = p \<or> connected t q"
    and connect_again: "connected t p \<Longrightarrow> connect t p a = t"
    and disconnect_connected: "connected (disconnect t p) q \<longleftrightarrow> q \<noteq> p \<and> connected t q"
    and fetch_unconnected: "\<not> connected t p \<Longrightarrow> fetch rpc t p i = None"
    and fetch_answer: "fetch rpc t p i = Some b \<Longrightarrow>
      \<exists>a resp. rpc a \<lparr>fq_id = BlockIdToProto i, fq_requesting_node = ''lethe-fetch''\<rparr> = Some resp \<and> fs_found resp \<and>
        kv_id b = BlockIdFromProto (fs_id resp) \<and> kv_data b = fs_kv_data resp"
begin

lemma connect_all_connected:
  "connected (foldl (\<lambda>t (p, a). connect t p a) t ps) q \<longleftrightarrow> q \<in> fst ` set ps \<or> connected t q"
  by (induction ps arbitrary: t) (auto simp: connect_connected)

lemma connect_idem: "connect (connect t p a) p b = connect t p a"
  by (rule connect_again) (simp add: connect_connected)

text \<open>A fetch from peers that serve only what a payload function prescribes returns such a block.\<close>

lemma fetch_served:
  assumes "\<And>a q resp. rpc a q = Some resp \<Longrightarrow> fs_found resp \<Longrightarrow>
      fs_id resp = fq_id q \<and> fs_kv_data resp = payload (BlockIdFromProto (fq_id q))"
    and "fetch rpc t p i = Some b" "BlockIdFromProto (BlockIdToProto i) = i"
  shows "connected t p" "kv_id b = i" "kv_data b = payload i"
proof -
  show "connected t p" using fetch_unconnected [of t p rpc i] assms(2) by auto
  obtain a resp where r: "rpc a \<lparr>fq_id = BlockIdToProto i, fq_requesting_node = ''lethe-fetch''\<rparr> = Some resp" "fs_found resp"
    "kv_id b = BlockIdFromProto (fs_id resp)" "kv_data b = fs_kv_data resp"
    using fetch_answer [OF assms(2)] by blast
  show "kv_id b = i" "kv_data b = payload i" using assms(1) [OF r(1,2)] r(3,4) assms(3) by simp_all
qed

end

section \<open>Lemmas\<close>

lemma BlockIdFromProto_ok [simp]: "id_ok (BlockIdFromProto p)"
  by (simp add: BlockIdFromProto_def id_ok_def Let_def min_def)

lemma BlockId_proto_inverse: "id_ok i \<Longrightarrow> BlockIdFromProto (BlockIdToProto i) = i"
  by (simp add: BlockIdFromProto_def BlockIdToProto_def id_ok_def Let_def)

interpretation grpc: kv_transport "\<lambda>t p. stub_for t p \<noteq> None" grpc_Connect grpc_Disconnect grpc_Fetch
proof
  fix t p a q rpc i b
  show "(stub_for (grpc_Connect t p a) q \<noteq> None) = (q = p \<or> stub_for t q \<noteq> None)"
    by (auto simp: stub_for_def grpc_Connect_def umap_simps split: option.splits)
  show "stub_for t p \<noteq> None \<Longrightarrow> grpc_Connect t p a = t"
    by (auto simp: stub_for_def grpc_Connect_def)
  show "(stub_for (grpc_Disconnect t p) q \<noteq> None) = (q \<noteq> p \<and> stub_for t q \<noteq> None)"
    by (auto simp: stub_for_def grpc_Disconnect_def umap_simps)
  show "\<not> stub_for t p \<noteq> None \<Longrightarrow> grpc_Fetch rpc t p i = None" by (simp add: grpc_Fetch_def)
  show "grpc_Fetch rpc t p i = Some b \<Longrightarrow>
      \<exists>a resp. rpc a \<lparr>fq_id = BlockIdToProto i, fq_requesting_node = ''lethe-fetch''\<rparr> = Some resp \<and> fs_found resp \<and>
        kv_id b = BlockIdFromProto (fs_id resp) \<and> kv_data b = fs_kv_data resp"
    by (fastforce simp: grpc_Fetch_def split: option.splits if_splits)
qed

end
