(* ===== verification/Rdma.thy ===== *)
theory Rdma
  imports Transport Std_String Ssd_Layout
begin

text \<open>
  The InfiniBand transport of \<open>cache_server/src/ibverbs_transport.cpp\<close>: the wire header and the
  framing of a push, the ring of registered send buffers with its in-flight table, lazy
  dialling, and the parser of the peer list in the environment.  The verbs library is a
  parameter: whether a dial succeeds, whether a post succeeds, which completions are polled,
  and what the other threads do to a connection while a sender waits for a buffer.  The
  future of a send is a number that is resolved at most once.
\<close>

section \<open>Definitions\<close>

abbreviation kMagic :: u32 where
  "kMagic \<equiv> 0x4C455448"

abbreviation kMsgBlockPush :: u32 where
  "kMsgBlockPush \<equiv> 1"

abbreviation kMaxSendBuffers :: nat where
  "kMaxSendBuffers \<equiv> 8"

abbreviation kDefaultMsgBytes :: size_t where
  "kDefaultMsgBytes \<equiv> 2 ^ 20"

abbreviation kHeaderBytes :: size_t where
  "kHeaderBytes \<equiv> 60"

subsection \<open>Framing\<close>

record MsgHeader =
  mh_magic :: u32
  mh_type :: u32
  mh_purpose :: u32
  mh_payload_len :: u32
  mh_hash :: "byte list"
  mh_layer :: u32
  mh_head_group :: u32
  mh_model_id :: u32

definition encode_msg_header :: "MsgHeader \<Rightarrow> byte list" where
  "encode_msg_header h =
     nat_to_le 4 (unat (mh_magic h)) @ nat_to_le 4 (unat (mh_type h)) @ nat_to_le 4 (unat (mh_purpose h)) @
     nat_to_le 4 (unat (mh_payload_len h)) @ mh_hash h @ nat_to_le 4 (unat (mh_layer h)) @
     nat_to_le 4 (unat (mh_head_group h)) @ nat_to_le 4 (unat (mh_model_id h))"

definition decode_msg_header :: "byte list \<Rightarrow> MsgHeader" where
  "decode_msg_header bs =
     \<lparr>mh_magic = word_of_nat (le_to_nat (field 0 4 bs)), mh_type = word_of_nat (le_to_nat (field 4 4 bs)),
      mh_purpose = word_of_nat (le_to_nat (field 8 4 bs)), mh_payload_len = word_of_nat (le_to_nat (field 12 4 bs)),
      mh_hash = field 16 32 bs, mh_layer = word_of_nat (le_to_nat (field 48 4 bs)),
      mh_head_group = word_of_nat (le_to_nat (field 52 4 bs)), mh_model_id = word_of_nat (le_to_nat (field 56 4 bs))\<rparr>"

definition purpose_code :: "StreamPurpose \<Rightarrow> nat" where
  "purpose_code p = (case p of ReplicationPush \<Rightarrow> 0 | ReadRepair \<Rightarrow> 1 | Promotion \<Rightarrow> 2)"

text \<open>The registered buffer after a sender has filled it, and the bytes that the post covers.\<close>

definition push_header :: "BlockId \<Rightarrow> StreamPurpose \<Rightarrow> byte list \<Rightarrow> MsgHeader" where
  "push_header i purpose d =
     \<lparr>mh_magic = kMagic, mh_type = kMsgBlockPush, mh_purpose = word_of_nat (purpose_code purpose),
      mh_payload_len = word_of_nat (length d), mh_hash = id_hash i, mh_layer = id_layer i,
      mh_head_group = id_head_group i, mh_model_id = id_model_id i\<rparr>"

definition fill_buffer :: "BlockId \<Rightarrow> StreamPurpose \<Rightarrow> byte list \<Rightarrow> byte list \<Rightarrow> byte list" where
  "fill_buffer i purpose d mem =
     encode_msg_header (push_header i purpose d) @ d @ drop (kHeaderBytes + length d) mem"

definition posted_bytes :: "byte list \<Rightarrow> byte list \<Rightarrow> byte list" where
  "posted_bytes d mem = take (unat (word_of_nat (kHeaderBytes + length d) :: u32)) mem"

text \<open>
  \<open>HandleRecv\<close> on a receive buffer and the byte count of its completion: \<open>None\<close> when the message is
  dropped, else the arguments of \<open>on_receive\<close>.  The purpose is an unchecked byte.
\<close>

definition HandleRecv :: "byte list \<Rightarrow> u32 \<Rightarrow> (BlockId \<times> byte list \<times> byte) option" where
  "HandleRecv mem byte_len =
     (if unat byte_len < kHeaderBytes then None
      else
        let h = decode_msg_header mem
        in if mh_magic h \<noteq> kMagic \<or> mh_type h \<noteq> kMsgBlockPush then None
           else if kHeaderBytes + unat (mh_payload_len h) > unat byte_len then None
           else Some (\<lparr>id_hash = mh_hash h, id_layer = mh_layer h, id_head_group = mh_head_group h,
                       id_model_id = mh_model_id h\<rparr>,
                      take (unat (mh_payload_len h)) (drop kHeaderBytes mem), ucast (mh_purpose h)))"

text \<open>A message landing in a posted receive buffer overwrites its front.\<close>

definition land_in :: "byte list \<Rightarrow> byte list \<Rightarrow> byte list" where
  "land_in recv msg = msg @ drop (length msg) recv"

subsection \<open>The send ring\<close>

record Conn =
  cn_send_bufs :: "byte list list"
  cn_free_send :: "nat list"
  cn_pending :: "(u64, nat) umap"
  cn_next_wr :: u64

definition new_conn :: "size_t \<Rightarrow> Conn" where
  "new_conn msg_cap =
     \<lparr>cn_send_bufs = replicate kMaxSendBuffers (replicate msg_cap 0), cn_free_send = [0..<kMaxSendBuffers],
      cn_pending = [], cn_next_wr = 1\<rparr>"

definition umap_assign :: "'k \<Rightarrow> 'v \<Rightarrow> ('k, 'v) umap \<Rightarrow> ('k, 'v) umap" where
  "umap_assign k v m = umap_modify k (\<lambda>_. v) (umap_emplace k v m)"

definition make_wr :: "u64 \<Rightarrow> nat \<Rightarrow> u64" where
  "make_wr next_wr buf_idx = push_bit 16 next_wr OR (word_of_nat buf_idx AND 0xffff)"

definition wr_buf :: "u64 \<Rightarrow> nat" where
  "wr_buf wr = unat (wr AND 0xffff)"

definition try_acquire :: "nat \<Rightarrow> Conn \<Rightarrow> (nat \<times> u64) option \<times> Conn" where
  "try_acquire pr c =
     (if cn_free_send c = [] then (None, c)
      else
        let buf_idx = last (cn_free_send c);
            wr_id = make_wr (cn_next_wr c) buf_idx
        in (Some (buf_idx, wr_id),
            c\<lparr>cn_free_send := butlast (cn_free_send c), cn_next_wr := cn_next_wr c + 1,
              cn_pending := umap_assign wr_id pr (cn_pending c)\<rparr>))"

fun acquire_loop :: "(nat \<Rightarrow> Conn \<Rightarrow> Conn) \<Rightarrow> nat \<Rightarrow> nat \<Rightarrow> Conn \<Rightarrow> (nat \<times> u64) option \<times> Conn" where
  "acquire_loop others pr 0 c = (None, c)"
| "acquire_loop others pr (Suc attempts) c =
     (case try_acquire pr c of
        (Some got, c1) \<Rightarrow> (Some got, c1)
      | (None, c1) \<Rightarrow> acquire_loop others pr attempts (others attempts c1))"

definition release :: "u64 \<Rightarrow> nat \<Rightarrow> Conn \<Rightarrow> Conn" where
  "release wr buf_idx c =
     c\<lparr>cn_pending := umap_erase wr (cn_pending c), cn_free_send := cn_free_send c @ [buf_idx]\<rparr>"

text \<open>One send completion of \<open>PollOutbound\<close>; the promise it resolves, if any.\<close>

definition complete_send :: "u64 \<Rightarrow> Conn \<Rightarrow> nat option \<times> Conn" where
  "complete_send wr c =
     (case umap_find (cn_pending c) wr of
        None \<Rightarrow> (None, c)
      | Some pr \<Rightarrow> (Some pr, release wr (wr_buf wr) c))"

subsection \<open>The transport\<close>

record IbverbsTransport =
  ib_listen_ip :: string
  ib_listen_port :: u16
  ib_msg_bytes :: size_t
  ib_peers :: "(string, string \<times> u16) umap"
  ib_grpc_fallback :: GrpcStreamTransport
  ib_outbound :: "(string, Conn) umap"
  ib_stop :: bool
  ib_n_posted :: u64
  ib_n_done_ok :: u64
  ib_n_done_err :: u64
  ib_n_drop_noconn :: u64
  ib_n_drop_bp :: u64
  ib_n_recv :: u64

definition parse_token :: "string \<Rightarrow> (string, string \<times> u16) umap \<Rightarrow> (string, string \<times> u16) umap option" where
  "parse_token tok out =
     (case (find_char CHR ''@'' tok, rfind_char CHR '':'' tok) of
        (Some at, Some colon) \<Rightarrow>
          if colon > at then
            (case stoi (drop (colon + 1) tok) of
               None \<Rightarrow> None
             | Some port \<Rightarrow>
                 Some (umap_assign (take at tok) (take (colon - at - 1) (drop (at + 1) tok), word_of_int port) out))
          else Some out
      | _ \<Rightarrow> Some out)"

function parse_env_loop ::
  "string \<Rightarrow> nat \<Rightarrow> (string, string \<times> u16) umap \<Rightarrow> (string, string \<times> u16) umap option" where
  "parse_env_loop s i out =
     (if i < length s then
        case find_from CHR '','' s i of
          None \<Rightarrow> parse_token (drop i s) out
        | Some comma \<Rightarrow>
            (case parse_token (take (comma - i) (drop i s)) out of
               None \<Rightarrow> None
             | Some out1 \<Rightarrow> parse_env_loop s (comma + 1) out1)
      else Some out)"
  by pat_completeness auto
termination
  by (relation "measure (\<lambda>(s, i, out). length s - i)") (auto simp: find_from_def)

definition ParsePeerEnv :: "string option \<Rightarrow> (string, string \<times> u16) umap option" where
  "ParsePeerEnv raw = (case raw of None \<Rightarrow> Some [] | Some s \<Rightarrow> parse_env_loop s 0 [])"

definition parse_listen :: "string option \<Rightarrow> (string \<times> u16) option" where
  "parse_listen raw =
     (case raw of
        None \<Rightarrow> Some ([], 0)
      | Some s \<Rightarrow>
          (case rfind_char CHR '':'' s of
             None \<Rightarrow> Some ([], 0)
           | Some colon \<Rightarrow>
               (case stoi (drop (colon + 1) s) of
                  None \<Rightarrow> None
                | Some port \<Rightarrow> Some (take colon s, word_of_int port))))"

text \<open>The constructor, from the values of the three environment variables; \<open>None\<close> is an exception of \<open>stoi\<close>.\<close>

definition ib_new :: "string option \<Rightarrow> string option \<Rightarrow> string option \<Rightarrow> IbverbsTransport option" where
  "ib_new listen peers msg_bytes =
     (case parse_listen listen of
        None \<Rightarrow> None
      | Some (ip, port) \<Rightarrow>
          (case ParsePeerEnv peers of
             None \<Rightarrow> None
           | Some out \<Rightarrow>
               Some \<lparr>ib_listen_ip = ip, ib_listen_port = port,
                     ib_msg_bytes =
                       (case msg_bytes of
                          None \<Rightarrow> kDefaultMsgBytes
                        | Some m \<Rightarrow> if strtoull m \<noteq> 0 then unat (strtoull m) else kDefaultMsgBytes),
                     ib_peers = out, ib_grpc_fallback = grpc_new, ib_outbound = [], ib_stop = False,
                     ib_n_posted = 0, ib_n_done_ok = 0, ib_n_done_err = 0, ib_n_drop_noconn = 0,
                     ib_n_drop_bp = 0, ib_n_recv = 0\<rparr>))"

definition MsgCap :: "IbverbsTransport \<Rightarrow> size_t" where
  "MsgCap t = size_add kHeaderBytes (ib_msg_bytes t)"

definition EnsureOutbound ::
  "(string \<Rightarrow> string \<Rightarrow> u16 \<Rightarrow> bool) \<Rightarrow> IbverbsTransport \<Rightarrow> string \<Rightarrow> Conn option \<times> IbverbsTransport" where
  "EnsureOutbound dial t peer_id =
     (case umap_find (ib_outbound t) peer_id of
        Some c \<Rightarrow> (Some c, t)
      | None \<Rightarrow>
          (case umap_find (ib_peers t) peer_id of
             None \<Rightarrow> (None, t)
           | Some (ip, port) \<Rightarrow>
               if \<not> dial peer_id ip port then (None, t)
               else
                 let c = new_conn (MsgCap t)
                 in (Some c, t\<lparr>ib_outbound := umap_emplace peer_id c (ib_outbound t)\<rparr>)))"

text \<open>
  \<open>Send\<close> with the promise \<open>pr\<close>.  The first component is the value the promise has on return
  (\<open>None\<close> while it is pending), the second the work request and the bytes posted.
\<close>

definition ib_Send ::
  "(string \<Rightarrow> string \<Rightarrow> u16 \<Rightarrow> bool) \<Rightarrow> (nat \<Rightarrow> Conn \<Rightarrow> Conn) \<Rightarrow> bool \<Rightarrow> nat \<Rightarrow> IbverbsTransport \<Rightarrow>
   string \<Rightarrow> BlockId \<Rightarrow> StreamPurpose \<Rightarrow> byte list \<Rightarrow> bool option \<times> (u64 \<times> byte list) option \<times> IbverbsTransport" where
  "ib_Send dial others post_ok pr t peer_id i purpose d =
     (if kHeaderBytes + length d > MsgCap t then (Some False, None, t)
      else
        case EnsureOutbound dial t peer_id of
          (None, t1) \<Rightarrow> (Some False, None, t1\<lparr>ib_n_drop_noconn := ib_n_drop_noconn t1 + 1\<rparr>)
        | (Some c, t1) \<Rightarrow>
            let store = (\<lambda>c'. t1\<lparr>ib_outbound := umap_modify peer_id (\<lambda>_. c') (ib_outbound t1)\<rparr>)
            in case acquire_loop others pr 2000 c of
                 (None, c1) \<Rightarrow> (Some False, None, (store c1)\<lparr>ib_n_drop_bp := ib_n_drop_bp t1 + 1\<rparr>)
               | (Some (buf_idx, wr_id), c1) \<Rightarrow>
                   let mem = fill_buffer i purpose d (cn_send_bufs c1 ! buf_idx);
                       c2 = c1\<lparr>cn_send_bufs := (cn_send_bufs c1)[buf_idx := mem]\<rparr>
                   in if post_ok
                      then (None, Some (wr_id, posted_bytes d mem), (store c2)\<lparr>ib_n_posted := ib_n_posted t1 + 1\<rparr>)
                      else (Some False, None, store (release wr_id buf_idx c2)))"

definition ib_Connect :: "IbverbsTransport \<Rightarrow> string \<Rightarrow> string \<Rightarrow> IbverbsTransport" where
  "ib_Connect t peer_id address = t\<lparr>ib_grpc_fallback := grpc_Connect (ib_grpc_fallback t) peer_id address\<rparr>"

definition ib_Disconnect :: "IbverbsTransport \<Rightarrow> string \<Rightarrow> IbverbsTransport" where
  "ib_Disconnect t peer_id =
     t\<lparr>ib_grpc_fallback := grpc_Disconnect (ib_grpc_fallback t) peer_id,
       ib_outbound := umap_erase peer_id (ib_outbound t)\<rparr>"

definition ib_Shutdown :: "IbverbsTransport \<Rightarrow> IbverbsTransport" where
  "ib_Shutdown t =
     (if ib_stop t then t
      else t\<lparr>ib_stop := True, ib_outbound := [], ib_grpc_fallback := grpc_Shutdown (ib_grpc_fallback t)\<rparr>)"

definition ib_Fetch ::
  "(FetchRequest, FetchResponse) rpc \<Rightarrow> IbverbsTransport \<Rightarrow> string \<Rightarrow> BlockId \<Rightarrow> KvBlock option" where
  "ib_Fetch fetch_rpc t peer_id i = grpc_Fetch fetch_rpc (ib_grpc_fallback t) peer_id i"

text \<open>
  The life of a connection's ring: senders acquire buffers for fresh promises, failed posts and
  completions give them back.  The state carries the promises resolved so far and the next
  fresh one.
\<close>

inductive ring_step :: "Conn \<times> nat list \<times> nat \<Rightarrow> Conn \<times> nat list \<times> nat \<Rightarrow> bool" where
  acquire: "try_acquire fresh c = (Some (b, wr), c1) \<Longrightarrow> ring_step (c, resolved, fresh) (c1, resolved, Suc fresh)"
| fill: "ring_step (c, resolved, fresh) (c\<lparr>cn_send_bufs := bufs\<rparr>, resolved, fresh)"
| post_failed: "umap_find (cn_pending c) wr = Some pr \<Longrightarrow>
    ring_step (c, resolved, fresh) (release wr (wr_buf wr) c, pr # resolved, fresh)"
| completion: "complete_send wr c = (Some pr, c1) \<Longrightarrow> ring_step (c, resolved, fresh) (c1, pr # resolved, fresh)"
| stray: "complete_send wr c = (None, c1) \<Longrightarrow> ring_step (c, resolved, fresh) (c1, resolved, fresh)"

text \<open>
  The invariant of the ring: every buffer is free or named by exactly one in-flight request, and
  every promise is fresh, in flight or resolved, once.
\<close>

definition ring_inv :: "Conn \<Rightarrow> bool" where
  "ring_inv c \<longleftrightarrow>
     umap_ok (cn_pending c) \<and> distinct (cn_free_send c @ map (\<lambda>p. wr_buf (fst p)) (cn_pending c)) \<and>
     set (cn_free_send c @ map (\<lambda>p. wr_buf (fst p)) (cn_pending c)) = {0..<kMaxSendBuffers}"

definition promises_ok :: "Conn \<times> nat list \<times> nat \<Rightarrow> bool" where
  "promises_ok = (\<lambda>(c, resolved, fresh).
     distinct (map snd (cn_pending c) @ resolved) \<and> set (map snd (cn_pending c) @ resolved) = {0..<fresh})"

text \<open>The tokens of the peer list one after the other; how an endpoint is printed; a transport for concrete runs.\<close>

primrec parse_items :: "string list \<Rightarrow> (string, string \<times> u16) umap \<Rightarrow> (string, string \<times> u16) umap option" where
  "parse_items [] out = Some out"
| "parse_items (tok # toks) out =
     (case parse_token tok out of None \<Rightarrow> None | Some out1 \<Rightarrow> parse_items toks out1)"

definition print_endpoint :: "string \<times> string \<times> u16 \<Rightarrow> string" where
  "print_endpoint = (\<lambda>(peer, ip, port). peer @ CHR ''@'' # ip @ CHR '':'' # to_string (unat port))"

definition sample_rdma :: IbverbsTransport where
  "sample_rdma = \<lparr>ib_listen_ip = [], ib_listen_port = 0, ib_msg_bytes = 16,
     ib_peers = [(''b'', ''10.0.0.2'', 7000)], ib_grpc_fallback = grpc_new, ib_outbound = [], ib_stop = False,
     ib_n_posted = 0, ib_n_done_ok = 0, ib_n_done_err = 0, ib_n_drop_noconn = 0, ib_n_drop_bp = 0, ib_n_recv = 0\<rparr>"

section \<open>Lemmas\<close>

subsection \<open>Framing\<close>

lemma length_encode_msg_header: "length (mh_hash h) = 32 \<Longrightarrow> length (encode_msg_header h) = kHeaderBytes"
  by (simp add: encode_msg_header_def)

lemma decode_encode_msg_header:
  "length (mh_hash h) = 32 \<Longrightarrow> decode_msg_header (encode_msg_header h @ rest) = h"
  by (cases h) (simp add: decode_msg_header_def encode_msg_header_def field_append field_here)

lemma u32_of_nat: "n < 2 ^ 32 \<Longrightarrow> unat (word_of_nat n :: u32) = n"
  by (simp add: unsigned_of_nat take_bit_nat_eq_self)

lemma frame_received:
  assumes "id_ok i" "kHeaderBytes + length d < 2 ^ 32"
  shows "HandleRecv (land_in recv (posted_bytes d (fill_buffer i purpose d mem))) (word_of_nat (kHeaderBytes + length d)) =
    Some (i, d, word_of_nat (purpose_code purpose))"
proof -
  let ?h = "push_header i purpose d"
  have hash: "length (mh_hash ?h) = 32" using assms(1) by (simp add: push_header_def id_ok_def)
  have len: "unat (word_of_nat (kHeaderBytes + length d) :: u32) = kHeaderBytes + length d"
    using assms(2) by (intro u32_of_nat) simp
  have dlen: "unat (word_of_nat (length d) :: u32) = length d" using assms(2) by (intro u32_of_nat) simp
  have "posted_bytes d (fill_buffer i purpose d mem) = encode_msg_header ?h @ d"
    unfolding posted_bytes_def fill_buffer_def len by (simp add: length_encode_msg_header [OF hash])
  then have mem: "land_in recv (posted_bytes d (fill_buffer i purpose d mem)) =
      encode_msg_header ?h @ d @ drop (kHeaderBytes + length d) recv"
    by (simp add: land_in_def length_encode_msg_header [OF hash])
  have purpose: "ucast (word_of_nat (purpose_code purpose) :: u32) = (word_of_nat (purpose_code purpose) :: byte)"
    by (cases purpose) (simp_all add: purpose_code_def)
  have drop: "drop kHeaderBytes (encode_msg_header ?h @ rest) = rest" for rest
    using length_encode_msg_header [OF hash] by simp
  show ?thesis
    unfolding HandleRecv_def mem decode_encode_msg_header [OF hash] len drop
    by (simp add: push_header_def dlen purpose Let_def)
qed

subsection \<open>The send ring\<close>

lemma and_ffff: "(x :: u64) AND 0xffff = take_bit 16 x"
  by (simp add: take_bit_eq_mask mask_eq_exp_minus_1)

lemma wr_buf_make: "b < 2 ^ 16 \<Longrightarrow> wr_buf (make_wr n b) = b"
proof -
  assume b: "b < 2 ^ 16"
  have "take_bit 16 (push_bit 16 n OR take_bit 16 (word_of_nat b)) = take_bit 16 (word_of_nat b :: u64)"
    by (simp add: take_bit_or take_bit_push_bit)
  then show ?thesis
    using b unfolding wr_buf_def make_wr_def and_ffff
    by (simp add: unsigned_take_bit_eq unat_of_nat take_bit_nat_eq_self)
qed

lemma umap_assign_new: "umap_find m k = None \<Longrightarrow> umap_assign k v m = m @ [(k, v)]"
proof -
  assume k: "umap_find m k = None"
  then have "map (\<lambda>p. if fst p = k then (fst p, v) else p) m = m" by (intro map_idI) (auto simp: umap_find_None)
  then show ?thesis using k by (simp add: umap_assign_def umap_emplace_def umap_modify_def)
qed

lemma try_acquire_cases:
  assumes "ring_inv c" "try_acquire pr c = (Some (b, wr), c1)"
  obtains fs where "cn_free_send c = fs @ [b]" "wr_buf wr = b" "umap_find (cn_pending c) wr = None" "b < kMaxSendBuffers"
    "c1 = c\<lparr>cn_free_send := fs, cn_next_wr := cn_next_wr c + 1, cn_pending := cn_pending c @ [(wr, pr)]\<rparr>"
proof -
  have ne: "cn_free_send c \<noteq> []" using assms(2) by (auto simp: try_acquire_def)
  have b: "b = last (cn_free_send c)" "wr = make_wr (cn_next_wr c) b"
    using assms(2) ne by (auto simp: try_acquire_def Let_def)
  define fs where "fs = butlast (cn_free_send c)"
  have fs: "cn_free_send c = fs @ [b]" using ne b(1) by (simp add: fs_def)
  have "b \<in> {0..<kMaxSendBuffers}" using assms(1) fs unfolding ring_inv_def by auto
  then have lt: "b < kMaxSendBuffers" by simp
  have wr: "wr_buf wr = b" using wr_buf_make [of b] lt b(2) by simp
  have new: "umap_find (cn_pending c) wr = None"
  proof (rule ccontr)
    assume "umap_find (cn_pending c) wr \<noteq> None"
    then have "b \<in> (\<lambda>p. wr_buf (fst p)) ` set (cn_pending c)" using wr by (auto simp: umap_find_None)
    then show False using assms(1) fs unfolding ring_inv_def by auto
  qed
  show ?thesis
    by (rule that [OF fs wr new lt]) (use assms(2) ne b umap_assign_new [OF new, of pr] in \<open>simp add: try_acquire_def Let_def fs_def\<close>)
qed

lemma complete_send_cases:
  assumes "complete_send wr c = (Some pr, c1)"
  shows "umap_find (cn_pending c) wr = Some pr" "c1 = release wr (wr_buf wr) c"
  using assms by (auto simp: complete_send_def split: option.splits)

lemma pending_split:
  assumes "umap_ok m" "umap_find m k = Some v"
  obtains xs ys where "m = xs @ (k, v) # ys" "umap_erase k m = xs @ ys"
proof -
  have "(k, v) \<in> set m" using assms(2) by (rule map_of_SomeD)
  then obtain xs ys where m: "m = xs @ (k, v) # ys" by (auto simp: in_set_conv_decomp)
  then have "k \<notin> fst ` set xs" "k \<notin> fst ` set ys" using assms(1) by (auto simp: umap_ok_def)
  then have "filter (\<lambda>p. fst p \<noteq> k) xs = xs" "filter (\<lambda>p. fst p \<noteq> k) ys = ys" by (force intro: filter_True)+
  then have "umap_erase k m = xs @ ys" unfolding m umap_erase_def by simp
  then show thesis using that m by blast
qed

lemma ring_inv_release:
  assumes "ring_inv c" "umap_find (cn_pending c) wr = Some pr"
  shows "ring_inv (release wr (wr_buf wr) c)"
proof -
  have "umap_ok (cn_pending c)" using assms(1) by (simp add: ring_inv_def)
  then obtain xs ys where s: "cn_pending c = xs @ (wr, pr) # ys" "umap_erase wr (cn_pending c) = xs @ ys"
    using assms(2) by (rule pending_split)
  have "umap_ok (xs @ ys)" using \<open>umap_ok (cn_pending c)\<close> s(1) by (auto simp: umap_ok_def)
  moreover have "release wr (wr_buf wr) c = c\<lparr>cn_pending := xs @ ys, cn_free_send := cn_free_send c @ [wr_buf wr]\<rparr>"
    by (simp add: release_def s(2))
  ultimately show ?thesis using assms(1) unfolding ring_inv_def s(1) by auto
qed

lemma promises_ok_release:
  assumes "ring_inv c" "promises_ok (c, resolved, fresh)" "umap_find (cn_pending c) wr = Some pr"
  shows "promises_ok (release wr (wr_buf wr) c, pr # resolved, fresh)"
proof -
  have "umap_ok (cn_pending c)" using assms(1) by (simp add: ring_inv_def)
  then obtain xs ys where s: "cn_pending c = xs @ (wr, pr) # ys" "umap_erase wr (cn_pending c) = xs @ ys"
    using assms(3) by (rule pending_split)
  have "release wr (wr_buf wr) c = c\<lparr>cn_pending := xs @ ys, cn_free_send := cn_free_send c @ [wr_buf wr]\<rparr>"
    by (simp add: release_def s(2))
  then show ?thesis using assms(2) unfolding promises_ok_def by (auto simp: s(1))
qed

lemma ring_step_keeps:
  assumes "ring_step s s'" "ring_inv (fst s)" "promises_ok s"
  shows "ring_inv (fst s') \<and> promises_ok s'"
  using assms(1)
proof cases
  case (acquire fresh c b wr c1 resolved)
  have inv: "ring_inv c" using assms(2) acquire(1) by simp
  obtain fs where g: "cn_free_send c = fs @ [b]" "wr_buf wr = b" "umap_find (cn_pending c) wr = None" "b < kMaxSendBuffers"
    "c1 = c\<lparr>cn_free_send := fs, cn_next_wr := cn_next_wr c + 1, cn_pending := cn_pending c @ [(wr, fresh)]\<rparr>"
    using try_acquire_cases [OF inv acquire(3)] by blast
  have "ring_inv c1" using inv g(1-3) unfolding g(5) ring_inv_def umap_ok_def by (auto simp: umap_find_None)
  moreover have "promises_ok (c1, resolved, Suc fresh)"
    using assms(3) acquire(1) unfolding g(5) promises_ok_def by (auto simp: atLeast0_lessThan_Suc)
  ultimately show ?thesis using acquire(2) by simp
next
  case (fill c resolved fresh bufs)
  then show ?thesis using assms(2,3) by (simp add: ring_inv_def promises_ok_def)
next
  case (post_failed c wr pr resolved fresh)
  then show ?thesis using assms(2,3) ring_inv_release promises_ok_release by auto
next
  case (completion wr c pr c1 resolved fresh)
  then show ?thesis
    using assms(2,3) complete_send_cases [OF completion(3)] ring_inv_release promises_ok_release by auto
next
  case (stray wr c c1 resolved fresh)
  then have "c1 = c" by (auto simp: complete_send_def split: option.splits)
  then show ?thesis using stray assms(2,3) by simp
qed

lemma ring_initial: "ring_inv (new_conn cap)" "promises_ok (new_conn cap, [], 0)"
  by (auto simp: ring_inv_def new_conn_def promises_ok_def)

lemma ring_reachable:
  assumes "ring_step\<^sup>*\<^sup>* (new_conn cap, [], 0) s"
  shows "ring_inv (fst s) \<and> promises_ok s"
  using assms
proof (induction rule: rtranclp_induct)
  case base
  then show ?case using ring_initial by simp
next
  case (step y z)
  then show ?case using ring_step_keeps by blast
qed

lemma acquire_2000:
  "try_acquire pr c = (Some got, c1) \<Longrightarrow> acquire_loop others pr 2000 c = (Some got, c1)"
  by (simp add: numeral_eq_Suc)

subsection \<open>The transport as a provider of the interface\<close>

interpretation ibverbs: kv_transport "\<lambda>t p. stub_for (ib_grpc_fallback t) p \<noteq> None" ib_Connect ib_Disconnect ib_Fetch
proof
  fix t p a q rpc i b
  show "(stub_for (ib_grpc_fallback (ib_Connect t p a)) q \<noteq> None) = (q = p \<or> stub_for (ib_grpc_fallback t) q \<noteq> None)"
    using grpc.connect_connected [of "ib_grpc_fallback t" p a q] by (simp add: ib_Connect_def)
  show "stub_for (ib_grpc_fallback t) p \<noteq> None \<Longrightarrow> ib_Connect t p a = t"
    using grpc.connect_again [of "ib_grpc_fallback t" p a] by (simp add: ib_Connect_def)
  show "(stub_for (ib_grpc_fallback (ib_Disconnect t p)) q \<noteq> None) = (q \<noteq> p \<and> stub_for (ib_grpc_fallback t) q \<noteq> None)"
    using grpc.disconnect_connected [of "ib_grpc_fallback t" p q] by (simp add: ib_Disconnect_def)
  show "\<not> stub_for (ib_grpc_fallback t) p \<noteq> None \<Longrightarrow> ib_Fetch rpc t p i = None"
    using grpc.fetch_unconnected [of "ib_grpc_fallback t" p rpc i] by (simp add: ib_Fetch_def)
  show "ib_Fetch rpc t p i = Some b \<Longrightarrow>
      \<exists>a resp. rpc a \<lparr>fq_id = BlockIdToProto i, fq_requesting_node = ''lethe-fetch''\<rparr> = Some resp \<and> fs_found resp \<and>
        kv_id b = BlockIdFromProto (fs_id resp) \<and> kv_data b = fs_kv_data resp"
    unfolding ib_Fetch_def by (rule grpc.fetch_answer)
qed

lemma ib_Send_posts:
  assumes "ib_Send dial others post_ok pr t peer_id i purpose d = (now, Some (wr, msg), t')"
  shows "now = None" "kHeaderBytes + length d \<le> MsgCap t" "\<exists>mem. msg = posted_bytes d (fill_buffer i purpose d mem)"
  using assms unfolding ib_Send_def
  by (auto simp: Let_def split: if_splits option.splits prod.splits)

subsection \<open>The peer list of the environment\<close>

declare parse_env_loop.simps [simp del]

lemma find_from_split:
  assumes "find_from c s i = Some n"
  shows "i \<le> n" "n < length s" "c \<notin> set (take (n - i) (drop i s))" "drop i s = take (n - i) (drop i s) @ c # drop (n + 1) s"
proof -
  let ?t = "drop i s" and ?w = "takeWhile (\<lambda>x. x \<noteq> c) (drop i s)"
  have n: "n = i + length ?w" and lt: "length ?w < length ?t"
    using assms by (auto simp: find_from_def find_char_def Let_def split: if_splits)
  show "i \<le> n" "n < length s" using n lt by auto
  have w: "take (n - i) ?t = ?w" using n by (metis takeWhile_eq_take diff_add_inverse)
  show "c \<notin> set (take (n - i) ?t)" unfolding w by (auto dest: set_takeWhileD)
  have "?t ! length ?w = c" using lt nth_length_takeWhile [OF lt] by simp
  then have "?t = ?w @ c # drop (Suc (length ?w)) ?t"
    using id_take_nth_drop [OF lt] by (metis takeWhile_eq_take)
  then show "?t = take (n - i) ?t @ c # drop (n + 1) s" unfolding w using n by (simp add: add.commute)
qed

lemma parse_env_items: "parse_env_loop s i out = parse_items (getline_items CHR '','' (drop i s)) out"
proof (induction s i out rule: parse_env_loop.induct)
  case (1 s i out)
  show ?case
  proof (cases "i < length s")
    case True
    show ?thesis
    proof (cases "find_from CHR '','' s i")
      case None
      then have "CHR '','' \<notin> set (drop i s)" by (simp add: find_from_def find_char_None)
      then have "getline_items CHR '','' (drop i s) = [drop i s]" using True by (intro getline_items_last) simp_all
      moreover have "parse_env_loop s i out = parse_token (drop i s) out"
        using True None by (simp add: parse_env_loop.simps [of s i out])
      ultimately show ?thesis by (cases "parse_token (drop i s) out") simp_all
    next
      case (Some n)
      note f = find_from_split [OF Some]
      have "getline_items CHR '','' (drop i s) = take (n - i) (drop i s) # getline_items CHR '','' (drop (n + 1) s)"
        using getline_items_Cons [OF f(3), of "drop (n + 1) s"] f(4) by simp
      moreover have "parse_env_loop s i out = (case parse_token (take (n - i) (drop i s)) out of
          None \<Rightarrow> None | Some out1 \<Rightarrow> parse_env_loop s (n + 1) out1)"
        using True Some by (simp add: parse_env_loop.simps [of s i out])
      ultimately show ?thesis using 1 [OF True Some] by (cases "parse_token (take (n - i) (drop i s)) out") simp_all
    qed
  next
    case False
    then show ?thesis by (simp add: parse_env_loop.simps [of s i out])
  qed
qed

lemma digit_not_in:
  assumes "\<not> is_digit c" shows "c \<notin> set (to_string n)"
  using to_string_digits [of n] assms by blast

lemma parse_token_print:
  assumes "CHR ''@'' \<notin> set peer"
  shows "parse_token (print_endpoint (peer, ip, port)) out = Some (umap_assign peer (ip, port) out)"
proof -
  let ?n = "to_string (unat port)"
  have at: "find_char CHR ''@'' (print_endpoint (peer, ip, port)) = Some (length peer)"
    using find_char_append [OF assms] by (simp add: print_endpoint_def)
  have "CHR '':'' \<notin> set ?n" by (rule digit_not_in) (simp add: is_digit_def)
  then have colon: "rfind_char CHR '':'' (print_endpoint (peer, ip, port)) = Some (length peer + 1 + length ip)"
    using rfind_char_append [of "CHR '':''" ?n "peer @ CHR ''@'' # ip"] by (simp add: print_endpoint_def)
  have "unat port < 2 ^ 16" using unsigned_less [of port, where 'a = nat] by simp
  then have "stoi ?n = Some (int (unat port))" by (intro stoi_to_string) simp
  then show ?thesis
    unfolding parse_token_def at colon by (simp add: print_endpoint_def)
qed

lemma parse_items_print:
  assumes "umap_ok (out @ ps)" "\<forall>(peer, ip, port)\<in>set ps. CHR ''@'' \<notin> set peer"
  shows "parse_items (map print_endpoint ps) out = Some (out @ ps)"
  using assms
proof (induction ps arbitrary: out)
  case (Cons p ps)
  obtain peer ip port where p: "p = (peer, ip, port)" by (cases p) auto
  have "umap_find out peer = None" using Cons.prems(1) p by (auto simp: umap_ok_def umap_find_None)
  then have "umap_assign peer (ip, port) out = out @ [p]" by (simp add: umap_assign_new p)
  moreover have "CHR ''@'' \<notin> set peer" using Cons.prems(2) p by simp
  ultimately have "parse_token (print_endpoint p) out = Some (out @ [p])" using parse_token_print p by simp
  then show ?case using Cons.IH [of "out @ [p]"] Cons.prems by simp
qed simp

section \<open>Properties\<close>

text \<open>
  C31. A pushed block arrives intact: whenever \<open>Send\<close> posts a message, with buffers of a size that 32 bits hold, it fits the registered
  buffers, and a receiver that finds it at the front of any receive buffer hands exactly the
  block's identity, bytes and purpose to \<open>on_receive\<close>, whatever was in both buffers before.
\<close>

theorem ib_Send_delivers:
  assumes "id_ok i" "MsgCap t < 2 ^ 32"
    and "ib_Send dial others post_ok pr t peer_id i purpose d = (now, Some (wr, msg), t')"
  shows "now = None \<and> length msg = kHeaderBytes + length d \<and> length msg \<le> MsgCap t \<and>
    HandleRecv (land_in recv msg) (word_of_nat (length msg)) = Some (i, d, word_of_nat (purpose_code purpose))"
proof -
  obtain mem where msg: "msg = posted_bytes d (fill_buffer i purpose d mem)" using ib_Send_posts(3) [OF assms(3)] by blast
  have lt: "kHeaderBytes + length d < 2 ^ 32" using ib_Send_posts(2) [OF assms(3)] assms(2) by simp
  have "length (encode_msg_header (push_header i purpose d)) = kHeaderBytes"
    using assms(1) by (intro length_encode_msg_header) (simp add: push_header_def id_ok_def)
  then have "length msg = kHeaderBytes + length d"
    unfolding msg posted_bytes_def fill_buffer_def u32_of_nat [OF lt] by simp
  then show ?thesis using frame_received [OF assms(1) lt] ib_Send_posts(1,2) [OF assms(3)] msg by simp
qed

theorem ib_Send_delivers_witness:
  "\<exists>wr msg t'. ib_Send (\<lambda>_ _ _. True) (\<lambda>_ c. c) True 0 sample_rdma ''b'' (sample_id 1) ReplicationPush [7, 8] = (None, Some (wr, msg), t') \<and>
     HandleRecv (land_in [] msg) (word_of_nat (length msg)) = Some (sample_id 1, [7, 8], 0)"
proof -
  let ?send = "ib_Send (\<lambda>_ _ _. True) (\<lambda>_ c. c) True 0 sample_rdma ''b'' (sample_id 1) ReplicationPush [7, 8]"
  have cap: "MsgCap sample_rdma = 76" by (simp add: MsgCap_def sample_rdma_def size_add_def)
  have "fst (snd ?send) \<noteq> None"
    unfolding ib_Send_def cap
    by (simp add: EnsureOutbound_def sample_rdma_def new_conn_def try_acquire_def acquire_2000 Let_def)
  then obtain wr msg where "fst (snd ?send) = Some (wr, msg)" by auto
  then have run: "?send = (fst ?send, Some (wr, msg), snd (snd ?send))" by (metis prod.collapse)
  from ib_Send_delivers [OF _ _ run, of "[]"] run show ?thesis by (auto simp: cap purpose_code_def)
qed

text \<open>
  C19. The send ring never shares or leaks a buffer, and no future is resolved twice: in every state
  that senders, failed posts and completions can reach, each of the eight registered buffers is
  either free or belongs to exactly one in-flight request, and the promises handed out so far
  are, without repetition, those in flight and those resolved.
\<close>

theorem send_ring_exclusive:
  assumes "ring_step\<^sup>*\<^sup>* (new_conn cap, [], 0) (c, resolved, fresh)"
  shows "length (cn_free_send c) + length (cn_pending c) = kMaxSendBuffers \<and>
    distinct (cn_free_send c @ map (\<lambda>p. wr_buf (fst p)) (cn_pending c)) \<and>
    distinct (map snd (cn_pending c) @ resolved) \<and> set (map snd (cn_pending c) @ resolved) = {0..<fresh}"
proof -
  have r: "ring_inv c" "promises_ok (c, resolved, fresh)" using ring_reachable [OF assms] by simp_all
  let ?bufs = "cn_free_send c @ map (\<lambda>p. wr_buf (fst p)) (cn_pending c)"
  have "distinct ?bufs" "set ?bufs = {0..<kMaxSendBuffers}" using r(1) by (simp_all add: ring_inv_def)
  then have "length ?bufs = kMaxSendBuffers" using distinct_card [of ?bufs] by simp
  then show ?thesis using \<open>distinct ?bufs\<close> r(2) by (simp add: promises_ok_def)
qed

theorem send_ring_exclusive_witness:
  "length (cn_free_send (snd (try_acquire 0 (new_conn 76)))) + length (cn_pending (snd (try_acquire 0 (new_conn 76)))) = 8"
proof -
  obtain b wr c1 where a: "try_acquire 0 (new_conn 76) = (Some (b, wr), c1)"
    by (auto simp: try_acquire_def new_conn_def Let_def)
  from send_ring_exclusive [OF r_into_rtranclp [of ring_step, OF ring_step.acquire [OF a]]] a show ?thesis by simp
qed

text \<open>
  The peer list of the environment survives printing and parsing: for distinct peer names
  without \<open>@\<close> or commas and hosts without commas, parsing \<open>peer@host:port\<close> entries joined by
  commas gives back exactly the table, ports included.
\<close>

theorem ParsePeerEnv_roundtrip:
  assumes "umap_ok peers"
    and "\<forall>(peer, ip, port)\<in>set peers. CHR ''@'' \<notin> set peer \<and> CHR '','' \<notin> set peer \<and> CHR '','' \<notin> set ip"
  shows "ParsePeerEnv (Some (join CHR '','' (map print_endpoint peers))) = Some peers"
proof -
  have comma: "CHR '','' \<notin> set (to_string n)" for n by (rule digit_not_in) (simp add: is_digit_def)
  have "\<forall>x\<in>set (map print_endpoint peers). CHR '','' \<notin> set x \<and> x \<noteq> []"
    using assms(2) comma by (auto simp: print_endpoint_def)
  then have "getline_items CHR '','' (join CHR '','' (map print_endpoint peers)) = map print_endpoint peers"
    by (rule getline_items_join)
  moreover have "parse_items (map print_endpoint peers) [] = Some peers"
    using parse_items_print [of "[]" peers] assms by auto
  ultimately show ?thesis by (simp add: ParsePeerEnv_def parse_env_items)
qed

theorem ParsePeerEnv_roundtrip_witness:
  "ParsePeerEnv (Some (join CHR '','' (map print_endpoint [(''b'', ''10.0.0.2'', 7000), (''c'', ''10.0.0.3'', 65535)]))) =
    Some [(''b'', ''10.0.0.2'', 7000), (''c'', ''10.0.0.3'', 65535)]"
  by (rule ParsePeerEnv_roundtrip) (simp_all add: umap_ok_def)

end
