(* ===== verification/Cache.thy ===== *)
theory Cache
  imports Eviction Rdma
begin

text \<open>
  The facade \<open>LetheCache\<close> of \<open>cache_server/src/cache.cpp\<close>: it owns the router, the tiered store,
  the transport, the replicator, the membership and the evictor of a node, and implements the
  request handlers over them.  The record \<open>Cache_Node\<close> is the state of one server process;
  \<open>cache_step\<close> are the events that can change it, from requests to the turns of the
  background threads.
\<close>

section \<open>Definitions\<close>

subsection \<open>The transport behind the interface\<close>

datatype KvTransport = Grpc GrpcStreamTransport | Ibverbs IbverbsTransport

fun kt_connected :: "KvTransport \<Rightarrow> string \<Rightarrow> bool" where
  "kt_connected (Grpc t) p \<longleftrightarrow> stub_for t p \<noteq> None"
| "kt_connected (Ibverbs t) p \<longleftrightarrow> stub_for (ib_grpc_fallback t) p \<noteq> None"

fun kt_Connect :: "KvTransport \<Rightarrow> string \<Rightarrow> string \<Rightarrow> KvTransport" where
  "kt_Connect (Grpc t) peer_id address = Grpc (grpc_Connect t peer_id address)"
| "kt_Connect (Ibverbs t) peer_id address = Ibverbs (ib_Connect t peer_id address)"

fun kt_Disconnect :: "KvTransport \<Rightarrow> string \<Rightarrow> KvTransport" where
  "kt_Disconnect (Grpc t) peer_id = Grpc (grpc_Disconnect t peer_id)"
| "kt_Disconnect (Ibverbs t) peer_id = Ibverbs (ib_Disconnect t peer_id)"

fun kt_Shutdown :: "KvTransport \<Rightarrow> KvTransport" where
  "kt_Shutdown (Grpc t) = Grpc (grpc_Shutdown t)"
| "kt_Shutdown (Ibverbs t) = Ibverbs (ib_Shutdown t)"

fun kt_Fetch :: "(FetchRequest, FetchResponse) rpc \<Rightarrow> KvTransport \<Rightarrow> string \<Rightarrow> BlockId \<Rightarrow> KvBlock option" where
  "kt_Fetch fetch_rpc (Grpc t) peer_id i = grpc_Fetch fetch_rpc t peer_id i"
| "kt_Fetch fetch_rpc (Ibverbs t) peer_id i = ib_Fetch fetch_rpc t peer_id i"

subsection \<open>The node\<close>

record CacheConfig =
  cc_node_id :: string
  cc_seed_peers :: "StaticPeer list"
  cc_hbm_bytes :: size_t
  cc_dram_bytes :: size_t
  cc_ssd_bytes :: size_t
  cc_ssd_path :: string
  cc_replication_factor :: u32
  cc_virtual_nodes_per_peer :: u32
  cc_rdma_enabled :: bool
  cc_grpc_port :: u16
  cc_rdma_port :: u16
  cc_rdma_device :: string
  cc_metrics_port :: u16
  cc_eviction_high_watermark_pct :: size_t
  cc_eviction_low_watermark_pct :: size_t

definition default_cache_config :: CacheConfig where
  "default_cache_config =
     \<lparr>cc_node_id = [], cc_seed_peers = [], cc_hbm_bytes = 0, cc_dram_bytes = 32 * 2 ^ 30, cc_ssd_bytes = 256 * 2 ^ 30,
      cc_ssd_path = ''/var/lib/lethe'', cc_replication_factor = 2, cc_virtual_nodes_per_peer = 128,
      cc_rdma_enabled = False, cc_grpc_port = 50051, cc_rdma_port = 50052, cc_rdma_device = [],
      cc_metrics_port = 9090, cc_eviction_high_watermark_pct = 90, cc_eviction_low_watermark_pct = 75\<rparr>"

text \<open>\<open>nd_heartbeat\<close> says whether the heartbeat thread of the membership runs.\<close>

record Cache_Node = Evict_Node +
  nd_transport :: KvTransport
  nd_cfg :: CacheConfig
  nd_heartbeat :: bool
  nd_running :: bool

definition EnsurePeerClient :: "'a Cache_Node_scheme \<Rightarrow> string \<Rightarrow> string \<Rightarrow> 'a Cache_Node_scheme" where
  "EnsurePeerClient n peer_id address =
     (if \<not> rp_transport (nd_replicator n) then n
      else n\<lparr>nd_transport := kt_Connect (nd_transport n) peer_id address\<rparr>)"

definition DropPeerClient :: "'a Cache_Node_scheme \<Rightarrow> string \<Rightarrow> 'a Cache_Node_scheme" where
  "DropPeerClient n peer_id =
     (if \<not> rp_transport (nd_replicator n) then n
      else n\<lparr>nd_transport := kt_Disconnect (nd_transport n) peer_id\<rparr>)"

definition tiered_config :: "CacheConfig \<Rightarrow> TieredStoreConfig" where
  "tiered_config cfg =
     \<lparr>tc_hbm_bytes = cc_hbm_bytes cfg, tc_dram_bytes = cc_dram_bytes cfg, tc_ssd_bytes = cc_ssd_bytes cfg,
      tc_ssd_path = cc_ssd_path cfg, tc_enable_promotion = True, tc_promotion_access_threshold = 2,
      tc_ssd_slot_bytes = 64 * 1024\<rparr>"

definition ring_members :: "CacheConfig \<Rightarrow> string list" where
  "ring_members cfg = cc_node_id cfg # filter (\<lambda>p. p \<noteq> cc_node_id cfg) (map sp_node_id (cc_seed_peers cfg))"

text \<open>
  The constructor; \<open>rdma\<close> is the InfiniBand transport when the build has it and the environment
  selects it.  An exception of the store's constructor is passed on.
\<close>

definition cache_new ::
  "Env \<Rightarrow> int \<Rightarrow> (string \<Rightarrow> bool) \<Rightarrow> (string \<Rightarrow> byte list) \<Rightarrow> ssd_env \<Rightarrow> IbverbsTransport option \<Rightarrow> CacheConfig
    \<Rightarrow> ssd_error + Cache_Node" where
  "cache_new E now is_directory file_bytes env rdma cfg =
     (case ts_new is_directory file_bytes env (tiered_config cfg) of
        Inl e \<Rightarrow> Inl e
      | Inr store \<Rightarrow>
          let node_id = cc_node_id cfg;
              router = SetPeers (en_sort E) (en_blake3 E)
                (router_new node_id (cc_virtual_nodes_per_peer cfg) (cc_replication_factor cfg)) (ring_members cfg);
              transport = (case rdma of None \<Rightarrow> Grpc grpc_new | Some t \<Rightarrow> Ibverbs t);
              replicator = replicator_new node_id True True True;
              membership = membership_new now default_config node_id (cc_seed_peers cfg) True True;
              evictor = evictor_new (default_eviction\<lparr>ec_high_watermark_pct := cc_eviction_high_watermark_pct cfg,
                ec_low_watermark_pct := cc_eviction_low_watermark_pct cfg\<rparr>) node_id True;
              n = \<lparr>nd_router = router, nd_store = store, nd_replicator = replicator, nd_membership = membership,
                   nd_evictor = evictor, nd_transport = transport, nd_cfg = cfg, nd_heartbeat = False, nd_running = False\<rparr>
          in Inr (foldl (\<lambda>n p. EnsurePeerClient n (sp_node_id p) (sp_address p)) n
               (filter (\<lambda>p. sp_node_id p \<noteq> node_id) (cc_seed_peers cfg))))"

definition cache_Start :: "'a Cache_Node_scheme \<Rightarrow> 'a Cache_Node_scheme" where
  "cache_Start n =
     (if nd_running n then n
      else n\<lparr>nd_running := True, nd_heartbeat := True, nd_evictor := evictor_Start (nd_store n) (nd_evictor n)\<rparr>)"

definition cache_Shutdown :: "'a Cache_Node_scheme \<Rightarrow> 'a Cache_Node_scheme" where
  "cache_Shutdown n =
     (if \<not> nd_running n then n
      else n\<lparr>nd_running := False, nd_evictor := evictor_Shutdown (nd_evictor n), nd_heartbeat := False,
             nd_transport := kt_Shutdown (nd_transport n)\<rparr>)"

subsection \<open>Lookup\<close>

datatype Where = LocalHit | RemoteHit | Miss

record LookupEntry =
  le_id :: BlockId
  le_where :: Where
  le_remote_node :: "string option"
  le_tier :: Tier
  le_local_data :: "byte list"

record LookupResult =
  lr_entries :: "LookupEntry list"
  lr_hit_count :: u32
  lr_miss_count :: u32

definition lookup_one :: "'a Cache_Node_scheme \<Rightarrow> BlockId \<Rightarrow> LookupEntry \<times> 'a Cache_Node_scheme" where
  "lookup_one n i =
     (let e = \<lparr>le_id = i, le_where = Miss, le_remote_node = None, le_tier = DRAM, le_local_data = []\<rparr>
      in case ts_Get (nd_store n) i of
           (Some got, store) \<Rightarrow>
             (e\<lparr>le_where := LocalHit, le_tier := gr_tier_found got, le_local_data := gr_data got\<rparr>, n\<lparr>nd_store := store\<rparr>)
         | (None, store) \<Rightarrow>
             let n1 = n\<lparr>nd_store := store\<rparr>;
                 route = Route (nd_router n1) i
             in if rr_primary route \<noteq> [] \<and> rr_primary route \<noteq> cc_node_id (nd_cfg n1)
                then (e\<lparr>le_where := RemoteHit, le_remote_node := Some (rr_primary route)\<rparr>, n1)
                else (e, n1))"

fun lookup_loop :: "BlockId list \<Rightarrow> LookupResult \<times> 'a Cache_Node_scheme \<Rightarrow> LookupResult \<times> 'a Cache_Node_scheme" where
  "lookup_loop [] st = st"
| "lookup_loop (i # ids) (result, n) =
     (let (e, n1) = lookup_one n i;
          result1 = result\<lparr>lr_entries := lr_entries result @ [e]\<rparr>
      in lookup_loop ids
           (if le_where e = Miss then result1\<lparr>lr_miss_count := lr_miss_count result1 + 1\<rparr>
            else result1\<lparr>lr_hit_count := lr_hit_count result1 + 1\<rparr>, n1))"

definition Lookup :: "'a Cache_Node_scheme \<Rightarrow> BlockId list \<Rightarrow> LookupResult \<times> 'a Cache_Node_scheme" where
  "Lookup n ids = lookup_loop ids (\<lparr>lr_entries = [], lr_hit_count = 0, lr_miss_count = 0\<rparr>, n)"

subsection \<open>Insert and the other handlers\<close>

definition total_used :: "TieredStore \<Rightarrow> size_t" where
  "total_used store =
     size_add (size_add (ts_used_bytes store HBM) (ts_used_bytes store DRAM)) (ts_used_bytes store SSD)"

definition insert_one :: "'a Cache_Node_scheme \<Rightarrow> KvBlock \<Rightarrow> bool \<times> 'a Cache_Node_scheme" where
  "insert_one n blk =
     (let before = total_used (nd_store n);
          (landed, store) = ts_Put (nd_store n) blk (kv_tier blk);
          n1 = n\<lparr>nd_store := store\<rparr>
      in if landed \<noteq> None \<and> total_used store > before then (True, snd (ReplicateOut n1 blk)) else (False, n1))"

fun insert_loop :: "KvBlock list \<Rightarrow> u32 \<times> 'a Cache_Node_scheme \<Rightarrow> u32 \<times> 'a Cache_Node_scheme" where
  "insert_loop [] st = st"
| "insert_loop (blk # blocks) (accepted, n) =
     (let (ok, n1) = insert_one n blk in insert_loop blocks (if ok then accepted + 1 else accepted, n1))"

definition Insert :: "'a Cache_Node_scheme \<Rightarrow> KvBlock list \<Rightarrow> u32 \<times> 'a Cache_Node_scheme" where
  "Insert n blocks = insert_loop blocks (0, n)"

definition FetchLocal :: "'a Cache_Node_scheme \<Rightarrow> BlockId \<Rightarrow> (byte list \<times> Tier) option \<times> 'a Cache_Node_scheme" where
  "FetchLocal n i =
     (case ts_Get (nd_store n) i of
        (Some got, store) \<Rightarrow> (Some (gr_data got, gr_tier_found got), n\<lparr>nd_store := store\<rparr>)
      | (None, store) \<Rightarrow> (None, n\<lparr>nd_store := store\<rparr>))"

definition cluster_epoch :: "'a Cache_Node_scheme \<Rightarrow> u64" where
  "cluster_epoch n = mb_epoch (nd_membership n)"

definition IngestStreamedBlock :: "'a Cache_Node_scheme \<Rightarrow> BlockId \<Rightarrow> byte list \<Rightarrow> 'a Cache_Node_scheme" where
  "IngestStreamedBlock n i payload =
     (let blk = \<lparr>kv_id = i, kv_data = payload, kv_tier = DRAM, kv_inserted_epoch = cluster_epoch n\<rparr>
      in n\<lparr>nd_store := snd (ts_Put (nd_store n) blk DRAM)\<rparr>)"

definition OnEvictBroadcast :: "'a Cache_Node_scheme \<Rightarrow> BlockId list \<Rightarrow> string \<Rightarrow> 'a Cache_Node_scheme" where
  "OnEvictBroadcast n evicted source = n\<lparr>nd_evictor := OnPeerEviction (nd_evictor n) evicted source\<rparr>"

text \<open>The callback that the RDMA transport calls for a received block.\<close>

definition on_rdma_receive :: "'a Cache_Node_scheme \<Rightarrow> BlockId \<Rightarrow> byte list \<Rightarrow> 'a Cache_Node_scheme" where
  "on_rdma_receive n i bytes =
     snd (Insert n [\<lparr>kv_id = i, kv_data = bytes, kv_tier = DRAM, kv_inserted_epoch = 0\<rparr>])"

subsection \<open>The events of a node\<close>

definition block_ok :: "(BlockId \<Rightarrow> byte list) \<Rightarrow> KvBlock \<Rightarrow> bool" where
  "block_ok payload b \<longleftrightarrow> kv_ok b \<and> kv_data b = payload (kv_id b)"

inductive cache_step :: "(BlockId \<Rightarrow> byte list) \<Rightarrow> Env \<Rightarrow> Cache_Node \<Rightarrow> Cache_Node \<Rightarrow> bool" for payload E where
  lookup: "cache_step payload E n (snd (Lookup n ids))"
| insert: "\<forall>b\<in>set blocks. block_ok payload b \<Longrightarrow> cache_step payload E n (snd (Insert n blocks))"
| fetch: "cache_step payload E n (snd (FetchLocal n i))"
| ingest: "id_ok i \<Longrightarrow> length (payload i) \<le> vector_max \<Longrightarrow> cache_step payload E n (IngestStreamedBlock n i (payload i))"
| heartbeat: "cache_step payload E n (snd (OnHeartbeat E now n peer_id peer_epoch))"
| evict_broadcast: "cache_step payload E n (OnEvictBroadcast n evicted source)"
| heartbeat_loop: "cache_step payload E n (heartbeat_tick E reply now now' n)"
| sweep_thread: "cache_step payload E n (DrainReReplication n)"
| worker: "cache_step payload E n (n\<lparr>nd_replicator := snd (worker_step send (nd_replicator n))\<rparr>)"
| eviction_pass: "cache_step payload E n (snd (snd (RunPassForTier E n tier)))"
| connect: "cache_step payload E n (EnsurePeerClient n peer_id address)"
| disconnect: "cache_step payload E n (DropPeerClient n peer_id)"
| start: "cache_step payload E n (cache_Start n)"
| shutdown: "cache_step payload E n (cache_Shutdown n)"

text \<open>
  The integrity of a node: the stores' invariants hold, every copy of a block is the payload its
  identity names, the book-keeping concerns resident blocks, and so does every queued push.
\<close>

definition push_ok :: "(BlockId \<Rightarrow> byte list) \<Rightarrow> ReplicateTask \<Rightarrow> bool" where
  "push_ok payload t \<longleftrightarrow> block_ok payload (tk_block t)"

definition node_ok :: "(BlockId \<Rightarrow> byte list) \<Rightarrow> 'a Node_scheme \<Rightarrow> bool" where
  "node_ok payload n \<longleftrightarrow>
     ts_inv (nd_store n) \<and> coherent payload (nd_store n) \<and> books_ok (nd_store n) \<and> rep_inv (nd_replicator n) \<and>
     (\<forall>t\<in>set (rp_queue (nd_replicator n)). push_ok payload t)"

definition store_ok :: "(BlockId \<Rightarrow> byte list) \<Rightarrow> TieredStore \<Rightarrow> bool" where
  "store_ok payload ts \<longleftrightarrow> ts_inv ts \<and> coherent payload ts \<and> books_ok ts"

text \<open>
  Both are instances of one shape: a predicate on the stores and one on blocks, the latter for
  every block that a push carries.
\<close>

definition guarded :: "(TieredStore \<Rightarrow> bool) \<Rightarrow> (KvBlock \<Rightarrow> bool) \<Rightarrow> 'a Node_scheme \<Rightarrow> bool" where
  "guarded S B n \<longleftrightarrow> S (nd_store n) \<and> rep_inv (nd_replicator n) \<and> (\<forall>t\<in>set (rp_queue (nd_replicator n)). B (tk_block t))"

fun op_guard :: "(KvBlock \<Rightarrow> bool) \<Rightarrow> ts_op \<Rightarrow> bool" where
  "op_guard B (TPut b hint) \<longleftrightarrow> B b"
| "op_guard B _ \<longleftrightarrow> True"

definition store_typed :: "TieredStore \<Rightarrow> bool" where
  "store_typed ts \<longleftrightarrow> ts_inv ts \<and> books_ok ts"

text \<open>What the entry of a lookup says, and a configuration for concrete runs.\<close>

definition lookup_spec :: "(BlockId \<Rightarrow> byte list) \<Rightarrow> 'a Cache_Node_scheme \<Rightarrow> BlockId \<Rightarrow> LookupEntry \<Rightarrow> bool" where
  "lookup_spec payload n i e \<longleftrightarrow> le_id e = i \<and> (le_where e = LocalHit \<longrightarrow> le_local_data e = payload i) \<and>
     (le_where e = RemoteHit \<longrightarrow> le_remote_node e = Some (rr_primary (Route (nd_router n) i))) \<and>
     (payload i \<noteq> [] \<longrightarrow> le_where e =
        (if ts_content (nd_store n) i \<noteq> None then LocalHit
         else if rr_primary (Route (nd_router n) i) \<noteq> [] \<and> rr_primary (Route (nd_router n) i) \<noteq> cc_node_id (nd_cfg n)
         then RemoteHit else Miss))"

definition sample_cache_cfg :: CacheConfig where
  "sample_cache_cfg = default_cache_config\<lparr>cc_node_id := ''a'', cc_dram_bytes := 64, cc_ssd_bytes := 0,
     cc_seed_peers := [\<lparr>sp_node_id = ''b'', sp_address = ''h:1''\<rparr>], cc_virtual_nodes_per_peer := 1\<rparr>"

section \<open>Lemmas\<close>

interpretation kt: kv_transport kt_connected kt_Connect kt_Disconnect kt_Fetch
proof
  fix t p a q rpc i b
  show "kt_connected (kt_Connect t p a) q = (q = p \<or> kt_connected t q)"
    using grpc.connect_connected ibverbs.connect_connected by (cases t) simp_all
  show "kt_connected t p \<Longrightarrow> kt_Connect t p a = t"
    using grpc.connect_again ibverbs.connect_again by (cases t) simp_all
  show "kt_connected (kt_Disconnect t p) q = (q \<noteq> p \<and> kt_connected t q)"
    using grpc.disconnect_connected ibverbs.disconnect_connected by (cases t) simp_all
  show "\<not> kt_connected t p \<Longrightarrow> kt_Fetch rpc t p i = None"
    using grpc.fetch_unconnected ibverbs.fetch_unconnected by (cases t) simp_all
  show "kt_Fetch rpc t p i = Some b \<Longrightarrow>
      \<exists>a resp. rpc a \<lparr>fq_id = BlockIdToProto i, fq_requesting_node = ''lethe-fetch''\<rparr> = Some resp \<and> fs_found resp \<and>
        kv_id b = BlockIdFromProto (fs_id resp) \<and> kv_data b = fs_kv_data resp"
    using grpc.fetch_answer ibverbs.fetch_answer by (cases t) simp_all
qed

subsection \<open>The store under the events\<close>

text \<open>
  What the node needs of such a pair: the operations of the store keep the one, and what the
  store returns satisfies the other.  Everything else that a node does keeps both.
\<close>

locale block_guard =
  fixes S :: "TieredStore \<Rightarrow> bool" and B :: "KvBlock \<Rightarrow> bool"
  assumes guard_step: "S ts \<Longrightarrow> op_guard B x \<Longrightarrow> S (ts_step ts x)"
    and guard_got: "S ts \<Longrightarrow> ts_Get ts i = (Some got, ts') \<Longrightarrow> kv_id b = i \<Longrightarrow> kv_data b = gr_data got \<Longrightarrow> B b"
begin

lemma guard_Get: "S ts \<Longrightarrow> ts_Get ts i = (r, ts') \<Longrightarrow> S ts'"
  using guard_step [of ts "TGet i"] by simp

lemma guard_Put: "S ts \<Longrightarrow> B b \<Longrightarrow> ts_Put ts b hint = (r, ts') \<Longrightarrow> S ts'"
  using guard_step [of ts "TPut b hint"] by simp

lemma guard_run: "S ts \<Longrightarrow> \<forall>x\<in>set xs. op_guard B x \<Longrightarrow> S (ts_run ts xs)"
  by (induction xs arbitrary: ts) (auto simp: ts_run_def guard_step)

lemma guard_drain_loop:
  assumes "drain_loop rt st rp disp = (st', rp')" "S st" "\<forall>t\<in>set (rp_queue rp). B (tk_block t)"
  shows "S st' \<and> (\<forall>t\<in>set (rp_queue rp'). B (tk_block t))"
  using assms
proof (induction "length (rp_rerep_round rp) - rp_rerep_cursor rp" arbitrary: st rp disp rule: less_induct)
  case less
  from less.prems(1) show ?case
  proof (cases rule: drain_loop_cases)
    case (skip st1)
    have "S st1" using skip(3) less.prems(2) guard_Get by auto
    then show ?thesis by (intro less.hyps [OF _ skip(4)]) (use skip(2) less.prems(3) in simp_all)
  next
    case (push st1 got ts)
    let ?i = "rp_rerep_round rp ! rp_rerep_cursor rp"
    have "B (tk_block t)" if "t \<in> set ts" for t
    proof -
      have "push_view t \<in> set (map push_view ts)" using that by simp
      then have "kv_id (tk_block t) = ?i" "kv_data (tk_block t) = gr_data got"
        unfolding push(5) by (auto simp: push_view_def)
      then show ?thesis using guard_got [OF less.prems(2) push(3)] by blast
    qed
    then show ?thesis
      by (intro less.hyps [OF _ push(6)]) (use push(2) less.prems(3) guard_Get [OF less.prems(2) push(3)] in auto)
  qed (use less.prems(2,3) in simp_all)
qed

lemma guarded_Drain:
  assumes "guarded S B n"
  shows "guarded S B (DrainReReplication n)"
proof (cases "wired (nd_replicator n) \<and> rp_rerep_active (nd_replicator n)")
  case True
  obtain st rp where d: "drain_loop (nd_router n) (nd_store n) (nd_replicator n) 0 = (st, rp)" by force
  have "S st \<and> (\<forall>t\<in>set (rp_queue rp). B (tk_block t))"
    using guard_drain_loop [OF d] assms by (simp add: guarded_def)
  moreover have "rep_inv (nd_replicator (DrainReReplication n))"
    using assms by (intro rep_inv_Drain) (simp add: guarded_def)
  ultimately show ?thesis using DrainReReplication_active [OF _ _ d] True by (simp add: guarded_def)
qed (use assms DrainReReplication_idle [of n] in auto)

lemma guarded_Trigger:
  assumes "guarded S B n"
  shows "guarded S B (TriggerReReplication ord n lost)"
proof -
  define c where "c = rerep_candidates ord (nd_router n) (rp_local_node_id (nd_replicator n)) (nd_store n)"
  have "guarded S B (n\<lparr>nd_replicator := (nd_replicator n)\<lparr>rp_rerep_round := c, rp_rerep_cursor := 0,
      rp_rerep_active := (c \<noteq> [])\<rparr>\<rparr>)"
    using assms by (auto simp: guarded_def rep_inv_def)
  from guarded_Drain [OF this] assms show ?thesis
    unfolding TriggerReReplication_def Let_def c_def by auto
qed

lemma guarded_update [simp]:
  "guarded S B (n\<lparr>nd_router := rt\<rparr>) = guarded S B n"
  "guarded S B (m\<lparr>nd_membership := mb\<rparr>) = guarded S B m"
  "guarded S B (e\<lparr>nd_evictor := ev\<rparr>) = guarded S B e"
  "guarded S B (c\<lparr>nd_transport := tr\<rparr>) = guarded S B c"
  "guarded S B (c\<lparr>nd_running := b\<rparr>) = guarded S B c"
  "guarded S B (c\<lparr>nd_heartbeat := b\<rparr>) = guarded S B c"
  by (simp_all add: guarded_def)

lemma guarded_Change: "guarded S B n \<Longrightarrow> guarded S B (OnMembershipChange E n lost)"
  unfolding OnMembershipChange_def Let_def by (auto intro!: guarded_Trigger)

lemma guarded_Heartbeat: "guarded S B n \<Longrightarrow> guarded S B (snd (OnHeartbeat E now n p epoch))"
  unfolding OnHeartbeat_def Let_def by (auto intro!: guarded_Change)

lemma guarded_tick:
  assumes "guarded S B n"
  shows "guarded S B (heartbeat_tick E reply now now' n)"
proof -
  have "guarded S B (SendHeartbeatsToAllPeers E reply now n)"
    using assms unfolding SendHeartbeatsToAllPeers_def Let_def by (auto intro!: guarded_Change split: prod.splits)
  then show ?thesis
    unfolding heartbeat_tick_def Let_def by (auto intro!: guarded_Change split: prod.splits)
qed

lemma guarded_ReplicateOut:
  assumes "guarded S B n" "B b"
  shows "guarded S B (snd (ReplicateOut n b))"
proof -
  have len: "length (rp_queue (nd_replicator n)) \<le> kReplicationQueueMax"
    using assms(1) by (simp add: guarded_def rep_inv_def)
  have "rep_inv (nd_replicator (snd (ReplicateOut n b)))"
    using assms(1) by (intro rep_inv_ReplicateOut) (simp add: guarded_def)
  moreover have "\<forall>t\<in>set (rp_queue (nd_replicator (snd (ReplicateOut n b)))). B (tk_block t)"
    using assms by (auto simp: ReplicateOut_def Let_def fold_enqueue [OF len] guarded_def dest!: in_set_takeD)
  moreover have "nd_store (snd (ReplicateOut n b)) = nd_store n" by (simp add: ReplicateOut_def Let_def)
  ultimately show ?thesis using assms(1) by (simp add: guarded_def)
qed

lemma guarded_lookup_one: "guarded S B n \<Longrightarrow> guarded S B (snd (lookup_one n i))"
  using guard_Get [of "nd_store n" i]
  by (auto simp: lookup_one_def guarded_def Let_def split: prod.splits option.splits)

lemma guarded_lookup_loop: "guarded S B n \<Longrightarrow> guarded S B (snd (lookup_loop ids (r, n)))"
proof (induction ids arbitrary: r n)
  case (Cons i ids)
  obtain e n1 where one: "lookup_one n i = (e, n1)" by force
  have "guarded S B n1" using guarded_lookup_one [OF Cons.prems, of i] one by simp
  then show ?case using Cons.IH one by (simp add: Let_def)
qed simp

lemma guarded_Lookup: "guarded S B n \<Longrightarrow> guarded S B (snd (Lookup n ids))"
  by (simp add: Lookup_def guarded_lookup_loop)

lemma guarded_Put: "guarded S B n \<Longrightarrow> B b \<Longrightarrow> guarded S B (n\<lparr>nd_store := snd (ts_Put (nd_store n) b hint)\<rparr>)"
  using guard_Put [OF _ _ prod.collapse [symmetric]] by (auto simp: guarded_def)

lemma guarded_insert_one:
  assumes "guarded S B n" "B b"
  shows "guarded S B (snd (insert_one n b))"
proof -
  let ?n1 = "n\<lparr>nd_store := snd (ts_Put (nd_store n) b (kv_tier b))\<rparr>"
  have "snd (insert_one n b) = ?n1 \<or> snd (insert_one n b) = snd (ReplicateOut ?n1 b)"
    by (auto simp: insert_one_def Let_def split: prod.splits)
  then show ?thesis using guarded_Put [OF assms] guarded_ReplicateOut assms(2) by metis
qed

lemma guarded_insert_loop:
  "guarded S B n \<Longrightarrow> \<forall>b\<in>set blocks. B b \<Longrightarrow> guarded S B (snd (insert_loop blocks (a, n)))"
proof (induction blocks arbitrary: a n)
  case (Cons b blocks)
  obtain ok n1 where one: "insert_one n b = (ok, n1)" by force
  have "guarded S B n1" using guarded_insert_one [OF Cons.prems(1), of b] Cons.prems(2) one by simp
  then show ?case using Cons.IH Cons.prems(2) one by simp
qed simp

lemma guarded_Insert: "guarded S B n \<Longrightarrow> \<forall>b\<in>set blocks. B b \<Longrightarrow> guarded S B (snd (Insert n blocks))"
  by (simp add: Insert_def guarded_insert_loop)

lemma guarded_FetchLocal: "guarded S B n \<Longrightarrow> guarded S B (snd (FetchLocal n i))"
  using guard_Get [of "nd_store n" i]
  by (auto simp: FetchLocal_def guarded_def split: prod.splits option.splits)

lemma guarded_Ingest:
  "guarded S B n \<Longrightarrow> B \<lparr>kv_id = i, kv_data = d, kv_tier = DRAM, kv_inserted_epoch = cluster_epoch n\<rparr> \<Longrightarrow>
   guarded S B (IngestStreamedBlock n i d)"
  using guarded_Put by (auto simp: IngestStreamedBlock_def Let_def)

lemma guarded_worker:
  "guarded S B n \<Longrightarrow> guarded S B (n\<lparr>nd_replicator := snd (worker_step send (nd_replicator n))\<rparr>)"
  by (cases "rp_queue (nd_replicator n)") (auto simp: guarded_def rep_inv_def)

lemma guarded_pass:
  assumes "guarded S B n"
  shows "guarded S B (snd (snd (RunPassForTier E n t)))"
proof -
  obtain r msgs n' where run: "RunPassForTier E n t = (r, msgs, n')" by (metis prod_cases3)
  from run have "guarded S B n'"
  proof (cases rule: RunPassForTier_cases)
    case (sweep store blocks hand freed evicted)
    obtain xs where xs: "store = ts_run (nd_store n) xs" "set xs \<subseteq> pass_ops (set evicted)"
      using sieve_loop_run [OF sweep(3)] by auto
    have "\<forall>x\<in>set xs. op_guard B x" using xs(2) by (auto simp: pass_ops_def)
    then have "S store" using assms guard_run xs(1) by (simp add: guarded_def)
    then show ?thesis using assms sweep(4) by (simp add: guarded_def)
  qed (use assms in simp)
  then show ?thesis by (simp add: run)
qed

lemma guarded_links:
  "guarded S B c \<Longrightarrow> guarded S B (OnEvictBroadcast c evicted source)"
  "guarded S B c \<Longrightarrow> guarded S B (EnsurePeerClient c peer address)"
  "guarded S B c \<Longrightarrow> guarded S B (DropPeerClient c peer)"
  "guarded S B c \<Longrightarrow> guarded S B (cache_Start c)"
  "guarded S B c \<Longrightarrow> guarded S B (cache_Shutdown c)"
  by (simp_all add: OnEvictBroadcast_def EnsurePeerClient_def DropPeerClient_def cache_Start_def cache_Shutdown_def)

lemmas guarded_events = guarded_Drain guarded_Heartbeat guarded_tick guarded_Lookup guarded_Insert guarded_FetchLocal
  guarded_Ingest guarded_worker guarded_pass guarded_links

end

lemma node_ok_store: "node_ok payload n \<longleftrightarrow> store_ok payload (nd_store n) \<and> rep_inv (nd_replicator n) \<and>
    (\<forall>t\<in>set (rp_queue (nd_replicator n)). push_ok payload t)"
  by (auto simp: node_ok_def store_ok_def)

lemma node_ok_guarded: "node_ok payload n \<longleftrightarrow> guarded (store_ok payload) (block_ok payload) n"
  by (simp add: node_ok_store guarded_def push_ok_def)

lemma store_ok_step: "store_ok payload ts \<Longrightarrow> op_guard (block_ok payload) x \<Longrightarrow> store_ok payload (ts_step ts x)"
  using ts_run_keeps [of ts payload "[x]"] by (cases x) (simp_all add: store_ok_def ts_run_def block_ok_def)

lemma Get_payload:
  assumes "store_ok payload ts" "ts_Get ts i = (Some got, ts')"
  shows "gr_data got = payload i" "block_ok payload b \<or> kv_id b \<noteq> i \<or> kv_data b \<noteq> gr_data got"
proof -
  have g: "gr_data got = payload i" "tier_probe ts (gr_tier_found got) i = Some (payload i)"
    using ts_Get_exact(2) [of ts payload i "Some got" ts' got] assms by (auto simp: store_ok_def)
  show "gr_data got = payload i" by (rule g)
  have "kv_ok (moved_block i (payload i) DRAM)" using moved_ok [OF _ g(2)] assms(1) by (simp add: store_ok_def)
  then show "block_ok payload b \<or> kv_id b \<noteq> i \<or> kv_data b \<noteq> gr_data got"
    using g(1) by (auto simp: block_ok_def kv_ok_def)
qed

interpretation named: block_guard "store_ok payload" "block_ok payload" for payload
  using store_ok_step Get_payload(2) by unfold_locales blast+

text \<open>
  Without any assumption on which bytes come under which identity, the stores keep their
  invariants and every block keeps its type.
\<close>

lemma store_typed_step: "store_typed ts \<Longrightarrow> op_guard kv_ok x \<Longrightarrow> store_typed (ts_step ts x)"
proof -
  assume ts: "store_typed ts" and x: "op_guard kv_ok x"
  have "\<exists>payload. op_ok payload x"
  proof (cases x)
    case (TPut b hint)
    then show ?thesis using x by (intro exI [of _ "\<lambda>_. kv_data b"]) simp
  qed simp_all
  then show ?thesis using ts ts_step_inv(1) ts_step_books by (auto simp: store_typed_def)
qed

lemma Get_typed:
  assumes "store_typed ts" "ts_Get ts i = (Some got, ts')" "kv_id b = i" "kv_data b = gr_data got"
  shows "kv_ok b"
proof -
  have inv: "ts_inv ts" using assms(1) by (simp add: store_typed_def)
  from inv assms(2) show ?thesis
  proof (cases rule: ts_Get_cases)
    case (hit f d p)
    have "kv_ok (moved_block i (gr_data got) DRAM)"
      using moved_ok [OF inv] ts_find_Some(1) [OF hit(1)] hit by auto
    then show ?thesis using assms(3,4) by (simp add: kv_ok_def)
  qed (use assms(2) in simp_all)
qed

interpretation typed: block_guard store_typed kv_ok
  using store_typed_step Get_typed by unfold_locales blast+

subsection \<open>The handlers\<close>

lemma lookup_one_ok:
  assumes "node_ok payload n" "lookup_one n i = (e, n')"
  shows "node_ok payload n'"
    and "le_id e = i" "le_where e = LocalHit \<Longrightarrow> le_local_data e = payload i"
    and "payload i \<noteq> [] \<Longrightarrow> le_where e =
      (if ts_content (nd_store n) i \<noteq> None then LocalHit
       else if rr_primary (Route (nd_router n) i) \<noteq> [] \<and> rr_primary (Route (nd_router n) i) \<noteq> cc_node_id (nd_cfg n)
       then RemoteHit else Miss)"
    and "le_where e = RemoteHit \<Longrightarrow> le_remote_node e = Some (rr_primary (Route (nd_router n) i))"
    and "ts_content (nd_store n') = ts_content (nd_store n)" "nd_router n' = nd_router n" "nd_cfg n' = nd_cfg n"
    and "nd_replicator n' = nd_replicator n"
proof -
  obtain r st where g: "ts_Get (nd_store n) i = (r, st)" by force
  have so: "store_ok payload (nd_store n)" using assms(1) by (simp add: node_ok_store)
  have n': "n' = n\<lparr>nd_store := st\<rparr>"
    using assms(2) g by (auto simp: lookup_one_def Let_def split: option.splits if_splits)
  show "node_ok payload n'" using assms(1) named.guard_Get [OF so g] by (simp add: n' node_ok_store)
  show "le_id e = i" "le_where e = RemoteHit \<Longrightarrow> le_remote_node e = Some (rr_primary (Route (nd_router n) i))"
    using assms(2) g by (auto simp: lookup_one_def Let_def split: option.splits if_splits)
  show "le_where e = LocalHit \<Longrightarrow> le_local_data e = payload i"
    using assms(2) g Get_payload(1) [OF so] by (auto simp: lookup_one_def Let_def split: option.splits if_splits)
  have ex: "r = None \<longleftrightarrow> ts_content (nd_store n) i = None \<or> payload i = [] \<and> tier_probe (nd_store n) SSD i \<noteq> None"
    "ts_content st = ts_content (nd_store n)"
    using ts_Get_exact(1,3) [OF _ _ g, of payload] so by (auto simp: store_ok_def)
  show "payload i \<noteq> [] \<Longrightarrow> le_where e =
      (if ts_content (nd_store n) i \<noteq> None then LocalHit
       else if rr_primary (Route (nd_router n) i) \<noteq> [] \<and> rr_primary (Route (nd_router n) i) \<noteq> cc_node_id (nd_cfg n)
       then RemoteHit else Miss)"
    using assms(2) g ex(1) by (cases r) (auto simp: lookup_one_def Let_def split: if_splits)
  show "ts_content (nd_store n') = ts_content (nd_store n)" "nd_router n' = nd_router n" "nd_cfg n' = nd_cfg n"
    "nd_replicator n' = nd_replicator n" using ex(2) by (simp_all add: n')
qed

text \<open>The loop of \<open>Lookup\<close>: what it adds to the result so far.\<close>

lemma lookup_loop_ok:
  assumes "node_ok payload n" "lookup_loop ids (r, n) = (r', n')"
  shows "node_ok payload n' \<and> ts_content (nd_store n') = ts_content (nd_store n) \<and> nd_replicator n' = nd_replicator n \<and>
    (\<exists>es. lr_entries r' = lr_entries r @ es \<and> list_all2 (lookup_spec payload n) ids es \<and>
      lr_hit_count r' = lr_hit_count r + of_nat (length (filter (\<lambda>e. le_where e \<noteq> Miss) es)) \<and>
      lr_miss_count r' = lr_miss_count r + of_nat (length (filter (\<lambda>e. le_where e = Miss) es)))"
  using assms
proof (induction ids arbitrary: r n)
  case (Cons i ids)
  obtain e n1 where one: "lookup_one n i = (e, n1)" by force
  note s = lookup_one_ok [OF Cons.prems(1) one]
  define r1 where "r1 = (let r0 = r\<lparr>lr_entries := lr_entries r @ [e]\<rparr> in
    if le_where e = Miss then r0\<lparr>lr_miss_count := lr_miss_count r + 1\<rparr> else r0\<lparr>lr_hit_count := lr_hit_count r + 1\<rparr>)"
  have "lookup_loop ids (r1, n1) = (r', n')" 
    using Cons.prems(2) one by (cases "le_where e = Miss") (simp_all add: r1_def Let_def)
  from Cons.IH [OF s(1) this] obtain es where
    ih: "node_ok payload n'" "ts_content (nd_store n') = ts_content (nd_store n1)" "nd_replicator n' = nd_replicator n1"
      "lr_entries r' = lr_entries r1 @ es" "list_all2 (lookup_spec payload n1) ids es"
      "lr_hit_count r' = lr_hit_count r1 + of_nat (length (filter (\<lambda>e. le_where e \<noteq> Miss) es))"
      "lr_miss_count r' = lr_miss_count r1 + of_nat (length (filter (\<lambda>e. le_where e = Miss) es))" by blast
  have "lookup_spec payload n1 = lookup_spec payload n"
    by (simp add: lookup_spec_def fun_eq_iff s(6-8))
  then have "list_all2 (lookup_spec payload n) (i # ids) (e # es)"
    using ih(5) s(2-5) by (simp add: lookup_spec_def)
  then show ?case
    using ih(1-4,6,7) s(6,9) by (intro conjI exI [of _ "e # es"]) (simp_all add: r1_def Let_def)
qed simp

lemma insert_one_ok:
  assumes "node_ok payload n" "block_ok payload b" "insert_one n b = (ok, n')"
  shows "node_ok payload n'"
    and "ts_content (nd_store n) k \<noteq> None \<Longrightarrow> ts_content (nd_store n') k = ts_content (nd_store n) k"
    and "ts_content (nd_store n') k \<noteq> ts_content (nd_store n) k \<Longrightarrow> k = kv_id b \<and> ts_content (nd_store n') k = Some (payload k)"
    and "ok \<Longrightarrow> ts_content (nd_store n') (kv_id b) = Some (kv_data b)"
proof -
  obtain landed st where p: "ts_Put (nd_store n) b (kv_tier b) = (landed, st)" by force
  let ?n1 = "n\<lparr>nd_store := st\<rparr>"
  have so: "store_ok payload (nd_store n)" using assms(1) by (simp add: node_ok_store)
  have n1: "node_ok payload ?n1" using assms(1) named.guard_Put [OF so assms(2) p] by (simp add: node_ok_store)
  have n': "n' = ?n1 \<and> \<not> ok \<or> n' = snd (ReplicateOut ?n1 b) \<and> ok \<and> landed \<noteq> None"
    using assms(3) p by (auto simp: insert_one_def Let_def split: if_splits)
  then show "node_ok payload n'" using n1 named.guarded_ReplicateOut [OF _ assms(2), of ?n1] node_ok_guarded by auto
  have st': "nd_store n' = st" using n' by (auto simp: ReplicateOut_def Let_def)
  have ref: "ts_content st = content_step (landed \<noteq> None) (OpPut b) (ts_content (nd_store n))"
    using ts_step_refines [of "nd_store n" payload "TPut b (kv_tier b)"] so assms(2) p
    by (simp add: store_ok_def block_ok_def)
  show "ts_content (nd_store n) k \<noteq> None \<Longrightarrow> ts_content (nd_store n') k = ts_content (nd_store n) k"
    "ts_content (nd_store n') k \<noteq> ts_content (nd_store n) k \<Longrightarrow> k = kv_id b \<and> ts_content (nd_store n') k = Some (payload k)"
    unfolding st' ref using assms(2) by (auto simp: block_ok_def split: if_splits)
  show "ts_content (nd_store n') (kv_id b) = Some (kv_data b)" if ok
  proof -
    have "landed \<noteq> None" using n' that by auto
    show ?thesis
    proof (cases "ts_content (nd_store n) (kv_id b)")
      case None
      then show ?thesis unfolding st' ref using \<open>landed \<noteq> None\<close> by simp
    next
      case (Some d)
      then have "d = payload (kv_id b)"
        using so ts_content_SomeD [OF Some] by (auto simp: store_ok_def coherent_def)
      then show ?thesis unfolding st' ref using Some assms(2) by (simp add: block_ok_def)
    qed
  qed
qed

lemma insert_loop_ok:
  assumes "node_ok payload n" "\<forall>b\<in>set blocks. block_ok payload b" "insert_loop blocks (a, n) = (a', n')"
  shows "node_ok payload n' \<and>
    (\<forall>k. ts_content (nd_store n) k \<noteq> None \<longrightarrow> ts_content (nd_store n') k = ts_content (nd_store n) k) \<and>
    (\<forall>k. ts_content (nd_store n') k \<noteq> ts_content (nd_store n) k \<longrightarrow>
      k \<in> kv_id ` set blocks \<and> ts_content (nd_store n') k = Some (payload k)) \<and>
    (\<exists>m\<le>length blocks. a' = a + of_nat m \<and>
      (m = length blocks \<longrightarrow> (\<forall>b\<in>set blocks. ts_content (nd_store n') (kv_id b) = Some (kv_data b))))"
  using assms
proof (induction blocks arbitrary: a n)
  case Nil
  then show ?case by (intro conjI exI [of _ 0]) simp_all
next
  case (Cons b blocks)
  obtain ok n1 where one: "insert_one n b = (ok, n1)" by force
  have b: "block_ok payload b" "\<forall>b\<in>set blocks. block_ok payload b" using Cons.prems(2) by simp_all
  note s = insert_one_ok [OF Cons.prems(1) b(1) one]
  have rest: "insert_loop blocks (if ok then a + 1 else a, n1) = (a', n')" using Cons.prems(3) one by simp
  note ih = Cons.IH [OF s(1) b(2) rest]
  have keep: "ts_content (nd_store n1) k \<noteq> None \<Longrightarrow> ts_content (nd_store n') k = ts_content (nd_store n1) k" for k using ih by blast
  have new: "k \<in> kv_id ` set blocks \<and> ts_content (nd_store n') k = Some (payload k)"
    if "ts_content (nd_store n') k \<noteq> ts_content (nd_store n1) k" for k using ih that by blast
  obtain m where m: "m \<le> length blocks" "a' = (if ok then a + 1 else a) + of_nat m"
    "m = length blocks \<longrightarrow> (\<forall>b\<in>set blocks. ts_content (nd_store n') (kv_id b) = Some (kv_data b))" using ih by blast
  have "ts_content (nd_store n) k \<noteq> None \<longrightarrow> ts_content (nd_store n') k = ts_content (nd_store n) k" for k
    using s(2) [of k] keep [of k] by metis
  moreover have "ts_content (nd_store n') k \<noteq> ts_content (nd_store n) k \<longrightarrow>
      k \<in> kv_id ` set (b # blocks) \<and> ts_content (nd_store n') k = Some (payload k)" for k
    using s(3) [of k] keep [of k] new [of k] by (metis image_insert insertCI list.simps(15) option.distinct(1))
  moreover have "\<exists>m\<le>length (b # blocks). a' = a + of_nat m \<and>
      (m = length (b # blocks) \<longrightarrow> (\<forall>b\<in>set (b # blocks). ts_content (nd_store n') (kv_id b) = Some (kv_data b)))"
  proof (cases ok)
    case True
    have "ts_content (nd_store n') (kv_id b) = Some (kv_data b)"
      using s(4) [OF True] keep [of "kv_id b"] by simp
    then show ?thesis using m True by (intro exI [of _ "Suc m"]) simp
  next
    case False
    then show ?thesis using m by (intro exI [of _ m]) simp
  qed
  ultimately show ?case using ih by blast
qed

lemma foldl_EnsurePeerClient:
  "nd_store (foldl (\<lambda>n p. EnsurePeerClient n (sp_node_id p) (sp_address p)) n ps) = nd_store n \<and>
   nd_replicator (foldl (\<lambda>n p. EnsurePeerClient n (sp_node_id p) (sp_address p)) n ps) = nd_replicator n \<and>
   nd_router (foldl (\<lambda>n p. EnsurePeerClient n (sp_node_id p) (sp_address p)) n ps) = nd_router n \<and>
   nd_membership (foldl (\<lambda>n p. EnsurePeerClient n (sp_node_id p) (sp_address p)) n ps) = nd_membership n \<and>
   (rp_transport (nd_replicator n) \<longrightarrow>
     nd_transport (foldl (\<lambda>n p. EnsurePeerClient n (sp_node_id p) (sp_address p)) n ps) =
     foldl (\<lambda>t (p, a). kt_Connect t p a) (nd_transport n) (map (\<lambda>p. (sp_node_id p, sp_address p)) ps))"
  by (induction ps arbitrary: n) (simp_all add: EnsurePeerClient_def)

lemma cache_new_parts:
  assumes "cache_new E now is_directory file_bytes env rdma cfg = Inr n"
  shows "ts_new is_directory file_bytes env (tiered_config cfg) = Inr (nd_store n)"
    "nd_replicator n = replicator_new (cc_node_id cfg) True True True"
    "nd_router n = SetPeers (en_sort E) (en_blake3 E)
      (router_new (cc_node_id cfg) (cc_virtual_nodes_per_peer cfg) (cc_replication_factor cfg)) (ring_members cfg)"
    "nd_membership n = membership_new now default_config (cc_node_id cfg) (cc_seed_peers cfg) True True"
    "nd_transport n = foldl (\<lambda>t (p, a). kt_Connect t p a) (case rdma of None \<Rightarrow> Grpc grpc_new | Some t \<Rightarrow> Ibverbs t)
      (map (\<lambda>p. (sp_node_id p, sp_address p)) (filter (\<lambda>p. sp_node_id p \<noteq> cc_node_id cfg) (cc_seed_peers cfg)))"
  using assms
  by (auto simp: cache_new_def Let_def foldl_EnsurePeerClient replicator_new_def split: sum.splits)

lemma node_ok_new:
  assumes "cfg_ok (tiered_config cfg)" "cache_new E now is_directory (\<lambda>_. []) env_ok rdma cfg = Inr n"
  shows "node_ok payload n"
proof -
  note st = fresh_store(1,3) [OF assms(1) cache_new_parts(1) [OF assms(2)]]
    fresh_store(2) [OF assms(1) cache_new_parts(1) [OF assms(2)], of payload]
  show ?thesis
    using st cache_new_parts(2) [OF assms(2)] by (simp add: node_ok_def rep_inv_def replicator_new_def)
qed

lemma node_ok_cache_step:
  assumes "cache_step payload E n n'" "node_ok payload n"
  shows "node_ok payload n'"
  using assms(1)
proof cases
  case (ingest i)
  then show ?thesis
    using assms(2) named.guarded_Ingest [of payload n i] by (simp add: node_ok_guarded block_ok_def kv_ok_def)
qed (use assms(2) named.guarded_events in \<open>auto simp: node_ok_guarded\<close>)

lemma node_ok_reachable:
  assumes "(cache_step payload E)\<^sup>*\<^sup>* n n'" "node_ok payload n"
  shows "node_ok payload n'"
  using assms by (induction rule: rtranclp_induct) (auto intro: node_ok_cache_step)

section \<open>Properties\<close>

text \<open>
  Integrity of a node.  Start a node on an empty store and let requests, the heartbeat and sweep
  threads, the replication workers and the eviction passes interleave in any order; as long as
  inserted and streamed blocks carry the bytes their identities name, every local hit of a
  lookup and every answer of a fetch has exactly those bytes, every queued push carries them,
  and no tier and no queue exceeds its bound.
\<close>

theorem cache_integrity:
  assumes "cfg_ok (tiered_config cfg)" "cache_new E now is_directory (\<lambda>_. []) env_ok rdma cfg = Inr n0"
    and "(cache_step payload E)\<^sup>*\<^sup>* n0 n"
  shows "(\<forall>e\<in>set (lr_entries (fst (Lookup n ids))). le_where e = LocalHit \<longrightarrow> le_local_data e = payload (le_id e)) \<and>
    (\<forall>d t. fst (FetchLocal n i) = Some (d, t) \<longrightarrow> d = payload i) \<and>
    (\<forall>t\<in>set (rp_queue (nd_replicator n)). kv_data (tk_block t) = payload (kv_id (tk_block t))) \<and>
    length (rp_queue (nd_replicator n)) \<le> kReplicationQueueMax \<and>
    (\<forall>t. ts_used_bytes (nd_store n) t \<le> ts_capacity_bytes (nd_store n) t)"
proof -
  have ok: "node_ok payload n" using node_ok_reachable [OF assms(3) node_ok_new [OF assms(1,2)]] .
  then have so: "store_ok payload (nd_store n)" by (simp add: node_ok_store)
  obtain r n' where lk: "lookup_loop ids (\<lparr>lr_entries = [], lr_hit_count = 0, lr_miss_count = 0\<rparr>, n) = (r, n')" by force
  obtain es where "lr_entries r = es" "list_all2 (lookup_spec payload n) ids es"
    using lookup_loop_ok [OF ok lk] by auto
  then have "\<forall>e\<in>set (lr_entries r). le_where e = LocalHit \<longrightarrow> le_local_data e = payload (le_id e)"
    by (auto simp: list_all2_conv_all_nth lookup_spec_def in_set_conv_nth)
  moreover have "fst (FetchLocal n i) = Some (d, t) \<longrightarrow> d = payload i" for d t
    using Get_payload(1) [OF so] by (auto simp: FetchLocal_def split: prod.splits option.splits)
  moreover have "ts_used_bytes (nd_store n) t \<le> ts_capacity_bytes (nd_store n) t" for t
    using tier.used_capacity [of "nd_store n" t] so by (simp add: store_ok_def)
  ultimately show ?thesis
    using ok lk by (auto simp: Lookup_def node_ok_store push_ok_def block_ok_def rep_inv_def)
qed

lemma sample_block_tier [simp]: "kv_tier (sample_block k d) = DRAM"
  by (simp add: sample_block_def)

lemma sample_cache:
  obtains n0 where "cache_new sample_env 0 (\<lambda>_. False) (\<lambda>_. []) env_ok None sample_cache_cfg = Inr n0"
    "nd_store n0 = \<lparr>ts_cfg = tiered_config sample_cache_cfg, ts_hbm = None, ts_dram = Some (bs_new DRAM 64), ts_ssd = None,
       ts_access_counts = (\<lambda>_. None), ts_visited = {}\<rparr>" "node_ok payload n0"
proof -
  have cfg: "cfg_ok (tiered_config sample_cache_cfg)" 
    by (simp add: cfg_ok_def tiered_config_def sample_cache_cfg_def default_cache_config_def)
  have "\<exists>n0. cache_new sample_env 0 (\<lambda>_. False) (\<lambda>_. []) env_ok None sample_cache_cfg = Inr n0 \<and>
      nd_store n0 = \<lparr>ts_cfg = tiered_config sample_cache_cfg, ts_hbm = None, ts_dram = Some (bs_new DRAM 64), ts_ssd = None,
        ts_access_counts = (\<lambda>_. None), ts_visited = {}\<rparr>"
    by (simp add: cache_new_def ts_new_def tiered_config_def sample_cache_cfg_def default_cache_config_def Let_def
        EnsurePeerClient_def replicator_new_def)
  then show thesis using that node_ok_new [OF cfg] by blast
qed

theorem cache_integrity_witness:
  "\<exists>n0 d t. cache_new sample_env 0 (\<lambda>_. False) (\<lambda>_. []) env_ok None sample_cache_cfg = Inr n0 \<and>
     fst (FetchLocal (snd (Insert n0 [sample_block 1 [7, 8]])) (sample_id 1)) = Some (d, t) \<and> d = [7, 8]"
proof -
  obtain n0 where n0: "cache_new sample_env 0 (\<lambda>_. False) (\<lambda>_. []) env_ok None sample_cache_cfg = Inr n0"
    "nd_store n0 = \<lparr>ts_cfg = tiered_config sample_cache_cfg, ts_hbm = None, ts_dram = Some (bs_new DRAM 64), ts_ssd = None,
       ts_access_counts = (\<lambda>_. None), ts_visited = {}\<rparr>" by (rule sample_cache)
  have cfg: "cfg_ok (tiered_config sample_cache_cfg)" 
    by (simp add: cfg_ok_def tiered_config_def sample_cache_cfg_def default_cache_config_def)
  have "cache_step (\<lambda>_. [7, 8]) sample_env n0 (snd (Insert n0 [sample_block 1 [7, 8]]))"
    by (rule cache_step.insert) (simp add: block_ok_def)
  note safe = cache_integrity [OF cfg n0(1) r_into_rtranclp [of "cache_step (\<lambda>_. [7, 8]) sample_env", OF this]]
  have "fst (FetchLocal (snd (Insert n0 [sample_block 1 [7, 8]])) (sample_id 1)) \<noteq> None"
    by (simp add: FetchLocal_def Insert_def insert_one_def Let_def n0(2) sample_eval total_used_def ReplicateOut_def)
  then obtain d t where got: "fst (FetchLocal (snd (Insert n0 [sample_block 1 [7, 8]])) (sample_id 1)) = Some (d, t)" by auto
  then have "d = [7, 8]" using safe [of "[]" "sample_id 1"] by blast
  then show ?thesis using n0(1) got by blast
qed

text \<open>
  C25. What a lookup reports.  There is one entry per requested block, in order; for a block with a
  payload the entry is a local hit with its bytes exactly when the node holds it, else it points
  at the primary when that is another node, else it is a miss; hits and misses add up to the
  number of blocks, and the lookup changes neither the content of the store nor the queue.
\<close>

theorem Lookup_exact:
  assumes "node_ok payload n" "Lookup n ids = (r, n')"
  shows "map le_id (lr_entries r) = ids \<and>
    (\<forall>e\<in>set (lr_entries r). payload (le_id e) \<noteq> [] \<longrightarrow>
      (case le_where e of
         LocalHit \<Rightarrow> ts_content (nd_store n) (le_id e) \<noteq> None \<and> le_local_data e = payload (le_id e)
       | RemoteHit \<Rightarrow> ts_content (nd_store n) (le_id e) = None \<and>
           le_remote_node e = Some (rr_primary (Route (nd_router n) (le_id e))) \<and>
           rr_primary (Route (nd_router n) (le_id e)) \<notin> {[], cc_node_id (nd_cfg n)}
       | Miss \<Rightarrow> ts_content (nd_store n) (le_id e) = None \<and>
           rr_primary (Route (nd_router n) (le_id e)) \<in> {[], cc_node_id (nd_cfg n)})) \<and>
    lr_hit_count r + lr_miss_count r = of_nat (length ids) \<and>
    ts_content (nd_store n') = ts_content (nd_store n) \<and> nd_replicator n' = nd_replicator n"
proof -
  obtain es where es: "lr_entries r = es" "list_all2 (lookup_spec payload n) ids es"
    "lr_hit_count r = of_nat (length (filter (\<lambda>e. le_where e \<noteq> Miss) es))"
    "lr_miss_count r = of_nat (length (filter (\<lambda>e. le_where e = Miss) es))"
    and keep: "ts_content (nd_store n') = ts_content (nd_store n)" "nd_replicator n' = nd_replicator n"
    using lookup_loop_ok [OF assms(1) assms(2) [unfolded Lookup_def]] by auto
  have ids: "map le_id es = ids" using es(2)
    by (auto simp: list_all2_conv_all_nth lookup_spec_def intro: nth_equalityI)
  have spec: "lookup_spec payload n (le_id e) e" if "e \<in> set es" for e
    using es(2) that by (auto simp: list_all2_conv_all_nth in_set_conv_nth lookup_spec_def)
  have "length (filter (\<lambda>e. le_where e \<noteq> Miss) es) + length (filter (\<lambda>e. le_where e = Miss) es) = length es"
    using sum_length_filter_compl [of "\<lambda>e. le_where e \<noteq> Miss" es] by simp
  moreover have "length es = length ids" using ids by (metis length_map)
  ultimately have "lr_hit_count r + lr_miss_count r = of_nat (length ids)"
    unfolding es(3,4) by (metis of_nat_add)
  then show ?thesis
    using ids es(1) keep spec by (auto simp: lookup_spec_def split: Where.splits if_splits)
qed

theorem Lookup_exact_witness:
  "\<exists>n0. cache_new sample_env 0 (\<lambda>_. False) (\<lambda>_. []) env_ok None sample_cache_cfg = Inr n0 \<and>
     map le_id (lr_entries (fst (Lookup n0 [sample_id 1, sample_id 2]))) = [sample_id 1, sample_id 2] \<and>
     lr_hit_count (fst (Lookup n0 [sample_id 1, sample_id 2])) + lr_miss_count (fst (Lookup n0 [sample_id 1, sample_id 2])) = 2"
proof -
  obtain n0 where n0: "cache_new sample_env 0 (\<lambda>_. False) (\<lambda>_. []) env_ok None sample_cache_cfg = Inr n0"
    "node_ok (\<lambda>_. [7]) n0" by (rule sample_cache)
  from Lookup_exact [OF n0(2) prod.collapse [symmetric], of "[sample_id 1, sample_id 2]"] n0(1)
  show ?thesis by auto
qed

text \<open>
  C26. What an insert acknowledges.  It never removes or changes a block, adds only blocks of the
  request, with their bytes, counts at most one per block, and when it reports all of them as
  accepted, all of them are resident.
\<close>

theorem Insert_acknowledged:
  assumes "node_ok payload n" "\<forall>b\<in>set blocks. block_ok payload b" "length blocks < 2 ^ 32"
    and "Insert n blocks = (accepted, n')"
  shows "(\<forall>k. ts_content (nd_store n) k \<noteq> None \<longrightarrow> ts_content (nd_store n') k = ts_content (nd_store n) k) \<and>
    (\<forall>k. ts_content (nd_store n') k \<noteq> ts_content (nd_store n) k \<longrightarrow>
      k \<in> kv_id ` set blocks \<and> ts_content (nd_store n') k = Some (payload k)) \<and>
    unat accepted \<le> length blocks \<and>
    (unat accepted = length blocks \<longrightarrow> (\<forall>b\<in>set blocks. ts_content (nd_store n') (kv_id b) = Some (kv_data b)))"
proof -
  note l = insert_loop_ok [OF assms(1,2) assms(4) [unfolded Insert_def]]
  obtain m where m: "m \<le> length blocks" "accepted = of_nat m"
    "m = length blocks \<longrightarrow> (\<forall>b\<in>set blocks. ts_content (nd_store n') (kv_id b) = Some (kv_data b))" using l by auto
  have "unat accepted = m" unfolding m(2) by (rule u32_of_nat) (use m(1) assms(3) in simp)
  then show ?thesis using l m(1,3) by auto
qed

theorem Insert_acknowledged_witness:
  "\<exists>n0 n'. cache_new sample_env 0 (\<lambda>_. False) (\<lambda>_. []) env_ok None sample_cache_cfg = Inr n0 \<and>
     Insert n0 [sample_block 1 [7, 8]] = (1, n') \<and> ts_content (nd_store n') (sample_id 1) = Some [7, 8]"
proof -
  obtain n0 where n0: "cache_new sample_env 0 (\<lambda>_. False) (\<lambda>_. []) env_ok None sample_cache_cfg = Inr n0"
    "nd_store n0 = \<lparr>ts_cfg = tiered_config sample_cache_cfg, ts_hbm = None, ts_dram = Some (bs_new DRAM 64), ts_ssd = None,
       ts_access_counts = (\<lambda>_. None), ts_visited = {}\<rparr>" "node_ok (\<lambda>_. [7, 8]) n0" by (rule sample_cache)
  have one: "fst (Insert n0 [sample_block 1 [7, 8]]) = 1"
    by (simp add: Insert_def insert_one_def Let_def n0(2) sample_eval total_used_def ts_used_bytes_def opt_size_def)
  have "ts_content (nd_store (snd (Insert n0 [sample_block 1 [7, 8]]))) (sample_id 1) = Some [7, 8]"
    using Insert_acknowledged [OF n0(3) _ _ prod.collapse [symmetric], of "[sample_block 1 [7, 8]]"] one
    by (simp add: block_ok_def)
  then show ?thesis using n0(1) one by (metis prod.collapse)
qed

text \<open>
  A node is ready when it is constructed: for distinct seed peers other than the node itself,
  the ring holds the node and its seeds, the membership believes exactly the seeds alive, the
  transport is connected to exactly the seeds, and the queue is empty.
\<close>

theorem cache_new_ready:
  assumes "distinct (map sp_node_id (cc_seed_peers cfg))" "cc_node_id cfg \<notin> set (map sp_node_id (cc_seed_peers cfg))"
    and "cache_new E now is_directory file_bytes env None cfg = Inr n"
  shows "member_inv n \<and> alive_set (nd_membership n) = set (map sp_node_id (cc_seed_peers cfg)) \<and>
    rt_peers (nd_router n) = cc_node_id cfg # map sp_node_id (cc_seed_peers cfg) \<and>
    (\<forall>p. kt_connected (nd_transport n) p \<longleftrightarrow> p \<in> set (map sp_node_id (cc_seed_peers cfg))) \<and>
    rp_queue (nd_replicator n) = [] \<and> wired (nd_replicator n)"
proof -
  note parts = cache_new_parts [OF assms(3)]
  note mb = membership_new_peers [OF assms(1,2), of now default_config True True]
  have local: "mb_local_node_id (nd_membership n) = cc_node_id cfg" "mb_router (nd_membership n)"
    by (simp_all add: parts(4) membership_new_def)
  have all: "filter (\<lambda>p. sp_node_id p \<noteq> cc_node_id cfg) (cc_seed_peers cfg) = cc_seed_peers cfg"
    "filter (\<lambda>p. p \<noteq> cc_node_id cfg) (map sp_node_id (cc_seed_peers cfg)) = map sp_node_id (cc_seed_peers cfg)"
    using assms(2) by (force intro!: filter_True)+
  have ring: "rt_peers (nd_router n) = cc_node_id cfg # map sp_node_id (cc_seed_peers cfg)"
    by (simp add: parts(3) SetPeers_def ring_members_def all(2))
  have "member_inv n"
    using mb assms(1,2) local ring unfolding member_inv_def ring_in_sync_def by (simp add: parts(4))
  moreover have "kt_connected (nd_transport n) p \<longleftrightarrow> p \<in> set (map sp_node_id (cc_seed_peers cfg))" for p
    unfolding parts(5) all(1) kt.connect_all_connected by (auto simp: stub_for_def grpc_new_def image_image)
  ultimately show ?thesis
    using mb(2) ring by (simp add: parts(2,4) replicator_new_def wired_def)
qed

theorem cache_new_ready_witness:
  "\<exists>n0. cache_new sample_env 0 (\<lambda>_. False) (\<lambda>_. []) env_ok None sample_cache_cfg = Inr n0 \<and>
     rt_peers (nd_router n0) = [''a'', ''b''] \<and> alive_set (nd_membership n0) = {''b''}"
proof -
  obtain n0 where n0: "cache_new sample_env 0 (\<lambda>_. False) (\<lambda>_. []) env_ok None sample_cache_cfg = Inr n0"
    by (rule sample_cache)
  from cache_new_ready [OF _ _ n0] n0 show ?thesis by (simp add: sample_cache_cfg_def)
qed

end
