(* ===== verification/Service.thy ===== *)
theory Service
  imports Cache
begin

text \<open>
  The server process of \<open>cache_server/src/main.cpp\<close>: the command line, the parser of the peer list,
  and the gRPC service that translates requests into calls of the facade.  A handler takes the
  node and the request message and returns the response message and the node.  Message fields that
  no handler and no sender of the server reads are left out, except the two that would say
  how the chunks of a streamed block fit together.
\<close>

section \<open>Definitions\<close>

subsection \<open>The service\<close>

record LookupRequest =
  lq_block_ids :: "PbBlockId list"
  lq_request_id :: string
  lq_requesting_node :: string

record BlockHit =
  bh_id :: PbBlockId
  bh_source_node :: string
  bh_tier :: u32

record LookupResponse =
  ls_hits :: "BlockHit list"
  ls_misses :: "PbBlockId list"

record BlockChunk =
  ck_id :: PbBlockId
  ck_payload :: "byte list"
  ck_offset :: u64
  ck_last :: bool

record StreamAck =
  sa_received_count :: u32
  sa_total_bytes :: u64

record HeartbeatRequest =
  hq_node_id :: string
  hq_epoch :: u64

record HeartbeatResponse =
  hs_alive_peers :: "PeerStatus list"
  hs_cluster_epoch :: u64

record PbEvictBroadcast =
  pe_evicted :: "PbBlockId list"
  pe_source_node :: string

definition answer_entry :: "string \<Rightarrow> LookupEntry \<Rightarrow> LookupResponse \<Rightarrow> LookupResponse" where
  "answer_entry node_id e resp =
     (case le_where e of
        LocalHit \<Rightarrow> resp\<lparr>ls_hits := ls_hits resp @
          [\<lparr>bh_id = BlockIdToProto (le_id e), bh_source_node = node_id, bh_tier = tier_code (le_tier e)\<rparr>]\<rparr>
      | RemoteHit \<Rightarrow> resp\<lparr>ls_hits := ls_hits resp @
          [\<lparr>bh_id = BlockIdToProto (le_id e),
            bh_source_node = (case le_remote_node e of None \<Rightarrow> [] | Some p \<Rightarrow> p), bh_tier = tier_code (le_tier e)\<rparr>]\<rparr>
      | Miss \<Rightarrow> resp\<lparr>ls_misses := ls_misses resp @ [BlockIdToProto (le_id e)]\<rparr>)"

definition svc_Lookup :: "'a Cache_Node_scheme \<Rightarrow> LookupRequest \<Rightarrow> LookupResponse \<times> 'a Cache_Node_scheme" where
  "svc_Lookup n req =
     (let (result, n1) = Lookup n (map BlockIdFromProto (lq_block_ids req))
      in (fold (answer_entry (cc_node_id (nd_cfg n))) (lr_entries result) \<lparr>ls_hits = [], ls_misses = []\<rparr>, n1))"

definition tier_of_hint :: "u32 \<Rightarrow> Tier" where
  "tier_of_hint raw_hint = (if raw_hint = 0 then HBM else if raw_hint = 1 then DRAM else if raw_hint = 2 then SSD else DRAM)"

definition block_of_proto :: "PbBlock \<Rightarrow> KvBlock" where
  "block_of_proto b =
     \<lparr>kv_id = BlockIdFromProto (bl_id b), kv_data = bl_kv_data b, kv_tier = tier_of_hint (bl_tier_hint b), kv_inserted_epoch = 0\<rparr>"

definition svc_Insert :: "'a Cache_Node_scheme \<Rightarrow> InsertRequest \<Rightarrow> InsertResponse \<times> 'a Cache_Node_scheme" where
  "svc_Insert n req =
     (let (accepted, n1) = Insert n (map block_of_proto (ir_blocks req))
      in (\<lparr>is_accepted_count = accepted, is_rejected_count = of_nat (length (ir_blocks req)) - accepted\<rparr>, n1))"

definition svc_Fetch :: "'a Cache_Node_scheme \<Rightarrow> FetchRequest \<Rightarrow> FetchResponse \<times> 'a Cache_Node_scheme" where
  "svc_Fetch n req =
     (let i = BlockIdFromProto (fq_id req)
      in case FetchLocal n i of
           (Some (d, t), n1) \<Rightarrow>
             (\<lparr>fs_id = BlockIdToProto i, fs_kv_data = d, fs_found = True, fs_tier = tier_code t\<rparr>, n1)
         | (None, n1) \<Rightarrow> (\<lparr>fs_id = BlockIdToProto i, fs_kv_data = [], fs_found = False, fs_tier = 0\<rparr>, n1))"

fun svc_StreamBlocks :: "BlockChunk list \<Rightarrow> StreamAck \<times> 'a Cache_Node_scheme \<Rightarrow> StreamAck \<times> 'a Cache_Node_scheme" where
  "svc_StreamBlocks [] st = st"
| "svc_StreamBlocks (chunk # chunks) (ack, n) =
     svc_StreamBlocks chunks
       (ack\<lparr>sa_received_count := sa_received_count ack + 1,
            sa_total_bytes := sa_total_bytes ack + of_nat (length (ck_payload chunk))\<rparr>,
        IngestStreamedBlock n (BlockIdFromProto (ck_id chunk)) (ck_payload chunk))"

definition svc_Heartbeat ::
  "Env \<Rightarrow> int \<Rightarrow> 'a Cache_Node_scheme \<Rightarrow> HeartbeatRequest \<Rightarrow> HeartbeatResponse \<times> 'a Cache_Node_scheme" where
  "svc_Heartbeat E now n req =
     (let (reply, n1) = OnHeartbeat E now n (hq_node_id req) (hq_epoch req)
      in (\<lparr>hs_alive_peers = hr_alive_peers reply, hs_cluster_epoch = hr_cluster_epoch reply\<rparr>, n1))"

definition svc_EvictBroadcast ::
  "'a Cache_Node_scheme \<Rightarrow> PbEvictBroadcast \<Rightarrow> bool \<times> 'a Cache_Node_scheme" where
  "svc_EvictBroadcast n req =
     (True, OnEvictBroadcast n (map BlockIdFromProto (pe_evicted req)) (pe_source_node req))"

subsection \<open>The command line\<close>

definition parse_peer :: "string \<Rightarrow> string \<Rightarrow> StaticPeer option" where
  "parse_peer local_node_id item =
     (if item = [] then None
      else
        case find_char CHR ''@'' item of
          None \<Rightarrow> None
        | Some at \<Rightarrow>
            if take at item = local_node_id then None
            else Some \<lparr>sp_node_id = take at item, sp_address = drop (at + 1) item\<rparr>)"

definition ParsePeerList :: "string \<Rightarrow> string \<Rightarrow> StaticPeer list" where
  "ParsePeerList spec local_node_id =
     (if spec = [] then [] else List.map_filter (parse_peer local_node_id) (getline_items CHR '','' spec))"

fun peers_arg :: "string list \<Rightarrow> string \<Rightarrow> string" where
  "peers_arg [] spec = spec"
| "peers_arg [a] spec = (if take 8 a = ''--peers='' then drop 8 a else spec)"
| "peers_arg (a # b # rest) spec =
     (if a = ''--peers'' then peers_arg rest b
      else if take 8 a = ''--peers='' then peers_arg (b # rest) (drop 8 a)
      else peers_arg (b # rest) spec)"

text \<open>
  The configuration that \<open>main\<close> builds from its arguments, without the program name, and from the two
  environment variables; \<open>None\<close> is an exception of \<open>stoi\<close>.
\<close>

definition main_config :: "string list \<Rightarrow> string option \<Rightarrow> string option \<Rightarrow> CacheConfig option" where
  "main_config args dram_env ssd_env =
     (let node_id = (case args of [] \<Rightarrow> ''node0'' | a # _ \<Rightarrow> a);
          port = (if length args > 1 then map_option word_of_int (stoi (args ! 1)) else Some (cc_grpc_port default_cache_config));
          dram = (case dram_env of None \<Rightarrow> 2 ^ 30 | Some d \<Rightarrow> if strtoull d \<noteq> 0 then unat (strtoull d) else 2 ^ 30);
          ssd = (case ssd_env of None \<Rightarrow> 256 * 2 ^ 20 | Some s \<Rightarrow> if strtoull s \<noteq> 0 then unat (strtoull s) else 256 * 2 ^ 20)
      in case port of
           None \<Rightarrow> None
         | Some p \<Rightarrow>
             Some (default_cache_config\<lparr>cc_node_id := node_id, cc_grpc_port := p,
               cc_seed_peers := ParsePeerList (peers_arg (drop 2 args) []) node_id,
               cc_dram_bytes := dram, cc_ssd_bytes := ssd, cc_ssd_path := ''/tmp/lethe-'' @ node_id @ ''/ssd''\<rparr>))"

text \<open>How a peer is written on the command line.\<close>

definition print_peer :: "StaticPeer \<Rightarrow> string" where
  "print_peer p = sp_node_id p @ CHR ''@'' # sp_address p"

text \<open>A block of a request carries the bytes its identity names.\<close>

definition request_ok :: "(BlockId \<Rightarrow> byte list) \<Rightarrow> PbBlockId \<Rightarrow> byte list \<Rightarrow> bool" where
  "request_ok payload i d \<longleftrightarrow> d = payload (BlockIdFromProto i) \<and> length d \<le> vector_max"

section \<open>Lemmas\<close>

lemma parse_print_peer:
  "CHR ''@'' \<notin> set (sp_node_id p) \<Longrightarrow> parse_peer local (print_peer p) = (if sp_node_id p = local then None else Some p)"
  by (simp add: parse_peer_def print_peer_def find_char_append)

lemma map_filter_print:
  assumes "\<forall>p\<in>set peers. CHR ''@'' \<notin> set (sp_node_id p)"
  shows "List.map_filter (parse_peer local) (map print_peer peers) = filter (\<lambda>p. sp_node_id p \<noteq> local) peers"
  using assms by (induction peers) (simp_all add: parse_print_peer map_filter_simps)

lemma map_filter_not_local: "p \<in> set (List.map_filter (parse_peer local) items) \<Longrightarrow> sp_node_id p \<noteq> local"
  by (auto simp: List.map_filter_def parse_peer_def split: if_splits option.splits)

lemma main_config_peers:
  assumes "main_config args d s = Some cfg"
  shows "cc_node_id cfg \<notin> set (map sp_node_id (cc_seed_peers cfg))"
  using assms by (auto simp: main_config_def ParsePeerList_def Let_def dest: map_filter_not_local split: option.splits if_splits)

text \<open>A push over gRPC reaches the facade as the block that was pushed.\<close>

lemma tier_of_code [simp]: "tier_of_hint (tier_code t) = t"
  by (cases t) (simp_all add: tier_of_hint_def tier_code_def tier_rank_def)

lemma svc_Insert_push:
  assumes "id_ok i"
  shows "svc_Insert n (push_request i d) =
    (let (accepted, n1) = Insert n [\<lparr>kv_id = i, kv_data = d, kv_tier = DRAM, kv_inserted_epoch = 0\<rparr>]
     in (\<lparr>is_accepted_count = accepted, is_rejected_count = 1 - accepted\<rparr>, n1))"
  by (simp add: svc_Insert_def push_request_def block_of_proto_def BlockId_proto_inverse [OF assms])

text \<open>Every handler is an event of the node, or a sequence of them.\<close>

lemma svc_Lookup_step: "cache_step payload E n (snd (svc_Lookup n req))"
  using cache_step.lookup [of payload E n "map BlockIdFromProto (lq_block_ids req)"]
  by (auto simp: svc_Lookup_def split: prod.splits)

lemma svc_Insert_step:
  assumes "\<forall>b\<in>set (ir_blocks req). request_ok payload (bl_id b) (bl_kv_data b)"
  shows "cache_step payload E n (snd (svc_Insert n req))"
proof -
  have "\<forall>b\<in>set (map block_of_proto (ir_blocks req)). block_ok payload b"
    using assms by (auto simp: block_of_proto_def block_ok_def kv_ok_def request_ok_def BlockIdFromProto_ok)
  from cache_step.insert [OF this, of E n] show ?thesis by (auto simp: svc_Insert_def split: prod.splits)
qed

lemma svc_Fetch_step: "cache_step payload E n (snd (svc_Fetch n req))"
  using cache_step.fetch [of payload E n "BlockIdFromProto (fq_id req)"]
  by (auto simp: svc_Fetch_def Let_def split: prod.splits option.splits)

lemma svc_StreamBlocks_steps:
  assumes "\<forall>c\<in>set chunks. request_ok payload (ck_id c) (ck_payload c)"
  shows "(cache_step payload E)\<^sup>*\<^sup>* n (snd (svc_StreamBlocks chunks (ack, n)))"
  using assms
proof (induction chunks arbitrary: ack n)
  case (Cons c chunks)
  have "cache_step payload E n (IngestStreamedBlock n (BlockIdFromProto (ck_id c)) (payload (BlockIdFromProto (ck_id c))))"
    using Cons.prems by (intro cache_step.ingest) (auto simp: request_ok_def BlockIdFromProto_ok)
  moreover have "ck_payload c = payload (BlockIdFromProto (ck_id c))" using Cons.prems by (simp add: request_ok_def)
  ultimately show ?case using Cons by (auto intro: converse_rtranclp_into_rtranclp)
qed simp

lemma svc_Heartbeat_step: "cache_step payload E n (snd (svc_Heartbeat E now n req))"
  using cache_step.heartbeat [of payload E n now "hq_node_id req" "hq_epoch req"]
  by (auto simp: svc_Heartbeat_def split: prod.splits)

lemma svc_EvictBroadcast_step: "cache_step payload E n (snd (svc_EvictBroadcast n req))"
  by (simp add: svc_EvictBroadcast_def cache_step.evict_broadcast)

section \<open>Properties\<close>

text \<open>
  The chunks of a streamed block are not put together: after the two halves of a block have
  been streamed, with their offsets and the end marked, the node serves the first half as the
  whole block.
\<close>

theorem StreamBlocks_no_reassembly:
  "\<exists>n0. cache_new sample_env 0 (\<lambda>_. False) (\<lambda>_. []) env_ok None sample_cache_cfg = Inr n0 \<and>
    map_option fst (fst (FetchLocal (snd (svc_StreamBlocks
      [\<lparr>ck_id = BlockIdToProto (sample_id 1), ck_payload = [7], ck_offset = 0, ck_last = False\<rparr>,
       \<lparr>ck_id = BlockIdToProto (sample_id 1), ck_payload = [8], ck_offset = 1, ck_last = True\<rparr>]
      (\<lparr>sa_received_count = 0, sa_total_bytes = 0\<rparr>, n0))) (sample_id 1))) = Some [7]"
proof -
  obtain n0 where n0: "cache_new sample_env 0 (\<lambda>_. False) (\<lambda>_. []) env_ok None sample_cache_cfg = Inr n0"
    "nd_store n0 = \<lparr>ts_cfg = tiered_config sample_cache_cfg, ts_hbm = None, ts_dram = Some (bs_new DRAM 64), ts_ssd = None,
       ts_access_counts = (\<lambda>_. None), ts_visited = {}\<rparr>" by (rule sample_cache)
  then show ?thesis
    by (simp add: FetchLocal_def IngestStreamedBlock_def Let_def BlockId_proto_inverse sample_eval)
qed

text \<open>
  The peer list of the command line survives printing and parsing: for peer names without \<open>@\<close>
  and commas and addresses without commas, parsing the entries joined by commas gives back the
  peers in order, without the node itself.
\<close>

theorem ParsePeerList_roundtrip:
  assumes "\<forall>p\<in>set peers. CHR ''@'' \<notin> set (sp_node_id p) \<and> CHR '','' \<notin> set (sp_node_id p) \<and> CHR '','' \<notin> set (sp_address p)"
  shows "ParsePeerList (join CHR '','' (map print_peer peers)) local = filter (\<lambda>p. sp_node_id p \<noteq> local) peers"
proof -
  have ok: "\<forall>x\<in>set (map print_peer peers). CHR '','' \<notin> set x \<and> x \<noteq> []"
    using assms by (auto simp: print_peer_def)
  then have "getline_items CHR '','' (join CHR '','' (map print_peer peers)) = map print_peer peers"
    by (rule getline_items_join)
  moreover have "join CHR '','' (map print_peer peers) = [] \<longleftrightarrow> peers = []"
    using join_empty [of "map print_peer peers"] ok by simp
  moreover have "List.map_filter (parse_peer local) (map print_peer peers) = filter (\<lambda>p. sp_node_id p \<noteq> local) peers"
    using assms by (intro map_filter_print) simp
  ultimately show ?thesis by (simp add: ParsePeerList_def)
qed

theorem ParsePeerList_roundtrip_witness:
  "ParsePeerList (join CHR '','' (map print_peer [\<lparr>sp_node_id = ''a'', sp_address = ''h:1''\<rparr>, \<lparr>sp_node_id = ''b'', sp_address = ''h:2''\<rparr>])) ''a'' =
    [\<lparr>sp_node_id = ''b'', sp_address = ''h:2''\<rparr>]"
  using ParsePeerList_roundtrip [of "[\<lparr>sp_node_id = ''a'', sp_address = ''h:1''\<rparr>, \<lparr>sp_node_id = ''b'', sp_address = ''h:2''\<rparr>]" "''a''"]
  by simp

end
