(* ===== verification/Cluster.thy ===== *)
theory Cluster
  imports Service
begin

text \<open>
  Several servers together.  A cluster maps the addresses at which servers listen to their
  nodes.  A replication worker takes the front task of its node's queue, the gRPC transport
  sends it as an \<open>Insert\<close> to the address of the peer, the service there handles it, and the
  reply may be lost on the way back.  Everything else that happens is an event of one node.
\<close>

section \<open>Definitions\<close>

type_synonym Cluster = "string \<rightharpoonup> Cache_Node"

inductive push_step :: "Cluster \<Rightarrow> Cluster \<Rightarrow> bool" where
  deliver: "c a = Some n \<Longrightarrow> c b = Some m \<Longrightarrow> a \<noteq> b \<Longrightarrow> nd_transport n = Grpc t \<Longrightarrow>
    rp_transport (nd_replicator n) \<Longrightarrow>
    rp_queue (nd_replicator n) = task # rest \<Longrightarrow> stub_for t (tk_peer_id task) = Some b \<Longrightarrow>
    svc_Insert m (push_request (kv_id (tk_block task)) (kv_data (tk_block task))) = (resp, m') \<Longrightarrow>
    reply = None \<or> reply = Some resp \<Longrightarrow>
    n' = n\<lparr>nd_replicator := snd (worker_step (grpc_Send (\<lambda>_ _. reply) t) (nd_replicator n))\<rparr> \<Longrightarrow>
    push_step c (c(a \<mapsto> n', b \<mapsto> m'))"

inductive cluster_step :: "(BlockId \<Rightarrow> byte list) \<Rightarrow> Env \<Rightarrow> Cluster \<Rightarrow> Cluster \<Rightarrow> bool" for payload E where
  local_event: "c a = Some n \<Longrightarrow> cache_step payload E n n' \<Longrightarrow> cluster_step payload E c (c(a \<mapsto> n'))"
| push: "push_step c c' \<Longrightarrow> cluster_step payload E c c'"

text \<open>The \<open>Fetch\<close> call as the servers of a cluster answer it.\<close>

definition cluster_fetch :: "Cluster \<Rightarrow> (FetchRequest, FetchResponse) rpc" where
  "cluster_fetch c address req = map_option (\<lambda>m. fst (svc_Fetch m req)) (c address)"

definition cluster_ok :: "(BlockId \<Rightarrow> byte list) \<Rightarrow> Cluster \<Rightarrow> bool" where
  "cluster_ok payload c \<longleftrightarrow> (\<forall>a n. c a = Some n \<longrightarrow> node_ok payload n)"

text \<open>Every server has just been constructed, on an empty store.\<close>

definition cluster_fresh :: "Env \<Rightarrow> Cluster \<Rightarrow> bool" where
  "cluster_fresh E c \<longleftrightarrow> (\<forall>a n. c a = Some n \<longrightarrow> (\<exists>now is_directory rdma cfg.
     cfg_ok (tiered_config cfg) \<and> cache_new E now is_directory (\<lambda>_. []) env_ok rdma cfg = Inr n))"

text \<open>The blocks waiting in the queues, the copies that could still be made of them, and the number of waiting pushes.\<close>

definition waiting :: "Cluster \<Rightarrow> BlockId set" where
  "waiting c = (\<Union>a\<in>dom c. (\<lambda>t. kv_id (tk_block t)) ` set (rp_queue (nd_replicator (the (c a)))))"

definition missing :: "BlockId set \<Rightarrow> Cluster \<Rightarrow> (string \<times> Tier \<times> BlockId) set" where
  "missing K c = {(a, t, k). a \<in> dom c \<and> k \<in> K \<and> tier_probe (nd_store (the (c a))) t k = None}"

definition backlog :: "Cluster \<Rightarrow> nat" where
  "backlog c = (\<Sum>a\<in>dom c. length (rp_queue (nd_replicator (the (c a)))))"

text \<open>
  A server that takes \<open>p\<close> for the primary of block \<open>i\<close>, knows the address \<open>b\<close> as that of \<open>p\<close> only,
  and has no push of the block to \<open>p\<close> waiting; a cluster of such servers in which the one
  at \<open>b\<close> does not hold the block.
\<close>

definition spares :: "string \<Rightarrow> string \<Rightarrow> BlockId \<Rightarrow> Cache_Node \<Rightarrow> bool" where
  "spares p b i n \<longleftrightarrow> rr_primary (Route (nd_router n) i) = p \<and>
     (\<forall>t q. nd_transport n = Grpc t \<and> stub_for t q = Some b \<longrightarrow> q = p) \<and>
     (\<forall>k\<in>set (rp_queue (nd_replicator n)). tk_peer_id k = p \<longrightarrow> kv_id (tk_block k) \<noteq> i)"

definition left_out :: "string \<Rightarrow> string \<Rightarrow> BlockId \<Rightarrow> Cluster \<Rightarrow> bool" where
  "left_out p b i c \<longleftrightarrow> (\<forall>a n. c a = Some n \<longrightarrow> spares p b i n) \<and> (\<forall>m. c b = Some m \<longrightarrow> ts_content (nd_store m) i = None)"

text \<open>The configuration of the peer that \<open>sample_cache_cfg\<close> names.\<close>

definition sample_other_cfg :: CacheConfig where
  "sample_other_cfg = sample_cache_cfg\<lparr>cc_node_id := ''b'', cc_seed_peers := [\<lparr>sp_node_id = ''a'', sp_address = ''h:0''\<rparr>]\<rparr>"

text \<open>Two servers of which the first has one push waiting for the second.\<close>

definition sample_pair :: "Cache_Node \<Rightarrow> Cluster" where
  "sample_pair n = [''h:0'' \<mapsto> n\<lparr>nd_replicator := (nd_replicator n)
     \<lparr>rp_queue := [\<lparr>tk_peer_id = ''b'', tk_block = sample_block 1 [7, 8]\<rparr>]\<rparr>\<rparr>, ''h:1'' \<mapsto> n]"

section \<open>Lemmas\<close>

lemma Tier_UNIV: "(UNIV :: Tier set) = {HBM, DRAM, SSD}"
  using Tier.exhaust by auto

text \<open>A counted insert has made a copy in a tier that had none; an insert that is not counted queues nothing.\<close>

lemma insert_one_probe:
  assumes "node_ok payload n" "block_ok payload b" "insert_one n b = (ok, n')"
  shows "tier_probe (nd_store n) t k \<noteq> None \<Longrightarrow> tier_probe (nd_store n') t k \<noteq> None"
    and "ok \<Longrightarrow> \<exists>t. tier_probe (nd_store n) t (kv_id b) = None \<and> tier_probe (nd_store n') t (kv_id b) \<noteq> None"
    and "\<not> ok \<Longrightarrow> nd_replicator n' = nd_replicator n"
    and "\<exists>ts. rp_queue (nd_replicator n') = rp_queue (nd_replicator n) @ ts \<and> (\<forall>t\<in>set ts. tk_block t = b)"
proof -
  obtain landed st where p: "ts_Put (nd_store n) b (kv_tier b) = (landed, st)" by force
  have inv: "ts_inv (nd_store n)" and kv: "kv_ok b" using assms(1,2) by (simp_all add: node_ok_def block_ok_def)
  have len: "length (rp_queue (nd_replicator n)) \<le> kReplicationQueueMax"
    using assms(1) by (simp add: node_ok_store rep_inv_def)
  have n': "nd_store n' = st" using assms(3) p by (auto simp: insert_one_def Let_def ReplicateOut_def split: if_splits)
  show "\<not> ok \<Longrightarrow> nd_replicator n' = nd_replicator n"
    using assms(3) p by (auto simp: insert_one_def Let_def split: if_splits)
  show "\<exists>ts. rp_queue (nd_replicator n') = rp_queue (nd_replicator n) @ ts \<and> (\<forall>t\<in>set ts. tk_block t = b)"
    using assms(3) p by (auto simp: insert_one_def Let_def ReplicateOut_def fold_enqueue [OF len] dest!: in_set_takeD split: if_splits)
  show "tier_probe (nd_store n) t k \<noteq> None \<Longrightarrow> tier_probe (nd_store n') t k \<noteq> None"
  proof (cases landed)
    case None
    then show "tier_probe (nd_store n) t k \<noteq> None \<Longrightarrow> tier_probe (nd_store n') t k \<noteq> None"
      using ts_Put_None [of "nd_store n" b "kv_tier b" st] p n' by auto
  next
    case (Some u)
    then show "tier_probe (nd_store n) t k \<noteq> None \<Longrightarrow> tier_probe (nd_store n') t k \<noteq> None"
      using ts_Put_Some [of "nd_store n" b "kv_tier b" u st] p n' PutToTier_probe [OF inv kv, of u True st t k] by auto
  qed
  show "\<exists>t. tier_probe (nd_store n) t (kv_id b) = None \<and> tier_probe (nd_store n') t (kv_id b) \<noteq> None" if ok
  proof -
    obtain u where u: "landed = Some u" "total_used st > total_used (nd_store n)"
      using \<open>ok\<close> assms(3) p by (auto simp: insert_one_def Let_def split: if_splits)
    have put: "PutToTier (nd_store n) b u = (True, st)" using ts_Put_Some p u(1) by blast
    have "tier_probe (nd_store n) u (kv_id b) = None"
    proof (rule ccontr)
      assume "tier_probe (nd_store n) u (kv_id b) \<noteq> None"
      then have "tier_probe st v = tier_probe (nd_store n) v" for v
        using PutToTier_probe [OF inv kv put, of v] by (intro ext) auto
      then have "ts_used_bytes st v = ts_used_bytes (nd_store n) v" for v
        using tier.used_content [OF inv] tier.used_content [OF PutToTier_inv [OF inv kv put]] by simp
      then show False using u(2) by (simp add: total_used_def)
    qed
    then show ?thesis using PutToTier_probe [OF inv kv put, of u "kv_id b"] n' by auto
  qed
qed

text \<open>What one push does to the two nodes.\<close>

lemma push_stepE:
  assumes "push_step c c'" "cluster_ok payload c"
  obtains a b n m n' m' blk peer rest ok t where
    "c a = Some n" "c b = Some m" "a \<noteq> b" "c' = c(a \<mapsto> n', b \<mapsto> m')"
    "rp_queue (nd_replicator n) = \<lparr>tk_peer_id = peer, tk_block = blk\<rparr> # rest"
    "nd_store n' = nd_store n" "rp_queue (nd_replicator n') = rest" "node_ok payload n'"
    "insert_one m \<lparr>kv_id = kv_id blk, kv_data = kv_data blk, kv_tier = DRAM, kv_inserted_epoch = 0\<rparr> = (ok, m')"
    "block_ok payload \<lparr>kv_id = kv_id blk, kv_data = kv_data blk, kv_tier = DRAM, kv_inserted_epoch = 0\<rparr>"
    "rp_replicate_failures (nd_replicator n') = rp_replicate_failures (nd_replicator n) \<longrightarrow> ok"
    "nd_transport n = Grpc t" "stub_for t peer = Some b" "nd_router n' = nd_router n" "nd_transport n' = nd_transport n"
  using assms(1)
proof cases
  case (deliver a n b m t task rest resp m' reply n')
  let ?blk = "\<lparr>kv_id = kv_id (tk_block task), kv_data = kv_data (tk_block task), kv_tier = DRAM, kv_inserted_epoch = 0\<rparr>"
  have n: "node_ok payload n" using assms(2) deliver by (auto simp: cluster_ok_def)
  then have blk: "block_ok payload (tk_block task)" using deliver by (simp add: node_ok_def push_ok_def)
  obtain ok m1 where ins: "insert_one m ?blk = (ok, m1)" by force
  have svc: "svc_Insert m (push_request (kv_id (tk_block task)) (kv_data (tk_block task))) =
      (\<lparr>is_accepted_count = (if ok then 1 else 0), is_rejected_count = 1 - (if ok then 1 else 0)\<rparr>, m1)"
    using blk ins by (simp add: svc_Insert_push block_ok_def kv_ok_def Insert_def)
  have "node_ok payload n'"
    using node_ok_cache_step [OF cache_step.worker n] deliver by simp
  moreover have "rp_replicate_failures (nd_replicator n') = rp_replicate_failures (nd_replicator n) \<longrightarrow> ok"
    using deliver svc by (auto simp: worker_step_def Let_def grpc_Send_def split: if_splits option.splits)
  moreover have "block_ok payload ?blk" using blk unfolding block_ok_def kv_ok_def by (metis KvBlock.select_convs(1,2))
  ultimately show thesis
    using deliver svc ins
    by (intro that [of a n b m n' m' "tk_peer_id task" "tk_block task" rest ok t]) simp_all
qed

lemma cluster_ok_push:
  assumes "push_step c c'" "cluster_ok payload c"
  shows "cluster_ok payload c'"
  using assms
proof (cases rule: push_stepE)
  case (1 a b n m n' m' blk peer rest ok t)
  have "node_ok payload m" using assms(2) 1 by (auto simp: cluster_ok_def)
  then have "node_ok payload m'" using insert_one_ok(1) 1 by blast
  then show ?thesis using assms(2) 1 by (auto simp: cluster_ok_def)
qed

lemma cluster_ok_step:
  "cluster_step payload E c c' \<Longrightarrow> cluster_ok payload c \<Longrightarrow> cluster_ok payload c'"
  by (induction rule: cluster_step.induct) (auto simp: cluster_ok_def intro: node_ok_cache_step dest: cluster_ok_push [unfolded cluster_ok_def])

lemma cluster_ok_reachable:
  assumes "(cluster_step payload E)\<^sup>*\<^sup>* c c'" "cluster_ok payload c"
  shows "cluster_ok payload c'"
  using assms by (induction rule: rtranclp_induct) (auto intro: cluster_ok_step)

lemma cluster_ok_fresh: "cluster_fresh E c \<Longrightarrow> cluster_ok payload c"
  by (auto simp: cluster_fresh_def cluster_ok_def intro: node_ok_new)

text \<open>A fetch over the transport of a node, answered by the cluster.\<close>

lemma svc_Fetch_payload:
  assumes "node_ok payload m" "id_ok i" "fst (svc_Fetch m \<lparr>fq_id = BlockIdToProto i, fq_requesting_node = r\<rparr>) = resp" "fs_found resp"
  shows "BlockIdFromProto (fs_id resp) = i \<and> fs_kv_data resp = payload i"
proof -
  have so: "store_ok payload (nd_store m)" using assms(1) by (simp add: node_ok_store)
  show ?thesis
    using assms(2-4) Get_payload(1) [OF so]
    by (auto simp: svc_Fetch_def FetchLocal_def Let_def BlockId_proto_inverse split: prod.splits option.splits)
qed

lemma kt_Fetch_payload:
  assumes "cluster_ok payload c" "id_ok i" "kt_Fetch (cluster_fetch c) t p i = Some b"
  shows "kv_id b = i \<and> kv_data b = payload i"
proof -
  obtain a resp where "cluster_fetch c a \<lparr>fq_id = BlockIdToProto i, fq_requesting_node = ''lethe-fetch''\<rparr> = Some resp"
    "fs_found resp" "kv_id b = BlockIdFromProto (fs_id resp)" "kv_data b = fs_kv_data resp"
    using kt.fetch_answer [OF assms(3)] by blast
  moreover from this obtain m where m: "c a = Some m"
    "fst (svc_Fetch m \<lparr>fq_id = BlockIdToProto i, fq_requesting_node = ''lethe-fetch''\<rparr>) = resp"
    by (auto simp: cluster_fetch_def)
  ultimately show ?thesis
    using assms(1) svc_Fetch_payload [OF _ assms(2) m(2), of payload] by (simp add: cluster_ok_def)
qed

text \<open>Every push lowers the potential: a copy that can still be made weighs more than a full queue.\<close>

lemma in_waiting:
  "k \<in> waiting c \<longleftrightarrow> (\<exists>a n t. c a = Some n \<and> t \<in> set (rp_queue (nd_replicator n)) \<and> k = kv_id (tk_block t))"
  by (force simp: waiting_def)

lemma in_missing:
  "(a, t, k) \<in> missing K c \<longleftrightarrow> (\<exists>n. c a = Some n \<and> k \<in> K \<and> tier_probe (nd_store n) t k = None)"
  by (auto simp: missing_def)

lemma waitingI: "c a = Some n \<Longrightarrow> t \<in> set (rp_queue (nd_replicator n)) \<Longrightarrow> kv_id (tk_block t) \<in> waiting c"
  by (auto simp: in_waiting)

lemma missing_subset: "missing K c \<subseteq> dom c \<times> UNIV \<times> K"
  by (auto simp: missing_def)

lemma finite_missing: "finite (dom c) \<Longrightarrow> finite K \<Longrightarrow> finite (missing K c)"
  by (rule finite_subset [OF missing_subset]) (simp add: Tier_UNIV)

lemma card_missing: "finite (dom c) \<Longrightarrow> finite K \<Longrightarrow> card (missing K c) \<le> 3 * card (dom c) * card K"
proof -
  assume fin: "finite (dom c)" "finite K"
  have "card (missing K c) \<le> card (dom c \<times> (UNIV :: Tier set) \<times> K)"
    by (rule card_mono [OF _ missing_subset]) (use fin in \<open>simp add: Tier_UNIV\<close>)
  then show ?thesis by (simp add: card_cartesian_product Tier_UNIV algebra_simps)
qed

lemma backlog_update:
  assumes "finite (dom c)" "c a = Some n" "c b = Some m" "a \<noteq> b"
  shows "backlog (c(a \<mapsto> n', b \<mapsto> m')) + length (rp_queue (nd_replicator n)) + length (rp_queue (nd_replicator m)) =
    backlog c + length (rp_queue (nd_replicator n')) + length (rp_queue (nd_replicator m'))"
proof -
  let ?q = "\<lambda>c a. length (rp_queue (nd_replicator (the ((c :: Cluster) a))))"
  let ?D = "dom c - {a} - {b}" and ?c = "c(a \<mapsto> n', b \<mapsto> m')"
  have ab: "a \<in> dom c" "b \<in> dom c - {a}" using assms by auto
  have dom: "dom ?c = dom c" using assms by auto
  have split: "sum f (dom c) = f a + (f b + sum f ?D)" for f :: "string \<Rightarrow> nat"
    using sum.remove [OF assms(1) ab(1), of f] sum.remove [OF _ ab(2), of f] assms(1) by simp
  have "sum (?q ?c) ?D = sum (?q c) ?D" by (rule sum.cong) auto
  then show ?thesis
    unfolding backlog_def dom split using assms by simp
qed

lemma push_step_potential:
  assumes "push_step c c'" "cluster_ok payload c" "finite (dom c)" "finite K" "waiting c \<subseteq> K"
  shows "dom c' = dom c \<and> waiting c' \<subseteq> K \<and>
    Suc (kReplicationQueueMax * card (missing K c') + backlog c') \<le> kReplicationQueueMax * card (missing K c) + backlog c"
  using assms(1,2)
proof (cases rule: push_stepE)
  case (1 a b n m n' m' blk peer rest ok t)
  let ?blk = "\<lparr>kv_id = kv_id blk, kv_data = kv_data blk, kv_tier = DRAM, kv_inserted_epoch = 0\<rparr>"
  have m: "node_ok payload m" using assms(2) 1 by (auto simp: cluster_ok_def)
  note p = insert_one_probe [OF m 1(10,9)]
  obtain ts where ts: "rp_queue (nd_replicator m') = rp_queue (nd_replicator m) @ ts" "\<forall>t\<in>set ts. tk_block t = ?blk"
    using p(4) by blast
  have dom: "dom c' = dom c" using 1(1-4) by auto
  have c': "c' x = Some y \<Longrightarrow> x = a \<and> y = n' \<or> x = b \<and> y = m' \<or> c x = Some y" for x y
    by (simp add: 1(4) split: if_splits)
  have "kv_id blk \<in> waiting c" using waitingI [of c a n "\<lparr>tk_peer_id = peer, tk_block = blk\<rparr>"] 1(1,5) by simp
  then have inK: "kv_id blk \<in> K" using assms(5) by blast
  have K: "waiting c' \<subseteq> K"
  proof
    fix k assume "k \<in> waiting c'"
    then obtain x y t where x: "c' x = Some y" "t \<in> set (rp_queue (nd_replicator y))" "k = kv_id (tk_block t)"
      by (auto simp: in_waiting)
    have "x = a \<and> y = n' \<or> x = b \<and> y = m' \<or> c x = Some y" by (rule c' [OF x(1)])
    then have "k \<in> waiting c \<or> k = kv_id blk"
    proof (elim disjE conjE)
      assume "x = a" "y = n'"
      then have "t \<in> set (rp_queue (nd_replicator n))" using x(2) 1(5,7) by simp
      then show ?thesis using x(3) 1(1) waitingI [of c a n t] by simp
    next
      assume "x = b" "y = m'"
      then have "t \<in> set (rp_queue (nd_replicator m)) \<or> tk_block t = ?blk" using x(2) ts by auto
      then show ?thesis using x(3) 1(2) waitingI [of c b m t] by auto
    next
      assume "c x = Some y"
      then show ?thesis using x(2,3) waitingI [of c x y t] by simp
    qed
    then show "k \<in> K" using inK assms(5) by blast
  qed
  have sub: "missing K c' \<subseteq> missing K c"
  proof (clarsimp simp: in_missing)
    fix x t k y assume x: "c' x = Some y" "k \<in> K" "tier_probe (nd_store y) t k = None"
    have "x = a \<and> y = n' \<or> x = b \<and> y = m' \<or> c x = Some y" by (rule c' [OF x(1)])
    then show "\<exists>n. c x = Some n \<and> tier_probe (nd_store n) t k = None"
      using x(3) 1(1,2,6) p(1) [of t k] by (cases "tier_probe (nd_store m) t k") auto
  qed
  have log: "backlog c' + 1 = backlog c + length ts"
    using backlog_update [OF assms(3) 1(1-3), of n' m'] 1(4,5,7) ts(1) by simp
  have len: "length ts \<le> kReplicationQueueMax"
    using insert_one_ok(1) [OF m 1(10,9)] ts(1) by (simp add: node_ok_store rep_inv_def)
  show ?thesis
  proof (cases ok)
    case True
    then obtain t where "tier_probe (nd_store m) t (kv_id blk) = None" "tier_probe (nd_store m') t (kv_id blk) \<noteq> None"
      using p(2) by auto
    then have "(b, t, kv_id blk) \<in> missing K c - missing K c'" using 1(2,3,4) inK by (simp add: in_missing)
    then have "card (missing K c') < card (missing K c)"
      using sub by (intro psubset_card_mono finite_missing assms(3,4)) auto
    then show ?thesis using dom K log len by simp
  next
    case False
    then have "ts = []" using p(3) ts(1) by simp
    moreover have "card (missing K c') \<le> card (missing K c)" by (rule card_mono [OF finite_missing [OF assms(3,4)] sub])
    ultimately show ?thesis using dom K log by simp
  qed
qed

lemma push_run_potential:
  assumes "(push_step ^^ k) c c'" "cluster_ok payload c" "finite (dom c)" "finite K" "waiting c \<subseteq> K"
  shows "dom c' = dom c \<and> waiting c' \<subseteq> K \<and> cluster_ok payload c' \<and>
    k + kReplicationQueueMax * card (missing K c') + backlog c' \<le> kReplicationQueueMax * card (missing K c) + backlog c"
  using assms(1)
proof (induction k arbitrary: c')
  case 0
  then show ?case using assms by simp
next
  case (Suc k)
  then obtain d where d: "(push_step ^^ k) c d" "push_step d c'" by auto
  note ih = Suc.IH [OF d(1)]
  have "cluster_ok payload d" "finite (dom d)" "waiting d \<subseteq> K" using ih assms(3) by auto
  from push_step_potential [OF d(2) this(1,2) assms(4) this(3)] cluster_ok_push [OF d(2) this(1)] ih
  show ?case by auto
qed

lemma finite_waiting: "finite (dom c) \<Longrightarrow> finite (waiting c)"
  by (simp add: waiting_def)

lemma Route_primary_not_replica: "rr_primary (Route rt i) \<notin> set (rr_replicas (Route rt i))"
proof -
  let ?w = "route_walk (rt_peers rt) (rt_ring rt)"
  have "distinct (?w idx want 0 [] {})" for idx want
    by (subst route_walk_take) simp_all
  then have "hd (?w idx want 0 [] {}) \<notin> set (tl (?w idx want 0 [] {}))" if "?w idx want 0 [] {} \<noteq> []" for idx want
    using that by (metis distinct.simps(2) list.collapse)
  then show ?thesis by (auto simp: Route_def Let_def)
qed

lemma insert_one_tasks:
  assumes "node_ok payload n" "insert_one n b = (ok, n')"
  shows "nd_router n' = nd_router n" "nd_transport n' = nd_transport n" "nd_cfg n' = nd_cfg n"
    and "k \<in> set (rp_queue (nd_replicator n')) \<Longrightarrow> k \<in> set (rp_queue (nd_replicator n)) \<or>
      tk_block k = b \<and> tk_peer_id k \<in> set (rr_replicas (Route (nd_router n) (kv_id b)))"
proof -
  have len: "length (rp_queue (nd_replicator n)) \<le> kReplicationQueueMax"
    using assms(1) by (simp add: node_ok_store rep_inv_def)
  obtain landed st where p: "ts_Put (nd_store n) b (kv_tier b) = (landed, st)" by force
  show "nd_router n' = nd_router n" "nd_transport n' = nd_transport n" "nd_cfg n' = nd_cfg n"
    using assms(2) p by (auto simp: insert_one_def Let_def ReplicateOut_def split: if_splits)
  show "k \<in> set (rp_queue (nd_replicator n')) \<Longrightarrow> k \<in> set (rp_queue (nd_replicator n)) \<or>
      tk_block k = b \<and> tk_peer_id k \<in> set (rr_replicas (Route (nd_router n) (kv_id b)))"
    using assms(2) p
    by (auto simp: insert_one_def Let_def ReplicateOut_def fold_enqueue [OF len] dest!: in_set_takeD split: if_splits)
qed

lemma spares_insert:
  assumes "spares p b i n" "node_ok payload n" "insert_one n blk = (ok, n')"
  shows "spares p b i n'"
proof -
  note t = insert_one_tasks [OF assms(2,3)]
  have "kv_id (tk_block k) \<noteq> i" if "k \<in> set (rp_queue (nd_replicator n'))" "tk_peer_id k = p" for k
    using t(4) [OF that(1)] assms(1) that(2) Route_primary_not_replica [of "nd_router n" i] by (auto simp: spares_def)
  then show ?thesis using assms(1) t(1,2) unfolding spares_def by metis
qed

text \<open>An insert of the block elsewhere, or of another block, leaves the primary out; so does a push.\<close>

lemma left_out_update:
  assumes "left_out p b i c" "spares p b i n" "a = b \<Longrightarrow> ts_content (nd_store n) i = None"
  shows "left_out p b i (c(a \<mapsto> n))"
  using assms by (auto simp: left_out_def)

lemma left_out_insert:
  assumes "left_out p b i c" "c a = Some n" "node_ok payload n" "block_ok payload blk" "insert_one n blk = (ok, n')"
    and "a = b \<Longrightarrow> kv_id blk \<noteq> i"
  shows "left_out p b i (c(a \<mapsto> n'))"
proof (rule left_out_update [OF assms(1)])
  show "spares p b i n'" by (rule spares_insert [OF _ assms(3,5)]) (use assms(1,2) in \<open>simp add: left_out_def\<close>)
  assume "a = b"
  then have "ts_content (nd_store n) i = None" using assms(1,2) by (simp add: left_out_def)
  then show "ts_content (nd_store n') i = None"
    using insert_one_ok(3) [OF assms(3-5), of i] assms(6) \<open>a = b\<close> by metis
qed

lemma left_out_push:
  assumes "push_step c c'" "cluster_ok payload c" "left_out p b i c"
  shows "left_out p b i c'"
  using assms(1,2)
proof (cases rule: push_stepE)
  case (1 a d n m n' m' blk peer rest ok t)
  have n: "spares p b i n" and m: "node_ok payload m" using assms(2,3) 1(1,2) by (simp_all add: cluster_ok_def left_out_def)
  have "spares p b i n'"
    using n 1(5,7) unfolding spares_def 1(14,15) by (metis list.set_intros(2))
  moreover have "a = b \<Longrightarrow> ts_content (nd_store n') i = None" using assms(3) 1(1,6) by (simp add: left_out_def)
  ultimately have "left_out p b i (c(a \<mapsto> n'))" by (rule left_out_update [OF assms(3)])
  moreover have "(c(a \<mapsto> n')) d = Some m" using 1(2,3) by simp
  moreover have "kv_id blk \<noteq> i" if "d = b"
  proof -
    have "peer = p" using n 1(12,13) that unfolding spares_def by blast
    then show ?thesis using n 1(5) by (simp add: spares_def)
  qed
  ultimately have "left_out p b i (c(a \<mapsto> n', d \<mapsto> m'))" by (intro left_out_insert [OF _ _ m 1(10,9)]) simp_all
  then show ?thesis unfolding 1(4) .
qed

lemma left_out_pushes:
  assumes "push_step\<^sup>*\<^sup>* c c'" "cluster_ok payload c" "left_out p b i c"
  shows "cluster_ok payload c' \<and> left_out p b i c'"
  using assms by (induction rule: rtranclp_induct) (auto intro: cluster_ok_push left_out_push)

lemma sample_pair_push:
  obtains n0 c' m where "cluster_ok (\<lambda>_. [7, 8]) (sample_pair n0)" "finite (dom (sample_pair n0))" "push_step (sample_pair n0) c'"
    "c' ''h:1'' = Some m" "ts_content (nd_store m) (sample_id 1) = Some [7, 8]"
proof -
  obtain n0 where n0: "cache_new sample_env 0 (\<lambda>_. False) (\<lambda>_. []) env_ok None sample_cache_cfg = Inr n0"
    "nd_store n0 = \<lparr>ts_cfg = tiered_config sample_cache_cfg, ts_hbm = None, ts_dram = Some (bs_new DRAM 64), ts_ssd = None,
       ts_access_counts = (\<lambda>_. None), ts_visited = {}\<rparr>" "node_ok (\<lambda>_. [7, 8]) n0" by (rule sample_cache)
  let ?n = "n0\<lparr>nd_replicator := (nd_replicator n0)\<lparr>rp_queue := [\<lparr>tk_peer_id = ''b'', tk_block = sample_block 1 [7, 8]\<rparr>]\<rparr>\<rparr>"
  let ?t = "grpc_Connect grpc_new ''b'' ''h:1''"
  have ok: "cluster_ok (\<lambda>_. [7, 8]) (sample_pair n0)"
    using n0(3) by (auto simp: cluster_ok_def sample_pair_def node_ok_def rep_inv_def push_ok_def block_ok_def split: if_splits)
  have tr: "nd_transport n0 = Grpc ?t" "rp_transport (nd_replicator n0)"
    using cache_new_parts(2,5) [OF n0(1)] by (simp_all add: sample_cache_cfg_def replicator_new_def)
  obtain resp m where svc: "svc_Insert n0 (push_request (sample_id 1) [7, 8]) = (resp, m)" by force
  have "push_step (sample_pair n0) ((sample_pair n0)(''h:0'' \<mapsto>
      ?n\<lparr>nd_replicator := snd (worker_step (grpc_Send (\<lambda>_ _. Some resp) ?t) (nd_replicator ?n))\<rparr>, ''h:1'' \<mapsto> m))"
    by (rule push_step.deliver [where n = ?n and m = n0 and t = ?t and rest = "[]" and resp = resp
        and task = "\<lparr>tk_peer_id = ''b'', tk_block = sample_block 1 [7, 8]\<rparr>"])
      (use tr svc in \<open>simp_all add: sample_pair_def grpc_Connect_def grpc_new_def stub_for_def umap_emplace_def\<close>)
  moreover have "ts_content (nd_store m) (sample_id 1) = Some [7, 8]"
    using svc by (auto simp: svc_Insert_push Insert_def insert_one_def Let_def n0(2) sample_eval ReplicateOut_def ts_content_def tier_probe_def split: if_splits)
  ultimately show thesis using that [OF ok] by (simp add: sample_pair_def)
qed

lemma sample_route:
  "rr_primary (Route (SetPeers (sort_key re_hash) sample_digest (router_new x 1 2) ps) (sample_id 1)) = ''a''"
  if "ps = [''a'', ''b''] \<or> ps = [''b'', ''a'']"
proof -
  let ?rt = "SetPeers (sort_key re_hash) sample_digest (router_new x 1 2) ps"
  have sel: "rt_vnodes_per_peer (router_new x 1 2) = 1" by (simp add: router_new_def)
  have named: "named_ring ?rt = [(0x302361, ''a''), (0x302362, ''b'')]"
    using that by (auto simp: named_ring_def SetPeers_def router_new_def build_ring_def sample_hashes)
  have "HashBlock (sample_id 1) = 1" by (simp add: HashBlock_def sample_id_def le_u64_def numeral_eq_Suc)
  then have "route_list (Route ?rt (sample_id 1)) = [''a'', ''b'']"
    using Route_SetPeers [OF sort_ok_sort_key, of ps "router_new x 1 2" sample_digest "sample_id 1"] that sel named
    by (auto simp: preference_def clockwise_def router_new_def)
  then show ?thesis by (simp add: route_list_def)
qed

lemma sample_primary:
  obtains na where "cache_new sample_env 0 (\<lambda>_. False) (\<lambda>_. []) env_ok None sample_cache_cfg = Inr na" "node_ok (\<lambda>_. [7, 8]) na"
    "ts_content (nd_store na) (sample_id 1) = None" "nd_cfg na = sample_cache_cfg" "spares ''a'' ''h:0'' (sample_id 1) na"
proof -
  have "cfg_ok (tiered_config sample_cache_cfg)"
    by (simp add: cfg_ok_def tiered_config_def sample_cache_cfg_def default_cache_config_def)
  note ok = node_ok_new [OF this]
  have "\<exists>na. cache_new sample_env 0 (\<lambda>_. False) (\<lambda>_. []) env_ok None sample_cache_cfg = Inr na \<and>
      nd_cfg na = sample_cache_cfg \<and> ts_content (nd_store na) (sample_id 1) = None"
    by (simp add: cache_new_def ts_new_def tiered_config_def sample_cache_cfg_def default_cache_config_def Let_def
        EnsurePeerClient_def replicator_new_def ts_content_def tier_probe_def bs_new_def bs_Get_def)
  then obtain na where na: "cache_new sample_env 0 (\<lambda>_. False) (\<lambda>_. []) env_ok None sample_cache_cfg = Inr na"
    "nd_cfg na = sample_cache_cfg" "ts_content (nd_store na) (sample_id 1) = None" by blast
  note parts = cache_new_parts(2,3,5) [OF na(1)]
  have "rr_primary (Route (nd_router na) (sample_id 1)) = ''a''"
    using sample_route [of "[''a'', ''b'']" "''a''"]
    by (simp add: parts(2) sample_env_def ring_members_def sample_cache_cfg_def default_cache_config_def)
  moreover have "nd_transport na = Grpc \<lparr>gt_peers = [(''b'', ''h:1'')]\<rparr>"
    by (simp add: parts(3) sample_cache_cfg_def grpc_Connect_def grpc_new_def umap_emplace_def)
  ultimately have "spares ''a'' ''h:0'' (sample_id 1) na"
    by (simp add: spares_def parts(1) replicator_new_def stub_for_def)
  then show thesis using that na ok [OF na(1)] by blast
qed

lemma sample_other:
  obtains nb where "cache_new sample_env 0 (\<lambda>_. False) (\<lambda>_. []) env_ok None sample_other_cfg = Inr nb" "node_ok (\<lambda>_. [7, 8]) nb"
    "spares ''a'' ''h:0'' (sample_id 1) nb"
    "ts_content (nd_store (snd (Insert nb [sample_block 1 [7, 8]]))) (sample_id 1) = Some [7, 8]"
proof -
  have "cfg_ok (tiered_config sample_other_cfg)"
    by (simp add: cfg_ok_def tiered_config_def sample_other_cfg_def sample_cache_cfg_def default_cache_config_def)
  note ok = node_ok_new [OF this]
  have "\<exists>nb. cache_new sample_env 0 (\<lambda>_. False) (\<lambda>_. []) env_ok None sample_other_cfg = Inr nb \<and>
      nd_store nb = \<lparr>ts_cfg = tiered_config sample_other_cfg, ts_hbm = None, ts_dram = Some (bs_new DRAM 64), ts_ssd = None,
        ts_access_counts = (\<lambda>_. None), ts_visited = {}\<rparr>"
    by (simp add: cache_new_def ts_new_def tiered_config_def sample_other_cfg_def sample_cache_cfg_def default_cache_config_def Let_def
        EnsurePeerClient_def replicator_new_def)
  then obtain nb where nb: "cache_new sample_env 0 (\<lambda>_. False) (\<lambda>_. []) env_ok None sample_other_cfg = Inr nb"
    "nd_store nb = \<lparr>ts_cfg = tiered_config sample_other_cfg, ts_hbm = None, ts_dram = Some (bs_new DRAM 64), ts_ssd = None,
        ts_access_counts = (\<lambda>_. None), ts_visited = {}\<rparr>" by blast
  note parts = cache_new_parts(2,3,5) [OF nb(1)]
  obtain took nb' where one: "insert_one nb (sample_block 1 [7, 8]) = (took, nb')" by force
  then have "took" by (auto simp: insert_one_def Let_def nb(2) sample_eval total_used_def ts_used_bytes_def opt_size_def split: if_splits)
  then have "ts_content (nd_store (snd (Insert nb [sample_block 1 [7, 8]]))) (sample_id 1) = Some [7, 8]"
    using insert_one_ok(4) [OF ok [OF nb(1)] _ one, of "\<lambda>_. [7, 8]"] one by (simp add: Insert_def block_ok_def)
  moreover have "rr_primary (Route (nd_router nb) (sample_id 1)) = ''a''"
    using sample_route [of "[''b'', ''a'']" "''b''"]
    by (simp add: parts(2) sample_env_def ring_members_def sample_other_cfg_def sample_cache_cfg_def default_cache_config_def)
  moreover have "nd_transport nb = Grpc \<lparr>gt_peers = [(''a'', ''h:0'')]\<rparr>"
    by (simp add: parts(3) sample_other_cfg_def sample_cache_cfg_def grpc_Connect_def grpc_new_def umap_emplace_def)
  ultimately show thesis
    using that [OF nb(1) ok [OF nb(1)]] by (simp add: spares_def parts(1) replicator_new_def stub_for_def split: if_splits)
qed

section \<open>Properties\<close>

text \<open>
  C1. Integrity of the cluster.  Start any number of servers on empty stores and let client requests,
  background threads and replication pushes interleave in any order, with lost replies; as long as
  clients insert and stream the bytes that block identities name, every local hit of a lookup
  on any server has those bytes, and so has every block that a server fetches from its peers, which
  is the block that was asked for.  That pushed blocks carry the right bytes is a consequence, not an assumption.
\<close>

theorem cluster_integrity:
  assumes "cluster_fresh E c0" "(cluster_step payload E)\<^sup>*\<^sup>* c0 c" "c a = Some n"
  shows "(\<forall>e\<in>set (lr_entries (fst (Lookup n ids))). le_where e = LocalHit \<longrightarrow> le_local_data e = payload (le_id e)) \<and>
    (\<forall>i polls peers b. id_ok i \<and>
      FetchFromAny (kt_Fetch (cluster_fetch c) (nd_transport n)) polls (nd_replicator n) i peers = Some b \<longrightarrow>
      kv_id b = i \<and> kv_data b = payload i)"
proof -
  have cok: "cluster_ok payload c" using cluster_ok_reachable [OF assms(2) cluster_ok_fresh [OF assms(1)]] .
  then have ok: "node_ok payload n" using assms(3) by (simp add: cluster_ok_def)
  obtain r n' where lk: "lookup_loop ids (\<lparr>lr_entries = [], lr_hit_count = 0, lr_miss_count = 0\<rparr>, n) = (r, n')" by force
  obtain es where "lr_entries r = es" "list_all2 (lookup_spec payload n) ids es"
    using lookup_loop_ok [OF ok lk] by auto
  then have "\<forall>e\<in>set (lr_entries (fst (Lookup n ids))). le_where e = LocalHit \<longrightarrow> le_local_data e = payload (le_id e)"
    using lk by (auto simp: Lookup_def list_all2_conv_all_nth lookup_spec_def in_set_conv_nth)
  moreover have "kv_id b = i \<and> kv_data b = payload i"
    if "id_ok i" "FetchFromAny (kt_Fetch (cluster_fetch c) (nd_transport n)) polls (nd_replicator n) i peers = Some b" for i polls peers b
  proof -
    let ?f = "kt_Fetch (cluster_fetch c) (nd_transport n)"
    have "poll_loop (map (\<lambda>p. (True, ?f p i)) peers) polls = Some b"
      using that(2) by (simp add: FetchFromAny_def split: if_splits)
    then obtain p where "?f p i = Some b" using poll_loop_sound by fastforce
    then show ?thesis by (rule kt_Fetch_payload [OF cok that(1)])
  qed
  ultimately show ?thesis by blast
qed

theorem cluster_integrity_witness:
  "\<exists>n0 d. cluster_fresh sample_env [''h:0'' \<mapsto> n0, ''h:1'' \<mapsto> n0] \<and>
     fst (Lookup (snd (Insert n0 [sample_block 1 [7, 8]])) [sample_id 1]) = d \<and>
     map le_local_data (filter (\<lambda>e. le_where e = LocalHit) (lr_entries d)) = [[7, 8]]"
proof -
  obtain n0 where n0: "cache_new sample_env 0 (\<lambda>_. False) (\<lambda>_. []) env_ok None sample_cache_cfg = Inr n0"
    "nd_store n0 = \<lparr>ts_cfg = tiered_config sample_cache_cfg, ts_hbm = None, ts_dram = Some (bs_new DRAM 64), ts_ssd = None,
       ts_access_counts = (\<lambda>_. None), ts_visited = {}\<rparr>" by (rule sample_cache)
  let ?c = "[''h:0'' \<mapsto> n0, ''h:1'' \<mapsto> n0]" and ?n = "snd (Insert n0 [sample_block 1 [7, 8]])"
  have cfg: "cfg_ok (tiered_config sample_cache_cfg)"
    by (simp add: cfg_ok_def tiered_config_def sample_cache_cfg_def default_cache_config_def)
  have fresh: "cluster_fresh sample_env ?c" using n0(1) cfg unfolding cluster_fresh_def by (auto split: if_splits)
  have "cache_step (\<lambda>_. [7, 8]) sample_env n0 ?n" by (rule cache_step.insert) (simp add: block_ok_def)
  then have "cluster_step (\<lambda>_. [7, 8]) sample_env ?c (?c(''h:0'' \<mapsto> ?n))" by (intro cluster_step.local_event) simp
  note safe = cluster_integrity [OF fresh r_into_rtranclp [of "cluster_step (\<lambda>_. [7, 8]) sample_env", OF this],
      of "''h:0''" ?n "[sample_id 1]"]
  have "\<exists>e. lr_entries (fst (Lookup ?n [sample_id 1])) = [e] \<and> le_where e = LocalHit"
    by (simp add: Lookup_def lookup_one_def Insert_def insert_one_def Let_def n0(2) sample_eval total_used_def ReplicateOut_def)
  then obtain e where "lr_entries (fst (Lookup ?n [sample_id 1])) = [e]" "le_where e = LocalHit" by blast
  then show ?thesis using fresh safe by (intro exI [of _ n0] exI [of _ "fst (Lookup ?n [sample_id 1])"]) simp
qed

text \<open>
  C8. An acknowledged push is a replica.  A push takes the front task of the sender's queue to the server
  at the address of the task's peer; when the sender counts no failure, that server holds the
  block with its bytes afterwards; and no server loses a block by it.
\<close>

theorem push_acknowledged:
  assumes "cluster_ok payload c" "push_step c c'"
  shows "\<exists>a n n' task t b m'. c a = Some n \<and> c' a = Some n' \<and> nd_transport n = Grpc t \<and>
      rp_queue (nd_replicator n) = task # rp_queue (nd_replicator n') \<and>
      stub_for t (tk_peer_id task) = Some b \<and> c' b = Some m' \<and>
      (rp_replicate_failures (nd_replicator n') = rp_replicate_failures (nd_replicator n) \<longrightarrow>
        ts_content (nd_store m') (kv_id (tk_block task)) = Some (kv_data (tk_block task))) \<and>
      (\<forall>x y. c x = Some y \<longrightarrow> (\<exists>y'. c' x = Some y' \<and> ts_content (nd_store y) \<subseteq>\<^sub>m ts_content (nd_store y')))"
  using assms(2,1)
proof (cases rule: push_stepE)
  case (1 a b n m n' m' blk peer rest ok t)
  have m: "node_ok payload m" using assms(1) 1(2) by (simp add: cluster_ok_def)
  note ins = insert_one_ok [OF m 1(10,9)]
  have "ts_content (nd_store m) \<subseteq>\<^sub>m ts_content (nd_store m')"
    unfolding map_le_def using ins(2) by (metis domIff)
  then have "\<exists>y'. c' x = Some y' \<and> ts_content (nd_store y) \<subseteq>\<^sub>m ts_content (nd_store y')" if "c x = Some y" for x y
    using that 1(1-4,6) by (auto simp: map_le_refl)
  then show ?thesis
    using 1(1,3-5,7,11-13) ins(4)
    by (intro exI [of _ a] exI [of _ n] exI [of _ n'] exI [of _ "\<lparr>tk_peer_id = peer, tk_block = blk\<rparr>"] exI [of _ t] exI [of _ b] exI [of _ m']) simp
qed

theorem push_acknowledged_witness:
  "\<exists>n0 c' a n n'. push_step (sample_pair n0) c' \<and> sample_pair n0 a = Some n \<and> c' a = Some n' \<and>
     length (rp_queue (nd_replicator n)) = Suc (length (rp_queue (nd_replicator n')))"
proof -
  obtain n0 c' where ok: "cluster_ok (\<lambda>_. [7, 8]) (sample_pair n0)" "push_step (sample_pair n0) c'" by (rule sample_pair_push)
  obtain a n n' task where "sample_pair n0 a = Some n" "c' a = Some n'" "rp_queue (nd_replicator n) = task # rp_queue (nd_replicator n')"
    using push_acknowledged [OF ok] by blast
  then show ?thesis using ok(2) by (metis length_Cons)
qed

text \<open>
  C6. Replication comes to rest.  A server that accepts a pushed block pushes it on, so one insert can
  cause many pushes; still, with no other events, any run of pushes is finite: it is not longer
  than the pushes waiting at the start, plus a full queue for every copy of a waiting block
  that a tier of a server could still take.
\<close>

theorem replication_quiesces:
  assumes "cluster_ok payload c" "finite (dom c)" "(push_step ^^ k) c c'"
  shows "k \<le> kReplicationQueueMax * (3 * card (dom c) * card (waiting c)) + backlog c"
proof -
  have "k \<le> kReplicationQueueMax * card (missing (waiting c) c) + backlog c"
    using push_run_potential [OF assms(3,1,2) finite_waiting [OF assms(2)] order_refl] by linarith
  moreover have "kReplicationQueueMax * card (missing (waiting c) c) \<le> kReplicationQueueMax * (3 * card (dom c) * card (waiting c))"
    using card_missing [OF assms(2) finite_waiting [OF assms(2)]] by (intro mult_le_mono2)
  ultimately show ?thesis by linarith
qed

theorem replication_quiesces_witness:
  "\<exists>n0 c'. push_step (sample_pair n0) c' \<and>
     1 \<le> kReplicationQueueMax * (3 * card (dom (sample_pair n0)) * card (waiting (sample_pair n0))) + backlog (sample_pair n0)"
proof -
  obtain n0 c' where ok: "cluster_ok (\<lambda>_. [7, 8]) (sample_pair n0)" "finite (dom (sample_pair n0))"
    "push_step (sample_pair n0) c'" by (rule sample_pair_push)
  then have "(push_step ^^ 1) (sample_pair n0) c'" by (simp add: eq_OO)
  from replication_quiesces [OF ok(1,2) this] show ?thesis using ok(3) by blast
qed

text \<open>
  The primary is left out.  Suppose all servers agree that a server \<open>p\<close> is the primary of a block, and the
  block is inserted at another server.  However the pushes then run, they do not bring the block to \<open>p\<close>, and
  a lookup at \<open>p\<close>, where clients look for it, reports a miss.
\<close>

theorem primary_left_out:
  assumes "cluster_ok payload c" "left_out p b (kv_id blk) c" "c a = Some n" "a \<noteq> b" "block_ok payload blk"
    and "push_step\<^sup>*\<^sup>* (c(a \<mapsto> snd (Insert n [blk]))) c'" "c' b = Some m" "cc_node_id (nd_cfg m) = p" "kv_data blk \<noteq> []"
  shows "map le_where (lr_entries (fst (Lookup m [kv_id blk]))) = [Miss]"
proof -
  obtain ok n' where one: "insert_one n blk = (ok, n')" by force
  have n: "node_ok payload n" using assms(1,3) by (simp add: cluster_ok_def)
  have ins: "snd (Insert n [blk]) = n'" using one by (simp add: Insert_def)
  have "node_ok payload n'" by (rule insert_one_ok(1) [OF n assms(5) one])
  then have "cluster_ok payload (c(a \<mapsto> n'))" using assms(1) by (simp add: cluster_ok_def)
  moreover have "left_out p b (kv_id blk) (c(a \<mapsto> n'))"
    using left_out_insert [OF assms(2,3) n assms(5) one] assms(4) by blast
  ultimately have c': "cluster_ok payload c'" "left_out p b (kv_id blk) c'"
    using left_out_pushes assms(6) unfolding ins by blast+
  have m: "node_ok payload m" "ts_content (nd_store m) (kv_id blk) = None" "rr_primary (Route (nd_router m) (kv_id blk)) = p"
    using c' assms(7) by (simp_all add: cluster_ok_def left_out_def spares_def)
  obtain e m1 where e: "lookup_one m (kv_id blk) = (e, m1)" by force
  have "le_where e = Miss"
    using lookup_one_ok(4) [OF m(1) e] m(2,3) assms(5,8,9) by (simp add: block_ok_def)
  then show ?thesis using e by (simp add: Lookup_def)
qed

theorem primary_left_out_witness:
  "\<exists>na nb. cache_new sample_env 0 (\<lambda>_. False) (\<lambda>_. []) env_ok None sample_cache_cfg = Inr na \<and>
     cache_new sample_env 0 (\<lambda>_. False) (\<lambda>_. []) env_ok None sample_other_cfg = Inr nb \<and>
     ts_content (nd_store (snd (Insert nb [sample_block 1 [7, 8]]))) (sample_id 1) = Some [7, 8] \<and>
     map le_where (lr_entries (fst (Lookup na [sample_id 1]))) = [Miss]"
proof -
  let ?pay = "\<lambda>_. [7, 8]" and ?blk = "sample_block 1 [7, 8]"
  obtain na where na: "cache_new sample_env 0 (\<lambda>_. False) (\<lambda>_. []) env_ok None sample_cache_cfg = Inr na" "node_ok ?pay na"
    "ts_content (nd_store na) (sample_id 1) = None" "nd_cfg na = sample_cache_cfg" "spares ''a'' ''h:0'' (sample_id 1) na"
    by (rule sample_primary)
  obtain nb where nb: "cache_new sample_env 0 (\<lambda>_. False) (\<lambda>_. []) env_ok None sample_other_cfg = Inr nb" "node_ok ?pay nb"
    "spares ''a'' ''h:0'' (sample_id 1) nb"
    "ts_content (nd_store (snd (Insert nb [?blk]))) (sample_id 1) = Some [7, 8]" by (rule sample_other)
  let ?c = "[''h:0'' \<mapsto> na, ''h:1'' \<mapsto> nb]"
  have ok: "cluster_ok ?pay ?c" using na(2) nb(2) by (simp add: cluster_ok_def)
  have out: "left_out ''a'' ''h:0'' (kv_id ?blk) ?c" using na(3,5) nb(3) by (simp add: left_out_def)
  have "map le_where (lr_entries (fst (Lookup na [kv_id ?blk]))) = [Miss]"
    by (rule primary_left_out [OF ok out _ _ _ rtranclp.rtrancl_refl, of "''h:1''" nb])
      (simp_all add: block_ok_def na(4) sample_cache_cfg_def)
  then show ?thesis using na(1) nb(1,4) by auto
qed

end
