(* ===== verification/Client.thy ===== *)
theory Client
  imports Cluster Client_Ring "HOL-Library.AList"
begin

text \<open>
  The client of the cache, \<open>client/lethe_client/client.py\<close>: retries, lookups that are routed per
  block and fetch the bytes of their hits, inserts and fetches.  A call of the gRPC library is a
  parameter: from the address, the request and the world it gives an answer or a status code,
  and the world afterwards.  \<open>cluster_call\<close> is the call that the servers of a cluster answer, over a
  network that may fail any attempt before or after the server has handled it.  The cache of
  channels is left out: a stub is its address.  Numbers of an identity are in the range of the
  message fields.
\<close>

section \<open>Definitions\<close>

subsection \<open>Calls\<close>

datatype StatusCode = UNAVAILABLE | DEADLINE_EXCEEDED | Other_Status nat

type_synonym ('w, 'q, 'r) call = "string \<Rightarrow> 'q \<Rightarrow> 'w \<Rightarrow> (StatusCode + 'r) \<times> 'w"

definition RETRY_CODES :: "StatusCode set" where
  "RETRY_CODES = {UNAVAILABLE, DEADLINE_EXCEEDED}"

definition MAX_ATTEMPTS :: nat where
  "MAX_ATTEMPTS = 3"

fun retry_loop :: "nat \<Rightarrow> ('w \<Rightarrow> (StatusCode + 'r) \<times> 'w) \<Rightarrow> 'w \<Rightarrow> 'r option \<times> 'w" where
  "retry_loop 0 rpc_callable w = (None, w)"
| "retry_loop (Suc attempts) rpc_callable w =
     (case rpc_callable w of
        (Inr resp, w1) \<Rightarrow> (Some resp, w1)
      | (Inl code, w1) \<Rightarrow> if code \<notin> RETRY_CODES then (None, w1) else retry_loop attempts rpc_callable w1)"

definition call_with_retry :: "('w \<Rightarrow> (StatusCode + 'r) \<times> 'w) \<Rightarrow> 'w \<Rightarrow> 'r option \<times> 'w" where
  "call_with_retry = retry_loop MAX_ATTEMPTS"

subsection \<open>The client\<close>

record LookupHit =
  lh_block_id :: BlockId
  lh_source_node :: string
  lh_tier :: u32

record Client_Result =
  cr_hits :: "LookupHit list"
  cr_misses :: "BlockId list"
  cr_fetched :: "(byte list \<times> byte list option) list"

record LetheClient =
  lc_primary_address :: string
  lc_peers :: "(string \<times> string) list"
  lc_ring :: "HashRing option"

definition to_proto_block_id :: "BlockId \<Rightarrow> PbBlockId" where
  "to_proto_block_id bid =
     \<lparr>pb_hash = id_hash bid, pb_layer = id_layer bid, pb_head_group = id_head_group bid, pb_model_id = id_model_id bid\<rparr>"

definition from_proto_block_id :: "PbBlockId \<Rightarrow> BlockId" where
  "from_proto_block_id pb =
     \<lparr>id_hash = pb_hash pb, id_layer = pb_layer pb, id_head_group = pb_head_group pb, id_model_id = pb_model_id pb\<rparr>"

text \<open>A dictionary keeps the place of a key that is assigned again.\<close>

definition client_new :: "(string \<Rightarrow> byte list) \<Rightarrow> string \<Rightarrow> (string \<times> string) list \<Rightarrow> LetheClient" where
  "client_new blake3_full primary_address peers =
     (let d = fold (\<lambda>(k, v). AList.update k v) peers []
      in \<lparr>lc_primary_address = primary_address, lc_peers = d,
          lc_ring = (if d = [] then None else Some (hash_ring_new blake3_full (map fst d) 128))\<rparr>)"

definition stub_addr :: "LetheClient \<Rightarrow> string option \<Rightarrow> string" where
  "stub_addr c address = (case address of None \<Rightarrow> lc_primary_address c | Some a \<Rightarrow> if a = [] then lc_primary_address c else a)"

definition stub_for_node :: "LetheClient \<Rightarrow> string \<Rightarrow> string option" where
  "stub_for_node c node_id =
     (case map_of (lc_peers c) node_id of None \<Rightarrow> None | Some addr \<Rightarrow> if addr = [] then None else Some (stub_addr c (Some addr)))"

definition local_label_for :: string where
  "local_label_for = []"

definition client_fetch ::
  "('w, FetchRequest, FetchResponse) call \<Rightarrow> LetheClient \<Rightarrow> BlockId \<Rightarrow> string \<Rightarrow> string option \<Rightarrow> 'w \<Rightarrow> byte list option \<times> 'w" where
  "client_fetch fe c block_id requesting_node address w =
     (let req = \<lparr>fq_id = to_proto_block_id block_id, fq_requesting_node = requesting_node\<rparr>
      in case call_with_retry (fe (stub_addr c address) req) w of
           (None, w1) \<Rightarrow> (None, w1)
         | (Some resp, w1) \<Rightarrow> (if fs_found resp then Some (fs_kv_data resp) else None, w1))"

definition fetch_into_result ::
  "('w, FetchRequest, FetchResponse) call \<Rightarrow> LetheClient \<Rightarrow> BlockId \<Rightarrow> string \<Rightarrow> Client_Result \<times> 'w \<Rightarrow> Client_Result \<times> 'w" where
  "fetch_into_result fe c block_id source_node st =
     (case st of (result, w) \<Rightarrow>
        case map_of (lc_peers c) source_node of
          None \<Rightarrow> (result\<lparr>cr_fetched := AList.update (id_hash block_id) None (cr_fetched result)\<rparr>, w)
        | Some addr \<Rightarrow>
            let (bytes_or_none, w1) = client_fetch fe c block_id ''client'' (Some addr) w
            in (result\<lparr>cr_fetched := AList.update (id_hash block_id) bytes_or_none (cr_fetched result)\<rparr>, w1))"

text \<open>The primary of a block: \<open>None\<close> when the search of the ring does not return.\<close>

definition primary_node :: "LetheClient \<Rightarrow> BlockId \<Rightarrow> string option option" where
  "primary_node c bid =
     (case lc_ring c of
        None \<Rightarrow> Some None
      | Some hr \<Rightarrow> map_option (\<lambda>routed. if routed \<noteq> [] \<and> hd routed \<in> fst ` set (lc_peers c) then Some (hd routed) else None)
          (py_route hr (id_hash bid) 1))"

fun add_group :: "'k \<Rightarrow> 'b \<Rightarrow> ('k \<times> 'b list) list \<Rightarrow> ('k \<times> 'b list) list" where
  "add_group k b [] = [(k, [b])]"
| "add_group k b ((k', bs) # groups) = (if k' = k then (k', bs @ [b]) # groups else (k', bs) # add_group k b groups)"

fun partition_ids :: "LetheClient \<Rightarrow> BlockId list \<Rightarrow> (string option \<times> BlockId list) list \<Rightarrow> (string option \<times> BlockId list) list option" where
  "partition_ids c [] groups = Some groups"
| "partition_ids c (bid # ids) groups =
     (case primary_node c bid of None \<Rightarrow> None | Some k \<Rightarrow> partition_ids c ids (add_group k bid groups))"

definition take_hit ::
  "('w, FetchRequest, FetchResponse) call \<Rightarrow> LetheClient \<Rightarrow> BlockHit \<Rightarrow> Client_Result \<times> 'w \<Rightarrow> Client_Result \<times> 'w" where
  "take_hit fe c h st =
     (case st of (result, w) \<Rightarrow>
        let hit = \<lparr>lh_block_id = from_proto_block_id (bh_id h), lh_source_node = bh_source_node h, lh_tier = bh_tier h\<rparr>;
            result1 = result\<lparr>cr_hits := cr_hits result @ [hit]\<rparr>
        in if bh_source_node h \<noteq> [] \<and> bh_source_node h \<noteq> local_label_for
           then fetch_into_result fe c (lh_block_id hit) (bh_source_node h) (result1, w)
           else (result1, w))"

definition lookup_group ::
  "('w, LookupRequest, LookupResponse) call \<Rightarrow> ('w, FetchRequest, FetchResponse) call \<Rightarrow> LetheClient \<Rightarrow>
   string \<Rightarrow> string \<Rightarrow> string option \<Rightarrow> string option \<times> BlockId list \<Rightarrow> Client_Result \<times> 'w \<Rightarrow> Client_Result \<times> 'w" where
  "lookup_group lk fe c request_id requesting_node address g st =
     (case (g, st) of ((primary, batch), (result, w)) \<Rightarrow>
        case (case primary of None \<Rightarrow> Some (stub_addr c address) | Some p \<Rightarrow> stub_for_node c p) of
          None \<Rightarrow> (result\<lparr>cr_misses := cr_misses result @ batch\<rparr>, w)
        | Some stub \<Rightarrow>
            let req = \<lparr>lq_block_ids = map to_proto_block_id batch, lq_request_id = request_id, lq_requesting_node = requesting_node\<rparr>
            in case call_with_retry (lk stub req) w of
                 (None, w1) \<Rightarrow> (result\<lparr>cr_misses := cr_misses result @ batch\<rparr>, w1)
               | (Some resp, w1) \<Rightarrow>
                   let (result2, w2) = fold (take_hit fe c) (ls_hits resp) (result, w1)
                   in (result2\<lparr>cr_misses := cr_misses result2 @ map from_proto_block_id (ls_misses resp)\<rparr>, w2))"

definition client_lookup ::
  "('w, LookupRequest, LookupResponse) call \<Rightarrow> ('w, FetchRequest, FetchResponse) call \<Rightarrow> LetheClient \<Rightarrow>
   BlockId list \<Rightarrow> string \<Rightarrow> string \<Rightarrow> string option \<Rightarrow> 'w \<Rightarrow> (Client_Result \<times> 'w) option" where
  "client_lookup lk fe c ids request_id requesting_node address w =
     (let result = \<lparr>cr_hits = [], cr_misses = [], cr_fetched = []\<rparr>
      in if ids = [] then Some (result, w)
         else map_option (\<lambda>groups. fold (lookup_group lk fe c request_id requesting_node address) groups (result, w))
                (partition_ids c ids []))"

definition client_insert ::
  "('w, InsertRequest, InsertResponse) call \<Rightarrow> LetheClient \<Rightarrow> (BlockId \<times> byte list) list \<Rightarrow> string \<Rightarrow> string \<Rightarrow> u32 \<Rightarrow>
   string option \<Rightarrow> 'w \<Rightarrow> nat \<times> 'w" where
  "client_insert ins c blocks request_id source_node tier_hint address w =
     (let req = \<lparr>ir_request_id = request_id, ir_source_node = source_node,
                 ir_blocks = map (\<lambda>(bid, payload). \<lparr>bl_id = to_proto_block_id bid, bl_kv_data = payload, bl_tier_hint = tier_hint\<rparr>) blocks\<rparr>
      in case call_with_retry (ins (stub_addr c address) req) w of
           (None, w1) \<Rightarrow> (0, w1)
         | (Some resp, w1) \<Rightarrow> (unat (is_accepted_count resp), w1))"

subsection \<open>The servers behind the calls\<close>

datatype Outcome = Answered | Failed StatusCode bool

record World =
  wd_cluster :: Cluster
  wd_calls :: nat

text \<open>
  Attempt number \<open>k\<close> has the outcome \<open>net k\<close>: the answer arrives, or the call fails with a status and the
  server has handled the request or not.
\<close>

definition cluster_call ::
  "(nat \<Rightarrow> Outcome) \<Rightarrow> (Cache_Node \<Rightarrow> 'q \<Rightarrow> 'r \<times> Cache_Node) \<Rightarrow> (World, 'q, 'r) call" where
  "cluster_call net handler address req w =
     (let w0 = w\<lparr>wd_calls := wd_calls w + 1\<rparr>
      in case wd_cluster w address of
           None \<Rightarrow> (Inl UNAVAILABLE, w0)
         | Some n \<Rightarrow>
             let (resp, n') = handler n req;
                 w1 = w0\<lparr>wd_cluster := (wd_cluster w)(address \<mapsto> n')\<rparr>
             in case net (wd_calls w) of
                  Answered \<Rightarrow> (Inr resp, w1)
                | Failed code handled \<Rightarrow> (Inl code, if handled then w1 else w0))"

abbreviation world_ok :: "(BlockId \<Rightarrow> byte list) \<Rightarrow> World \<Rightarrow> bool" where
  "world_ok payload w \<equiv> cluster_ok payload (wd_cluster w)"

definition lookup_rpc :: "(nat \<Rightarrow> Outcome) \<Rightarrow> (World, LookupRequest, LookupResponse) call" where
  "lookup_rpc net = cluster_call net svc_Lookup"

definition fetch_rpc :: "(nat \<Rightarrow> Outcome) \<Rightarrow> (World, FetchRequest, FetchResponse) call" where
  "fetch_rpc net = cluster_call net svc_Fetch"

definition insert_rpc :: "(nat \<Rightarrow> Outcome) \<Rightarrow> (World, InsertRequest, InsertResponse) call" where
  "insert_rpc net = cluster_call net svc_Insert"

text \<open>The bytes that a lookup hands out, with the hashes they are filed under.\<close>

definition fetched_bytes :: "Client_Result \<Rightarrow> (byte list \<times> byte list) set" where
  "fetched_bytes r = {(h, d). (h, Some d) \<in> set (cr_fetched r)}"

text \<open>Every hit with a source has an entry, and no entry has bytes when the client knows no peers.\<close>

definition hits_filed :: "LetheClient \<Rightarrow> Client_Result \<Rightarrow> bool" where
  "hits_filed c r \<longleftrightarrow>
     list_all (\<lambda>h. lh_source_node h = [] \<or> id_hash (lh_block_id h) \<in> fst ` set (cr_fetched r)) (cr_hits r) \<and>
     (lc_peers c = [] \<longrightarrow> list_all (\<lambda>(k, v). v = None) (cr_fetched r))"

text \<open>A server that does not hold a block and takes itself for its primary.\<close>

definition misses_at :: "(BlockId \<Rightarrow> byte list) \<Rightarrow> BlockId \<Rightarrow> Cache_Node \<Rightarrow> bool" where
  "misses_at payload i m \<longleftrightarrow> node_ok payload m \<and> ts_content (nd_store m) i = None \<and>
     rr_primary (Route (nd_router m) i) = cc_node_id (nd_cfg m)"

text \<open>A small client of the two sample servers, which enters the cluster at the second.\<close>

definition sample_client :: LetheClient where
  "sample_client = \<lparr>lc_primary_address = ''h:1'', lc_peers = [(''a'', ''h:0''), (''b'', ''h:1'')],
     lc_ring = Some \<lparr>py_vnodes_per_peer = 1, py_ring = [(0, ''b''), (9, ''a'')]\<rparr>\<rparr>"

section \<open>Lemmas\<close>

subsection \<open>Identities, dictionaries and groups\<close>

lemma to_proto_eq: "to_proto_block_id = BlockIdToProto"
  by (simp add: fun_eq_iff to_proto_block_id_def BlockIdToProto_def)

lemma from_to_proto [simp]: "from_proto_block_id (to_proto_block_id i) = i"
  by (simp add: from_proto_block_id_def to_proto_block_id_def)

lemma set_update_subset: "set (AList.update k v xs) \<subseteq> insert (k, v) (set xs)"
  by (induction xs) auto

lemma mset_add_group:
  "mset (concat (map snd (add_group k b groups))) = mset (concat (map snd groups)) + {#b#}"
  by (induction groups) auto

lemma partition_ids_mset:
  "partition_ids c ids groups = Some groups' \<Longrightarrow>
   mset (concat (map snd groups')) = mset (concat (map snd groups)) + mset ids"
  by (induction ids arbitrary: groups) (auto simp: mset_add_group split: option.splits)

lemma length_partition_ids:
  "partition_ids c ids groups = Some groups' \<Longrightarrow> length groups' \<le> length groups + length ids"
proof (induction ids arbitrary: groups)
  case (Cons i ids)
  obtain k where k: "partition_ids c ids (add_group k i groups) = Some groups'" using Cons.prems by (auto split: option.splits)
  have "length (add_group k i gs) \<le> Suc (length gs)" for gs by (induction gs) auto
  from Cons.IH [OF k] this [of groups] show ?case by simp
qed simp

text \<open>A search for one peer always returns.\<close>

lemma py_route_one:
  assumes "0 < py_vnodes_per_peer hr"
  shows "\<exists>ps. py_route hr h 1 = Some ps"
proof (cases "py_ring hr = []")
  case False
  have "py_walk (py_ring hr) 1 (py_vnodes_per_peer hr * 32) i [] {} = Some [snd (py_ring hr ! i)]" for i
    using assms by (subst py_walk.simps, subst py_walk.simps) simp
  then show ?thesis using False by (simp add: py_route_def Let_def)
qed (simp add: py_route_def)

lemma client_new_ring: "lc_ring (client_new b a ps) = Some hr \<Longrightarrow> py_vnodes_per_peer hr = 128"
  by (auto simp: client_new_def Let_def hash_ring_new_def py_set_peers_def split: if_splits)

lemma primary_node_new: "\<exists>p. primary_node (client_new b a ps) i = Some p"
  using py_route_one client_new_ring
  by (force simp: primary_node_def split: option.splits)

lemma partition_ids_new: "\<exists>groups'. partition_ids (client_new b a ps) ids groups = Some groups'"
proof (induction ids arbitrary: groups)
  case (Cons i ids)
  then show ?case using primary_node_new [of b a ps i] by auto
qed simp

subsection \<open>What the client relies on\<close>

text \<open>
  The contract of the calls, over a property \<open>ok\<close> of the world and a count of the attempts: an attempt keeps
  the property and counts once; an answered lookup accounts for every block of its request
  once, and an answered fetch returns the payload of its block.
\<close>

locale cache_calls =
  fixes ok :: "'w \<Rightarrow> bool" and calls :: "'w \<Rightarrow> nat" and payload :: "BlockId \<Rightarrow> byte list"
    and lk :: "('w, LookupRequest, LookupResponse) call" and fe :: "('w, FetchRequest, FetchResponse) call"
  assumes lk_attempt: "ok w \<Longrightarrow> ok (snd (lk a q w)) \<and> calls (snd (lk a q w)) = calls w + 1"
    and fe_attempt: "ok w \<Longrightarrow> ok (snd (fe a q' w)) \<and> calls (snd (fe a q' w)) = calls w + 1"
    and lk_answer: "ok w \<Longrightarrow> fst (lk a q w) = Inr resp \<Longrightarrow> lq_block_ids q = map BlockIdToProto ids \<Longrightarrow> \<forall>i\<in>set ids. id_ok i \<Longrightarrow>
      mset (map bh_id (ls_hits resp)) + mset (ls_misses resp) = mset (lq_block_ids q)"
    and fe_answer: "ok w \<Longrightarrow> fst (fe a q' w) = Inr resp' \<Longrightarrow> fq_id q' = BlockIdToProto i \<Longrightarrow> id_ok i \<Longrightarrow> fs_found resp' \<Longrightarrow>
      fs_kv_data resp' = payload i"
begin

lemma retry_loop_calls:
  assumes attempt: "\<And>w. ok w \<Longrightarrow> ok (snd (rpc w)) \<and> calls (snd (rpc w)) = calls w + 1"
    and "ok w" "retry_loop k rpc w = (r, w')"
  shows "ok w' \<and> calls w' \<le> calls w + k \<and> (\<forall>resp. r = Some resp \<longrightarrow> (\<exists>v. ok v \<and> fst (rpc v) = Inr resp))"
  using assms(2,3)
proof (induction k arbitrary: w)
  case (Suc k)
  obtain x w1 where x: "rpc w = (x, w1)" by force
  have w1: "ok w1" "calls w1 = calls w + 1" using attempt [OF Suc.prems(1)] x by auto
  show ?case
  proof (cases x)
    case (Inr resp)
    then show ?thesis using Suc.prems x w1 by (auto intro!: exI [of _ w])
  next
    case (Inl code)
    then show ?thesis using Suc.prems(2) x w1 Suc.IH [OF w1(1)] by (auto split: if_splits)
  qed
qed auto

lemma lookup_retry:
  assumes "ok w" "call_with_retry (lk a q) w = (r, w')"
  shows "ok w' \<and> calls w' \<le> calls w + 3 \<and> (\<forall>resp. r = Some resp \<longrightarrow> (\<exists>v. ok v \<and> fst (lk a q v) = Inr resp))"
  using retry_loop_calls [of "lk a q" w 3 r w', OF lk_attempt assms(1)] assms(2)
  by (simp add: call_with_retry_def MAX_ATTEMPTS_def)

lemma fetch_ok:
  assumes "ok w" "id_ok i" "client_fetch fe c i rn a w = (r, w')"
  shows "ok w' \<and> calls w' \<le> calls w + 3 \<and> (\<forall>d. r = Some d \<longrightarrow> d = payload i)"
proof -
  let ?q = "\<lparr>fq_id = to_proto_block_id i, fq_requesting_node = rn\<rparr>"
  obtain x w1 where x: "call_with_retry (fe (stub_addr c a) ?q) w = (x, w1)" by force
  have "ok w1 \<and> calls w1 \<le> calls w + 3 \<and> (\<forall>resp. x = Some resp \<longrightarrow> (\<exists>v. ok v \<and> fst (fe (stub_addr c a) ?q v) = Inr resp))"
    using retry_loop_calls [of "fe (stub_addr c a) ?q" w 3 x w1, OF fe_attempt assms(1)] x by (simp add: call_with_retry_def MAX_ATTEMPTS_def)
  then show ?thesis
    using assms(2,3) x fe_answer [of _ "stub_addr c a" ?q _ i]
    by (auto simp: client_fetch_def to_proto_eq split: option.splits if_splits)
qed

lemma fetch_into_ok:
  assumes "ok w" "id_ok i" "fetch_into_result fe c i source (result, w) = (result', w')"
  shows "ok w' \<and> calls w' \<le> calls w + 3 \<and> cr_hits result' = cr_hits result \<and> cr_misses result' = cr_misses result \<and>
    fetched_bytes result' \<subseteq> insert (id_hash i, payload i) (fetched_bytes result)"
proof (cases "map_of (lc_peers c) source")
  case None
  then show ?thesis
    using assms(1,3) set_update_subset [of "id_hash i" None "cr_fetched result"]
    by (auto simp: fetch_into_result_def fetched_bytes_def)
next
  case (Some addr)
  obtain r w1 where f: "client_fetch fe c i ''client'' (Some addr) w = (r, w1)" by force
  have "result' = result\<lparr>cr_fetched := AList.update (id_hash i) r (cr_fetched result)\<rparr>" "w' = w1"
    using assms(3) Some f by (auto simp: fetch_into_result_def)
  then show ?thesis
    using fetch_ok [OF assms(1,2) f] set_update_subset [of "id_hash i" r "cr_fetched result"]
    by (auto simp: fetched_bytes_def)
qed

lemma take_hit_ok:
  assumes "ok w" "id_ok i" "bh_id h = BlockIdToProto i" "take_hit fe c h (result, w) = (result', w')"
  shows "ok w' \<and> calls w' \<le> calls w + 3 \<and> map lh_block_id (cr_hits result') = map lh_block_id (cr_hits result) @ [i] \<and>
    cr_misses result' = cr_misses result \<and>
    fetched_bytes result' \<subseteq> insert (id_hash i, payload i) (fetched_bytes result)"
proof -
  have i: "from_proto_block_id (bh_id h) = i" by (simp add: assms(3) flip: to_proto_eq)
  let ?r1 = "result\<lparr>cr_hits := cr_hits result @ [\<lparr>lh_block_id = i, lh_source_node = bh_source_node h, lh_tier = bh_tier h\<rparr>]\<rparr>"
  have "result' = ?r1 \<and> w' = w \<or> fetch_into_result fe c i (bh_source_node h) (?r1, w) = (result', w')"
    using assms(4) by (auto simp: take_hit_def Let_def i split: if_splits)
  then show ?thesis using assms(1) fetch_into_ok [OF assms(1,2), of c "bh_source_node h" ?r1 result' w']
    by (auto simp: fetched_bytes_def)
qed

lemma take_hits_ok:
  assumes "ok w" "\<forall>i\<in>set ids. id_ok i" "map bh_id hs = map BlockIdToProto ids" "fold (take_hit fe c) hs (result, w) = (result', w')"
  shows "ok w' \<and> calls w' \<le> calls w + 3 * length ids \<and>
    map lh_block_id (cr_hits result') = map lh_block_id (cr_hits result) @ ids \<and> cr_misses result' = cr_misses result \<and>
    fetched_bytes result' \<subseteq> fetched_bytes result \<union> (\<lambda>i. (id_hash i, payload i)) ` set ids"
  using assms
proof (induction hs arbitrary: ids result w)
  case (Cons h hs)
  obtain i js where ids: "ids = i # js" "bh_id h = BlockIdToProto i" "map bh_id hs = map BlockIdToProto js" "id_ok i"
    using Cons.prems(2,3) by (cases ids) auto
  obtain r1 w1 where one: "take_hit fe c h (result, w) = (r1, w1)" by force
  note t = take_hit_ok [OF Cons.prems(1) ids(4,2) one]
  have "fold (take_hit fe c) hs (r1, w1) = (result', w')" using Cons.prems(4) one by simp
  note ih = Cons.IH [OF _ _ ids(3) this]
  have "ok w1" "\<forall>i\<in>set js. id_ok i" using t Cons.prems(2) by (simp_all add: ids(1))
  from ih [OF this] t show ?case by (simp add: ids(1)) blast
qed simp

lemma lookup_group_ok:
  assumes "ok w" "\<forall>i\<in>set batch. id_ok i" "lookup_group lk fe c rid rn a (p, batch) (result, w) = (result', w')"
  shows "ok w' \<and> calls w' \<le> calls w + 3 + 3 * length batch \<and>
    mset (map lh_block_id (cr_hits result')) + mset (cr_misses result') =
      mset (map lh_block_id (cr_hits result)) + mset (cr_misses result) + mset batch \<and>
    fetched_bytes result' \<subseteq> fetched_bytes result \<union> (\<lambda>i. (id_hash i, payload i)) ` set batch"
proof (cases "case p of None \<Rightarrow> Some (stub_addr c a) | Some q \<Rightarrow> stub_for_node c q")
  case None
  then show ?thesis using assms(1,3) by (auto simp: lookup_group_def fetched_bytes_def)
next
  case stub: (Some stub)
  let ?q = "\<lparr>lq_block_ids = map to_proto_block_id batch, lq_request_id = rid, lq_requesting_node = rn\<rparr>"
  obtain x w1 where x: "call_with_retry (lk stub ?q) w = (x, w1)" by force
  note l = lookup_retry [OF assms(1) x]
  show ?thesis
  proof (cases x)
    case None
    then show ?thesis using assms(3) stub x l by (auto simp: lookup_group_def Let_def fetched_bytes_def)
  next
    case (Some resp)
    obtain v where v: "ok v" "fst (lk stub ?q v) = Inr resp" using l Some by blast
    have all: "mset (map bh_id (ls_hits resp)) + mset (ls_misses resp) = image_mset BlockIdToProto (mset batch)"
      using lk_answer [OF v, of batch] assms(2) by (simp add: to_proto_eq)
    define hids where "hids = map (from_proto_block_id \<circ> bh_id) (ls_hits resp)"
    define mids where "mids = map from_proto_block_id (ls_misses resp)"
    have inv: "BlockIdToProto (from_proto_block_id q) = q" for q
      by (simp add: BlockIdToProto_def from_proto_block_id_def)
    have "mset hids + mset mids = image_mset from_proto_block_id (image_mset BlockIdToProto (mset batch))"
      unfolding all [symmetric] by (simp add: hids_def mids_def image_mset.compositionality comp_def)
    also have "\<dots> = mset batch" by (simp add: image_mset.compositionality comp_def flip: to_proto_eq)
    finally have split: "mset hids + mset mids = mset batch" .
    have sub: "set hids \<subseteq> set batch" using split by (metis mset_subset_eq_add_left set_mset_mono set_mset_mset)
    have len: "length hids \<le> length batch" using split by (metis le_add1 size_mset size_union)
    obtain r2 w2 where f: "fold (take_hit fe c) (ls_hits resp) (result, w1) = (r2, w2)" by force
    have "map bh_id (ls_hits resp) = map BlockIdToProto hids" by (simp add: hids_def inv comp_def)
    note t = take_hits_ok [OF conjunct1 [OF l] _ this f]
    have res: "result' = r2\<lparr>cr_misses := cr_misses r2 @ mids\<rparr>" "w' = w2"
      using assms(3) stub x Some f by (auto simp: lookup_group_def Let_def mids_def)
    have "\<forall>i\<in>set hids. id_ok i" using sub assms(2) by auto
    note t' = t [OF this]
    have "fetched_bytes result' = fetched_bytes r2" by (simp add: res fetched_bytes_def)
    then show ?thesis using t' l len sub split by (simp add: res add.assoc) blast
  qed
qed

lemma lookup_groups_ok:
  assumes "ok w" "\<forall>(p, batch)\<in>set groups. \<forall>i\<in>set batch. id_ok i"
    and "fold (lookup_group lk fe c rid rn a) groups (result, w) = (result', w')"
  shows "ok w' \<and> calls w' \<le> calls w + 3 * length groups + 3 * length (concat (map snd groups)) \<and>
    mset (map lh_block_id (cr_hits result')) + mset (cr_misses result') =
      mset (map lh_block_id (cr_hits result)) + mset (cr_misses result) + mset (concat (map snd groups)) \<and>
    fetched_bytes result' \<subseteq> fetched_bytes result \<union> (\<lambda>i. (id_hash i, payload i)) ` set (concat (map snd groups))"
  using assms
proof (induction groups arbitrary: result w)
  case (Cons g groups)
  obtain p batch where g: "g = (p, batch)" by force
  obtain r1 w1 where one: "lookup_group lk fe c rid rn a (p, batch) (result, w) = (r1, w1)" by force
  have b: "\<forall>i\<in>set batch. id_ok i" using Cons.prems(2) g by auto
  note one' = lookup_group_ok [OF Cons.prems(1) b one]
  have "fold (lookup_group lk fe c rid rn a) groups (r1, w1) = (result', w')" using Cons.prems(3) one g by simp
  note ih = Cons.IH [OF _ _ this]
  have "ok w1" "\<forall>(p, batch)\<in>set groups. \<forall>i\<in>set batch. id_ok i" using one' Cons.prems(2) by simp_all
  from ih [OF this] one' show ?case by (simp add: g add.assoc image_Un) blast
qed simp

lemma client_lookup_ok:
  assumes "ok w" "\<forall>i\<in>set ids. id_ok i" "c = client_new b a0 ps"
  shows "\<exists>r w'. client_lookup lk fe c ids rid rn a w = Some (r, w') \<and> ok w' \<and> calls w' \<le> calls w + 6 * length ids \<and>
    mset (map lh_block_id (cr_hits r)) + mset (cr_misses r) = mset ids \<and>
    fetched_bytes r \<subseteq> (\<lambda>i. (id_hash i, payload i)) ` set ids"
proof (cases "ids = []")
  case False
  obtain groups where g: "partition_ids c ids [] = Some groups" using partition_ids_new assms(3) by blast
  have m: "mset (concat (map snd groups)) = mset ids" using partition_ids_mset [OF g] by simp
  then have s: "set (concat (map snd groups)) = set ids" "length (concat (map snd groups)) = length ids"
    using mset_eq_setD mset_eq_length by blast+
  then have "\<forall>(p, batch)\<in>set groups. \<forall>i\<in>set batch. id_ok i" using assms(2) by fastforce
  moreover obtain r w' where f: "fold (lookup_group lk fe c rid rn a) groups (\<lparr>cr_hits = [], cr_misses = [], cr_fetched = []\<rparr>, w) = (r, w')"
    by force
  ultimately have "ok w' \<and> calls w' \<le> calls w + 3 * length groups + 3 * length ids \<and>
    mset (map lh_block_id (cr_hits r)) + mset (cr_misses r) = mset ids \<and>
    fetched_bytes r \<subseteq> (\<lambda>i. (id_hash i, payload i)) ` set ids"
    using lookup_groups_ok [OF assms(1) _ f] m s by (simp add: fetched_bytes_def)
  moreover have "length groups \<le> length ids" using length_partition_ids [OF g] by simp
  ultimately show ?thesis using False g f by (auto simp: client_lookup_def)
qed (use assms(1) in \<open>simp add: client_lookup_def fetched_bytes_def\<close>)

end

subsection \<open>The servers keep the contract\<close>

lemma cluster_call_attempt:
  assumes "\<And>n. node_ok payload n \<Longrightarrow> node_ok payload (snd (handler n q))" "world_ok payload w"
  shows "world_ok payload (snd (cluster_call net handler a q w)) \<and> wd_calls (snd (cluster_call net handler a q w)) = wd_calls w + 1"
  using assms
  by (auto simp: cluster_call_def cluster_ok_def Let_def split: option.splits prod.splits Outcome.splits) (metis snd_conv)+

lemma cluster_call_answer:
  assumes "fst (cluster_call net handler a q w) = Inr resp" "world_ok payload w"
  shows "\<exists>n. node_ok payload n \<and> fst (handler n q) = resp"
proof (cases "wd_cluster w a")
  case (Some n)
  then have "fst (handler n q) = resp"
    using assms(1) by (auto simp: cluster_call_def Let_def split: prod.splits Outcome.splits)
  then show ?thesis using Some assms(2) by (auto simp: cluster_ok_def)
qed (use assms(1) in \<open>simp add: cluster_call_def\<close>)

lemma answer_entries:
  "mset (map bh_id (ls_hits (fold (answer_entry me) es resp))) + mset (ls_misses (fold (answer_entry me) es resp)) =
   mset (map bh_id (ls_hits resp)) + mset (ls_misses resp) + mset (map (BlockIdToProto \<circ> le_id) es)"
  by (induction es arbitrary: resp) (auto simp: answer_entry_def split: Where.splits)

lemma svc_Lookup_answer:
  assumes "node_ok payload n" "lq_block_ids q = map BlockIdToProto ids" "\<forall>i\<in>set ids. id_ok i"
  shows "mset (map bh_id (ls_hits (fst (svc_Lookup n q)))) + mset (ls_misses (fst (svc_Lookup n q))) = mset (lq_block_ids q)"
proof -
  have "map BlockIdFromProto (lq_block_ids q) = ids"
    using assms(2,3) by (simp add: BlockId_proto_inverse map_idI)
  moreover obtain r n' where lk: "lookup_loop ids (\<lparr>lr_entries = [], lr_hit_count = 0, lr_miss_count = 0\<rparr>, n) = (r, n')" by force
  moreover have "list_all2 (lookup_spec payload n) ids (lr_entries r)" using lookup_loop_ok [OF assms(1) lk] by auto
  then have "map le_id (lr_entries r) = ids"
    by (auto simp: list_all2_conv_all_nth lookup_spec_def intro: nth_equalityI)
  then have "map (BlockIdToProto \<circ> le_id) (lr_entries r) = map BlockIdToProto ids" by (simp flip: map_map)
  ultimately show ?thesis using answer_entries [of _ "lr_entries r"] assms(2) by (simp add: svc_Lookup_def Lookup_def)
qed

interpretation srv: cache_calls "world_ok payload" wd_calls payload "lookup_rpc net" "fetch_rpc net" for payload net
proof (unfold_locales, goal_cases)
  case (1 w a q)
  then show ?case unfolding lookup_rpc_def
    using cluster_call_attempt [of payload svc_Lookup q w] node_ok_cache_step [OF svc_Lookup_step] by blast
next
  case (2 w a q)
  then show ?case unfolding fetch_rpc_def
    using cluster_call_attempt [of payload svc_Fetch q w] node_ok_cache_step [OF svc_Fetch_step] by blast
next
  case (3 w a q resp ids)
  obtain n :: Cache_Node where "node_ok payload n" "fst (svc_Lookup n q) = resp"
    using cluster_call_answer [of net svc_Lookup a q w resp payload] 3(1,2) unfolding lookup_rpc_def by blast
  then show ?case using svc_Lookup_answer [OF _ 3(3,4), of payload n] by simp
next
  case (4 w a q resp i)
  obtain n :: Cache_Node where n: "node_ok payload n" "fst (svc_Fetch n q) = resp"
    using 4(1,2) cluster_call_answer [of net svc_Fetch a q w resp payload] unfolding fetch_rpc_def by blast
  have "q = \<lparr>fq_id = BlockIdToProto i, fq_requesting_node = fq_requesting_node q\<rparr>" using 4(3) by simp
  then have "fst (svc_Fetch n \<lparr>fq_id = BlockIdToProto i, fq_requesting_node = fq_requesting_node q\<rparr>) = resp" using n(2) by simp
  from svc_Fetch_payload [OF n(1) 4(4) this 4(5)] show ?case by simp
qed

subsection \<open>Fetches that follow a hit\<close>

lemma hits_filed_take:
  assumes "hits_filed c (fst st)"
  shows "hits_filed c (fst (take_hit fe c h st))"
proof -
  obtain r w where st: "st = (r, w)" by force
  let ?i = "from_proto_block_id (bh_id h)"
  let ?r1 = "r\<lparr>cr_hits := cr_hits r @ [\<lparr>lh_block_id = ?i, lh_source_node = bh_source_node h, lh_tier = bh_tier h\<rparr>]\<rparr>"
  have "fst (take_hit fe c h st) = ?r1 \<and> bh_source_node h = [] \<or>
    (\<exists>v. fst (take_hit fe c h st) = ?r1\<lparr>cr_fetched := AList.update (id_hash ?i) v (cr_fetched r)\<rparr> \<and> (lc_peers c = [] \<longrightarrow> v = None))"
    by (auto simp: st take_hit_def fetch_into_result_def local_label_for_def Let_def split: option.splits prod.splits)
  moreover have "hits_filed c (?r1\<lparr>cr_fetched := AList.update (id_hash ?i) v (cr_fetched r)\<rparr>)" if "lc_peers c = [] \<longrightarrow> v = None" for v
  proof -
    have keys: "fst ` set (AList.update (id_hash ?i) v (cr_fetched r)) = insert (id_hash ?i) (fst ` set (cr_fetched r))"
      by (simp add: dom_update)
    show ?thesis using assms that set_update_subset [of "id_hash ?i" v "cr_fetched r"]
      by (auto simp: st hits_filed_def list_all_iff keys)
  qed
  moreover have "hits_filed c ?r1" if "bh_source_node h = []" using assms that by (simp add: st hits_filed_def)
  ultimately show ?thesis by auto
qed

lemma hits_filed_fold: "hits_filed c (fst st) \<Longrightarrow> hits_filed c (fst (fold (take_hit fe c) hs st))"
  by (induction hs arbitrary: st) (simp_all add: hits_filed_take)

lemma hits_filed_misses [simp]: "hits_filed c (r\<lparr>cr_misses := ms\<rparr>) = hits_filed c r"
  by (simp add: hits_filed_def)

lemma hits_filed_group:
  assumes "hits_filed c (fst st)"
  shows "hits_filed c (fst (lookup_group lk fe c rid rn a g st))"
proof -
  obtain p batch r w where gs: "g = (p, batch)" "st = (r, w)" by (cases g, cases st) auto
  then have r: "hits_filed c r" using assms by simp
  have "hits_filed c (fst (fold (take_hit fe c) hs (r, w1)))" for hs w1 using r hits_filed_fold [of c "(r, w1)"] by simp
  then have "hits_filed c r2" if "fold (take_hit fe c) hs (r, w1) = (r2, w2)" for hs w1 r2 w2 using that by (metis fst_conv)
  then show ?thesis using r by (auto simp: gs lookup_group_def Let_def split: option.split prod.split)
qed

lemma hits_filed_groups: "hits_filed c (fst st) \<Longrightarrow> hits_filed c (fst (fold (lookup_group lk fe c rid rn a) gs st))"
  by (induction gs arbitrary: st) (simp_all add: hits_filed_group)

subsection \<open>A block inserted elsewhere\<close>

lemma retry_loop_keeps:
  assumes "\<And>v. P v \<Longrightarrow> P (snd (rpc v))" "P w" "retry_loop k rpc w = (r, w')"
  shows "P w' \<and> (\<forall>resp. r = Some resp \<longrightarrow> (\<exists>v. P v \<and> fst (rpc v) = Inr resp))"
  using assms(2,3)
proof (induction k arbitrary: w)
  case (Suc k)
  obtain x w1 where x: "rpc w = (x, w1)" by force
  have w1: "P w1" using assms(1) [OF Suc.prems(1)] x by simp
  show ?case
  proof (cases x)
    case (Inr resp)
    then show ?thesis using Suc.prems x w1 by (auto intro!: exI [of _ w])
  next
    case (Inl code)
    then show ?thesis using Suc.prems(2) x w1 Suc.IH [OF w1] by (auto split: if_splits)
  qed
qed simp

lemma cluster_call_cases:
  assumes "P (wd_cluster w)" "\<And>n. wd_cluster w a = Some n \<Longrightarrow> P ((wd_cluster w)(a \<mapsto> snd (handler n q)))"
  shows "P (wd_cluster (snd (cluster_call net handler a q w)))"
  using assms by (auto simp: cluster_call_def Let_def split: option.splits prod.splits Outcome.splits)

text \<open>Inserting the block at another server leaves the primary out, however often it is tried.\<close>

lemma insert_leaves_out:
  assumes "world_ok payload w" "left_out p b i (wd_cluster w)" "id_ok i" "length (payload i) \<le> vector_max" "stub_addr c address \<noteq> b"
    and "client_insert (insert_rpc net) c [(i, payload i)] rid src hint address w = (k, w')"
  shows "world_ok payload w' \<and> left_out p b i (wd_cluster w')"
proof -
  let ?P = "\<lambda>cl. cluster_ok payload cl \<and> left_out p b i cl"
  let ?blk = "\<lparr>bl_id = to_proto_block_id i, bl_kv_data = payload i, bl_tier_hint = hint\<rparr>"
  let ?q = "\<lparr>ir_request_id = rid, ir_source_node = src, ir_blocks = [?blk]\<rparr>"
  let ?a = "stub_addr c address"
  have blk: "block_ok payload (block_of_proto ?blk)" "kv_id (block_of_proto ?blk) = i"
    using assms(3,4) by (simp_all add: block_ok_def kv_ok_def block_of_proto_def to_proto_eq BlockId_proto_inverse)
  have step: "?P (wd_cluster (snd (insert_rpc net ?a ?q v)))" if "?P (wd_cluster v)" for v
    unfolding insert_rpc_def
  proof (rule cluster_call_cases [of ?P])
    fix n assume n: "wd_cluster v ?a = Some n"
    obtain took n' where one: "insert_one n (block_of_proto ?blk) = (took, n')" by force
    have nok: "node_ok payload n" using that n by (simp add: cluster_ok_def)
    have "snd (svc_Insert n ?q) = n'" using one by (simp add: svc_Insert_def Insert_def split: prod.splits)
    moreover have "node_ok payload n'" by (rule insert_one_ok(1) [OF nok blk(1) one])
    moreover have "left_out p b i ((wd_cluster v)(?a \<mapsto> n'))"
      using left_out_insert [OF conjunct2 [OF that] n nok blk(1) one] assms(5) by blast
    ultimately show "?P ((wd_cluster v)(?a \<mapsto> snd (svc_Insert n ?q)))" using that by (auto simp: cluster_ok_def)
  qed (rule that)
  obtain x w1 where x: "call_with_retry (insert_rpc net ?a ?q) w = (x, w1)" by force
  have "?P (wd_cluster w1)"
    using retry_loop_keeps [of "\<lambda>v. ?P (wd_cluster v)" "insert_rpc net ?a ?q" w 3 x w1] step assms(1,2) x
    by (simp add: call_with_retry_def MAX_ATTEMPTS_def)
  moreover have "w' = w1" using assms(6) x by (auto simp: client_insert_def split: option.splits)
  ultimately show ?thesis by simp
qed

text \<open>A server that does not hold the block and takes itself for its primary answers a miss.\<close>

lemma misses_at_lookup:
  assumes "misses_at payload i m" "id_ok i" "payload i \<noteq> []" "lq_block_ids q = [to_proto_block_id i]"
  shows "fst (svc_Lookup m q) = \<lparr>ls_hits = [], ls_misses = [to_proto_block_id i]\<rparr> \<and> misses_at payload i (snd (svc_Lookup m q))"
proof -
  obtain e m1 where e: "lookup_one m i = (e, m1)" by force
  have ok: "node_ok payload m" using assms(1) by (simp add: misses_at_def)
  note s = lookup_one_ok [OF ok e]
  have "le_where e = Miss" using s(4) assms(1,3) by (simp add: misses_at_def)
  then show ?thesis
    using e s(1,2,6-8) assms(1,2,4)
    by (simp add: svc_Lookup_def Lookup_def answer_entry_def to_proto_eq BlockId_proto_inverse misses_at_def)
qed

section \<open>Properties\<close>

text \<open>
  C9. A lookup of the client, against servers that were only given the bytes block identities name and
  over a network that fails any attempts it likes, always returns.  Every requested block is reported
  exactly once, as a hit or as a miss; whatever bytes the result hands out under a hash are those
  of a requested block with that hash; and at most six calls per block were made.
\<close>

theorem client_lookup_sound:
  assumes "cluster_ok payload (wd_cluster w)" "\<forall>i\<in>set ids. id_ok i"
  shows "\<exists>r w'. client_lookup (lookup_rpc net) (fetch_rpc net) (client_new b a peers) ids request_id node address w = Some (r, w') \<and>
    cluster_ok payload (wd_cluster w') \<and>
    mset (map lh_block_id (cr_hits r)) + mset (cr_misses r) = mset ids \<and>
    fetched_bytes r \<subseteq> (\<lambda>i. (id_hash i, payload i)) ` set ids \<and>
    wd_calls w' \<le> wd_calls w + 6 * length ids"
  using srv.client_lookup_ok [OF assms refl, of net b a peers request_id node address] by blast

theorem client_lookup_sound_witness:
  "\<exists>na r w'. cache_new sample_env 0 (\<lambda>_. False) (\<lambda>_. []) env_ok None sample_cache_cfg = Inr na \<and>
     client_lookup (lookup_rpc (\<lambda>_. Answered)) (fetch_rpc (\<lambda>_. Answered)) (client_new (\<lambda>_. []) ''h:0'' [])
       [sample_id 1, sample_id 2] [] [] None \<lparr>wd_cluster = [''h:0'' \<mapsto> na], wd_calls = 0\<rparr> = Some (r, w') \<and>
     mset (map lh_block_id (cr_hits r)) + mset (cr_misses r) = {#sample_id 1, sample_id 2#} \<and> wd_calls w' \<le> 12"
proof -
  obtain na where na: "cache_new sample_env 0 (\<lambda>_. False) (\<lambda>_. []) env_ok None sample_cache_cfg = Inr na" "node_ok (\<lambda>_. [7, 8]) na"
    by (rule sample_primary)
  let ?w = "\<lparr>wd_cluster = [''h:0'' \<mapsto> na], wd_calls = 0\<rparr>"
  have ok: "cluster_ok (\<lambda>_. [7, 8]) (wd_cluster ?w)" using na(2) by (simp add: cluster_ok_def)
  have ids: "\<forall>i\<in>set [sample_id 1, sample_id 2]. id_ok i" by simp
  from client_lookup_sound [OF ok ids, of "\<lambda>_. Answered" "\<lambda>_. []" "''h:0''" "[]" "[]" "[]" None] na(1) show ?thesis by auto
qed

text \<open>
  Every hit triggers a fetch, also a local one: whatever the servers answer, each hit that names its source gets an
  entry in the table of fetched bytes, and a client without peers, which can resolve no source, files \<open>None\<close> for all of them.
\<close>

theorem client_fetches_every_hit:
  assumes "client_lookup lk fe c ids request_id node address w = Some (r, w')"
  shows "list_all (\<lambda>h. lh_source_node h = [] \<or> id_hash (lh_block_id h) \<in> fst ` set (cr_fetched r)) (cr_hits r) \<and>
    (lc_peers c = [] \<longrightarrow> list_all (\<lambda>(k, v). v = None) (cr_fetched r))"
proof -
  let ?r0 = "\<lparr>cr_hits = [], cr_misses = [], cr_fetched = []\<rparr>"
  have "hits_filed c (fst (?r0, w))" by (simp add: hits_filed_def)
  then have "hits_filed c (fst (fold (lookup_group lk fe c request_id node address) gs (?r0, w)))" for gs by (rule hits_filed_groups)
  then have "hits_filed c r2" if "fold (lookup_group lk fe c request_id node address) gs (?r0, w) = (r2, w2)" for gs r2 w2
    using that by (metis fst_conv)
  moreover have "hits_filed c ?r0" by (simp add: hits_filed_def)
  ultimately have "hits_filed c r" using assms by (auto simp: client_lookup_def Let_def split: if_splits)
  then show ?thesis by (simp add: hits_filed_def)
qed

theorem client_fetches_every_hit_witness:
  "\<exists>r w'. client_lookup (\<lambda>_ _ w. (Inr \<lparr>ls_hits = [\<lparr>bh_id = to_proto_block_id (sample_id 1), bh_source_node = ''a'', bh_tier = 1\<rparr>],
       ls_misses = []\<rparr>, w)) (\<lambda>_ _ w. (Inl UNAVAILABLE, w)) (client_new (\<lambda>_. []) ''h:0'' []) [sample_id 1] [] [] None () = Some (r, w') \<and>
     cr_hits r = [\<lparr>lh_block_id = sample_id 1, lh_source_node = ''a'', lh_tier = 1\<rparr>] \<and>
     id_hash (sample_id 1) \<in> fst ` set (cr_fetched r) \<and> list_all (\<lambda>(k, v). v = None) (cr_fetched r)"
proof -
  let ?lk = "\<lambda>_ _ w. (Inr \<lparr>ls_hits = [\<lparr>bh_id = to_proto_block_id (sample_id 1), bh_source_node = ''a'', bh_tier = 1\<rparr>],
       ls_misses = []\<rparr>, w)" and ?fe = "\<lambda>_ _ w. (Inl UNAVAILABLE, w)" and ?c = "client_new (\<lambda>_. []) ''h:0'' []"
  obtain r w' where run: "client_lookup ?lk ?fe ?c [sample_id 1] [] [] None () = Some (r, w')"
    and hits: "cr_hits r = [\<lparr>lh_block_id = sample_id 1, lh_source_node = ''a'', lh_tier = 1\<rparr>]"
    by (simp add: client_lookup_def client_new_def primary_node_def lookup_group_def call_with_retry_def MAX_ATTEMPTS_def
        take_hit_def fetch_into_result_def local_label_for_def stub_addr_def Let_def numeral_eq_Suc)
  show ?thesis using client_fetches_every_hit [OF run] run hits by (auto simp: client_new_def)
qed

text \<open>
  C10. A client may look in vain for its own block.  A client inserts a block through its usual address while the
  primary of the block, on whose name servers and client agree, is another server.  Whether the insert was accepted or not, and
  however the pushes between the servers run, the client's lookup of the block asks the primary and reports a miss.
\<close>

theorem client_own_block_missed:
  assumes "cluster_ok payload (wd_cluster w)" "left_out p b i (wd_cluster w)"
    and "id_ok i" "payload i \<noteq> []" "length (payload i) \<le> vector_max"
    and "primary_node c i = Some (Some p)" "map_of (lc_peers c) p = Some b" "b \<noteq> []" "lc_primary_address c \<noteq> b"
    and "client_insert (insert_rpc net) c [(i, payload i)] rid src hint None w = (k, w1)"
    and "push_step\<^sup>*\<^sup>* (wd_cluster w1) (wd_cluster w2)" "wd_cluster w2 b = Some m" "cc_node_id (nd_cfg m) = p"
  shows "\<exists>w3. client_lookup (lookup_rpc net) (fetch_rpc net) c [i] rid' rn address w2 =
    Some (\<lparr>cr_hits = [], cr_misses = [i], cr_fetched = []\<rparr>, w3)"
proof -
  have "stub_addr c None \<noteq> b" using assms(9) by (simp add: stub_addr_def)
  from insert_leaves_out [OF assms(1-3,5) this assms(10)] have "world_ok payload w1 \<and> left_out p b i (wd_cluster w1)" .
  then have "cluster_ok payload (wd_cluster w2) \<and> left_out p b i (wd_cluster w2)"
    using left_out_pushes [OF assms(11)] by blast
  then have m: "misses_at payload i m"
    using assms(12,13) by (simp add: misses_at_def cluster_ok_def left_out_def spares_def)
  let ?q = "\<lparr>lq_block_ids = [to_proto_block_id i], lq_request_id = rid', lq_requesting_node = rn\<rparr>"
  let ?P = "\<lambda>v. \<exists>m. wd_cluster v b = Some m \<and> misses_at payload i m"
  have step: "?P (snd (lookup_rpc net b ?q v)) \<and> (\<forall>resp. fst (lookup_rpc net b ?q v) = Inr resp \<longrightarrow>
      resp = \<lparr>ls_hits = [], ls_misses = [to_proto_block_id i]\<rparr>)" if P: "?P v" for v
  proof -
    obtain m where "wd_cluster v b = Some m" "misses_at payload i m" using P by blast
    then show ?thesis using misses_at_lookup [of payload i m ?q] assms(3,4)
      by (auto simp: lookup_rpc_def cluster_call_def Let_def split: prod.splits Outcome.splits)
  qed
  obtain x w3 where x: "call_with_retry (lookup_rpc net b ?q) w2 = (x, w3)" by force
  have "\<forall>resp. x = Some resp \<longrightarrow> (\<exists>v. ?P v \<and> fst (lookup_rpc net b ?q v) = Inr resp)"
    using retry_loop_keeps [of ?P "lookup_rpc net b ?q" w2 3 x w3] step m assms(12) x
    by (simp add: call_with_retry_def MAX_ATTEMPTS_def)
  then have "x = None \<or> x = Some \<lparr>ls_hits = [], ls_misses = [to_proto_block_id i]\<rparr>" using step by (cases x) auto
  then show ?thesis using x assms(6-8)
    by (auto simp: client_lookup_def lookup_group_def stub_for_node_def stub_addr_def Let_def)
qed

theorem client_own_block_missed_witness:
  "\<exists>na nb k w1 w3. cache_new sample_env 0 (\<lambda>_. False) (\<lambda>_. []) env_ok None sample_cache_cfg = Inr na \<and>
     cache_new sample_env 0 (\<lambda>_. False) (\<lambda>_. []) env_ok None sample_other_cfg = Inr nb \<and>
     client_insert (insert_rpc (\<lambda>_. Answered)) sample_client [(sample_id 1, [7, 8])] [] [] 1 None
       \<lparr>wd_cluster = [''h:0'' \<mapsto> na, ''h:1'' \<mapsto> nb], wd_calls = 0\<rparr> = (k, w1) \<and>
     client_lookup (lookup_rpc (\<lambda>_. Answered)) (fetch_rpc (\<lambda>_. Answered)) sample_client [sample_id 1] [] [] None w1 =
       Some (\<lparr>cr_hits = [], cr_misses = [sample_id 1], cr_fetched = []\<rparr>, w3)"
proof -
  obtain na where na: "cache_new sample_env 0 (\<lambda>_. False) (\<lambda>_. []) env_ok None sample_cache_cfg = Inr na" "node_ok (\<lambda>_. [7, 8]) na"
    "ts_content (nd_store na) (sample_id 1) = None" "nd_cfg na = sample_cache_cfg" "spares ''a'' ''h:0'' (sample_id 1) na"
    by (rule sample_primary)
  obtain nb where nb: "cache_new sample_env 0 (\<lambda>_. False) (\<lambda>_. []) env_ok None sample_other_cfg = Inr nb" "node_ok (\<lambda>_. [7, 8]) nb"
    "spares ''a'' ''h:0'' (sample_id 1) nb" by (rule sample_other)
  let ?w = "\<lparr>wd_cluster = [''h:0'' \<mapsto> na, ''h:1'' \<mapsto> nb], wd_calls = 0\<rparr>"
  obtain k w1 where ins: "client_insert (insert_rpc (\<lambda>_. Answered)) sample_client [(sample_id 1, (\<lambda>_. [7, 8]) (sample_id 1))] [] [] 1 None ?w = (k, w1)"
    by force
  have w1: "wd_cluster w1 ''h:0'' = Some na"
    using ins by (auto simp: client_insert_def sample_client_def stub_addr_def insert_rpc_def cluster_call_def call_with_retry_def
        MAX_ATTEMPTS_def numeral_eq_Suc Let_def split: prod.splits)
  let ?ring = "[(0, ''b''), (9, ''a'')] :: (nat \<times> string) list"
  have target: "le_to_nat (take 8 (id_hash (sample_id 1))) = 1" by (simp add: sample_id_def numeral_eq_Suc)
  have "py_search ?ring 1 0 2 = 1" by (subst py_search.simps, subst py_search.simps, subst py_search.simps) simp
  moreover have "py_walk ?ring 1 32 1 [] {} = Some [''a'']" by (subst py_walk.simps, subst py_walk.simps) simp
  ultimately have route: "primary_node sample_client (sample_id 1) = Some (Some ''a'')"
    by (simp add: primary_node_def sample_client_def py_route_def target numeral_2_eq_2)
  have "\<exists>w3. client_lookup (lookup_rpc (\<lambda>_. Answered)) (fetch_rpc (\<lambda>_. Answered)) sample_client [sample_id 1] [] [] None w1 =
       Some (\<lparr>cr_hits = [], cr_misses = [sample_id 1], cr_fetched = []\<rparr>, w3)"
    by (rule client_own_block_missed [OF _ _ _ _ _ route _ _ _ ins rtranclp.rtrancl_refl w1])
      (use na nb in \<open>simp_all add: cluster_ok_def left_out_def sample_client_def sample_cache_cfg_def\<close>)
  then show ?thesis using na(1) nb(1) ins by auto
qed

end
