(* ===== verification/Connector.thy ===== *)
theory Connector
  imports Client
begin

text \<open>
  The connector between an inference engine and the cache, \<open>client/lethe_client/vllm_hook.py\<close>, and the hashes of
  \<open>disagg/orchestrator.py\<close>.  On the scheduler's side it counts how many tokens of a prompt are cached and plans which
  blocks the worker loads and stores; on the worker's side it fetches blocks into the paged buffers of
  the layers and inserts what the layers have computed.  The tensor library is a parameter, the record
  \<open>Torch\<close> of the operations that the code calls, and so are the objects of the engine that the methods are
  given.  The thread pool is a queue of tasks of which one of the first four runs at any time.  Page numbers are natural
  numbers.  The diagnostic logs and counters are left out.
\<close>

section \<open>Definitions\<close>

subsection \<open>Tensors\<close>

datatype Dtype = Float16 | Float32 | Bfloat16 | Uint16 | Other_Dtype nat

text \<open>
  \<open>tt_page t b\<close> is \<open>t[:, b]\<close> and \<open>tt_copy t b s\<close> is \<open>t\<close> after \<open>t[:, b].copy_(s)\<close>; \<open>tt_tobytes\<close> gives the bytes of the tensor
  as a contiguous array, or an exception for an element type that has none.
\<close>

record 't Torch =
  tt_shape :: "'t \<Rightarrow> nat list"
  tt_dtype :: "'t \<Rightarrow> Dtype"
  tt_page :: "'t \<Rightarrow> nat \<Rightarrow> 't"
  tt_copy :: "'t \<Rightarrow> nat \<Rightarrow> 't \<Rightarrow> 't"
  tt_view :: "'t \<Rightarrow> Dtype \<Rightarrow> 't"
  tt_tobytes :: "'t \<Rightarrow> byte list option"
  tt_frombuffer :: "byte list \<Rightarrow> Dtype \<Rightarrow> nat list \<Rightarrow> 't"

definition TORCH_TO_NUMPY :: "Dtype \<Rightarrow> Dtype option" where
  "TORCH_TO_NUMPY d =
     (case d of Float16 \<Rightarrow> Some Float16 | Float32 \<Rightarrow> Some Float32 | Bfloat16 \<Rightarrow> Some Uint16 | _ \<Rightarrow> None)"

definition itemsize :: "Dtype \<Rightarrow> nat" where
  "itemsize d = (if d = Float32 then 4 else 2)"

datatype Conn_Error = Runtime_Error | Value_Error | Type_Error | Index_Error | Struct_Error | Zero_Division

definition tensor_to_bytes :: "'t Torch \<Rightarrow> 't \<Rightarrow> byte list option" where
  "tensor_to_bytes T t =
     (if tt_dtype T t = Bfloat16 then tt_tobytes T (tt_view T t Uint16) else tt_tobytes T t)"

definition bytes_to_tensor :: "'t Torch \<Rightarrow> byte list \<Rightarrow> nat list \<Rightarrow> Dtype \<Rightarrow> 't option" where
  "bytes_to_tensor T payload shape dtype =
     (case TORCH_TO_NUMPY dtype of
        None \<Rightarrow> None
      | Some np_dtype \<Rightarrow>
          if length payload \<noteq> prod_list shape * itemsize np_dtype then None
          else let t = tt_frombuffer T payload np_dtype shape
               in Some (if dtype = Bfloat16 then tt_view T t Bfloat16 else t))"

definition layer_id_for :: "(string \<Rightarrow> byte list) \<Rightarrow> string \<Rightarrow> u32" where
  "layer_id_for sha256 layer_name = of_nat (le_to_nat (take 4 (sha256 layer_name)))"

definition PRESENCE_LAYER :: u32 where
  "PRESENCE_LAYER = 0"

definition PRESENCE_MARKER :: "byte list" where
  "PRESENCE_MARKER = [1]"

subsection \<open>Metadata\<close>

record LetheBlockSpec =
  sc_chained_hash :: "byte list"
  sc_vllm_block_id :: nat
  sc_is_hit :: bool

record LetheRequestPayload =
  lp_request_id :: string
  lp_blocks :: "LetheBlockSpec list"

record LetheConnectorMetadata =
  cm_loads :: "LetheRequestPayload list"
  cm_stores :: "LetheRequestPayload list"
  cm_block_size :: int

subsection \<open>The connector and its thread pool\<close>

datatype Task =
    Fetch_Task LetheClient BlockId string
  | Insert_Task LetheClient "(BlockId \<times> byte list) list" string string

datatype Task_Result = Fetched "byte list option" | Inserted nat

record Executor =
  ex_pending :: "(nat \<times> Task) list"
  ex_finished :: "(nat \<times> Task_Result) list"
  ex_next :: nat

type_synonym load_key = "string \<times> u32 \<times> nat"

record LetheCacheConnector =
  cn_address :: string
  cn_block_size :: int
  cn_model_id :: u32
  cn_client :: "LetheClient option"
  cn_need_load :: "(string \<times> int \<times> nat list) list"
  cn_executor :: "Executor option"
  cn_inflight_loads :: "(load_key \<times> nat) list"
  cn_inflight_saves :: "nat list"
  cn_shape_pin :: "(string \<times> nat list \<times> Dtype) list"

text \<open>The constructor: what the configuration may say, the block size of the engine, and the role.\<close>

definition connector_new :: "string option \<Rightarrow> int option \<Rightarrow> u32 option \<Rightarrow> int \<Rightarrow> bool \<Rightarrow> LetheCacheConnector" where
  "connector_new lethe_address block_size model_id cache_block_size is_worker =
     \<lparr>cn_address = (case lethe_address of None \<Rightarrow> ''localhost:50051'' | Some a \<Rightarrow> a),
      cn_block_size = (case block_size of None \<Rightarrow> cache_block_size | Some b \<Rightarrow> b),
      cn_model_id = (case model_id of None \<Rightarrow> 0 | Some m \<Rightarrow> m),
      cn_client = None, cn_need_load = [],
      cn_executor = (if is_worker then Some \<lparr>ex_pending = [], ex_finished = [], ex_next = 0\<rparr> else None),
      cn_inflight_loads = [], cn_inflight_saves = [], cn_shape_pin = []\<rparr>"

definition ensure_client :: "(string \<Rightarrow> byte list) \<Rightarrow> LetheCacheConnector \<Rightarrow> LetheClient \<times> LetheCacheConnector" where
  "ensure_client blake3_full cn =
     (case cn_client cn of
        Some c \<Rightarrow> (c, cn)
      | None \<Rightarrow> let c = client_new blake3_full (cn_address cn) [] in (c, cn\<lparr>cn_client := Some c\<rparr>))"

definition submit :: "Task \<Rightarrow> Executor \<Rightarrow> nat \<times> Executor" where
  "submit task ex = (ex_next ex, ex\<lparr>ex_pending := ex_pending ex @ [(ex_next ex, task)], ex_next := ex_next ex + 1\<rparr>)"

definition run_task ::
  "('w, FetchRequest, FetchResponse) call \<Rightarrow> ('w, InsertRequest, InsertResponse) call \<Rightarrow> Task \<Rightarrow> 'w \<Rightarrow> Task_Result \<times> 'w" where
  "run_task fe ins task w =
     (case task of
        Fetch_Task c block_id node \<Rightarrow> (case client_fetch fe c block_id node None w of (r, w1) \<Rightarrow> (Fetched r, w1))
      | Insert_Task c batch request_id node \<Rightarrow>
          (case client_insert ins c batch request_id node 1 None w of (k, w1) \<Rightarrow> (Inserted k, w1)))"

text \<open>One of the four threads completes the task at place \<open>k\<close> of the queue.\<close>

definition executor_run ::
  "('w, FetchRequest, FetchResponse) call \<Rightarrow> ('w, InsertRequest, InsertResponse) call \<Rightarrow> nat \<Rightarrow> Executor \<Rightarrow> 'w \<Rightarrow> Executor \<times> 'w" where
  "executor_run fe ins k ex w =
     (if k < min 4 (length (ex_pending ex)) then
        case ex_pending ex ! k of (f, task) \<Rightarrow>
          case run_task fe ins task w of (r, w1) \<Rightarrow>
            (ex\<lparr>ex_pending := take k (ex_pending ex) @ drop (Suc k) (ex_pending ex),
                ex_finished := ex_finished ex @ [(f, r)]\<rparr>, w1)
      else (ex, w))"

subsection \<open>Scheduler\<close>

text \<open>The chained hashes of the first \<open>n\<close> blocks, from block \<open>i\<close> on.\<close>

fun chain_loop :: "(byte list \<Rightarrow> byte list) \<Rightarrow> int list \<Rightarrow> nat \<Rightarrow> nat \<Rightarrow> nat \<Rightarrow> byte list \<Rightarrow> byte list list option" where
  "chain_loop blake3 token_ids block_size i 0 running = Some []"
| "chain_loop blake3 token_ids block_size i (Suc n) running =
     (case chained_block_hash blake3 running (take block_size (drop (i * block_size) token_ids)) of
        None \<Rightarrow> None
      | Some h \<Rightarrow> map_option ((#) h) (chain_loop blake3 token_ids block_size (Suc i) n h))"

definition block_chain :: "(byte list \<Rightarrow> byte list) \<Rightarrow> int list \<Rightarrow> int \<Rightarrow> int \<Rightarrow> byte list list option" where
  "block_chain blake3 token_ids block_size n = chain_loop blake3 token_ids (nat block_size) 0 (nat n) (replicate 32 0)"

definition probe_id :: "u32 \<Rightarrow> byte list \<Rightarrow> BlockId" where
  "probe_id model_id h = \<lparr>id_hash = h, id_layer = PRESENCE_LAYER, id_head_group = 0, id_model_id = model_id\<rparr>"

definition contiguous_hits :: "byte list list \<Rightarrow> byte list set \<Rightarrow> nat" where
  "contiguous_hits block_hashes hit_set = length (takeWhile (\<lambda>h. h \<in> hit_set) block_hashes)"

text \<open>
  The result is an exception, or the number of tokens with the connector and the world.  The client, which has no
  ring, always answers; the case of no answer is the handler of its exceptions.
\<close>

definition get_num_new_matched_tokens ::
  "(byte list \<Rightarrow> byte list) \<Rightarrow> (string \<Rightarrow> byte list) \<Rightarrow> ('w, LookupRequest, LookupResponse) call \<Rightarrow> ('w, FetchRequest, FetchResponse) call \<Rightarrow>
   LetheCacheConnector \<Rightarrow> string \<Rightarrow> int list \<Rightarrow> int \<Rightarrow> 'w \<Rightarrow> Conn_Error + (int \<times> LetheCacheConnector \<times> 'w)" where
  "get_num_new_matched_tokens blake3 blake3_full lk fe cn request_id token_ids num_computed_tokens w =
     (if token_ids = [] then Inr (0, cn, w)
      else if cn_block_size cn = 0 then Inl Zero_Division
      else
        let n_blocks = int (length token_ids) div cn_block_size cn
        in if n_blocks = 0 then Inr (0, cn, w)
           else case block_chain blake3 token_ids (cn_block_size cn) n_blocks of
             None \<Rightarrow> Inl Struct_Error
           | Some block_hashes \<Rightarrow>
               let (client, cn1) = ensure_client blake3_full cn
               in case client_lookup lk fe client (map (probe_id (cn_model_id cn)) block_hashes) request_id ''lethe-scheduler'' None w of
                    None \<Rightarrow> Inr (0, cn1, w)
                  | Some (result, w1) \<Rightarrow>
                      let hit_set = set (map (id_hash \<circ> lh_block_id) (cr_hits result));
                          hit_tokens = int (contiguous_hits block_hashes hit_set) * cn_block_size cn;
                          hit_tokens1 = (if hit_tokens \<ge> int (length token_ids) then max 0 (hit_tokens - cn_block_size cn) else hit_tokens)
                      in Inr (max 0 (hit_tokens1 - num_computed_tokens), cn1, w1))"

text \<open>\<open>xs[:n]\<close>.\<close>

definition py_upto :: "'a list \<Rightarrow> int \<Rightarrow> 'a list" where
  "py_upto xs n = take (nat (if n < 0 then int (length xs) + n else n)) xs"

definition update_state_after_alloc ::
  "LetheCacheConnector \<Rightarrow> string \<Rightarrow> nat list list \<Rightarrow> int \<Rightarrow> Conn_Error + LetheCacheConnector" where
  "update_state_after_alloc cn request_id block_id_groups num_external_tokens =
     (if num_external_tokens \<le> 0 then Inr cn
      else case block_id_groups of
        [] \<Rightarrow> Inr cn
      | g # _ \<Rightarrow>
          if g = [] then Inr cn
          else if cn_block_size cn = 0 then Inl Zero_Division
          else
            let n_blocks = num_external_tokens div cn_block_size cn
            in if n_blocks = 0 then Inr cn
               else let n = min n_blocks (int (length g))
                    in Inr (cn\<lparr>cn_need_load := AList.update request_id (n, py_upto g n) (cn_need_load cn)\<rparr>))"

record NewRequest =
  nr_req_id :: string
  nr_prompt_token_ids :: "int list"
  nr_block_ids :: "nat list list"

text \<open>The specification of block \<open>i\<close>, given its hash and the allocated pages.\<close>

definition block_spec :: "nat list \<Rightarrow> int \<Rightarrow> nat \<Rightarrow> byte list \<Rightarrow> LetheBlockSpec" where
  "block_spec allocated n_load i h = \<lparr>sc_chained_hash = h, sc_vllm_block_id = allocated ! i, sc_is_hit = int i < n_load\<rparr>"

definition append_payload :: "string \<Rightarrow> LetheBlockSpec list \<Rightarrow> LetheRequestPayload list \<Rightarrow> LetheRequestPayload list" where
  "append_payload req_id specs payloads =
     (if specs = [] then payloads else payloads @ [\<lparr>lp_request_id = req_id, lp_blocks = specs\<rparr>])"

definition plan_request ::
  "(byte list \<Rightarrow> byte list) \<Rightarrow> NewRequest \<Rightarrow> LetheConnectorMetadata \<times> LetheCacheConnector \<Rightarrow> Conn_Error + (LetheConnectorMetadata \<times> LetheCacheConnector)" where
  "plan_request blake3 r st =
     (case st of (meta, cn) \<Rightarrow>
        if nr_prompt_token_ids r = [] then Inr (meta, cn)
        else case nr_block_ids r of
          [] \<Rightarrow> Inr (meta, cn)
        | allocated # _ \<Rightarrow>
            if allocated = [] then Inr (meta, cn)
            else
              let n_load = (case map_of (cn_need_load cn) (nr_req_id r) of None \<Rightarrow> 0 | Some (n, _) \<Rightarrow> n);
                  cn1 = cn\<lparr>cn_need_load := AList.delete (nr_req_id r) (cn_need_load cn)\<rparr>
              in if cn_block_size cn = 0 then Inl Zero_Division
                 else
                   let n_whole_blocks = min (int (length (nr_prompt_token_ids r)) div cn_block_size cn) (int (length allocated))
                   in if n_whole_blocks = 0 then Inr (meta, cn1)
                      else case block_chain blake3 (nr_prompt_token_ids r) (cn_block_size cn) n_whole_blocks of
                        None \<Rightarrow> Inl Struct_Error
                      | Some hashes \<Rightarrow>
                          let specs = map (\<lambda>(i, h). (i, block_spec allocated n_load i h)) (enumerate 0 hashes);
                              load_specs = map snd (filter (\<lambda>(i, s). int i < n_load) specs);
                              store_specs = map snd (filter (\<lambda>(i, s). \<not> int i < n_load) specs)
                          in Inr (meta\<lparr>cm_loads := append_payload (nr_req_id r) load_specs (cm_loads meta),
                                       cm_stores := append_payload (nr_req_id r) store_specs (cm_stores meta)\<rparr>, cn1))"

fun plan_requests ::
  "(byte list \<Rightarrow> byte list) \<Rightarrow> NewRequest list \<Rightarrow> LetheConnectorMetadata \<times> LetheCacheConnector \<Rightarrow> Conn_Error + (LetheConnectorMetadata \<times> LetheCacheConnector)" where
  "plan_requests blake3 [] st = Inr st"
| "plan_requests blake3 (r # rs) st =
     (case plan_request blake3 r st of Inl e \<Rightarrow> Inl e | Inr st1 \<Rightarrow> plan_requests blake3 rs st1)"

definition build_connector_meta ::
  "(byte list \<Rightarrow> byte list) \<Rightarrow> LetheCacheConnector \<Rightarrow> NewRequest list \<Rightarrow> Conn_Error + (LetheConnectorMetadata \<times> LetheCacheConnector)" where
  "build_connector_meta blake3 cn scheduled_new_reqs =
     plan_requests blake3 scheduled_new_reqs (\<lparr>cm_loads = [], cm_stores = [], cm_block_size = cn_block_size cn\<rparr>, cn)"

text \<open>The orchestrator's hashes of a prompt; \<open>None\<close> is an exception.\<close>

definition prefix_block_hashes :: "(byte list \<Rightarrow> byte list) \<Rightarrow> int \<Rightarrow> int list \<Rightarrow> byte list list option" where
  "prefix_block_hashes blake3 block_size prompt_token_ids =
     (if block_size = 0 then None
      else block_chain blake3 prompt_token_ids block_size (int (length prompt_token_ids) div block_size))"

subsection \<open>Worker: loads\<close>

text \<open>What \<open>forward_context.attn_metadata\<close> is: absent, a dictionary by layer name, a list of dictionaries and other things, or anything else.\<close>

datatype Attn_Metadata = No_Attn | Attn_Dict "string list" | Attn_List "string list option list" | Attn_Other

fun layer_names_of :: "Attn_Metadata \<Rightarrow> string list option" where
  "layer_names_of No_Attn = None"
| "layer_names_of (Attn_Dict names) = Some names"
| "layer_names_of (Attn_List ds) = Some (concat (List.map_filter (\<lambda>d. d) ds))"
| "layer_names_of Attn_Other = None"

definition load_id :: "u32 \<Rightarrow> u32 \<Rightarrow> byte list \<Rightarrow> BlockId" where
  "load_id model_id layer_id h = \<lparr>id_hash = h, id_layer = layer_id, id_head_group = 0, id_model_id = model_id\<rparr>"

type_synonym loads = "(load_key \<times> nat) list \<times> Executor"

definition submit_fetch :: "LetheClient \<Rightarrow> u32 \<Rightarrow> string \<Rightarrow> u32 \<Rightarrow> nat \<times> LetheBlockSpec \<Rightarrow> loads \<Rightarrow> loads" where
  "submit_fetch client model_id request_id layer_id b st =
     (case (b, st) of ((block_index, spec), (inflight, ex)) \<Rightarrow>
        if \<not> sc_is_hit spec then st
        else let (f, ex1) = submit (Fetch_Task client (load_id model_id layer_id (sc_chained_hash spec)) ''lethe-worker'') ex
             in (AList.update (request_id, layer_id, block_index) f inflight, ex1))"

definition submit_layer :: "LetheClient \<Rightarrow> u32 \<Rightarrow> LetheRequestPayload \<Rightarrow> u32 \<Rightarrow> loads \<Rightarrow> loads" where
  "submit_layer client model_id payload layer_id =
     fold (submit_fetch client model_id (lp_request_id payload) layer_id) (enumerate 0 (lp_blocks payload))"

definition submit_payload :: "LetheClient \<Rightarrow> u32 \<Rightarrow> u32 list \<Rightarrow> LetheRequestPayload \<Rightarrow> loads \<Rightarrow> loads" where
  "submit_payload client model_id layer_ids payload = fold (submit_layer client model_id payload) layer_ids"

text \<open>\<open>metadata\<close> is \<open>None\<close> when none of the connector's own type is bound.\<close>

definition start_load_kv ::
  "(string \<Rightarrow> byte list) \<Rightarrow> (string \<Rightarrow> byte list) \<Rightarrow> LetheCacheConnector \<Rightarrow> LetheConnectorMetadata option \<Rightarrow> Attn_Metadata \<Rightarrow>
   Conn_Error + LetheCacheConnector" where
  "start_load_kv sha256 blake3_full cn metadata attn =
     (case cn_executor cn of
        None \<Rightarrow> Inl Runtime_Error
      | Some ex \<Rightarrow>
          (case metadata of
             None \<Rightarrow> Inr cn
           | Some meta \<Rightarrow>
               if cm_loads meta = [] then Inr cn
               else case layer_names_of attn of
                 None \<Rightarrow> Inr cn
               | Some layer_names \<Rightarrow>
                   let (client, cn1) = ensure_client blake3_full cn;
                       (inflight, ex1) = fold (submit_payload client (cn_model_id cn) (map (layer_id_for sha256) layer_names))
                         (cm_loads meta) (cn_inflight_loads cn1, ex)
                   in Inr (cn1\<lparr>cn_inflight_loads := inflight, cn_executor := Some ex1\<rparr>)))"

text \<open>The attribute \<open>kv_cache\<close> of a layer.\<close>

datatype 't Kv_Attr = No_Kv | Kv_Tensor 't | Kv_List "'t list"

text \<open>What \<open>fut.result\<close> gives within its time: the bytes, or \<open>None\<close> for a miss or a time-out.\<close>

definition future_bytes :: "Executor \<Rightarrow> nat \<Rightarrow> byte list option" where
  "future_bytes ex f = (case map_of (ex_finished ex) f of Some (Fetched r) \<Rightarrow> r | _ \<Rightarrow> None)"

definition per_block_shape :: "nat list \<Rightarrow> nat list" where
  "per_block_shape shape = [2, shape ! 2] @ drop 3 shape"

fun inject ::
  "'t Torch \<Rightarrow> (string \<times> nat list) list \<Rightarrow> nat list \<Rightarrow> Dtype \<Rightarrow> ((string \<times> nat) \<times> byte list option) list \<Rightarrow> 't \<Rightarrow> Conn_Error option \<times> 't" where
  "inject T block_id_lookup shape dtype [] kv = (None, kv)"
| "inject T block_id_lookup shape dtype (((req_id, block_idx), payload_bytes) # results) kv =
     (case payload_bytes of
        None \<Rightarrow> inject T block_id_lookup shape dtype results kv
      | Some d \<Rightarrow>
          let vllm_blocks = (case map_of block_id_lookup req_id of None \<Rightarrow> [] | Some bs \<Rightarrow> bs)
          in if block_idx \<ge> length vllm_blocks then inject T block_id_lookup shape dtype results kv
             else if vllm_blocks ! block_idx \<ge> tt_shape T kv ! 1 then inject T block_id_lookup shape dtype results kv
             else case bytes_to_tensor T d shape dtype of
               None \<Rightarrow> (Some Value_Error, kv)
             | Some t \<Rightarrow> inject T block_id_lookup shape dtype results (tt_copy T kv (vllm_blocks ! block_idx) t))"

definition block_id_lookup :: "LetheRequestPayload list \<Rightarrow> (string \<times> nat list) list" where
  "block_id_lookup loads = fold (\<lambda>p. AList.update (lp_request_id p) (map sc_vllm_block_id (lp_blocks p))) loads []"

text \<open>The part of \<open>wait_for_layer_load\<close> that has found the layer's buffer: the checks and the injection.\<close>

definition load_into ::
  "'t Torch \<Rightarrow> LetheCacheConnector \<Rightarrow> LetheConnectorMetadata \<Rightarrow> string \<Rightarrow> ((string \<times> nat) \<times> byte list option) list \<Rightarrow> 't \<Rightarrow> Conn_Error option \<times> 't" where
  "load_into T cn meta layer_name results kv =
     (let shape = tt_shape T kv
      in if length shape < 4 \<or> shape ! 0 \<noteq> 2 then (Some Runtime_Error, kv)
         else if map_of (cn_shape_pin cn) layer_name \<notin> {None, Some (per_block_shape shape, tt_dtype T kv)} then (Some Runtime_Error, kv)
         else inject T (block_id_lookup (cm_loads meta)) (per_block_shape shape) (tt_dtype T kv) results kv)"

text \<open>
  The result has the exception, if any, the connector and the layers, whose buffers are written in place.  \<open>fwd\<close> is the
  forward context's table of layers, \<open>None\<close> outside of a forward pass.
\<close>

definition wait_for_layer_load ::
  "(string \<Rightarrow> byte list) \<Rightarrow> 't Torch \<Rightarrow> LetheCacheConnector \<Rightarrow> LetheConnectorMetadata option \<Rightarrow> string \<Rightarrow> (string \<Rightarrow> 't Kv_Attr option) option \<Rightarrow>
   Conn_Error option \<times> LetheCacheConnector \<times> (string \<Rightarrow> 't Kv_Attr option) option" where
  "wait_for_layer_load sha256 T cn metadata layer_name fwd =
     (case (cn_executor cn, metadata) of
        (None, _) \<Rightarrow> (Some Runtime_Error, cn, fwd)
      | (Some ex, None) \<Rightarrow> (None, cn, fwd)
      | (Some ex, Some meta) \<Rightarrow>
          if cm_loads meta = [] then (None, cn, fwd)
          else
            let mine = (\<lambda>(k, f). fst (snd k) = layer_id_for sha256 layer_name);
                results = map (\<lambda>((req_id, _, block_idx), f). ((req_id, block_idx), future_bytes ex f)) (filter mine (cn_inflight_loads cn));
                cn1 = cn\<lparr>cn_inflight_loads := filter (\<lambda>e. \<not> mine e) (cn_inflight_loads cn)\<rparr>
            in if results = [] then (None, cn1, fwd)
               else case fwd of
                 None \<Rightarrow> (None, cn1, fwd)
               | Some layers \<Rightarrow>
                   (case layers layer_name of
                      None \<Rightarrow> (None, cn1, fwd)
                    | Some No_Kv \<Rightarrow> (None, cn1, fwd)
                    | Some (Kv_Tensor kv) \<Rightarrow>
                        (case load_into T cn1 meta layer_name results kv of (e, kv1) \<Rightarrow> (e, cn1, Some (layers(layer_name \<mapsto> Kv_Tensor kv1))))
                    | Some (Kv_List []) \<Rightarrow> (Some Index_Error, cn1, fwd)
                    | Some (Kv_List (kv # kvs)) \<Rightarrow>
                        (case load_into T cn1 meta layer_name results kv of (e, kv1) \<Rightarrow> (e, cn1, Some (layers(layer_name \<mapsto> Kv_List (kv1 # kvs)))))))"

subsection \<open>Worker: saves\<close>

fun save_batch :: "'t Torch \<Rightarrow> u32 \<Rightarrow> u32 \<Rightarrow> 't \<Rightarrow> LetheBlockSpec list \<Rightarrow> (BlockId \<times> byte list) list option" where
  "save_batch T model_id layer_id kv [] = Some []"
| "save_batch T model_id layer_id kv (spec # specs) =
     (if sc_vllm_block_id spec \<ge> tt_shape T kv ! 1 then save_batch T model_id layer_id kv specs
      else case tensor_to_bytes T (tt_page T kv (sc_vllm_block_id spec)) of
        None \<Rightarrow> None
      | Some block_bytes \<Rightarrow>
          map_option (\<lambda>batch. (load_id model_id layer_id (sc_chained_hash spec), block_bytes) #
              (probe_id model_id (sc_chained_hash spec), PRESENCE_MARKER) # batch)
            (save_batch T model_id layer_id kv specs))"

text \<open>\<open>meta_id\<close> is the text of \<open>id(metadata)\<close>.\<close>

definition save_kv_layer ::
  "(string \<Rightarrow> byte list) \<Rightarrow> (string \<Rightarrow> byte list) \<Rightarrow> 't Torch \<Rightarrow> LetheCacheConnector \<Rightarrow> LetheConnectorMetadata option \<Rightarrow> string \<Rightarrow> string \<Rightarrow> 't \<Rightarrow>
   Conn_Error option \<times> LetheCacheConnector" where
  "save_kv_layer sha256 blake3_full T cn metadata meta_id layer_name kv_layer =
     (case (cn_executor cn, metadata) of
        (None, _) \<Rightarrow> (Some Runtime_Error, cn)
      | (Some ex, None) \<Rightarrow> (None, cn)
      | (Some ex, Some meta) \<Rightarrow>
          let shape = tt_shape T kv_layer;
              pin = (per_block_shape shape, tt_dtype T kv_layer);
              pinned = map_of (cn_shape_pin cn) layer_name
          in if cm_stores meta = [] then (None, cn)
             else if length shape < 4 \<or> shape ! 0 \<noteq> 2 then (Some Runtime_Error, cn)
             else if int (shape ! 2) \<noteq> cm_block_size meta then (Some Runtime_Error, cn)
             else if pinned \<noteq> None \<and> pinned \<noteq> Some pin then (Some Runtime_Error, cn)
             else
               let cn1 = (if pinned = None then cn\<lparr>cn_shape_pin := AList.update layer_name pin (cn_shape_pin cn)\<rparr> else cn);
                   (client, cn2) = ensure_client blake3_full cn1
               in case save_batch T (cn_model_id cn) (layer_id_for sha256 layer_name) kv_layer (concat (map lp_blocks (cm_stores meta))) of
                    None \<Rightarrow> (Some Type_Error, cn2)
                  | Some batch \<Rightarrow>
                      if batch = [] then (None, cn2)
                      else let (f, ex1) = submit (Insert_Task client batch (''save-'' @ layer_name @ ''-'' @ meta_id) ''lethe-worker'') ex
                           in (None, cn2\<lparr>cn_executor := Some ex1, cn_inflight_saves := cn_inflight_saves cn2 @ [f]\<rparr>))"

definition wait_for_save :: "LetheCacheConnector \<Rightarrow> LetheCacheConnector" where
  "wait_for_save cn = cn\<lparr>cn_inflight_saves := []\<rparr>"

text \<open>What a server reports as a hit: a block that it holds, or one whose primary, by its own ring, is another server.\<close>

definition reported_hit :: "Cache_Node \<Rightarrow> BlockId \<Rightarrow> bool" where
  "reported_hit n i \<longleftrightarrow> ts_content (nd_store n) i \<noteq> None \<or>
     rr_primary (Route (nd_router n) i) \<notin> {[], cc_node_id (nd_cfg n)}"

text \<open>The tokens of the first \<open>c\<close> blocks, of \<open>k\<close> tokens each, without the last block when they are the whole prompt.\<close>

definition offered_tokens :: "nat \<Rightarrow> nat \<Rightarrow> nat \<Rightarrow> nat" where
  "offered_tokens len k c = (if c * k = len then c - 1 else c) * k"

text \<open>A server that reports every block as a hit, for concrete runs.\<close>

definition all_hits :: "(unit, LookupRequest, LookupResponse) call" where
  "all_hits address q w = (Inr \<lparr>ls_hits = map (\<lambda>i. \<lparr>bh_id = i, bh_source_node = [], bh_tier = 1\<rparr>) (lq_block_ids q), ls_misses = []\<rparr>, w)"

section \<open>Lemmas\<close>

subsection \<open>Hashes\<close>

lemma chain_loop_length: "chain_loop H xs k i n r = Some hs \<Longrightarrow> length hs = n"
  by (induction n arbitrary: i r hs) (auto split: option.splits)

lemma chain_loop_digests: "chain_loop H xs k i n r = Some hs \<Longrightarrow> (\<And>x. length (H x) = 32) \<Longrightarrow> \<forall>h\<in>set hs. length h = 32"
  by (induction n arbitrary: i r hs) (auto simp: chained_block_hash_def split: option.splits)

lemma chain_loop_prefix:
  assumes "0 < k" "(i + n) * k \<le> length xs"
  shows "prefix_loop H (take ((i + n) * k) xs) k (i * k) r out = map_option ((@) out) (chain_loop H xs k i n r)"
  using assms(2)
proof (induction n arbitrary: i r out)
  case 0
  then show ?case by (subst prefix_loop.simps) simp
next
  case (Suc n)
  have "(i + 1) * k \<le> (i + Suc n) * k" by (intro mult_le_mono1) simp
  then have le: "i * k + k \<le> (i + Suc n) * k" by simp
  then have "min k ((i + Suc n) * k - i * k) = k" by linarith
  then have blk: "take k (drop (i * k) (take ((i + Suc n) * k) xs)) = take k (drop (i * k) xs)"
    by (simp only: drop_take take_take)
  have more: "i * k < length (take ((i + Suc n) * k) xs)" using Suc.prems assms(1) le by (simp only: length_take min_absorb2)
  have "prefix_loop H (take ((i + Suc n) * k) xs) k (i * k + k) h (out @ [h]) = map_option (\<lambda>hs. out @ h # hs) (chain_loop H xs k (Suc i) n h)" for h
    using Suc.IH [of "Suc i" h "out @ [h]"] Suc.prems by (simp add: add.commute)
  moreover have "prefix_loop H (take ((i + Suc n) * k) xs) k (i * k) r out =
      (case chained_block_hash H r (take k (drop (i * k) xs)) of
         None \<Rightarrow> None | Some h \<Rightarrow> prefix_loop H (take ((i + Suc n) * k) xs) k (i * k + k) h (out @ [h]))"
    by (subst prefix_loop.simps) (simp only: more assms(1) blk simp_thms if_True)
  ultimately show ?case by (simp add: option.map_comp comp_def split: option.split)
qed

lemma block_chain_prefix:
  assumes "0 < k" "n * k \<le> length xs"
  shows "block_chain H xs (int k) (int n) = prefix_block_ids H (take (n * k) xs) (int k) (replicate 32 0)"
proof -
  have "map_option ((@) []) x = x" for x :: "byte list list option" by (cases x) simp_all
  then show ?thesis
    using chain_loop_prefix [of k 0 n xs H "replicate 32 0" "[]"] assms
    by (simp add: block_chain_def prefix_block_ids_def)
qed

subsection \<open>Counting matched tokens\<close>

lemma ensure_client_unused: "cn_client cn \<in> {None, Some (client_new b (cn_address cn) [])} \<Longrightarrow>
    fst (ensure_client b cn) = client_new b (cn_address cn) []"
  by (auto simp: ensure_client_def Let_def)

lemma ensure_client_keeps:
  "cn_model_id (snd (ensure_client b cn)) = cn_model_id cn" "cn_block_size (snd (ensure_client b cn)) = cn_block_size cn"
  "cn_need_load (snd (ensure_client b cn)) = cn_need_load cn" "cn_executor (snd (ensure_client b cn)) = cn_executor cn"
  "cn_inflight_loads (snd (ensure_client b cn)) = cn_inflight_loads cn" "cn_shape_pin (snd (ensure_client b cn)) = cn_shape_pin cn"
  "cn_address (snd (ensure_client b cn)) = cn_address cn"
  by (simp_all add: ensure_client_def Let_def split: option.split)

lemma contiguous_hits_le: "contiguous_hits hs S \<le> length hs"
  by (simp add: contiguous_hits_def length_takeWhile_le)

text \<open>The tokens that \<open>c\<close> matched blocks stand for, when the last block of a prompt of \<open>len\<close> tokens is held back.\<close>

lemma held_back:
  assumes "0 < k" "c \<le> len div k" "0 < len"
  shows "(if int c * int k \<ge> int len then max 0 (int c * int k - int k) else int c * int k) =
    int (offered_tokens len k c)" "offered_tokens len k c < len"
proof -
  have le: "c * k \<le> len" using assms(2) by (metis div_times_less_eq_dividend le_trans mult_le_mono1)
  have "0 < c" if "c * k = len" using that assms(3) by (cases c) simp_all
  moreover have "int c * int k = int (c * k)" by simp
  moreover have "int (c * k) - int k = int ((c - 1) * k)" if "0 < c" using that by (cases c) simp_all
  ultimately show "(if int c * int k \<ge> int len then max 0 (int c * int k - int k) else int c * int k) =
      int (offered_tokens len k c)"
    using le by (cases "c * k = len") (simp_all only: offered_tokens_def of_nat_le_iff if_True if_False order.refl, simp_all)
  show "offered_tokens len k c < len"
    using le assms(1,3) by (auto simp: offered_tokens_def diff_mult_distrib)
qed

lemma get_num_cases:
  assumes "get_num_new_matched_tokens H b lk fe cn rid xs computed w = Inr (t, cn', w')" "cn_block_size cn = int k" "0 < k" "0 \<le> computed"
  obtains c where "c \<le> length xs div k" "t = max 0 (int (offered_tokens (length xs) k c) - computed)"
    "cn' \<in> {cn, snd (ensure_client b cn)}"
proof (cases "xs = [] \<or> length xs div k = 0")
  case True
  then have "xs = [] \<or> int (length xs) div int k = 0" by (auto simp: zdiv_int [symmetric])
  then have "t = 0 \<and> cn' = cn" using assms(1-3)
    by (cases "xs = []") (simp_all add: get_num_new_matched_tokens_def Let_def)
  then show thesis using that [of 0] assms(4) by (simp add: offered_tokens_def)
next
  case False
  then have ne: "xs \<noteq> []" "length xs div k \<noteq> 0" "int (length xs) div int k = int (length xs div k)" by (simp_all add: zdiv_int)
  obtain hs where hs: "block_chain H xs (int k) (int (length xs div k)) = Some hs"
    using assms ne by (auto simp: get_num_new_matched_tokens_def Let_def split: option.splits)
  have len: "length hs = length xs div k" using chain_loop_length hs by (fastforce simp: block_chain_def)
  obtain cl cn1 where cl: "ensure_client b cn = (cl, cn1)" by force
  let ?look = "client_lookup lk fe cl (map (probe_id (cn_model_id cn)) hs) rid ''lethe-scheduler'' None w"
  show thesis
  proof (cases ?look)
    case None
    then have "t = 0 \<and> cn' = cn1" using assms(1-3) ne hs cl by (simp add: get_num_new_matched_tokens_def Let_def)
    then show thesis using that [of 0] assms(4) cl by (simp add: offered_tokens_def)
  next
    case (Some p)
    obtain result w1 where p: "p = (result, w1)" by force
    define c where "c = contiguous_hits hs (set (map (id_hash \<circ> lh_block_id) (cr_hits result)))"
    have c: "c \<le> length xs div k" using contiguous_hits_le len by (metis c_def)
    have "t = max 0 ((if int c * int k \<ge> int (length xs) then max 0 (int c * int k - int k) else int c * int k) - computed) \<and> cn' = cn1"
      using assms(1-3) ne hs cl Some p by (simp add: get_num_new_matched_tokens_def Let_def c_def split: if_splits)
    then show thesis using that [OF c] held_back(1) [OF assms(3) c] ne(1) cl by simp
  qed
qed

lemma take_hits_ids:
  "map lh_block_id (cr_hits (fst (fold (take_hit fe c) hs st))) = map lh_block_id (cr_hits (fst st)) @ map (from_proto_block_id \<circ> bh_id) hs"
proof (induction hs arbitrary: st)
  case (Cons h hs)
  obtain r w where st: "st = (r, w)" by force
  have "map lh_block_id (cr_hits (fst (take_hit fe c h st))) = map lh_block_id (cr_hits r) @ [from_proto_block_id (bh_id h)]"
    by (auto simp: st take_hit_def fetch_into_result_def Let_def split: option.split prod.split)
  then show ?case using Cons.IH [of "take_hit fe c h st"] by (simp add: st)
qed simp

lemma take_hits_world: "lc_peers c = [] \<Longrightarrow> snd (fold (take_hit fe c) hs st) = snd st"
  by (induction hs arbitrary: st) (auto simp: take_hit_def fetch_into_result_def Let_def split: prod.splits)

lemma answer_entries_hits:
  "map bh_id (ls_hits (fold (answer_entry me) es resp)) =
   map bh_id (ls_hits resp) @ map (BlockIdToProto \<circ> le_id) (filter (\<lambda>e. le_where e \<noteq> Miss) es)"
  by (induction es arbitrary: resp) (auto simp: answer_entry_def split: Where.splits)

text \<open>A server's answer to the connector's probes.\<close>

lemma svc_Lookup_hits:
  assumes "node_ok payload n" "lq_block_ids q = map to_proto_block_id ids" "\<forall>i\<in>set ids. id_ok i \<and> payload i \<noteq> []"
  shows "map (from_proto_block_id \<circ> bh_id) (ls_hits (fst (svc_Lookup n q))) = filter (reported_hit n) ids"
    "node_ok payload (snd (svc_Lookup n q))" "ts_content (nd_store (snd (svc_Lookup n q))) = ts_content (nd_store n)"
proof -
  have ids: "map BlockIdFromProto (lq_block_ids q) = ids"
    using assms(2,3) by (simp add: to_proto_eq BlockId_proto_inverse map_idI)
  obtain r n' where lk: "lookup_loop ids (\<lparr>lr_entries = [], lr_hit_count = 0, lr_miss_count = 0\<rparr>, n) = (r, n')" by force
  note ok = lookup_loop_ok [OF assms(1) lk]
  have svc: "svc_Lookup n q = (fold (answer_entry (cc_node_id (nd_cfg n))) (lr_entries r) \<lparr>ls_hits = [], ls_misses = []\<rparr>, n')"
    by (simp add: svc_Lookup_def ids Lookup_def lk)
  have es: "list_all2 (lookup_spec payload n) ids (lr_entries r)" using ok by auto
  have "map le_id (filter (\<lambda>e. le_where e \<noteq> Miss) es) = filter (reported_hit n) js"
    if "list_all2 (lookup_spec payload n) js es" "\<forall>i\<in>set js. payload i \<noteq> []" for js es
    using that by (induction rule: list_all2_induct) (auto simp: lookup_spec_def reported_hit_def)
  then have F: "map le_id (filter (\<lambda>e. le_where e \<noteq> Miss) (lr_entries r)) = filter (reported_hit n) ids" using es assms(3) by blast
  have h: "map bh_id (ls_hits (fst (svc_Lookup n q))) = map (BlockIdToProto \<circ> le_id) (filter (\<lambda>e. le_where e \<noteq> Miss) (lr_entries r))"
    by (simp add: svc answer_entries_hits)
  have "map (from_proto_block_id \<circ> bh_id) (ls_hits (fst (svc_Lookup n q))) = map from_proto_block_id (map bh_id (ls_hits (fst (svc_Lookup n q))))"
    by simp
  also have "\<dots> = map le_id (filter (\<lambda>e. le_where e \<noteq> Miss) (lr_entries r))" unfolding h by (simp flip: to_proto_eq)
  finally show "map (from_proto_block_id \<circ> bh_id) (ls_hits (fst (svc_Lookup n q))) = filter (reported_hit n) ids" unfolding F .
  show "node_ok payload (snd (svc_Lookup n q))" "ts_content (nd_store (snd (svc_Lookup n q))) = ts_content (nd_store n)"
    using ok by (simp_all add: svc)
qed

lemma connector_lookup:
  assumes "node_ok payload n" "wd_cluster w a = Some n" "net (wd_calls w) = Answered" "ids \<noteq> []" "\<forall>i\<in>set ids. id_ok i \<and> payload i \<noteq> []"
  shows "\<exists>r w'. client_lookup (lookup_rpc net) fe (client_new b a []) ids rid rn None w = Some (r, w') \<and>
    map lh_block_id (cr_hits r) = filter (reported_hit n) ids \<and>
    (\<exists>n'. wd_cluster w' = (wd_cluster w)(a \<mapsto> n') \<and> node_ok payload n' \<and> ts_content (nd_store n') = ts_content (nd_store n))"
proof -
  let ?c = "client_new b a []"
  let ?q = "\<lparr>lq_block_ids = map to_proto_block_id ids, lq_request_id = rid, lq_requesting_node = rn\<rparr>"
  have c: "lc_ring ?c = None" "lc_primary_address ?c = a" "lc_peers ?c = []" by (simp_all add: client_new_def)
  have "partition_ids ?c is [(None, js)] = Some [(None, js @ is)]" for "is" js
    by (induction "is" arbitrary: js) (simp_all add: primary_node_def c)
  then have part: "partition_ids ?c ids [] = Some [(None, ids)]" using assms(4) by (cases ids) (simp_all add: primary_node_def c)
  obtain resp n' where svc: "svc_Lookup n ?q = (resp, n')" by force
  have call: "call_with_retry (lookup_rpc net a ?q) w = (Some resp, w\<lparr>wd_calls := wd_calls w + 1, wd_cluster := (wd_cluster w)(a \<mapsto> n')\<rparr>)"
    using assms(2,3) svc by (simp add: call_with_retry_def MAX_ATTEMPTS_def numeral_3_eq_3 lookup_rpc_def cluster_call_def Let_def)
  have "map (from_proto_block_id \<circ> bh_id) (ls_hits resp) = filter (reported_hit n) ids"
    using svc_Lookup_hits(1) [OF assms(1) _ assms(5), of ?q] svc by simp
  moreover obtain r w2 where f: "fold (take_hit fe ?c) (ls_hits resp) (\<lparr>cr_hits = [], cr_misses = [], cr_fetched = []\<rparr>,
      w\<lparr>wd_calls := wd_calls w + 1, wd_cluster := (wd_cluster w)(a \<mapsto> n')\<rparr>) = (r, w2)" by force
  ultimately have "map lh_block_id (cr_hits r) = filter (reported_hit n) ids"
    using take_hits_ids [of fe ?c "ls_hits resp" "(\<lparr>cr_hits = [], cr_misses = [], cr_fetched = []\<rparr>,
      w\<lparr>wd_calls := wd_calls w + 1, wd_cluster := (wd_cluster w)(a \<mapsto> n')\<rparr>)"] by simp
  moreover have "w2 = w\<lparr>wd_calls := wd_calls w + 1, wd_cluster := (wd_cluster w)(a \<mapsto> n')\<rparr>"
    using take_hits_world [OF c(3), of fe "ls_hits resp"] f by (metis snd_conv)
  moreover have "node_ok payload n'" "ts_content (nd_store n') = ts_content (nd_store n)"
    using svc_Lookup_hits(2,3) [OF assms(1) _ assms(5), of ?q] svc by simp_all
  ultimately show ?thesis
    using assms(4) f by (auto simp: client_lookup_def part lookup_group_def stub_addr_def c call)
qed

lemma fetch_nothing:
  assumes "wd_cluster w a = Some n" "node_ok payload n" "\<And>i. ts_content (nd_store n) i = None"
  shows "fst (client_fetch (fetch_rpc net) (client_new b a []) i rn None w) = None"
proof -
  let ?q = "\<lparr>fq_id = to_proto_block_id i, fq_requesting_node = rn\<rparr>"
  let ?P = "\<lambda>v. \<exists>n. wd_cluster v a = Some n \<and> node_ok payload n \<and> (\<forall>i. ts_content (nd_store n) i = None)"
  have step: "?P (snd (fetch_rpc net a ?q v)) \<and> (\<forall>resp. fst (fetch_rpc net a ?q v) = Inr resp \<longrightarrow> \<not> fs_found resp)" if P: "?P v" for v
  proof -
    obtain n where n: "wd_cluster v a = Some n" "node_ok payload n" "\<And>i. ts_content (nd_store n) i = None" using P by blast
    obtain g st where g: "ts_Get (nd_store n) (BlockIdFromProto (fq_id ?q)) = (g, st)" by force
    have so: "ts_inv (nd_store n)" "coherent payload (nd_store n)" using n(2) by (simp_all add: node_ok_store store_ok_def)
    have g': "g = None" "ts_content st = ts_content (nd_store n)" using ts_Get_exact(1,3) [OF so g] n(3) by simp_all
    have svc: "svc_Fetch n ?q = (\<lparr>fs_id = BlockIdToProto (BlockIdFromProto (fq_id ?q)), fs_kv_data = [], fs_found = False, fs_tier = 0\<rparr>, n\<lparr>nd_store := st\<rparr>)"
      using g g'(1) by (simp add: svc_Fetch_def FetchLocal_def)
    moreover have "node_ok payload (n\<lparr>nd_store := st\<rparr>)" using node_ok_cache_step [OF svc_Fetch_step n(2), of ?q] svc by simp
    ultimately show ?thesis
      using n g'(2) by (auto simp: fetch_rpc_def cluster_call_def Let_def split: Outcome.splits)
  qed
  obtain x w' where x: "call_with_retry (fetch_rpc net a ?q) w = (x, w')" by force
  have "\<forall>resp. x = Some resp \<longrightarrow> (\<exists>v. ?P v \<and> fst (fetch_rpc net a ?q v) = Inr resp)"
    using retry_loop_keeps [of ?P "fetch_rpc net a ?q" w 3 x w'] step assms x by (simp add: call_with_retry_def MAX_ATTEMPTS_def)
  then have "\<forall>resp. x = Some resp \<longrightarrow> \<not> fs_found resp" using step by blast
  then show ?thesis using x by (auto simp: client_fetch_def stub_addr_def client_new_def Let_def split: option.splits)
qed

lemma id_ok_probe [simp]: "id_ok (probe_id m h) = (length h = 32)" "id_ok (load_id m l h) = (length h = 32)"
  by (simp_all add: id_ok_def probe_id_def load_id_def)

lemma probe_hits:
  assumes "h \<in> set hs"
  shows "h \<in> id_hash ` set (filter P (map (probe_id m) hs)) \<longleftrightarrow> P (probe_id m h)"
proof
  assume "h \<in> id_hash ` set (filter P (map (probe_id m) hs))"
  then obtain g where "P (probe_id m g)" "h = id_hash (probe_id m g)" by auto
  then show "P (probe_id m h)" by (simp add: probe_id_def)
next
  assume "P (probe_id m h)"
  then show "h \<in> id_hash ` set (filter P (map (probe_id m) hs))"
    using assms by (intro image_eqI [of _ _ "probe_id m h"]) (simp_all add: probe_id_def)
qed

lemma get_num_exact:
  assumes "cluster_ok payload (wd_cluster w)" "wd_cluster w (cn_address cn) = Some n" "net (wd_calls w) = Answered"
    and "cn_client cn \<in> {None, Some (client_new b (cn_address cn) [])}" "cn_block_size cn = int k" "0 < k" "k \<le> length xs"
    and "block_chain H xs (int k) (int (length xs div k)) = Some hs" "\<And>x. length (H x) = 32" "\<And>h. payload (probe_id (cn_model_id cn) h) \<noteq> []"
  shows "\<exists>w' n'. get_num_new_matched_tokens H b (lookup_rpc net) fe cn rid xs computed w =
    Inr (max 0 (int (offered_tokens (length xs) k (length (takeWhile (reported_hit n \<circ> probe_id (cn_model_id cn)) hs))) - computed),
      snd (ensure_client b cn), w') \<and>
    wd_cluster w' = (wd_cluster w)(cn_address cn \<mapsto> n') \<and> node_ok payload n' \<and> ts_content (nd_store n') = ts_content (nd_store n)"
proof -
  let ?m = "cn_model_id cn"
  let ?c = "length (takeWhile (reported_hit n \<circ> probe_id ?m) hs)"
  have len: "length hs = length xs div k" using chain_loop_length assms(8) by (fastforce simp: block_chain_def)
  have n0: "length xs div k \<noteq> 0" using assms(6,7) by (simp add: div_eq_0_iff)
  then have ne: "xs \<noteq> []" "int (length xs) div int k = int (length xs div k)" "map (probe_id ?m) hs \<noteq> []" using len by (auto simp: zdiv_int)
  have dig: "\<forall>h\<in>set hs. length h = 32" using chain_loop_digests assms(8,9) by (fastforce simp: block_chain_def)
  obtain cn1 where cl: "ensure_client b cn = (client_new b (cn_address cn) [], cn1)"
    using ensure_client_unused [OF assms(4)] by (metis prod.collapse)
  have nok: "node_ok payload n" using assms(1,2) by (simp add: cluster_ok_def)
  have "\<forall>i\<in>set (map (probe_id ?m) hs). id_ok i \<and> payload i \<noteq> []" using dig assms(10) by simp
  with connector_lookup [of payload n w "cn_address cn" net "map (probe_id ?m) hs" fe b rid "''lethe-scheduler''"] nok assms(2,3) ne(3) obtain r w' n' where
    r: "client_lookup (lookup_rpc net) fe (client_new b (cn_address cn) []) (map (probe_id ?m) hs) rid ''lethe-scheduler'' None w = Some (r, w')"
      "map lh_block_id (cr_hits r) = filter (reported_hit n) (map (probe_id ?m) hs)"
    and n': "wd_cluster w' = (wd_cluster w)(cn_address cn \<mapsto> n')" "node_ok payload n'" "ts_content (nd_store n') = ts_content (nd_store n)"
    by blast
  have "set (map (id_hash \<circ> lh_block_id) (cr_hits r)) = id_hash ` set (map lh_block_id (cr_hits r))" by (simp add: image_comp)
  then have "h \<in> set (map (id_hash \<circ> lh_block_id) (cr_hits r)) \<longleftrightarrow> reported_hit n (probe_id ?m h)" if "h \<in> set hs" for h
    using that by (simp only: r(2) probe_hits)
  then have "contiguous_hits hs (set (map (id_hash \<circ> lh_block_id) (cr_hits r))) = ?c"
    unfolding contiguous_hits_def by (intro arg_cong [of _ _ length] takeWhile_cong) simp_all
  moreover have le: "?c \<le> length xs div k" using length_takeWhile_le [of "reported_hit n \<circ> probe_id ?m" hs] len by simp
  moreover have pos: "0 < length xs" using ne(1) by simp
  ultimately show ?thesis
    using r(1) n' n0 ne assms(5,6,8) cl held_back(1) [OF assms(6) le pos]
    by (intro exI [of _ w'] exI [of _ n']) (simp add: get_num_new_matched_tokens_def Let_def split del: if_split cong del: if_weak_cong)
qed

subsection \<open>Planning loads and stores\<close>

lemma enumerate_nth: "enumerate 0 hs = map (\<lambda>i. (i, hs ! i)) [0..<length hs]"
  by (rule nth_equalityI) (simp_all add: nth_enumerate_eq)

lemma filter_below: "filter (\<lambda>i. int i < int m) [0..<n] = [0..<min m n]" "filter (\<lambda>i. \<not> int i < int m) [0..<n] = [min m n..<n]"
  by (induction n) (auto simp: min_def not_less le_Suc_eq)

text \<open>The specifications of the blocks \<open>i\<close> of a request, and what is planned for one that loads \<open>m\<close> blocks.\<close>

lemma plan_request_eq:
  assumes "cn_block_size cn = int k" "0 < k" "nr_prompt_token_ids r \<noteq> []" "nr_block_ids r = alloc # gs" "alloc \<noteq> []"
    and "(case map_of (cn_need_load cn) (nr_req_id r) of None \<Rightarrow> 0 | Some (n, _) \<Rightarrow> n) = int m"
    and "n = min (length (nr_prompt_token_ids r) div k) (length alloc)" "n \<noteq> 0"
    and "block_chain H (nr_prompt_token_ids r) (int k) (int n) = Some hs"
  shows "plan_request H r (meta, cn) =
    Inr (meta\<lparr>cm_loads := append_payload (nr_req_id r) (map (\<lambda>i. block_spec alloc (int m) i (hs ! i)) [0..<min m n]) (cm_loads meta),
             cm_stores := append_payload (nr_req_id r) (map (\<lambda>i. block_spec alloc (int m) i (hs ! i)) [min m n..<n]) (cm_stores meta)\<rparr>,
      cn\<lparr>cn_need_load := AList.delete (nr_req_id r) (cn_need_load cn)\<rparr>)"
proof -
  have len: "length hs = n" using chain_loop_length assms(9) by (fastforce simp: block_chain_def)
  have whole: "min (int (length (nr_prompt_token_ids r)) div int k) (int (length alloc)) = int n"
    unfolding assms(7) by (simp add: zdiv_int [symmetric] of_nat_min)
  let ?f = "\<lambda>i. block_spec alloc (int m) i (hs ! i)"
  let ?specs = "map (\<lambda>(i, h). (i, block_spec alloc (int m) i h)) (enumerate 0 hs)"
  have specs: "?specs = map (\<lambda>i. (i, ?f i)) [0..<n]" by (simp add: enumerate_nth len)
  have "map snd (filter (\<lambda>(i, s). P i) ?specs) = map ?f (filter P [0..<n])" for P
    unfolding specs by (simp add: filter_map comp_def)
  then have "map snd (filter (\<lambda>(i, s). int i < int m) ?specs) = map ?f [0..<min m n]"
    "map snd (filter (\<lambda>(i, s). \<not> int i < int m) ?specs) = map ?f [min m n..<n]"
    by (simp_all only: filter_below)
  then show ?thesis
    using assms(1-6,8,9) whole unfolding plan_request_def by (simp only: prod.case list.case Let_def of_nat_eq_0_iff if_False if_True option.case refl) simp
qed

text \<open>The hashes of a prompt of two blocks of one token, with a constant digest.\<close>

lemma sample_chain:
  "block_chain (\<lambda>_. 1 # replicate 31 0) [5, 6] (int 1) (int (length [5, 6 :: int] div 1)) = Some [1 # replicate 31 0, 1 # replicate 31 0]"
proof -
  have "pack_u32 5 \<noteq> None" "pack_u32 6 \<noteq> None" by (simp_all add: pack_u32_def)
  then show ?thesis by (auto simp: block_chain_def numeral_2_eq_2 chained_block_hash_def)
qed

section \<open>Properties\<close>

text \<open>
  The hashes under which the connector looks up, loads and stores the blocks of a prompt, and those of the
  orchestrator, are the ones that the client's \<open>prefix_block_ids\<close> gives for the whole blocks of the prompt.
\<close>

theorem connector_hashes_match:
  assumes "0 < k" "n = length xs div k"
  shows "block_chain H xs (int k) (int n) = prefix_block_ids H (take (n * k) xs) (int k) (replicate 32 0) \<and>
    prefix_block_hashes H (int k) xs = prefix_block_ids H (take (n * k) xs) (int k) (replicate 32 0)"
  using assms block_chain_prefix [of k n xs H] by (simp add: prefix_block_hashes_def zdiv_int [symmetric])

text \<open>
  C13. What the connector tells the scheduler is safe to act on: whatever the servers answer, and if they do not
  answer, the tokens it reports are whole blocks beyond those already computed, and at least one token of the prompt is left to compute.
\<close>

theorem matched_tokens_bounded:
  assumes "get_num_new_matched_tokens H b lk fe cn rid xs (int computed) w = Inr (t, cn', w')"
    and "cn_block_size cn = int k" "0 < k" "computed < length xs" "k dvd computed"
  shows "0 \<le> t \<and> int k dvd t \<and> int computed + t < int (length xs)"
proof -
  obtain c where c: "c \<le> length xs div k" "t = max 0 (int (offered_tokens (length xs) k c) - int computed)"
    by (rule get_num_cases [OF assms(1-3) of_nat_0_le_iff])
  have "0 < length xs" using assms(4) by linarith
  then have "offered_tokens (length xs) k c < length xs" using held_back(2) [OF assms(3) c(1)] by simp
  moreover have "k dvd offered_tokens (length xs) k c" by (simp add: offered_tokens_def)
  ultimately show ?thesis using c(2) assms(4,5) by (auto simp: max_def int_dvd_int_iff)
qed

theorem matched_tokens_bounded_witness:
  "\<exists>cn'. get_num_new_matched_tokens (\<lambda>_. replicate 32 0) (\<lambda>_. []) all_hits (\<lambda>_ _ w. (Inl UNAVAILABLE, w))
       (connector_new None (Some 2) None 16 False) ''r'' [5, 6, 7, 8] (int 0) () = Inr (2, cn', ()) \<and> int 2 dvd (2 :: int) \<and> 0 + (2 :: int) < 4"
proof -
  let ?H = "\<lambda>_. replicate 32 0" and ?fe = "\<lambda>_ _ w. (Inl UNAVAILABLE, w)" and ?cn = "connector_new None (Some 2) None 16 False"
  have pack: "pack_u32 5 \<noteq> None" "pack_u32 6 \<noteq> None" "pack_u32 7 \<noteq> None" "pack_u32 8 \<noteq> None" by (simp_all add: pack_u32_def)
  have chain: "block_chain ?H [5, 6, 7, 8] 2 2 = Some [replicate 32 0, replicate 32 0]"
    using pack by (auto simp: block_chain_def numeral_2_eq_2 chained_block_hash_def)
  obtain cn' where run: "get_num_new_matched_tokens ?H (\<lambda>_. []) all_hits ?fe ?cn ''r'' [5, 6, 7, 8] (int 0) () = Inr (2, cn', ())"
    by (simp add: get_num_new_matched_tokens_def connector_new_def chain ensure_client_def client_lookup_def client_new_def primary_node_def all_hits_def
        lookup_group_def call_with_retry_def MAX_ATTEMPTS_def numeral_3_eq_3 take_hit_def local_label_for_def contiguous_hits_def Let_def probe_id_def)
  have "0 \<le> (2 :: int) \<and> int 2 dvd (2 :: int) \<and> int 0 + 2 < int (length [5, 6, 7, 8 :: int])"
    by (rule matched_tokens_bounded [OF run]) (simp_all add: connector_new_def)
  then show ?thesis using run by auto
qed

text \<open>
  C14. Phantom hits.  A server reports a hit for every block whose primary is another server, held or not, and the connector
  counts what it reports.  So when the server that the connector talks to holds nothing and routes all blocks of a prompt
  elsewhere, the connector offers the scheduler the whole prompt (but for a block held back) as cached, and yet every
  fetch that the worker then makes returns nothing.
\<close>

theorem connector_phantom_hits:
  assumes "cluster_ok payload (wd_cluster w)" "wd_cluster w (cn_address cn) = Some n" "net (wd_calls w) = Answered"
    and "cn_client cn = None" "cn_block_size cn = int k" "0 < k" "k \<le> length xs"
    and "block_chain H xs (int k) (int (length xs div k)) = Some hs" "\<And>x. length (H x) = 32" "\<And>h. payload (probe_id (cn_model_id cn) h) \<noteq> []"
    and "\<And>i. ts_content (nd_store n) i = None"
    and "\<forall>h\<in>set hs. rr_primary (Route (nd_router n) (probe_id (cn_model_id cn) h)) \<notin> {[], cc_node_id (nd_cfg n)}"
  shows "\<exists>cn' w'. get_num_new_matched_tokens H b (lookup_rpc net) (fetch_rpc net) cn rid xs 0 w =
      Inr (int (offered_tokens (length xs) k (length xs div k)), cn', w') \<and>
    (\<forall>i. fst (client_fetch (fetch_rpc net) (client_new b (cn_address cn) []) i ''lethe-worker'' None w') = None)"
proof -
  let ?m = "cn_model_id cn"
  have "takeWhile (reported_hit n \<circ> probe_id ?m) hs = hs" using assms(12) by (simp add: takeWhile_eq_all_conv reported_hit_def)
  moreover have "length hs = length xs div k" using chain_loop_length assms(8) by (fastforce simp: block_chain_def)
  ultimately have c: "length (takeWhile (reported_hit n \<circ> probe_id ?m) hs) = length xs div k" by (simp only:)
  have "cn_client cn \<in> {None, Some (client_new b (cn_address cn) [])}" using assms(4) by simp
  from get_num_exact [of payload w cn n net b k xs H hs "fetch_rpc net" rid 0, OF assms(1-3) this assms(5-10), unfolded c]
  obtain w' n' where run: "get_num_new_matched_tokens H b (lookup_rpc net) (fetch_rpc net) cn rid xs 0 w =
      Inr (int (offered_tokens (length xs) k (length xs div k)), snd (ensure_client b cn), w')"
    and n': "wd_cluster w' = (wd_cluster w)(cn_address cn \<mapsto> n')" "node_ok payload n'" "ts_content (nd_store n') = ts_content (nd_store n)"
    by auto
  have "fst (client_fetch (fetch_rpc net) (client_new b (cn_address cn) []) i ''lethe-worker'' None w') = None" for i
    by (rule fetch_nothing [of _ _ n' payload]) (use n' assms(11) in simp_all)
  then show ?thesis using run by blast
qed

theorem connector_phantom_hits_witness:
  "\<exists>nb cn' w'. cache_new sample_env 0 (\<lambda>_. False) (\<lambda>_. []) env_ok None sample_other_cfg = Inr nb \<and>
     get_num_new_matched_tokens (\<lambda>_. 1 # replicate 31 0) (\<lambda>_. []) (lookup_rpc (\<lambda>_. Answered)) (fetch_rpc (\<lambda>_. Answered))
       (connector_new (Some ''h:1'') (Some 1) None 16 False) ''r'' [5, 6] 0 \<lparr>wd_cluster = [''h:1'' \<mapsto> nb], wd_calls = 0\<rparr> = Inr (1, cn', w') \<and>
     fst (client_fetch (fetch_rpc (\<lambda>_. Answered)) (client_new (\<lambda>_. []) ''h:1'' []) (sample_id 1) ''lethe-worker'' None w') = None"
proof -
  obtain nb where nb: "cache_new sample_env 0 (\<lambda>_. False) (\<lambda>_. []) env_ok None sample_other_cfg = Inr nb" "node_ok (\<lambda>_. [7, 8]) nb"
    "spares ''a'' ''h:0'' (sample_id 1) nb" by (rule sample_other)
  have "\<exists>nb. cache_new sample_env 0 (\<lambda>_. False) (\<lambda>_. []) env_ok None sample_other_cfg = Inr nb \<and> nd_cfg nb = sample_other_cfg \<and>
      (\<forall>i. ts_content (nd_store nb) i = None)"
    by (simp add: cache_new_def ts_new_def tiered_config_def sample_other_cfg_def sample_cache_cfg_def default_cache_config_def Let_def
        EnsurePeerClient_def replicator_new_def ts_content_def tier_probe_def bs_new_def bs_Get_def)
  then have empty: "ts_content (nd_store nb) i = None" and id: "cc_node_id (nd_cfg nb) = ''b''" for i
    using nb(1) by (auto simp: sample_other_cfg_def)
  let ?cn = "connector_new (Some ''h:1'') (Some 1) None 16 False" and ?H = "\<lambda>_. 1 # replicate 31 0"
  have probe: "probe_id 0 (1 # replicate 31 0) = sample_id 1" by (simp add: probe_id_def sample_id_def PRESENCE_LAYER_def)
  have "\<exists>cn' w'. get_num_new_matched_tokens ?H (\<lambda>_. []) (lookup_rpc (\<lambda>_. Answered)) (fetch_rpc (\<lambda>_. Answered)) ?cn ''r'' [5, 6] 0
        \<lparr>wd_cluster = [''h:1'' \<mapsto> nb], wd_calls = 0\<rparr> = Inr (int (offered_tokens (length [5, 6 :: int]) 1 (length [5, 6 :: int] div 1)), cn', w') \<and>
      (\<forall>i. fst (client_fetch (fetch_rpc (\<lambda>_. Answered)) (client_new (\<lambda>_. []) (cn_address ?cn) []) i ''lethe-worker'' None w') = None)"
    by (rule connector_phantom_hits [OF _ _ _ _ _ _ _ sample_chain, of "\<lambda>_. [7, 8]" _ _ nb])
      (use nb(2,3) empty id in \<open>simp_all add: connector_new_def cluster_ok_def probe spares_def\<close>)
  then show ?thesis using nb(1) by (auto simp: offered_tokens_def connector_new_def)
qed

text \<open>
  C12. The exact count: against a server that answers, the connector offers the longest run of blocks from the start of the prompt
  that the server reports as hits, by holding the block's marker or by routing it elsewhere, without the last
  block when the run is the whole prompt, less the tokens already computed.
\<close>

theorem matched_tokens_exact:
  assumes "cluster_ok payload (wd_cluster w)" "wd_cluster w (cn_address cn) = Some n" "net (wd_calls w) = Answered"
    and "cn_client cn = None" "cn_block_size cn = int k" "0 < k" "k \<le> length xs"
    and "block_chain H xs (int k) (int (length xs div k)) = Some hs" "\<And>x. length (H x) = 32" "\<And>h. payload (probe_id (cn_model_id cn) h) \<noteq> []"
  shows "\<exists>cn' w'. get_num_new_matched_tokens H b (lookup_rpc net) (fetch_rpc net) cn rid xs computed w =
      Inr (max 0 (int (offered_tokens (length xs) k (length (takeWhile (reported_hit n \<circ> probe_id (cn_model_id cn)) hs))) - computed), cn', w') \<and>
    cluster_ok payload (wd_cluster w')"
proof -
  have "cn_client cn \<in> {None, Some (client_new b (cn_address cn) [])}" using assms(4) by simp
  from get_num_exact [of payload w cn n net b k xs H hs "fetch_rpc net" rid computed, OF assms(1-3) this assms(5-10)]
  show ?thesis using assms(1) by (fastforce simp: cluster_ok_def)
qed

theorem matched_tokens_exact_witness:
  "\<exists>na cn' w'. cache_new sample_env 0 (\<lambda>_. False) (\<lambda>_. []) env_ok None sample_cache_cfg = Inr na \<and>
     get_num_new_matched_tokens (\<lambda>_. 1 # replicate 31 0) (\<lambda>_. []) (lookup_rpc (\<lambda>_. Answered)) (fetch_rpc (\<lambda>_. Answered))
       (connector_new (Some ''h:0'') (Some 1) None 16 False) ''r'' [5, 6] 0 \<lparr>wd_cluster = [''h:0'' \<mapsto> na], wd_calls = 0\<rparr> = Inr (0, cn', w')"
proof -
  obtain na where na: "cache_new sample_env 0 (\<lambda>_. False) (\<lambda>_. []) env_ok None sample_cache_cfg = Inr na" "node_ok (\<lambda>_. [7, 8]) na"
    "ts_content (nd_store na) (sample_id 1) = None" "nd_cfg na = sample_cache_cfg" "spares ''a'' ''h:0'' (sample_id 1) na" by (rule sample_primary)
  let ?cn = "connector_new (Some ''h:0'') (Some 1) None 16 False" and ?H = "\<lambda>_. 1 # replicate 31 0"
  let ?hs = "[1 # replicate 31 0, 1 # replicate 31 0] :: byte list list"
  have probe: "probe_id 0 (1 # replicate 31 0) = sample_id 1" by (simp add: probe_id_def sample_id_def PRESENCE_LAYER_def)
  have "\<exists>cn' w'. get_num_new_matched_tokens ?H (\<lambda>_. []) (lookup_rpc (\<lambda>_. Answered)) (fetch_rpc (\<lambda>_. Answered)) ?cn ''r'' [5, 6] 0
        \<lparr>wd_cluster = [''h:0'' \<mapsto> na], wd_calls = 0\<rparr> = Inr (max 0 (int (offered_tokens (length [5, 6 :: int]) 1
          (length (takeWhile (reported_hit na \<circ> probe_id (cn_model_id ?cn)) ?hs))) - 0), cn', w') \<and> cluster_ok (\<lambda>_. [7, 8]) (wd_cluster w')"
    by (rule matched_tokens_exact [OF _ _ _ _ _ _ _ sample_chain])
      (use na(2) in \<open>simp_all add: connector_new_def cluster_ok_def\<close>)
  moreover have "\<not> reported_hit na (sample_id 1)" using na(3-5) by (simp add: reported_hit_def spares_def sample_cache_cfg_def)
  ultimately show ?thesis using na(1) by (auto simp: offered_tokens_def connector_new_def probe)
qed

text \<open>
  C15. The wrong pages are loaded when the engine has a prefix of its own.  The scheduler asks what is cached beyond the \<open>c\<close> blocks it already has; of the \<open>m\<close> blocks
  that it is then told of, and counts as computed, the plan loads the first \<open>m\<close> blocks of the prompt instead of the \<open>m\<close> that follow the first \<open>c\<close>, and
  the last block counted as loaded is among those that the worker is to store, though nothing computes it.
\<close>

theorem connector_loads_wrong_pages:
  assumes "get_num_new_matched_tokens H b lk fe cn rid xs (int (c * k)) w = Inr (t, cn1, w')" "0 < t" "0 < c" "c * k < length xs"
    and "cn_block_size cn = int k" "0 < k" "cn_need_load cn = []"
    and "update_state_after_alloc cn1 rid [alloc] t = Inr cn2" "length xs div k \<le> length alloc"
    and "build_connector_meta H cn2 [\<lparr>nr_req_id = rid, nr_prompt_token_ids = xs, nr_block_ids = [alloc]\<rparr>] = Inr (meta, cn3)"
  shows "\<exists>m. t = int (m * k) \<and> c + m \<le> length xs div k \<and>
    map (map sc_vllm_block_id \<circ> lp_blocks) (cm_loads meta) = [take m alloc] \<and>
    map (map sc_vllm_block_id \<circ> lp_blocks) (cm_stores meta) = [drop m (take (length xs div k) alloc)] \<and>
    alloc ! (c + m - 1) \<in> set (drop m (take (length xs div k) alloc))"
proof -
  obtain d where d: "d \<le> length xs div k" "t = max 0 (int (offered_tokens (length xs) k d) - int (c * k))"
    "cn1 \<in> {cn, snd (ensure_client b cn)}" using get_num_cases [OF assms(1,5,6)] by (metis of_nat_0_le_iff)
  define e where "e = (if d * k = length xs then d - 1 else d)"
  define m where "m = e - c"
  let ?n = "length xs div k"
  have e: "offered_tokens (length xs) k d = e * k" by (simp add: offered_tokens_def e_def)
  then have ce: "c < e" using d(2) assms(2,6) by (simp add: max_def split: if_splits)
  have "int c * int k \<le> int e * int k" using ce by (simp add: mult_right_mono)
  then have t: "t = int (m * k)" using d(2) ce e by (simp add: m_def max_def of_nat_diff left_diff_distrib)
  have m: "0 < m" "c + m = e" "e \<le> ?n" using ce d(1) by (auto simp: m_def e_def)
  have cn1: "cn_block_size cn1 = int k" "cn_need_load cn1 = []" using d(3) assms(5,7) ensure_client_keeps by auto
  have ne: "alloc \<noteq> []" "xs \<noteq> []" using assms(9) m by auto
  have "min (int m) (int (length alloc)) = int m" using m assms(9) by simp
  moreover have "\<not> int m * int k \<le> 0" using m(1) assms(6) by (simp add: not_le)
  ultimately have cn2: "cn2 = cn1\<lparr>cn_need_load := [(rid, int m, py_upto alloc (int m))]\<rparr>"
    using assms(6,8) cn1 ne(1) t m(1) by (simp add: update_state_after_alloc_def Let_def)
  let ?r = "\<lparr>nr_req_id = rid, nr_prompt_token_ids = xs, nr_block_ids = [alloc]\<rparr>"
  let ?meta0 = "\<lparr>cm_loads = [], cm_stores = [], cm_block_size = cn_block_size cn2\<rparr>"
  have plan: "plan_request H ?r (?meta0, cn2) = Inr (meta, cn3)"
    using assms(10) by (auto simp: build_connector_meta_def split: sum.splits)
  have nn: "?n = min (length xs div k) (length alloc)" "?n \<noteq> 0" using assms(9) m by auto
  obtain hs where hs: "block_chain H xs (int k) (int ?n) = Some hs"
    using plan ne cn1 cn2 assms(6) nn by (auto simp: plan_request_def Let_def zdiv_int [symmetric] min_def split: option.splits if_splits)
  let ?f = "\<lambda>i. block_spec alloc (int m) i (hs ! i)"
  have "meta = ?meta0\<lparr>cm_loads := append_payload rid (map ?f [0..<m]) [], cm_stores := append_payload rid (map ?f [m..<?n]) []\<rparr>"
    using plan plan_request_eq [of cn2 k ?r alloc "[]" m ?n H hs ?meta0] cn1 cn2 assms(6) ne nn hs m by (simp add: min_def split: if_splits)
  moreover have "map (sc_vllm_block_id \<circ> ?f) [i..<j] = drop i (take j alloc)" if "j \<le> length alloc" for i j
    using that by (intro nth_equalityI) (auto simp: block_spec_def)
  ultimately have "map (map sc_vllm_block_id \<circ> lp_blocks) (cm_loads meta) = [take m alloc]"
    "map (map sc_vllm_block_id \<circ> lp_blocks) (cm_stores meta) = [drop m (take ?n alloc)]"
    using m ce assms(3,9) by (simp_all add: append_payload_def)
  moreover have "drop m (take ?n alloc) ! (c - 1) = alloc ! (c + m - 1)" "c - 1 < length (drop m (take ?n alloc))"
    using m assms(3,9) by (simp_all add: add.commute)
  then have "alloc ! (c + m - 1) \<in> set (drop m (take ?n alloc))" by (metis nth_mem)
  ultimately show ?thesis using t m(2,3) by (intro exI [of _ m] conjI) simp_all
qed

theorem connector_loads_wrong_pages_witness:
  "\<exists>cn1 cn2 cn3 meta. get_num_new_matched_tokens (\<lambda>_. replicate 32 0) (\<lambda>_. []) all_hits (\<lambda>_ _ w. (Inl UNAVAILABLE, w))
       (connector_new None (Some 1) None 16 False) ''r'' [5, 6, 7] (int (1 * 1)) () = Inr (1, cn1, ()) \<and>
     update_state_after_alloc cn1 ''r'' [[10, 11, 12]] 1 = Inr cn2 \<and>
     build_connector_meta (\<lambda>_. replicate 32 0) cn2 [\<lparr>nr_req_id = ''r'', nr_prompt_token_ids = [5, 6, 7], nr_block_ids = [[10, 11, 12]]\<rparr>] = Inr (meta, cn3) \<and>
     map (map sc_vllm_block_id \<circ> lp_blocks) (cm_loads meta) = [[10]] \<and> map (map sc_vllm_block_id \<circ> lp_blocks) (cm_stores meta) = [[11, 12]]"
proof -
  let ?H = "\<lambda>_. replicate 32 0" and ?fe = "\<lambda>_ _ w. (Inl UNAVAILABLE, w)" and ?cn = "connector_new None (Some 1) None 16 False"
  let ?r = "\<lparr>nr_req_id = ''r'', nr_prompt_token_ids = [5, 6, 7], nr_block_ids = [[10, 11, 12]]\<rparr>"
  have pack: "pack_u32 5 \<noteq> None" "pack_u32 6 \<noteq> None" "pack_u32 7 \<noteq> None" by (simp_all add: pack_u32_def)
  have chain: "block_chain ?H [5, 6, 7] 1 3 = Some [replicate 32 0, replicate 32 0, replicate 32 0]"
    using pack by (auto simp: block_chain_def numeral_3_eq_3 numeral_2_eq_2 chained_block_hash_def)
  obtain cn1 where one: "get_num_new_matched_tokens ?H (\<lambda>_. []) all_hits ?fe ?cn ''r'' [5, 6, 7] (int (1 * 1)) () = Inr (1, cn1, ())"
    and cn1: "cn_block_size cn1 = 1" "cn_need_load cn1 = []"
    by (simp add: get_num_new_matched_tokens_def connector_new_def chain ensure_client_def client_lookup_def client_new_def primary_node_def all_hits_def
        lookup_group_def call_with_retry_def MAX_ATTEMPTS_def numeral_3_eq_3 take_hit_def local_label_for_def contiguous_hits_def Let_def probe_id_def)
  obtain cn2 where two: "update_state_after_alloc cn1 ''r'' [[10, 11, 12]] 1 = Inr cn2" and cn2: "cn_block_size cn2 = 1"
    using cn1 by (simp add: update_state_after_alloc_def Let_def)
  obtain meta cn3 where three: "build_connector_meta ?H cn2 [?r] = Inr (meta, cn3)"
    using cn2 by (simp add: build_connector_meta_def plan_request_def chain Let_def)
  have "\<exists>m. 1 = int (m * 1) \<and> 1 + m \<le> length [5, 6, 7 :: int] div 1 \<and>
    map (map sc_vllm_block_id \<circ> lp_blocks) (cm_loads meta) = [take m [10, 11, 12]] \<and>
    map (map sc_vllm_block_id \<circ> lp_blocks) (cm_stores meta) = [drop m (take (length [5, 6, 7 :: int] div 1) [10, 11, 12])] \<and>
    [10, 11, 12 :: nat] ! (1 + m - 1) \<in> set (drop m (take (length [5, 6, 7 :: int] div 1) [10, 11, 12]))"
    by (rule connector_loads_wrong_pages [OF one _ _ _ _ _ _ two _ three]) (simp_all add: connector_new_def)
  then show ?thesis using one two three by auto
qed

end
