(* ===== verification/Inference.thy ===== *)
theory Inference
  imports Connector
begin

text \<open>
  An inference engine over the cache: the scheduler's and the worker's connector (\<open>client/lethe_client/vllm_hook.py\<close>), the
  worker's thread pool and the servers, interleaved in any order.  \<open>kv_of h l\<close> stands for what the model computes in layer \<open>l\<close> for the block whose
  chained hash is \<open>h\<close>; the engine is free in what it does, except that it only hands pages to \<open>save_kv_layer\<close> that hold what the
  model computes, that requests scheduled together have different identifiers and pages, and that
  it plans the next step when all loads have been waited for.
\<close>

section \<open>Definitions\<close>

subsection \<open>What the connector relies on\<close>

text \<open>
  The documented behaviour of the tensor library, for the tensors that \<open>valid\<close> singles out: the shape and
  element type of a page, that a copy replaces one page, that the view of a 16-bit type is undone by the view back, and that
  the bytes of an array give it back.
\<close>

definition page_shape :: "nat list \<Rightarrow> nat list" where
  "page_shape shape = shape ! 0 # drop 2 shape"

definition torch_ok :: "('t \<Rightarrow> bool) \<Rightarrow> 't Torch \<Rightarrow> bool" where
  "torch_ok valid T \<longleftrightarrow>
     (\<forall>t b. valid t \<and> 2 \<le> length (tt_shape T t) \<and> b < tt_shape T t ! 1 \<longrightarrow>
        valid (tt_page T t b) \<and> tt_shape T (tt_page T t b) = page_shape (tt_shape T t) \<and> tt_dtype T (tt_page T t b) = tt_dtype T t) \<and>
     (\<forall>t b s. valid t \<and> valid s \<and> 2 \<le> length (tt_shape T t) \<and> b < tt_shape T t ! 1 \<and>
        tt_shape T s = page_shape (tt_shape T t) \<and> tt_dtype T s = tt_dtype T t \<longrightarrow>
        valid (tt_copy T t b s) \<and> tt_shape T (tt_copy T t b s) = tt_shape T t \<and> tt_dtype T (tt_copy T t b s) = tt_dtype T t \<and>
        (\<forall>b' < tt_shape T t ! 1. tt_page T (tt_copy T t b s) b' = (if b' = b then s else tt_page T t b'))) \<and>
     (\<forall>t. valid t \<and> tt_dtype T t = Bfloat16 \<longrightarrow>
        valid (tt_view T t Uint16) \<and> tt_dtype T (tt_view T t Uint16) = Uint16 \<and> tt_shape T (tt_view T t Uint16) = tt_shape T t \<and>
        tt_view T (tt_view T t Uint16) Bfloat16 = t) \<and>
     (\<forall>t. valid t \<and> tt_dtype T t \<in> {Float16, Float32, Uint16} \<longrightarrow>
        (\<exists>d. tt_tobytes T t = Some d \<and> length d = prod_list (tt_shape T t) * itemsize (tt_dtype T t) \<and>
             tt_frombuffer T d (tt_dtype T t) (tt_shape T t) = t))"

text \<open>Row-major arrays of bytes: a tensor library for concrete runs.\<close>

type_synonym rows = "nat list \<times> Dtype \<times> byte list"

definition chunk :: "nat \<Rightarrow> 'a list \<Rightarrow> nat \<Rightarrow> 'a list" where
  "chunk p d j = take p (drop (j * p) d)"

definition page_bytes :: "nat list \<Rightarrow> Dtype \<Rightarrow> nat" where
  "page_bytes shape dtype = prod_list (drop 2 shape) * itemsize dtype"

definition sample_torch :: "rows Torch" where
  "sample_torch = \<lparr>tt_shape = fst, tt_dtype = fst \<circ> snd,
     tt_page = (\<lambda>(shape, dtype, d) b.
       (page_shape shape, dtype, concat (map (\<lambda>k. chunk (page_bytes shape dtype) d (k * shape ! 1 + b)) [0..<shape ! 0]))),
     tt_copy = (\<lambda>(shape, dtype, d) b (_, _, s). (shape, dtype,
       concat (map (\<lambda>j. if j mod shape ! 1 = b then chunk (page_bytes shape dtype) s (j div shape ! 1)
                         else chunk (page_bytes shape dtype) d j) [0..<shape ! 0 * shape ! 1]))),
     tt_view = (\<lambda>(shape, _, d) dtype. (shape, dtype, d)),
     tt_tobytes = (\<lambda>(shape, dtype, d). Some d),
     tt_frombuffer = (\<lambda>d dtype shape. (shape, dtype, d))\<rparr>"

definition rows_ok :: "rows \<Rightarrow> bool" where
  "rows_ok t \<longleftrightarrow> (case t of (shape, dtype, d) \<Rightarrow> length d = prod_list shape * itemsize dtype)"

subsection \<open>The engine\<close>

text \<open>The bytes that the identity of a block names: the marker, or what the model computes for the hash in the layer.\<close>

definition kv_payload :: "(string \<Rightarrow> byte list) \<Rightarrow> 't Torch \<Rightarrow> string list \<Rightarrow> (byte list \<Rightarrow> string \<Rightarrow> 't) \<Rightarrow> BlockId \<Rightarrow> byte list" where
  "kv_payload sha256 T layers kv_of i =
     (if id_layer i = PRESENCE_LAYER then PRESENCE_MARKER
      else case find (\<lambda>l. layer_id_for sha256 l = id_layer i) layers of
        None \<Rightarrow> []
      | Some l \<Rightarrow> the (tensor_to_bytes T (kv_of (id_hash i) l)))"

text \<open>The layers have different identifiers, none that of the marker, and the model's blocks in a layer have one shape and element type.\<close>

definition model_ok :: "(string \<Rightarrow> byte list) \<Rightarrow> ('t \<Rightarrow> bool) \<Rightarrow> 't Torch \<Rightarrow> string list \<Rightarrow> (byte list \<Rightarrow> string \<Rightarrow> 't) \<Rightarrow> bool" where
  "model_ok sha256 valid T layers kv_of \<longleftrightarrow> torch_ok valid T \<and>
     distinct (map (layer_id_for sha256) layers) \<and> PRESENCE_LAYER \<notin> layer_id_for sha256 ` set layers \<and>
     (\<forall>l\<in>set layers. \<forall>h. valid (kv_of h l) \<and> TORCH_TO_NUMPY (tt_dtype T (kv_of h l)) \<noteq> None \<and>
        tt_shape T (kv_of h l) = tt_shape T (kv_of [] l) \<and> tt_dtype T (kv_of h l) = tt_dtype T (kv_of [] l) \<and>
        length (the (tensor_to_bytes T (kv_of h l))) \<le> vector_max)"

text \<open>The paged buffer of a layer, of the shape that its blocks have.\<close>

definition layer_fits :: "'t Torch \<Rightarrow> (byte list \<Rightarrow> string \<Rightarrow> 't) \<Rightarrow> string \<Rightarrow> 't \<Rightarrow> bool" where
  "layer_fits T kv_of l kv \<longleftrightarrow> 4 \<le> length (tt_shape T kv) \<and> tt_shape T kv ! 0 = 2 \<and>
     per_block_shape (tt_shape T kv) = tt_shape T (kv_of [] l) \<and> tt_dtype T kv = tt_dtype T (kv_of [] l)"

definition computed :: "'t Torch \<Rightarrow> (byte list \<Rightarrow> string \<Rightarrow> 't) \<Rightarrow> LetheConnectorMetadata option \<Rightarrow> string \<Rightarrow> 't \<Rightarrow> bool" where
  "computed T kv_of metadata l kv \<longleftrightarrow>
     (\<forall>meta. metadata = Some meta \<longrightarrow> (\<forall>spec\<in>set (concat (map lp_blocks (cm_stores meta))).
        sc_vllm_block_id spec < tt_shape T kv ! 1 \<longrightarrow> tt_page T kv (sc_vllm_block_id spec) = kv_of (sc_chained_hash spec) l))"

definition request_pages :: "NewRequest \<Rightarrow> nat list" where
  "request_pages r = (case nr_block_ids r of [] \<Rightarrow> [] | allocated # _ \<Rightarrow> allocated)"

definition requests_ok :: "NewRequest list \<Rightarrow> bool" where
  "requests_ok rs \<longleftrightarrow> distinct (map nr_req_id rs) \<and> distinct (concat (map request_pages rs))"

record Engine =
  en_scheduler :: LetheCacheConnector
  en_worker :: LetheCacheConnector
  en_meta :: "LetheConnectorMetadata option"
  en_world :: World

definition engine_new :: "string option \<Rightarrow> int option \<Rightarrow> u32 option \<Rightarrow> int \<Rightarrow> Cluster \<Rightarrow> Engine" where
  "engine_new address block_size model_id cache_block_size c =
     \<lparr>en_scheduler = connector_new address block_size model_id cache_block_size False,
      en_worker = connector_new address block_size model_id cache_block_size True,
      en_meta = None, en_world = \<lparr>wd_cluster = c, wd_calls = 0\<rparr>\<rparr>"

inductive engine_step ::
  "(byte list \<Rightarrow> byte list) \<Rightarrow> (string \<Rightarrow> byte list) \<Rightarrow> (string \<Rightarrow> byte list) \<Rightarrow> ('t \<Rightarrow> bool) \<Rightarrow> 't Torch \<Rightarrow> string list \<Rightarrow> (byte list \<Rightarrow> string \<Rightarrow> 't) \<Rightarrow>
   Env \<Rightarrow> (nat \<Rightarrow> Outcome) \<Rightarrow> Engine \<Rightarrow> Engine \<Rightarrow> bool" for blake3 blake3_full sha256 valid T layers kv_of E net where
  ask: "get_num_new_matched_tokens blake3 blake3_full (lookup_rpc net) (fetch_rpc net) (en_scheduler s) rid xs n (en_world s) = Inr (t, cn, w) \<Longrightarrow>
    engine_step blake3 blake3_full sha256 valid T layers kv_of E net s (s\<lparr>en_scheduler := cn, en_world := w\<rparr>)"
| alloc: "update_state_after_alloc (en_scheduler s) rid groups t = Inr cn \<Longrightarrow>
    engine_step blake3 blake3_full sha256 valid T layers kv_of E net s (s\<lparr>en_scheduler := cn\<rparr>)"
| plan: "build_connector_meta blake3 (en_scheduler s) rs = Inr (meta, cn) \<Longrightarrow> requests_ok rs \<Longrightarrow> cn_inflight_loads (en_worker s) = [] \<Longrightarrow>
    engine_step blake3 blake3_full sha256 valid T layers kv_of E net s (s\<lparr>en_scheduler := cn, en_meta := Some meta\<rparr>)"
| load: "start_load_kv sha256 blake3_full (en_worker s) (en_meta s) attn = Inr cn \<Longrightarrow>
    engine_step blake3 blake3_full sha256 valid T layers kv_of E net s (s\<lparr>en_worker := cn\<rparr>)"
| wait: "wait_for_layer_load sha256 T (en_worker s) (en_meta s) l fwd = (e, cn, fwd') \<Longrightarrow>
    engine_step blake3 blake3_full sha256 valid T layers kv_of E net s (s\<lparr>en_worker := cn\<rparr>)"
| save: "save_kv_layer sha256 blake3_full T (en_worker s) (en_meta s) meta_id l kv = (e, cn) \<Longrightarrow>
    l \<in> set layers \<Longrightarrow> valid kv \<Longrightarrow> layer_fits T kv_of l kv \<Longrightarrow> computed T kv_of (en_meta s) l kv \<Longrightarrow>
    engine_step blake3 blake3_full sha256 valid T layers kv_of E net s (s\<lparr>en_worker := cn\<rparr>)"
| wait_save: "engine_step blake3 blake3_full sha256 valid T layers kv_of E net s (s\<lparr>en_worker := wait_for_save (en_worker s)\<rparr>)"
| run: "cn_executor (en_worker s) = Some ex \<Longrightarrow> executor_run (fetch_rpc net) (insert_rpc net) k ex (en_world s) = (ex', w) \<Longrightarrow>
    engine_step blake3 blake3_full sha256 valid T layers kv_of E net s (s\<lparr>en_worker := (en_worker s)\<lparr>cn_executor := Some ex'\<rparr>, en_world := w\<rparr>)"
| servers: "cluster_step (kv_payload sha256 T layers kv_of) E (wd_cluster (en_world s)) c \<Longrightarrow>
    engine_step blake3 blake3_full sha256 valid T layers kv_of E net s (s\<lparr>en_world := (en_world s)\<lparr>wd_cluster := c\<rparr>\<rparr>)"

text \<open>The fetch of block \<open>idx\<close> of a request's loads for a layer has come back with bytes.\<close>

definition arrived :: "LetheCacheConnector \<Rightarrow> u32 \<Rightarrow> LetheRequestPayload \<Rightarrow> nat \<Rightarrow> bool" where
  "arrived cn layer_id p idx \<longleftrightarrow>
     (\<exists>ex f. cn_executor cn = Some ex \<and> map_of (cn_inflight_loads cn) (lp_request_id p, layer_id, idx) = Some f \<and> future_bytes ex f \<noteq> None)"

text \<open>The page that a result goes to.\<close>

definition target :: "(string \<times> nat list) list \<Rightarrow> nat \<Rightarrow> string \<times> nat \<Rightarrow> nat option" where
  "target blocks n_pages k = (case map_of blocks (fst k) of
     None \<Rightarrow> None
   | Some bs \<Rightarrow> if snd k < length bs \<and> bs ! snd k < n_pages then Some (bs ! snd k) else None)"

text \<open>
  What the results with bytes are: the encoding of \<open>K\<close> of their key, different keys for different pages.  After the injection the pages they go to
  hold it, and the others what they held.
\<close>

definition results_fit ::
  "('t \<Rightarrow> bool) \<Rightarrow> 't Torch \<Rightarrow> (string \<times> nat list) list \<Rightarrow> nat list \<Rightarrow> Dtype \<Rightarrow> nat \<Rightarrow> (string \<times> nat \<Rightarrow> 't) \<Rightarrow> ((string \<times> nat) \<times> byte list option) list \<Rightarrow> bool" where
  "results_fit valid T blocks shape dtype n K rs \<longleftrightarrow>
     (\<forall>k d. (k, Some d) \<in> set rs \<longrightarrow>
        bytes_to_tensor T d shape dtype = Some (K k) \<and> valid (K k) \<and> tt_shape T (K k) = shape \<and> tt_dtype T (K k) = dtype) \<and>
     (\<forall>k k' d d' p. (k, Some d) \<in> set rs \<and> (k', Some d') \<in> set rs \<and> target blocks n k = Some p \<and> target blocks n k' = Some p \<longrightarrow> k = k')"

definition injected ::
  "'t Torch \<Rightarrow> (string \<times> nat list) list \<Rightarrow> nat \<Rightarrow> (string \<times> nat \<Rightarrow> 't) \<Rightarrow> ((string \<times> nat) \<times> byte list option) list \<Rightarrow> 't \<Rightarrow> 't \<Rightarrow> bool" where
  "injected T blocks n K rs kv kv' \<longleftrightarrow>
     (\<forall>k d p. (k, Some d) \<in> set rs \<and> target blocks n k = Some p \<longrightarrow> tt_page T kv' p = K k) \<and>
     (\<forall>p < n. (\<forall>k d. (k, Some d) \<in> set rs \<longrightarrow> target blocks n k \<noteq> Some p) \<longrightarrow> tt_page T kv' p = tt_page T kv p)"

text \<open>What the model computes for the block that a result is for.\<close>

definition block_kv :: "(byte list \<Rightarrow> string \<Rightarrow> 't) \<Rightarrow> string \<Rightarrow> LetheRequestPayload list \<Rightarrow> string \<times> nat \<Rightarrow> 't" where
  "block_kv kv_of l ps k = kv_of (sc_chained_hash (lp_blocks (hd (filter (\<lambda>p. lp_request_id p = fst k) ps)) ! snd k)) l"

subsection \<open>Invariants\<close>

definition task_ok :: "(BlockId \<Rightarrow> byte list) \<Rightarrow> Task \<Rightarrow> bool" where
  "task_ok payload task = (case task of
     Fetch_Task c i node \<Rightarrow> id_ok i
   | Insert_Task c batch rid node \<Rightarrow> \<forall>(i, d)\<in>set batch. id_ok i \<and> d = payload i \<and> length d \<le> vector_max)"

definition ex_inv :: "(BlockId \<Rightarrow> byte list) \<Rightarrow> Executor \<Rightarrow> bool" where
  "ex_inv payload ex \<longleftrightarrow> distinct (map fst (ex_pending ex) @ map fst (ex_finished ex)) \<and>
     (\<forall>f\<in>set (map fst (ex_pending ex) @ map fst (ex_finished ex)). f < ex_next ex) \<and> (\<forall>(f, t)\<in>set (ex_pending ex). task_ok payload t)"

text \<open>The future \<open>f\<close> is for the fetch of block \<open>i\<close>.\<close>

definition future_for :: "(BlockId \<Rightarrow> byte list) \<Rightarrow> Executor \<Rightarrow> nat \<Rightarrow> BlockId \<Rightarrow> bool" where
  "future_for payload ex f i \<longleftrightarrow> (\<exists>c node. (f, Fetch_Task c i node) \<in> set (ex_pending ex)) \<or>
     (\<exists>r. (f, Fetched r) \<in> set (ex_finished ex) \<and> (r = None \<or> r = Some (payload i)))"

definition loads_inv :: "(BlockId \<Rightarrow> byte list) \<Rightarrow> u32 \<Rightarrow> LetheRequestPayload list \<Rightarrow> loads \<Rightarrow> bool" where
  "loads_inv payload m ps st \<longleftrightarrow> (case st of (inflight, ex) \<Rightarrow> distinct (map fst inflight) \<and> ex_inv payload ex \<and>
     (\<forall>((r, lid, idx), f)\<in>set inflight. \<exists>p\<in>set ps. lp_request_id p = r \<and> idx < length (lp_blocks p) \<and>
        future_for payload ex f (load_id m lid (sc_chained_hash (lp_blocks p ! idx)))))"

definition meta_ok :: "LetheConnectorMetadata \<Rightarrow> bool" where
  "meta_ok meta \<longleftrightarrow> distinct (map lp_request_id (cm_loads meta)) \<and>
     distinct (map sc_vllm_block_id (concat (map lp_blocks (cm_loads meta)))) \<and>
     (\<forall>spec\<in>set (concat (map lp_blocks (cm_loads meta @ cm_stores meta))). length (sc_chained_hash spec) = 32)"

definition engine_inv ::
  "(string \<Rightarrow> byte list) \<Rightarrow> (BlockId \<Rightarrow> byte list) \<Rightarrow> 't Torch \<Rightarrow> (byte list \<Rightarrow> string \<Rightarrow> 't) \<Rightarrow> u32 \<Rightarrow> Engine \<Rightarrow> bool" where
  "engine_inv blake3_full payload T kv_of m s \<longleftrightarrow> world_ok payload (en_world s) \<and>
     cn_client (en_scheduler s) \<in> {None, Some (client_new blake3_full (cn_address (en_scheduler s)) [])} \<and>
     cn_model_id (en_worker s) = m \<and>
     (\<forall>(l, p)\<in>set (cn_shape_pin (en_worker s)). p = (tt_shape T (kv_of [] l), tt_dtype T (kv_of [] l))) \<and>
     (\<forall>meta. en_meta s = Some meta \<longrightarrow> meta_ok meta) \<and>
     (\<exists>ex. cn_executor (en_worker s) = Some ex \<and>
        loads_inv payload m (case en_meta s of None \<Rightarrow> [] | Some meta \<Rightarrow> cm_loads meta) (cn_inflight_loads (en_worker s), ex))"

text \<open>A model of one layer whose blocks are all the same, for concrete runs.\<close>

definition sample_model :: "byte list \<Rightarrow> string \<Rightarrow> rows" where
  "sample_model h l = ([2, 1, 1], Float16, [7, 8, 9, 10])"

definition sample_sha :: "string \<Rightarrow> byte list" where
  "sample_sha l = [1]"

definition sample_buffer :: rows where
  "sample_buffer = ([2, 2, 1, 1], Float16, replicate 8 0)"

definition sample_meta :: "byte list \<Rightarrow> LetheConnectorMetadata" where
  "sample_meta h = \<lparr>cm_loads = [\<lparr>lp_request_id = ''r'', lp_blocks = [\<lparr>sc_chained_hash = h, sc_vllm_block_id = 1, sc_is_hit = True\<rparr>]\<rparr>],
     cm_stores = [], cm_block_size = 1\<rparr>"

section \<open>Lemmas\<close>

subsection \<open>Tensors\<close>

lemma length_concat_same: "(\<And>i. i < J \<Longrightarrow> length (f i) = p) \<Longrightarrow> length (concat (map f [0..<J])) = J * p"
  by (induction J) simp_all

lemma chunk_concat:
  assumes "\<And>i. i < J \<Longrightarrow> length (f i) = p" "j < J"
  shows "chunk p (concat (map f [0..<J])) j = f j"
proof -
  have "[0..<J] = [0..<j] @ j # [Suc j..<J]" using assms(2) by (metis le_add1 le_add_same_cancel1 less_imp_add_positive upt_add_eq_append upt_conv_Cons)
  then have "concat (map f [0..<J]) = concat (map f [0..<j]) @ f j @ concat (map f [Suc j..<J])" by simp
  moreover have "length (concat (map f [0..<j])) = j * p" using length_concat_same [of j f p] assms by simp
  ultimately show ?thesis using assms by (simp add: chunk_def)
qed

lemma length_chunk: "(j + 1) * p \<le> length d \<Longrightarrow> length (chunk p d j) = p"
  by (simp add: chunk_def)

lemma concat_chunks: "length d = m * p \<Longrightarrow> concat (map (chunk p d) [0..<m]) = d"
proof (induction m arbitrary: d)
  case (Suc m)
  have "map (chunk p d) [0..<Suc m] = take p d # map (chunk p (drop p d)) [0..<m]"
    by (simp add: upt_conv_Cons map_Suc_upt [symmetric] chunk_def add.commute del: upt_Suc)
  then show ?case using Suc.IH [of "drop p d"] Suc.prems by simp
qed simp

lemma prod_list_page:
  assumes "2 \<le> length shape"
  shows "prod_list shape = shape ! 0 * shape ! 1 * prod_list (drop 2 shape)" "prod_list (page_shape shape) = shape ! 0 * prod_list (drop 2 shape)"
proof -
  obtain a b r where "shape = a # b # r" using assms by (metis Suc_le_length_iff numeral_2_eq_2)
  then show "prod_list shape = shape ! 0 * shape ! 1 * prod_list (drop 2 shape)" "prod_list (page_shape shape) = shape ! 0 * prod_list (drop 2 shape)"
    by (simp_all add: page_shape_def)
qed

lemma rows_chunk:
  assumes "rows_ok (sh, dt, d)" "2 \<le> length sh" "b < sh ! 1" "k < sh ! 0"
  shows "length (chunk (page_bytes sh dt) d (k * sh ! 1 + b)) = page_bytes sh dt"
proof (rule length_chunk)
  have "k * sh ! 1 + b + 1 \<le> Suc k * sh ! 1" using assms(3) by simp
  also have "\<dots> \<le> sh ! 0 * sh ! 1" using assms(4) by (intro mult_le_mono1) simp
  finally have "(k * sh ! 1 + b + 1) * page_bytes sh dt \<le> sh ! 0 * sh ! 1 * page_bytes sh dt" by (rule mult_le_mono1)
  also have "\<dots> = length d" using assms(1) prod_list_page(1) [OF assms(2)] by (simp add: rows_ok_def page_bytes_def)
  finally show "(k * sh ! 1 + b + 1) * page_bytes sh dt \<le> length d" .
qed

lemma sample_page_ok:
  assumes "rows_ok (sh, dt, d)" "2 \<le> length sh" "b < sh ! 1"
  shows "rows_ok (tt_page sample_torch (sh, dt, d) b)"
  using length_concat_same [of "sh ! 0" "\<lambda>k. chunk (page_bytes sh dt) d (k * sh ! 1 + b)", OF rows_chunk [OF assms]]
    prod_list_page(2) [OF assms(2)]
  by (simp add: sample_torch_def rows_ok_def page_bytes_def)

lemma sample_copy_ok:
  assumes "rows_ok (sh, dt, d)" "rows_ok (page_shape sh, dt, s)" "2 \<le> length sh" "b < sh ! 1"
  shows "rows_ok (tt_copy sample_torch (sh, dt, d) b (page_shape sh, dt, s))"
    and "b' < sh ! 1 \<Longrightarrow> tt_page sample_torch (tt_copy sample_torch (sh, dt, d) b (page_shape sh, dt, s)) b' =
      (if b' = b then (page_shape sh, dt, s) else tt_page sample_torch (sh, dt, d) b')"
proof -
  let ?p = "page_bytes sh dt" and ?n = "sh ! 1" and ?m = "sh ! 0"
  let ?f = "\<lambda>j. if j mod ?n = b then chunk ?p s (j div ?n) else chunk ?p d j"
  have s: "length s = ?m * ?p" using assms(2) prod_list_page(2) [OF assms(3)] by (simp add: rows_ok_def page_bytes_def)
  have n: "0 < ?n" using assms(4) by simp
  have f: "length (?f j) = ?p" if "j < ?m * ?n" for j
  proof -
    have m: "j div ?n < ?m" using that n by (simp add: less_mult_imp_div_less)
    then have "(j div ?n + 1) * ?p \<le> length s" unfolding s by (intro mult_le_mono1) simp
    then have "length (chunk ?p s (j div ?n)) = ?p" by (rule length_chunk)
    moreover have "length (chunk ?p d j) = ?p" using rows_chunk [OF assms(1,3) _ m, of "j mod ?n"] n unfolding div_mult_mod_eq by simp
    ultimately show ?thesis by simp
  qed
  show "rows_ok (tt_copy sample_torch (sh, dt, d) b (page_shape sh, dt, s))"
    using length_concat_same [of "?m * ?n" ?f, OF f] prod_list_page(1) [OF assms(3)] by (simp add: sample_torch_def rows_ok_def page_bytes_def)
  assume b': "b' < ?n"
  have "chunk ?p (concat (map ?f [0..<?m * ?n])) (k * ?n + b') = (if b' = b then chunk ?p s k else chunk ?p d (k * ?n + b'))"
    if "k < ?m" for k
  proof -
    have "k * ?n + b' < Suc k * ?n" using b' by simp
    also have "\<dots> \<le> ?m * ?n" using that by (intro mult_le_mono1) simp
    finally show ?thesis using chunk_concat [of "?m * ?n" ?f, OF f, of "k * ?n + b'"] b' by simp
  qed
  then have eq: "map (\<lambda>k. chunk ?p (concat (map ?f [0..<?m * ?n])) (k * ?n + b')) [0..<?m] =
      map (\<lambda>k. if b' = b then chunk ?p s k else chunk ?p d (k * ?n + b')) [0..<?m]" by (intro map_cong refl) auto
  have "concat (map (\<lambda>k. chunk ?p (concat (map ?f [0..<?m * ?n])) (k * ?n + b')) [0..<?m]) =
      (if b' = b then s else concat (map (\<lambda>k. chunk ?p d (k * ?n + b')) [0..<?m]))"
    unfolding eq using concat_chunks [OF s] by (cases "b' = b") simp_all
  then show "tt_page sample_torch (tt_copy sample_torch (sh, dt, d) b (page_shape sh, dt, s)) b' =
      (if b' = b then (page_shape sh, dt, s) else tt_page sample_torch (sh, dt, d) b')" by (simp add: sample_torch_def)
qed

lemma sample_torch_ok: "torch_ok rows_ok sample_torch"
proof -
  have sel: "tt_shape sample_torch = fst" "tt_dtype sample_torch = fst \<circ> snd" "fst (tt_page sample_torch (sh, dt, d) b) = page_shape sh"
    "fst (snd (tt_page sample_torch (sh, dt, d) b)) = dt" "fst (tt_copy sample_torch (sh, dt, d) b t) = sh"
    "fst (snd (tt_copy sample_torch (sh, dt, d) b t)) = dt" for sh dt d b t
    by (simp_all add: sample_torch_def split: prod.split)
  show ?thesis
    unfolding torch_ok_def sel(1,2)
    by (intro conjI allI impI; clarsimp simp: sel sample_page_ok sample_copy_ok)
      (simp_all add: sample_torch_def rows_ok_def itemsize_def)
qed

lemma bytes_tensor_inverse:
  assumes "torch_ok valid T" "valid t" "TORCH_TO_NUMPY (tt_dtype T t) \<noteq> None"
  shows "\<exists>d. tensor_to_bytes T t = Some d \<and> bytes_to_tensor T d (tt_shape T t) (tt_dtype T t) = Some t"
proof -
  note laws = assms(1) [unfolded torch_ok_def, THEN conjunct2, THEN conjunct2]
  consider "tt_dtype T t \<in> {Float16, Float32}" | "tt_dtype T t = Bfloat16"
    using assms(3) by (auto simp: TORCH_TO_NUMPY_def split: Dtype.splits)
  then show ?thesis
  proof cases
    case 1
    then obtain d where "tt_tobytes T t = Some d" "length d = prod_list (tt_shape T t) * itemsize (tt_dtype T t)"
      "tt_frombuffer T d (tt_dtype T t) (tt_shape T t) = t" using laws assms(2) by blast
    then show ?thesis using 1 by (auto simp: tensor_to_bytes_def bytes_to_tensor_def TORCH_TO_NUMPY_def Let_def)
  next
    case 2
    let ?u = "tt_view T t Uint16"
    have u: "valid ?u" "tt_dtype T ?u = Uint16" "tt_shape T ?u = tt_shape T t" "tt_view T ?u Bfloat16 = t" using laws assms(2) 2 by blast+
    then obtain d where "tt_tobytes T ?u = Some d" "length d = prod_list (tt_shape T t) * itemsize Uint16"
      "tt_frombuffer T d Uint16 (tt_shape T t) = ?u" using laws by (metis insertCI)
    then show ?thesis using 2 u(4) by (simp add: tensor_to_bytes_def bytes_to_tensor_def TORCH_TO_NUMPY_def Let_def)
  qed
qed

subsection \<open>The thread pool\<close>

lemma submit_ok:
  assumes "ex_inv payload ex" "task_ok payload t" "submit t ex = (f, ex')"
  shows "ex_inv payload ex'" "future_for payload ex g i \<Longrightarrow> future_for payload ex' g i" "t = Fetch_Task c i node \<Longrightarrow> future_for payload ex' f i"
proof -
  have ex': "f = ex_next ex" "ex' = ex\<lparr>ex_pending := ex_pending ex @ [(ex_next ex, t)], ex_next := ex_next ex + 1\<rparr>"
    using assms(3) by (auto simp: submit_def)
  let ?A = "fst ` set (ex_pending ex) \<union> fst ` set (ex_finished ex)"
  have lt: "\<forall>f\<in>?A. f < ex_next ex" using assms(1) by (simp add: ex_inv_def)
  then have "ex_next ex \<notin> ?A" by blast
  moreover have "\<forall>f\<in>?A. f < Suc (ex_next ex)" using lt less_SucI by blast
  ultimately show "ex_inv payload ex'" using assms(1,2) by (simp add: ex_inv_def ex'(2))
  show "future_for payload ex g i \<Longrightarrow> future_for payload ex' g i" "t = Fetch_Task c i node \<Longrightarrow> future_for payload ex' f i"
    by (auto simp: future_for_def ex')
qed

lemma insert_world_ok:
  assumes "world_ok payload w" "\<forall>(i, d)\<in>set batch. id_ok i \<and> d = payload i \<and> length d \<le> vector_max"
    and "client_insert (insert_rpc net) c batch rid src hint a w = (k, w')"
  shows "world_ok payload w'"
proof -
  let ?q = "\<lparr>ir_request_id = rid, ir_source_node = src,
      ir_blocks = map (\<lambda>(bid, payload). \<lparr>bl_id = to_proto_block_id bid, bl_kv_data = payload, bl_tier_hint = hint\<rparr>) batch\<rparr>"
  have "\<forall>b\<in>set (ir_blocks ?q). request_ok payload (bl_id b) (bl_kv_data b)"
    using assms(2) by (auto simp: request_ok_def to_proto_eq BlockId_proto_inverse)
  then have "node_ok payload (snd (svc_Insert n ?q))" if "node_ok payload n" for n :: Cache_Node
    using node_ok_cache_step [OF svc_Insert_step that] by blast
  then have step: "world_ok payload (snd (insert_rpc net (stub_addr c a) ?q v))" if "world_ok payload v" for v
    using cluster_call_attempt [of payload svc_Insert ?q v net "stub_addr c a"] that unfolding insert_rpc_def by blast
  obtain x w1 where x: "call_with_retry (insert_rpc net (stub_addr c a) ?q) w = (x, w1)" by force
  have "world_ok payload w1"
    using retry_loop_keeps [of "world_ok payload" "insert_rpc net (stub_addr c a) ?q" w 3 x w1] step assms(1) x
    by (simp add: call_with_retry_def MAX_ATTEMPTS_def)
  moreover have "w' = w1" using assms(3) x by (auto simp: client_insert_def Let_def split: option.splits)
  ultimately show ?thesis by simp
qed

lemma run_task_ok:
  assumes "world_ok payload w" "task_ok payload t" "run_task (fetch_rpc net) (insert_rpc net) t w = (r, w')"
  shows "world_ok payload w'" "t = Fetch_Task c i node \<Longrightarrow> \<exists>d. r = Fetched d \<and> (d = None \<or> d = Some (payload i))"
proof -
  have fetch: "world_ok payload w' \<and> (\<exists>d. r = Fetched d \<and> (d = None \<or> d = Some (payload i)))" if t: "t = Fetch_Task c i node" for c i node
  proof -
    obtain d w1 where d: "client_fetch (fetch_rpc net) c i node None w = (d, w1)" by force
    have "id_ok i" using assms(2) t by (simp add: task_ok_def)
    from srv.fetch_ok [OF assms(1) this d] show ?thesis using assms(3) d t by (cases d) (auto simp: run_task_def)
  qed
  have ins: "world_ok payload w'" if t: "t = Insert_Task c batch rid node" for c batch rid node
  proof -
    obtain k w1 where k: "client_insert (insert_rpc net) c batch rid node 1 None w = (k, w1)" by force
    have "\<forall>(i, d)\<in>set batch. id_ok i \<and> d = payload i \<and> length d \<le> vector_max" using assms(2) t by (simp add: task_ok_def)
    from insert_world_ok [OF assms(1) this k] show ?thesis using assms(3) k t by (simp add: run_task_def)
  qed
  show "world_ok payload w'" using fetch ins by (cases t) blast+
  show "t = Fetch_Task c i node \<Longrightarrow> \<exists>d. r = Fetched d \<and> (d = None \<or> d = Some (payload i))" using fetch by blast
qed

lemma set_remove_nth: "k < length xs \<Longrightarrow> insert (xs ! k) (set (take k xs @ drop (Suc k) xs)) = set xs"
  by (metis Un_insert_right id_take_nth_drop list.simps(15) set_append)

lemma mset_remove_nth:
  assumes "k < length ps" "ps ! k = (f, t)"
  shows "mset (map fst ps) = mset (map fst (take k ps @ drop (Suc k) ps)) + {#f#}"
proof -
  have "ps = take k ps @ (f, t) # drop (Suc k) ps" using id_take_nth_drop [OF assms(1)] assms(2) by simp
  then have "mset (map fst ps) = mset (map fst (take k ps @ (f, t) # drop (Suc k) ps))" by (rule arg_cong)
  then show ?thesis by (simp del: append_take_drop_id)
qed

lemma executor_run_ok:
  assumes "world_ok payload w" "ex_inv payload ex" "executor_run (fetch_rpc net) (insert_rpc net) k ex w = (ex', w')"
  shows "world_ok payload w' \<and> ex_inv payload ex' \<and> (\<forall>f i. future_for payload ex f i \<longrightarrow> future_for payload ex' f i)"
proof (cases "k < min 4 (length (ex_pending ex))")
  case True
  let ?ps = "ex_pending ex" and ?rest = "take k (ex_pending ex) @ drop (Suc k) (ex_pending ex)"
  have k: "k < length ?ps" using True by simp
  obtain f t where ft: "?ps ! k = (f, t)" by force
  obtain r w1 where r: "run_task (fetch_rpc net) (insert_rpc net) t w = (r, w1)" by force
  have ex': "ex' = ex\<lparr>ex_pending := ?rest, ex_finished := ex_finished ex @ [(f, r)]\<rparr>" "w' = w1"
    using assms(3) True ft r by (simp_all add: executor_run_def)
  have sel: "ex_pending ex' = ?rest" "ex_finished ex' = ex_finished ex @ [(f, r)]" "ex_next ex' = ex_next ex" by (simp_all add: ex'(1))
  have "(f, t) \<in> set ?ps" using k ft nth_mem by metis
  then have t: "task_ok payload t" using assms(2) by (auto simp: ex_inv_def)
  note run = run_task_ok [OF assms(1) t r]
  have ps: "insert (f, t) (set ?rest) = set ?ps" using set_remove_nth [OF k] ft by simp
  have eq: "mset (map fst ?ps @ map fst (ex_finished ex)) = mset (map fst ?rest @ map fst (ex_finished ex @ [(f, r)]))"
    using mset_remove_nth [OF k ft] by simp
  have "distinct (map fst ?rest @ map fst (ex_finished ex @ [(f, r)]))"
    using mset_eq_imp_distinct_iff [OF eq] assms(2) by (simp only: ex_inv_def)
  moreover have "\<forall>g\<in>set (map fst ?rest @ map fst (ex_finished ex @ [(f, r)])). g < ex_next ex"
    using assms(2) unfolding ex_inv_def mset_eq_setD [OF eq] by (elim conjE)
  moreover have "\<forall>(g, t)\<in>set ?rest. task_ok payload t" using assms(2) ps by (simp only: ex_inv_def) blast
  ultimately have "ex_inv payload ex'" unfolding ex_inv_def sel by (intro conjI)
  moreover have "future_for payload ex' g i" if "future_for payload ex g i" for g i
  proof (cases "\<exists>c node. (g, Fetch_Task c i node) \<in> set ?ps")
    case True
    then obtain c node where "(g, Fetch_Task c i node) \<in> insert (f, t) (set ?rest)" unfolding ps by blast
    then consider "g = f" "t = Fetch_Task c i node" | "(g, Fetch_Task c i node) \<in> set ?rest" by blast
    then show ?thesis
    proof cases
      case 1
      with run(2) obtain d where "r = Fetched d" "d = None \<or> d = Some (payload i)" by blast
      with 1(1) show ?thesis unfolding future_for_def sel by auto
    next
      case 2
      then show ?thesis unfolding future_for_def sel by blast
    qed
  next
    case False
    with that show ?thesis unfolding future_for_def sel by auto
  qed
  ultimately show ?thesis using run(1) ex'(2) by blast
next
  case False
  then show ?thesis using assms by (auto simp: executor_run_def)
qed

lemma future_bytes_ok:
  assumes "ex_inv payload ex" "future_for payload ex f i"
  shows "future_bytes ex f = None \<or> future_bytes ex f = Some (payload i)"
proof -
  have dist: "distinct (map fst (ex_finished ex))" "fst ` set (ex_pending ex) \<inter> fst ` set (ex_finished ex) = {}"
    using assms(1) by (auto simp: ex_inv_def)
  consider c node where "(f, Fetch_Task c i node) \<in> set (ex_pending ex)"
    | r where "(f, Fetched r) \<in> set (ex_finished ex)" "r = None \<or> r = Some (payload i)"
    using assms(2) by (auto simp: future_for_def)
  then show ?thesis
  proof cases
    case 1
    then have "f \<notin> fst ` set (ex_finished ex)" using dist(2) by force
    then have "map_of (ex_finished ex) f = None" by (simp add: map_of_eq_None_iff)
    then show ?thesis by (simp add: future_bytes_def)
  next
    case 2
    then have "map_of (ex_finished ex) f = Some (Fetched r)" using dist(1) by simp
    then show ?thesis using 2(2) by (auto simp: future_bytes_def)
  qed
qed

subsection \<open>Every step keeps the invariant\<close>

lemma submit_fetch_inv:
  assumes "loads_inv payload m ps st" "p \<in> set ps" "idx < length (lp_blocks p)" "length (sc_chained_hash (lp_blocks p ! idx)) = 32"
  shows "loads_inv payload m ps (submit_fetch c m (lp_request_id p) lid (idx, lp_blocks p ! idx) st)"
proof -
  obtain inflight ex where st: "st = (inflight, ex)" by force
  let ?i = "load_id m lid (sc_chained_hash (lp_blocks p ! idx))" and ?key = "(lp_request_id p, lid, idx)"
  obtain f ex' where sub: "submit (Fetch_Task c ?i ''lethe-worker'') ex = (f, ex')" by force
  have inv: "distinct (map fst inflight)" "ex_inv payload ex"
    and old: "\<And>r l j g. ((r, l, j), g) \<in> set inflight \<Longrightarrow> \<exists>p\<in>set ps. lp_request_id p = r \<and> j < length (lp_blocks p) \<and>
        future_for payload ex g (load_id m l (sc_chained_hash (lp_blocks p ! j)))"
    using assms(1) unfolding st loads_inv_def by auto
  have "task_ok payload (Fetch_Task c ?i ''lethe-worker'')" using assms(4) by (simp add: task_ok_def)
  note s = submit_ok [OF inv(2) this sub]
  have "\<exists>p\<in>set ps. lp_request_id p = r \<and> j < length (lp_blocks p) \<and> future_for payload ex' g (load_id m l (sc_chained_hash (lp_blocks p ! j)))"
    if "((r, l, j), g) \<in> set (AList.update ?key f inflight)" for r l j g
  proof -
    have "((r, l, j), g) = (?key, f) \<or> ((r, l, j), g) \<in> set inflight" using that set_update_subset [of ?key f inflight] by blast
    then show ?thesis using old s(2) s(3) [OF refl] assms(2,3) by blast
  qed
  moreover have "distinct (map fst (AList.update ?key f inflight))" using inv(1) by (rule distinct_update)
  ultimately have "loads_inv payload m ps (AList.update ?key f inflight, ex')" using s(1) unfolding loads_inv_def by auto
  then show ?thesis using assms(1) sub by (simp add: st submit_fetch_def)
qed

lemma submit_payloads_inv:
  assumes "loads_inv payload m ps st" "\<forall>p\<in>set ps. \<forall>spec\<in>set (lp_blocks p). length (sc_chained_hash spec) = 32"
  shows "loads_inv payload m ps (fold (submit_payload c m lids) ps st)"
proof -
  have one: "loads_inv payload m ps (submit_layer c m p lid st)" if "loads_inv payload m ps st" "p \<in> set ps" for p lid st
    unfolding submit_layer_def enumerate_nth fold_map
  proof (rule fold_invariant [where Q = "\<lambda>i. i < length (lp_blocks p)"])
    show "loads_inv payload m ps st" by (rule that(1))
    show "i < length (lp_blocks p)" if "i \<in> set [0..<length (lp_blocks p)]" for i using that by simp
    show "loads_inv payload m ps ((submit_fetch c m (lp_request_id p) lid \<circ> (\<lambda>i. (i, lp_blocks p ! i))) i s)"
      if "i < length (lp_blocks p)" "loads_inv payload m ps s" for i s
      using submit_fetch_inv [OF that(2) \<open>p \<in> set ps\<close> that(1)] assms(2) \<open>p \<in> set ps\<close> that(1) nth_mem by fastforce
  qed
  have two: "loads_inv payload m ps (submit_payload c m lids p st)" if "loads_inv payload m ps st" "p \<in> set ps" for p st
    unfolding submit_payload_def by (rule fold_invariant [where Q = "\<lambda>_. True"]) (simp_all only: simp_thms that one)
  show ?thesis by (rule fold_invariant [where Q = "\<lambda>p. p \<in> set ps"]) (simp_all only: assms(1) two)
qed

lemma ensure_client_scheduler:
  "cn_client cn \<in> {None, Some (client_new b (cn_address cn) [])} \<Longrightarrow> cn_client (snd (ensure_client b cn)) \<in> {None, Some (client_new b (cn_address cn) [])}"
  by (auto simp: ensure_client_def Let_def)

lemma ask_ok:
  assumes "get_num_new_matched_tokens H b (lookup_rpc net) (fetch_rpc net) cn rid xs n w = Inr (t, cn', w')"
    and "world_ok payload w" "cn_client cn \<in> {None, Some (client_new b (cn_address cn) [])}" "\<And>x. length (H x) = 32"
  shows "world_ok payload w' \<and> cn' \<in> {cn, snd (ensure_client b cn)}"
proof -
  obtain c cn1 where c: "ensure_client b cn = (c, cn1)" "c = client_new b (cn_address cn) []"
    using ensure_client_unused [OF assms(3)] by (metis prod.collapse)
  have "world_ok payload w2" if chain: "block_chain H xs k j = Some hs"
      and look: "client_lookup (lookup_rpc net) (fetch_rpc net) c (map (probe_id m) hs) rid rn None w = Some (r, w2)" for k j hs m rn r w2
  proof -
    have "\<forall>i\<in>set (map (probe_id m) hs). id_ok i" using chain_loop_digests [OF chain [unfolded block_chain_def] assms(4)] by simp
    from srv.client_lookup_ok [OF assms(2) this c(2), of net rid rn None] look show ?thesis by auto
  qed
  then show ?thesis using assms(1,2) c
    by (auto simp: get_num_new_matched_tokens_def Let_def split: if_splits option.splits prod.splits)
qed

text \<open>What one request adds to the plan.\<close>

lemma plan_request_adds:
  assumes "plan_request H r (meta, cn) = Inr (meta', cn')" "\<And>x. length (H x) = 32" "distinct (request_pages r)"
  obtains ls ss where "cm_loads meta' = append_payload (nr_req_id r) ls (cm_loads meta)" "cm_stores meta' = append_payload (nr_req_id r) ss (cm_stores meta)"
    "distinct (map sc_vllm_block_id ls)" "set (map sc_vllm_block_id ls) \<subseteq> set (request_pages r)"
    "\<forall>spec\<in>set (ls @ ss). length (sc_chained_hash spec) = 32" "cn' \<in> {cn, cn\<lparr>cn_need_load := AList.delete (nr_req_id r) (cn_need_load cn)\<rparr>}"
proof (cases "meta' = meta")
  case True
  have "cn' \<in> {cn, cn\<lparr>cn_need_load := AList.delete (nr_req_id r) (cn_need_load cn)\<rparr>}"
    using assms(1) by (auto simp: plan_request_def Let_def split: list.splits if_splits option.splits)
  then show thesis using that [of "[]" "[]"] True by (simp add: append_payload_def)
next
  case False
  let ?xs = "nr_prompt_token_ids r"
  obtain allocated gs where al: "nr_block_ids r = allocated # gs" "allocated \<noteq> []"
    using assms(1) False by (auto simp: plan_request_def split: list.splits if_splits)
  define n_load where "n_load = (case map_of (cn_need_load cn) (nr_req_id r) of None \<Rightarrow> 0 | Some (n, _) \<Rightarrow> n)"
  define n where "n = min (int (length ?xs) div cn_block_size cn) (int (length allocated))"
  obtain hs where hs: "block_chain H ?xs (cn_block_size cn) n = Some hs"
    using assms(1) False al by (auto simp: plan_request_def Let_def n_def split: if_splits option.splits)
  let ?specs = "map (\<lambda>(i, h). (i, block_spec allocated n_load i h)) (enumerate 0 hs)"
  let ?ls = "map snd (filter (\<lambda>(i, s). int i < n_load) ?specs)" and ?ss = "map snd (filter (\<lambda>(i, s). \<not> int i < n_load) ?specs)"
  have res: "cm_loads meta' = append_payload (nr_req_id r) ?ls (cm_loads meta)" "cm_stores meta' = append_payload (nr_req_id r) ?ss (cm_stores meta)"
    "cn' = cn\<lparr>cn_need_load := AList.delete (nr_req_id r) (cn_need_load cn)\<rparr>"
    using assms(1) False al hs by (auto simp: plan_request_def Let_def n_def n_load_def split: if_splits)
  have len: "length hs = nat n" using chain_loop_length hs by (fastforce simp: block_chain_def)
  have specs: "?specs = map (\<lambda>i. (i, block_spec allocated n_load i (hs ! i))) [0..<length hs]" by (simp add: enumerate_nth)
  have ls: "map sc_vllm_block_id ?ls = map ((!) allocated) (filter (\<lambda>i. int i < n_load) [0..<length hs])"
    unfolding specs by (simp add: filter_map comp_def block_spec_def)
  have "length hs \<le> length allocated" using len by (simp add: n_def)
  then have "distinct (map sc_vllm_block_id ?ls)" "set (map sc_vllm_block_id ?ls) \<subseteq> set (request_pages r)"
    using assms(3) al unfolding ls by (auto simp: distinct_map inj_on_def request_pages_def nth_eq_iff_index_eq)
  moreover have "\<forall>spec\<in>set (?ls @ ?ss). length (sc_chained_hash spec) = 32"
    using chain_loop_digests [OF hs [unfolded block_chain_def] assms(2)] unfolding specs by (auto simp: block_spec_def)
  ultimately show thesis using that [of ?ls ?ss] res by blast
qed

lemma disjoint_grow: "A \<subseteq> B \<union> D \<Longrightarrow> B \<inter> C = {} \<Longrightarrow> D \<inter> C = {} \<Longrightarrow> A \<inter> C = {}"
  by blast

lemma plan_requests_ok:
  assumes "plan_requests H rs (meta, cn) = Inr (meta', cn')" "\<And>x. length (H x) = 32" "meta_ok meta" "requests_ok rs"
    and "lp_request_id ` set (cm_loads meta) \<inter> nr_req_id ` set rs = {}"
    and "set (map sc_vllm_block_id (concat (map lp_blocks (cm_loads meta)))) \<inter> set (concat (map request_pages rs)) = {}"
  shows "meta_ok meta' \<and> cn_client cn' = cn_client cn \<and> cn_address cn' = cn_address cn"
  using assms(1,3-)
proof (induction rs arbitrary: meta cn)
  case (Cons r rs)
  obtain meta1 cn1 where one: "plan_request H r (meta, cn) = Inr (meta1, cn1)" and more: "plan_requests H rs (meta1, cn1) = Inr (meta', cn')"
    using Cons.prems(1) by (auto split: sum.splits)
  have dr: "distinct (request_pages r)" using Cons.prems(3) by (simp add: requests_ok_def)
  obtain ls ss where ad: "cm_loads meta1 = append_payload (nr_req_id r) ls (cm_loads meta)" "cm_stores meta1 = append_payload (nr_req_id r) ss (cm_stores meta)"
    "distinct (map sc_vllm_block_id ls)" "set (map sc_vllm_block_id ls) \<subseteq> set (request_pages r)" "\<forall>spec\<in>set (ls @ ss). length (sc_chained_hash spec) = 32"
    "cn1 \<in> {cn, cn\<lparr>cn_need_load := AList.delete (nr_req_id r) (cn_need_load cn)\<rparr>}"
    by (rule plan_request_adds [OF one assms(2) dr])
  let ?pages = "\<lambda>meta. map sc_vllm_block_id (concat (map lp_blocks (cm_loads meta)))"
  have pages: "?pages meta1 = ?pages meta @ map sc_vllm_block_id ls" by (simp add: ad(1) append_payload_def)
  have ids: "map lp_request_id (cm_loads meta1) = map lp_request_id (cm_loads meta) @ (if ls = [] then [] else [nr_req_id r])"
    by (simp add: ad(1) append_payload_def)
  have disj: "set (?pages meta) \<inter> set (request_pages r) = {}" "nr_req_id r \<notin> set (map lp_request_id (cm_loads meta))"
    using Cons.prems(4,5) by auto
  have specs: "set (concat (map lp_blocks (cm_loads meta1 @ cm_stores meta1))) = set (concat (map lp_blocks (cm_loads meta @ cm_stores meta))) \<union> set (ls @ ss)"
    by (auto simp: ad(1,2) append_payload_def)
  have "distinct (?pages meta1)" unfolding pages using Cons.prems(2) ad(3,4) disj(1) unfolding meta_ok_def distinct_append by blast
  moreover have "distinct (map lp_request_id (cm_loads meta1))" unfolding ids using Cons.prems(2) disj(2) by (simp add: meta_ok_def)
  moreover have "\<forall>spec\<in>set (concat (map lp_blocks (cm_loads meta1 @ cm_stores meta1))). length (sc_chained_hash spec) = 32"
    unfolding specs using Cons.prems(2) ad(5) unfolding meta_ok_def by blast
  ultimately have meta1: "meta_ok meta1" by (simp add: meta_ok_def)
  have new: "nr_req_id r \<notin> nr_req_id ` set rs" "set (request_pages r) \<inter> set (concat (map request_pages rs)) = {}"
    using Cons.prems(3) by (simp_all add: requests_ok_def)
  have "lp_request_id ` set (cm_loads meta1) \<subseteq> lp_request_id ` set (cm_loads meta) \<union> {nr_req_id r}"
    using arg_cong [OF ids, of set] by (simp add: subset_insertI split: if_splits)
  moreover have "lp_request_id ` set (cm_loads meta) \<inter> nr_req_id ` set rs = {}" using Cons.prems(4) by simp
  ultimately have dis: "lp_request_id ` set (cm_loads meta1) \<inter> nr_req_id ` set rs = {}" by (rule disjoint_grow) (simp add: new(1))
  have "set (?pages meta1) \<subseteq> set (?pages meta) \<union> set (request_pages r)" unfolding pages set_append using ad(4) by blast
  moreover have "set (concat (map request_pages (r # rs))) = set (request_pages r) \<union> set (concat (map request_pages rs))" by simp
  then have "set (?pages meta) \<inter> set (concat (map request_pages rs)) = {}" using Cons.prems(5) by blast
  ultimately have "set (?pages meta1) \<inter> set (concat (map request_pages rs)) = {}" by (rule disjoint_grow) (rule new(2))
  note ih = Cons.IH [OF more meta1 _ dis this]
  have "requests_ok rs" using Cons.prems(3) by (simp add: requests_ok_def)
  from ih [OF this] show ?case using ad(6) by auto
qed simp

lemma kv_payload_marker [simp]: "kv_payload sha T layers kv_of (probe_id m h) = PRESENCE_MARKER"
  by (simp add: kv_payload_def probe_id_def)

lemma kv_payload_block:
  assumes "model_ok sha valid T layers kv_of" "l \<in> set layers"
  shows "kv_payload sha T layers kv_of (load_id m (layer_id_for sha l) h) = the (tensor_to_bytes T (kv_of h l))"
proof -
  have "find (\<lambda>l'. layer_id_for sha l' = layer_id_for sha l) ls = Some l" if "distinct (map (layer_id_for sha) ls)" "l \<in> set ls" for ls
    using that by (induction ls) auto
  moreover have "layer_id_for sha l \<noteq> PRESENCE_LAYER" using assms unfolding model_ok_def by (metis imageI)
  ultimately show ?thesis using assms by (simp add: kv_payload_def load_id_def model_ok_def)
qed

lemma save_batch_ok:
  assumes "model_ok sha valid T layers kv_of" "l \<in> set layers"
    and "\<forall>spec\<in>set specs. length (sc_chained_hash spec) = 32 \<and>
      (sc_vllm_block_id spec < tt_shape T kv ! 1 \<longrightarrow> tt_page T kv (sc_vllm_block_id spec) = kv_of (sc_chained_hash spec) l)"
    and "save_batch T m (layer_id_for sha l) kv specs = Some batch"
  shows "\<forall>(i, d)\<in>set batch. id_ok i \<and> d = kv_payload sha T layers kv_of i \<and> length d \<le> vector_max"
  using assms(3,4)
proof (induction specs arbitrary: batch)
  case (Cons spec specs)
  show ?case
  proof (cases "sc_vllm_block_id spec \<ge> tt_shape T kv ! 1")
    case True
    then show ?thesis using Cons by simp
  next
    case False
    let ?h = "sc_chained_hash spec"
    obtain d rest where d: "tensor_to_bytes T (kv_of ?h l) = Some d" "save_batch T m (layer_id_for sha l) kv specs = Some rest"
      "batch = (load_id m (layer_id_for sha l) ?h, d) # (probe_id m ?h, PRESENCE_MARKER) # rest"
      using Cons.prems False by (auto split: option.splits)
    have "d = kv_payload sha T layers kv_of (load_id m (layer_id_for sha l) ?h)" "length d \<le> vector_max"
      using d(1) kv_payload_block [OF assms(1,2)] assms(1,2) unfolding model_ok_def by (simp, metis option.sel)
    moreover have "\<forall>(i, d)\<in>set rest. id_ok i \<and> d = kv_payload sha T layers kv_of i \<and> length d \<le> vector_max"
      using Cons.IH [OF _ d(2)] Cons.prems(1) by simp
    moreover have "length PRESENCE_MARKER \<le> vector_max" by (simp add: PRESENCE_MARKER_def)
    ultimately show ?thesis using Cons.prems(1) by (simp add: d(3))
  qed
qed simp

lemma loads_inv_executor:
  assumes "loads_inv payload m ps (inflight, ex)" "ex_inv payload ex'" "\<And>f i. future_for payload ex f i \<Longrightarrow> future_for payload ex' f i"
  shows "loads_inv payload m ps (inflight, ex')"
  using assms unfolding loads_inv_def by fastforce

lemma loads_inv_filter: "loads_inv payload m ps (inflight, ex) \<Longrightarrow> loads_inv payload m ps (filter P inflight, ex)"
  unfolding loads_inv_def by (auto simp: distinct_map_filter)

lemma save_ok:
  assumes "save_kv_layer sha b T cn metadata meta_id l kv = (e, cn')" "cn_executor cn = Some ex"
    and "model_ok sha valid T layers kv_of" "l \<in> set layers" "layer_fits T kv_of l kv" "computed T kv_of metadata l kv"
    and "\<And>meta. metadata = Some meta \<Longrightarrow> meta_ok meta"
    and "\<forall>(l, p)\<in>set (cn_shape_pin cn). p = (tt_shape T (kv_of [] l), tt_dtype T (kv_of [] l))"
    and "loads_inv (kv_payload sha T layers kv_of) m ps (cn_inflight_loads cn, ex)"
  shows "cn_model_id cn' = cn_model_id cn \<and> (\<forall>(l, p)\<in>set (cn_shape_pin cn'). p = (tt_shape T (kv_of [] l), tt_dtype T (kv_of [] l))) \<and>
    (\<exists>ex'. cn_executor cn' = Some ex' \<and> loads_inv (kv_payload sha T layers kv_of) m ps (cn_inflight_loads cn', ex'))"
proof (cases metadata)
  case None
  then show ?thesis using assms(1,2,8,9) by (simp add: save_kv_layer_def)
next
  case (Some meta)
  let ?pin = "(per_block_shape (tt_shape T kv), tt_dtype T kv)"
  define cn1 where "cn1 = (if map_of (cn_shape_pin cn) l = None then cn\<lparr>cn_shape_pin := AList.update l ?pin (cn_shape_pin cn)\<rparr> else cn)"
  have pin: "\<forall>(l, p)\<in>set (cn_shape_pin cn1). p = (tt_shape T (kv_of [] l), tt_dtype T (kv_of [] l))"
    using assms(5,8) set_update_subset [of l ?pin "cn_shape_pin cn"] by (auto simp: cn1_def layer_fits_def)
  obtain c cn2 where c: "ensure_client b cn1 = (c, cn2)" by force
  have cn2: "cn_model_id cn2 = cn_model_id cn" "cn_shape_pin cn2 = cn_shape_pin cn1" "cn_executor cn2 = Some ex"
    "cn_inflight_loads cn2 = cn_inflight_loads cn"
    using ensure_client_keeps [of b cn1] c assms(2) by (simp_all add: cn1_def)
  let ?specs = "concat (map lp_blocks (cm_stores meta))"
  consider "cn' = cn" | "cn' = cn2"
    | batch f ex' where "save_batch T (cn_model_id cn) (layer_id_for sha l) kv ?specs = Some batch"
      "submit (Insert_Task c batch (''save-'' @ l @ ''-'' @ meta_id) ''lethe-worker'') ex = (f, ex')"
      "cn' = cn2\<lparr>cn_executor := Some ex', cn_inflight_saves := cn_inflight_saves cn2 @ [f]\<rparr>"
    using assms(1,2) Some c unfolding save_kv_layer_def cn1_def [symmetric]
    by (auto simp: Let_def cn1_def [symmetric] split: if_splits option.splits prod.splits)
  then show ?thesis
  proof cases
    case 1
    then show ?thesis using assms(2,8,9) by simp
  next
    case 2
    then show ?thesis using pin cn2 assms(9) by simp
  next
    case 3
    have "\<forall>spec\<in>set ?specs. length (sc_chained_hash spec) = 32 \<and>
        (sc_vllm_block_id spec < tt_shape T kv ! 1 \<longrightarrow> tt_page T kv (sc_vllm_block_id spec) = kv_of (sc_chained_hash spec) l)"
      using assms(6) assms(7) [OF Some] Some unfolding computed_def meta_ok_def by auto
    from save_batch_ok [OF assms(3,4) this 3(1)]
    have t: "task_ok (kv_payload sha T layers kv_of) (Insert_Task c batch (''save-'' @ l @ ''-'' @ meta_id) ''lethe-worker'')" by (simp add: task_ok_def)
    have "ex_inv (kv_payload sha T layers kv_of) ex" using assms(9) by (simp add: loads_inv_def)
    note s = submit_ok [OF this t 3(2)]
    have "loads_inv (kv_payload sha T layers kv_of) m ps (cn_inflight_loads cn, ex')" by (rule loads_inv_executor [OF assms(9) s(1,2)])
    then show ?thesis using pin cn2 by (simp add: 3(3))
  qed
qed

lemma start_load_ok:
  assumes "start_load_kv sha b cn metadata attn = Inr cn'" "cn_executor cn = Some ex"
    and "loads_inv payload m (case metadata of None \<Rightarrow> [] | Some meta \<Rightarrow> cm_loads meta) (cn_inflight_loads cn, ex)"
    and "\<And>meta. metadata = Some meta \<Longrightarrow> meta_ok meta" "cn_model_id cn = m"
  shows "cn_model_id cn' = m \<and> cn_shape_pin cn' = cn_shape_pin cn \<and>
    (\<exists>ex'. cn_executor cn' = Some ex' \<and> loads_inv payload m (case metadata of None \<Rightarrow> [] | Some meta \<Rightarrow> cm_loads meta) (cn_inflight_loads cn', ex'))"
proof (cases "cn' = cn")
  case True
  then show ?thesis using assms(2,3,5) by simp
next
  case False
  obtain c cn1 where c: "ensure_client b cn = (c, cn1)" by force
  obtain meta names where meta: "metadata = Some meta" "layer_names_of attn = Some names"
    using assms(1,2) False by (auto simp: start_load_kv_def split: option.splits if_splits)
  let ?st = "fold (submit_payload c m (map (layer_id_for sha) names)) (cm_loads meta) (cn_inflight_loads cn, ex)"
  have cn': "cn' = cn1\<lparr>cn_inflight_loads := fst ?st, cn_executor := Some (snd ?st)\<rparr>"
    using assms(1,2,5) False meta c ensure_client_keeps(5) [of b cn] by (auto simp: start_load_kv_def Let_def split: if_splits prod.splits)
  have "\<forall>p\<in>set (cm_loads meta). \<forall>spec\<in>set (lp_blocks p). length (sc_chained_hash spec) = 32"
    using assms(4) [OF meta(1)] by (auto simp: meta_ok_def)
  then have "loads_inv payload m (cm_loads meta) ?st" using submit_payloads_inv assms(3) meta(1) by fastforce
  then show ?thesis using cn' meta(1) assms(5) ensure_client_keeps [of b cn] c by simp
qed

lemma wait_keeps:
  assumes "wait_for_layer_load sha T cn metadata l fwd = (e, cn', fwd')"
  obtains P where "cn' = cn \<or> cn' = cn\<lparr>cn_inflight_loads := filter P (cn_inflight_loads cn)\<rparr>"
  using assms that
  by (auto simp: wait_for_layer_load_def Let_def split: option.splits if_splits Kv_Attr.splits list.splits prod.splits)

lemma engine_inv_step:
  assumes "engine_step H b sha valid T layers kv_of E net s s'" "model_ok sha valid T layers kv_of" "\<And>x. length (H x) = 32"
    and "engine_inv b (kv_payload sha T layers kv_of) T kv_of m s"
  shows "engine_inv b (kv_payload sha T layers kv_of) T kv_of m s'"
proof -
  let ?pl = "kv_payload sha T layers kv_of"
  let ?ps = "case en_meta s of None \<Rightarrow> [] | Some meta \<Rightarrow> cm_loads meta"
  obtain ex where ex: "cn_executor (en_worker s) = Some ex" "loads_inv ?pl m ?ps (cn_inflight_loads (en_worker s), ex)"
    using assms(4) by (auto simp: engine_inv_def)
  have inv: "world_ok ?pl (en_world s)" "cn_client (en_scheduler s) \<in> {None, Some (client_new b (cn_address (en_scheduler s)) [])}"
    "cn_model_id (en_worker s) = m" "\<forall>(l, p)\<in>set (cn_shape_pin (en_worker s)). p = (tt_shape T (kv_of [] l), tt_dtype T (kv_of [] l))"
    "\<And>meta. en_meta s = Some meta \<Longrightarrow> meta_ok meta"
    using assms(4) unfolding engine_inv_def by blast+
  from assms(1) show ?thesis
  proof cases
    case (ask rid xs n t cn w)
    from ask_ok [OF ask(2) inv(1,2) assms(3)] have "world_ok ?pl w" "cn = en_scheduler s \<or> cn = snd (ensure_client b (en_scheduler s))" by auto
    moreover from this(2) have "cn_client cn \<in> {None, Some (client_new b (cn_address cn) [])}"
      using inv(2) ensure_client_scheduler [OF inv(2)] ensure_client_keeps(7) [of b "en_scheduler s"] by auto
    ultimately show ?thesis using assms(4) unfolding engine_inv_def ask(1) by simp
  next
    case (alloc rid groups t cn)
    have "cn_client cn = cn_client (en_scheduler s)" "cn_address cn = cn_address (en_scheduler s)"
      using alloc(2) by (auto simp: update_state_after_alloc_def Let_def split: if_splits list.splits)
    then show ?thesis using assms(4) unfolding engine_inv_def alloc(1) by simp
  next
    case (plan rs meta cn)
    let ?m0 = "\<lparr>cm_loads = [], cm_stores = [], cm_block_size = cn_block_size (en_scheduler s)\<rparr>"
    have "meta_ok meta \<and> cn_client cn = cn_client (en_scheduler s) \<and> cn_address cn = cn_address (en_scheduler s)"
      by (rule plan_requests_ok [OF plan(2) [unfolded build_connector_meta_def] assms(3)]) (simp_all add: meta_ok_def plan(3))
    moreover have "loads_inv ?pl m (cm_loads meta) ([], ex)" using ex(2) by (simp add: loads_inv_def)
    ultimately show ?thesis using inv ex plan(4) unfolding engine_inv_def plan(1) by simp
  next
    case (load attn cn)
    from start_load_ok [OF load(2) ex(1) _ _ inv(3), of "kv_payload sha T layers kv_of"] ex(2) inv(5)
    show ?thesis using inv unfolding engine_inv_def load(1) by simp
  next
    case (wait l fwd e cn fwd')
    obtain P where "cn = en_worker s \<or> cn = (en_worker s)\<lparr>cn_inflight_loads := filter P (cn_inflight_loads (en_worker s))\<rparr>"
      by (rule wait_keeps [OF wait(2)])
    then show ?thesis using assms(4) loads_inv_filter [OF ex(2), of P] inv ex(1) unfolding engine_inv_def wait(1) by auto
  next
    case (save meta_id l kv e cn)
    from save_ok [OF save(2) ex(1) assms(2) save(3,5,6) inv(5,4) ex(2)]
    show ?thesis using inv unfolding engine_inv_def save(1) by simp
  next
    case wait_save
    then show ?thesis using assms(4) unfolding engine_inv_def wait_save by (simp add: wait_for_save_def)
  next
    case (run ex0 k ex' w)
    have "ex_inv ?pl ex" using ex(2) by (simp add: loads_inv_def)
    moreover have "executor_run (fetch_rpc net) (insert_rpc net) k ex (en_world s) = (ex', w)" using run(2,3) ex(1) by simp
    ultimately have r: "world_ok ?pl w \<and> ex_inv ?pl ex' \<and> (\<forall>f i. future_for ?pl ex f i \<longrightarrow> future_for ?pl ex' f i)"
      using executor_run_ok [OF inv(1)] by blast
    then have "loads_inv ?pl m ?ps (cn_inflight_loads (en_worker s), ex')" using loads_inv_executor [OF ex(2)] by blast
    then show ?thesis using inv r unfolding engine_inv_def run(1) by simp
  next
    case (servers c)
    have "cluster_ok ?pl c" using cluster_ok_step [OF servers(2)] inv(1) by simp
    then show ?thesis using assms(4) unfolding engine_inv_def servers(1) by simp
  qed
qed

lemma engine_inv_reachable:
  assumes "(engine_step H b sha valid T layers kv_of E net)\<^sup>*\<^sup>* (engine_new address block_size model_id cbs c) s"
    and "model_ok sha valid T layers kv_of" "\<And>x. length (H x) = 32" "cluster_ok (kv_payload sha T layers kv_of) c"
  shows "engine_inv b (kv_payload sha T layers kv_of) T kv_of (case model_id of None \<Rightarrow> 0 | Some m \<Rightarrow> m) s"
  using assms(1)
proof (induction rule: rtranclp_induct)
  case base
  then show ?case using assms(4) by (simp add: engine_inv_def engine_new_def connector_new_def loads_inv_def ex_inv_def)
next
  case (step y z)
  show ?case by (rule engine_inv_step [OF step(2) assms(2,3) step.IH])
qed

subsection \<open>Injection\<close>

lemma torch_copy:
  assumes "torch_ok valid T" "valid t" "valid s" "2 \<le> length (tt_shape T t)" "b < tt_shape T t ! 1" "tt_shape T s = page_shape (tt_shape T t)" "tt_dtype T s = tt_dtype T t"
  shows "valid (tt_copy T t b s)" "tt_shape T (tt_copy T t b s) = tt_shape T t" "tt_dtype T (tt_copy T t b s) = tt_dtype T t"
    "b' < tt_shape T t ! 1 \<Longrightarrow> tt_page T (tt_copy T t b s) b' = (if b' = b then s else tt_page T t b')"
proof -
  have "\<forall>t b s. valid t \<and> valid s \<and> 2 \<le> length (tt_shape T t) \<and> b < tt_shape T t ! 1 \<and>
        tt_shape T s = page_shape (tt_shape T t) \<and> tt_dtype T s = tt_dtype T t \<longrightarrow>
        valid (tt_copy T t b s) \<and> tt_shape T (tt_copy T t b s) = tt_shape T t \<and> tt_dtype T (tt_copy T t b s) = tt_dtype T t \<and>
        (\<forall>b' < tt_shape T t ! 1. tt_page T (tt_copy T t b s) b' = (if b' = b then s else tt_page T t b'))"
    using assms(1) unfolding torch_ok_def by (elim conjE)
  from this [rule_format, of t s b] assms(2-7)
  show "valid (tt_copy T t b s)" "tt_shape T (tt_copy T t b s) = tt_shape T t" "tt_dtype T (tt_copy T t b s) = tt_dtype T t"
    "b' < tt_shape T t ! 1 \<Longrightarrow> tt_page T (tt_copy T t b s) b' = (if b' = b then s else tt_page T t b')" by blast+
qed

lemma results_fit_tail: "results_fit valid T blocks shape dtype n K (x # rs) \<Longrightarrow> results_fit valid T blocks shape dtype n K rs"
  unfolding results_fit_def by (meson list.set_intros(2))

lemma injected_skip:
  assumes "v = None \<or> target blocks n k = None" "injected T blocks n K rs kv kv'"
  shows "injected T blocks n K ((k, v) # rs) kv kv'"
proof -
  have "(k', Some d) \<in> set ((k, v) # rs) \<and> target blocks n k' = Some p \<longleftrightarrow> (k', Some d) \<in> set rs \<and> target blocks n k' = Some p" for k' d p
    using assms(1) by auto
  then show ?thesis using assms(2) unfolding injected_def by metis
qed

lemma injected_copy:
  assumes fit: "results_fit valid T blocks shape dtype n K ((k, Some d) # rs)" and p: "target blocks n k = Some p" "p < n"
    and cp: "\<And>q. q < n \<Longrightarrow> tt_page T kv1 q = (if q = p then K k else tt_page T kv q)" and ih: "injected T blocks n K rs kv1 kv'"
  shows "injected T blocks n K ((k, Some d) # rs) kv kv'"
proof -
  let ?rs = "(k, Some d) # rs"
  have inj: "k1 = k2" if "(k1, Some e1) \<in> set ?rs" "(k2, Some e2) \<in> set ?rs" "target blocks n k1 = Some q" "target blocks n k2 = Some q" for k1 k2 e1 e2 q
    using fit that unfolding results_fit_def by blast
  have hit: "tt_page T kv' q = K k1" if m: "(k1, Some e) \<in> set ?rs" and q: "target blocks n k1 = Some q" for k1 e q
  proof (cases "\<exists>e. (k1, Some e) \<in> set rs")
    case True
    then show ?thesis using ih q unfolding injected_def by blast
  next
    case False
    then have k1: "k1 = k" "q = p" using m q p by auto
    have "target blocks n k2 \<noteq> Some p" if "(k2, Some e2) \<in> set rs" for k2 e2
      using inj [of k2 e2 k d p] that False k1 p(1) by auto
    then show ?thesis using ih cp [OF p(2)] k1 p(2) unfolding injected_def by auto
  qed
  have miss: "tt_page T kv' q = tt_page T kv q" if q: "q < n" and no: "\<forall>k1 e. (k1, Some e) \<in> set ?rs \<longrightarrow> target blocks n k1 \<noteq> Some q" for q
  proof -
    have "q \<noteq> p" using no [rule_format, of k d] p(1) by auto
    moreover have "tt_page T kv' q = tt_page T kv1 q" using ih q no unfolding injected_def by (meson list.set_intros(2))
    ultimately show ?thesis using cp [OF q] by simp
  qed
  show ?thesis unfolding injected_def using hit miss by blast
qed

lemma inject_exact:
  assumes "torch_ok valid T" "2 \<le> length (tt_shape T kv)" "page_shape (tt_shape T kv) = shape" "tt_dtype T kv = dtype" "valid kv"
    and "results_fit valid T blocks shape dtype (tt_shape T kv ! 1) K rs"
  shows "\<exists>kv'. inject T blocks shape dtype rs kv = (None, kv') \<and> injected T blocks (tt_shape T kv ! 1) K rs kv kv'"
  using assms(2-)
proof (induction rs arbitrary: kv)
  case (Cons x rs)
  obtain r j v where x: "x = ((r, j), v)" by (cases x) auto
  let ?n = "tt_shape T kv ! 1"
  show ?case
  proof (cases "v = None \<or> target blocks ?n (r, j) = None")
    case True
    then have "inject T blocks shape dtype (x # rs) kv = inject T blocks shape dtype rs kv"
      by (auto simp: x target_def Let_def split: option.splits if_splits)
    then show ?thesis
      using Cons.IH [OF Cons.prems(1-4) results_fit_tail [OF Cons.prems(5)]] injected_skip [OF True] unfolding x by metis
  next
    case False
    then obtain d p where d: "v = Some d" and p: "target blocks ?n (r, j) = Some p" by auto
    obtain bs where bs: "map_of blocks r = Some bs" "j < length bs" "bs ! j = p" "p < ?n"
      using p by (auto simp: target_def split: option.splits if_splits)
    let ?K = "K (r, j)" and ?kv = "tt_copy T kv p (K (r, j))"
    have K: "bytes_to_tensor T d shape dtype = Some ?K" "valid ?K" "tt_shape T ?K = shape" "tt_dtype T ?K = dtype"
      using Cons.prems(5) unfolding results_fit_def x d by (metis list.set_intros(1))+
    have go: "inject T blocks shape dtype (x # rs) kv = inject T blocks shape dtype rs ?kv" using bs K by (simp add: x d)
    have sh: "tt_shape T ?K = page_shape (tt_shape T kv)" "tt_dtype T ?K = tt_dtype T kv" using K(3,4) Cons.prems(2,3) by simp_all
    note cp = torch_copy [OF assms(1) Cons.prems(4) K(2) Cons.prems(1) bs(4) sh]
    have "\<exists>kv'. inject T blocks shape dtype rs ?kv = (None, kv') \<and> injected T blocks (tt_shape T ?kv ! 1) K rs ?kv kv'"
      by (rule Cons.IH) (use cp(1-3) Cons.prems(1-3) results_fit_tail [OF Cons.prems(5)] in simp_all)
    then obtain kv' where kv': "inject T blocks shape dtype rs ?kv = (None, kv')" "injected T blocks ?n K rs ?kv kv'" unfolding cp(2) by blast
    have "injected T blocks ?n K (x # rs) kv kv'" unfolding x d by (rule injected_copy [OF Cons.prems(5) [unfolded x d] p bs(4) cp(4) kv'(2)])
    then show ?thesis using go kv'(1) by simp
  qed
qed (simp add: injected_def)

lemma map_of_block_id_lookup:
  assumes "distinct (map lp_request_id ps)" "p \<in> set ps"
  shows "map_of (block_id_lookup ps) (lp_request_id p) = Some (map sc_vllm_block_id (lp_blocks p))"
proof -
  have "map_of (fold (\<lambda>p. AList.update (lp_request_id p) (map sc_vllm_block_id (lp_blocks p))) ps d) =
      map_of d ++ map_of (map (\<lambda>p. (lp_request_id p, map sc_vllm_block_id (lp_blocks p))) ps)" if "distinct (map lp_request_id ps)" for d ps
    using that
  proof (induction ps arbitrary: d)
    case (Cons q ps)
    have new: "map_of (map (\<lambda>p. (lp_request_id p, map sc_vllm_block_id (lp_blocks p))) ps) (lp_request_id q) = None"
      using Cons.prems by (auto simp: map_of_eq_None_iff)
    show ?case
    proof
      fix k
      show "map_of (fold (\<lambda>p. AList.update (lp_request_id p) (map sc_vllm_block_id (lp_blocks p))) (q # ps) d) k =
          (map_of d ++ map_of (map (\<lambda>p. (lp_request_id p, map sc_vllm_block_id (lp_blocks p))) (q # ps))) k"
        using Cons.IH Cons.prems new by (cases "k = lp_request_id q") (simp_all add: update_conv' map_add_def split: option.split)
    qed
  qed simp
  from this [OF assms(1), of "[]"]
  have "map_of (block_id_lookup ps) = map_of (map (\<lambda>p. (lp_request_id p, map sc_vllm_block_id (lp_blocks p))) ps)"
    by (simp add: block_id_lookup_def)
  moreover have "distinct (map fst (map (\<lambda>p. (lp_request_id p, map sc_vllm_block_id (lp_blocks p))) ps))" using assms(1) by (simp add: comp_def)
  ultimately show ?thesis using assms(2) by (simp add: map_of_eq_Some_iff)
qed

lemma distinct_pages:
  assumes "distinct (map page (concat (map blocks ps)))" "p \<in> set ps" "q \<in> set ps" "i < length (blocks p)" "j < length (blocks q)"
    and "page (blocks p ! i) = page (blocks q ! j)"
  shows "p = q \<and> i = j"
  using assms
proof (induction ps)
  case (Cons a ps)
  have in_p: "page (blocks p ! i) \<in> page ` set (blocks p)" "page (blocks p ! i) \<in> page ` set (blocks q)" using Cons.prems(4-6) by (metis imageI nth_mem)+
  have out: "page ` set (blocks a) \<inter> page ` set (concat (map blocks ps)) = {}" using Cons.prems(1) by simp
  have tail: "page ` set (blocks x) \<subseteq> page ` set (concat (map blocks ps))" if "x \<in> set ps" for x using that by auto
  consider "p = a" "q = a" | "p = a" "q \<in> set ps" | "p \<in> set ps" "q = a" | "p \<in> set ps" "q \<in> set ps" using Cons.prems(2,3) by auto
  then show ?case
  proof cases
    case 1
    have "distinct (map page (blocks a))" using Cons.prems(1) by simp
    then have "i = j" using 1 Cons.prems(4-6) by (metis length_map nth_eq_iff_index_eq nth_map)
    then show ?thesis using 1 by simp
  next
    case 2
    then show ?thesis using in_p out tail [OF 2(2)] by blast
  next
    case 3
    then show ?thesis using in_p out tail [OF 3(1)] by blast
  next
    case 4
    then show ?thesis using Cons by simp
  qed
qed simp

lemma target_load:
  assumes "meta_ok meta" "p \<in> set (cm_loads meta)" "idx < length (lp_blocks p)"
  shows "target (block_id_lookup (cm_loads meta)) n (lp_request_id p, idx) =
    (if sc_vllm_block_id (lp_blocks p ! idx) < n then Some (sc_vllm_block_id (lp_blocks p ! idx)) else None)"
  using map_of_block_id_lookup [OF _ assms(2)] assms(1,3) by (simp add: target_def meta_ok_def)

lemma page_shape_block:
  assumes "4 \<le> length sh" "sh ! 0 = 2"
  shows "page_shape sh = per_block_shape sh"
proof -
  obtain a s1 where 1: "sh = a # s1" "3 \<le> length s1" using assms(1) by (cases sh) auto
  obtain b s2 where 2: "s1 = b # s2" "2 \<le> length s2" using 1(2) by (cases s1) auto
  obtain c s3 where 3: "s2 = c # s3" using 2(2) by (cases s2) auto
  show ?thesis using assms(2) unfolding 1(1) 2(1) 3 by (simp add: page_shape_def per_block_shape_def numeral_3_eq_3 numeral_2_eq_2)
qed

lemma block_kv_load:
  assumes "distinct (map lp_request_id ps)" "p \<in> set ps"
  shows "block_kv kv_of l ps (lp_request_id p, idx) = kv_of (sc_chained_hash (lp_blocks p ! idx)) l"
proof -
  have "hd (filter (\<lambda>q. lp_request_id q = lp_request_id p) ps) = p" using assms by (induction ps) auto
  then show ?thesis by (simp add: block_kv_def)
qed

lemma load_results_fit:
  assumes model: "model_ok sha valid T layers kv_of" "l \<in> set layers" and meta: "meta_ok meta"
    and rs: "\<And>r idx d. ((r, idx), Some d) \<in> set rs \<Longrightarrow> \<exists>p\<in>set (cm_loads meta). lp_request_id p = r \<and> idx < length (lp_blocks p) \<and>
      d = the (tensor_to_bytes T (kv_of (sc_chained_hash (lp_blocks p ! idx)) l))"
  shows "results_fit valid T (block_id_lookup (cm_loads meta)) (tt_shape T (kv_of [] l)) (tt_dtype T (kv_of [] l)) n (block_kv kv_of l (cm_loads meta)) rs"
proof -
  let ?loads = "cm_loads meta" and ?blocks = "block_id_lookup (cm_loads meta)" and ?K = "block_kv kv_of l (cm_loads meta)"
  have ids: "distinct (map lp_request_id ?loads)" and pages: "distinct (map sc_vllm_block_id (concat (map lp_blocks ?loads)))"
    using meta by (simp_all add: meta_ok_def)
  have dec: "bytes_to_tensor T d (tt_shape T (kv_of [] l)) (tt_dtype T (kv_of [] l)) = Some (?K k) \<and> valid (?K k) \<and>
      tt_shape T (?K k) = tt_shape T (kv_of [] l) \<and> tt_dtype T (?K k) = tt_dtype T (kv_of [] l)" if kd: "(k, Some d) \<in> set rs" for k d
  proof -
    obtain p idx where p: "p \<in> set ?loads" "k = (lp_request_id p, idx)" "d = the (tensor_to_bytes T (kv_of (sc_chained_hash (lp_blocks p ! idx)) l))"
      using rs [of "fst k" "snd k" d] kd by (metis prod.collapse)
    let ?t = "kv_of (sc_chained_hash (lp_blocks p ! idx)) l"
    have t: "valid ?t" "TORCH_TO_NUMPY (tt_dtype T ?t) \<noteq> None" "tt_shape T ?t = tt_shape T (kv_of [] l)" "tt_dtype T ?t = tt_dtype T (kv_of [] l)" "torch_ok valid T"
      using model unfolding model_ok_def by blast+
    from bytes_tensor_inverse [OF t(5,1,2)] t block_kv_load [OF ids p(1), of kv_of l idx] p(2,3) show ?thesis by auto
  qed
  have inj: "k = k'" if kd: "(k, Some d) \<in> set rs" "(k', Some d') \<in> set rs" and tg: "target ?blocks n k = Some b" "target ?blocks n k' = Some b" for k k' d d' b
  proof -
    obtain p i where p: "p \<in> set ?loads" "k = (lp_request_id p, i)" "i < length (lp_blocks p)" using rs [of "fst k" "snd k" d] kd(1) by (metis prod.collapse)
    obtain q j where q: "q \<in> set ?loads" "k' = (lp_request_id q, j)" "j < length (lp_blocks q)" using rs [of "fst k'" "snd k'" d'] kd(2) by (metis prod.collapse)
    have "sc_vllm_block_id (lp_blocks p ! i) = sc_vllm_block_id (lp_blocks q ! j)"
      using tg target_load [OF meta p(1,3)] target_load [OF meta q(1,3)] p(2) q(2) by (simp split: if_splits)
    then show ?thesis using distinct_pages [OF pages p(1) q(1) p(3) q(3)] p(2) q(2) by simp
  qed
  show ?thesis unfolding results_fit_def using dec inj by blast
qed

lemma injected_load:
  assumes "injected T (block_id_lookup (cm_loads meta)) n (block_kv kv_of l (cm_loads meta)) rs kv kv'" and meta: "meta_ok meta"
    and rs: "\<And>r idx d. ((r, idx), Some d) \<in> set rs \<Longrightarrow> \<exists>p\<in>set (cm_loads meta). lp_request_id p = r \<and> idx < length (lp_blocks p)"
    and p: "p \<in> set (cm_loads meta)" "idx < length (lp_blocks p)" "sc_vllm_block_id (lp_blocks p ! idx) < n"
  shows "tt_page T kv' (sc_vllm_block_id (lp_blocks p ! idx)) =
    (if \<exists>d. ((lp_request_id p, idx), Some d) \<in> set rs then kv_of (sc_chained_hash (lp_blocks p ! idx)) l
     else tt_page T kv (sc_vllm_block_id (lp_blocks p ! idx)))"
proof (cases "\<exists>d. ((lp_request_id p, idx), Some d) \<in> set rs")
  case True
  have "distinct (map lp_request_id (cm_loads meta))" using meta by (simp add: meta_ok_def)
  then show ?thesis using True assms(1) target_load [OF meta p(1,2), of n] p(3) block_kv_load [of "cm_loads meta" p kv_of l idx] p(1)
    unfolding injected_def by auto
next
  case False
  have pages: "distinct (map sc_vllm_block_id (concat (map lp_blocks (cm_loads meta))))" using meta by (simp add: meta_ok_def)
  have "target (block_id_lookup (cm_loads meta)) n k \<noteq> Some (sc_vllm_block_id (lp_blocks p ! idx))" if kd: "(k, Some d) \<in> set rs" for k d
  proof
    assume tg: "target (block_id_lookup (cm_loads meta)) n k = Some (sc_vllm_block_id (lp_blocks p ! idx))"
    obtain q j where q: "q \<in> set (cm_loads meta)" "k = (lp_request_id q, j)" "j < length (lp_blocks q)"
      using rs [of "fst k" "snd k" d] kd by (metis prod.collapse)
    have "sc_vllm_block_id (lp_blocks q ! j) = sc_vllm_block_id (lp_blocks p ! idx)"
      using tg target_load [OF meta q(1,3)] q(2) by (simp split: if_splits)
    then show False using distinct_pages [OF pages q(1) p(1) q(3) p(2)] False kd q(2) by auto
  qed
  then show ?thesis using assms(1) p(3) False unfolding injected_def by auto
qed

lemma load_into_exact:
  fixes kv :: 't
  assumes model: "model_ok sha valid T layers kv_of" "l \<in> set layers" and kv: "valid kv" "layer_fits T kv_of l kv"
    and meta: "meta_ok meta"
    and pin: "\<forall>(l, p)\<in>set (cn_shape_pin cn). p = (tt_shape T (kv_of [] l), tt_dtype T (kv_of [] l))"
    and rs: "\<forall>((r, idx), v)\<in>set rs. \<exists>p\<in>set (cm_loads meta). lp_request_id p = r \<and> idx < length (lp_blocks p) \<and>
      (v = None \<or> v = Some (the (tensor_to_bytes T (kv_of (sc_chained_hash (lp_blocks p ! idx)) l))))"
  shows "\<exists>kv'. load_into T cn meta l rs kv = (None, kv') \<and>
    (\<forall>p\<in>set (cm_loads meta). \<forall>idx < length (lp_blocks p). sc_vllm_block_id (lp_blocks p ! idx) < tt_shape T kv ! 1 \<longrightarrow>
      tt_page T kv' (sc_vllm_block_id (lp_blocks p ! idx)) =
        (if \<exists>d. ((lp_request_id p, idx), Some d) \<in> set rs then kv_of (sc_chained_hash (lp_blocks p ! idx)) l
         else tt_page T kv (sc_vllm_block_id (lp_blocks p ! idx)))) \<and>
    (\<forall>b < tt_shape T kv ! 1. b \<notin> sc_vllm_block_id ` set (concat (map lp_blocks (cm_loads meta))) \<longrightarrow> tt_page T kv' b = tt_page T kv b)"
proof -
  let ?loads = "cm_loads meta" and ?n = "tt_shape T kv ! 1" and ?blocks = "block_id_lookup (cm_loads meta)"
  have shape: "page_shape (tt_shape T kv) = tt_shape T (kv_of [] l)" "2 \<le> length (tt_shape T kv)" "tt_dtype T kv = tt_dtype T (kv_of [] l)"
    using kv(2) page_shape_block [of "tt_shape T kv"] by (simp_all add: layer_fits_def)
  have known: "\<exists>p\<in>set ?loads. lp_request_id p = r \<and> idx < length (lp_blocks p) \<and>
      d = the (tensor_to_bytes T (kv_of (sc_chained_hash (lp_blocks p ! idx)) l))" if "((r, idx), Some d) \<in> set rs" for r idx d
    using bspec [OF rs that] by simp
  have "torch_ok valid T" using model(1) by (simp add: model_ok_def)
  from inject_exact [OF this shape(2,1,3) kv(1) load_results_fit [OF model meta known]]
  obtain kv' where kv': "inject T ?blocks (tt_shape T (kv_of [] l)) (tt_dtype T (kv_of [] l)) rs kv = (None, kv')"
    "injected T ?blocks ?n (block_kv kv_of l ?loads) rs kv kv'" by blast
  have "map_of (cn_shape_pin cn) l \<in> {None, Some (per_block_shape (tt_shape T kv), tt_dtype T kv)}"
    using pin kv(2) map_of_SomeD [of "cn_shape_pin cn" l] by (cases "map_of (cn_shape_pin cn) l") (auto simp: layer_fits_def)
  then have "load_into T cn meta l rs kv = (None, kv')" using kv(2) kv'(1) by (auto simp: load_into_def layer_fits_def Let_def)
  moreover have "tt_page T kv' (sc_vllm_block_id (lp_blocks p ! idx)) =
      (if \<exists>d. ((lp_request_id p, idx), Some d) \<in> set rs then kv_of (sc_chained_hash (lp_blocks p ! idx)) l
       else tt_page T kv (sc_vllm_block_id (lp_blocks p ! idx)))"
    if "p \<in> set ?loads" "idx < length (lp_blocks p)" "sc_vllm_block_id (lp_blocks p ! idx) < ?n" for p idx
    by (rule injected_load [OF kv'(2) meta _ that]) (use known in blast)
  moreover have "tt_page T kv' b = tt_page T kv b" if b: "b < ?n" "b \<notin> sc_vllm_block_id ` set (concat (map lp_blocks ?loads))" for b
  proof -
    have "target ?blocks ?n k \<noteq> Some b" if kd: "(k, Some d) \<in> set rs" for k d
    proof -
      obtain q j where q: "q \<in> set ?loads" "k = (lp_request_id q, j)" "j < length (lp_blocks q)"
        using known [of "fst k" "snd k" d] kd by (metis prod.collapse)
      have "sc_vllm_block_id (lp_blocks q ! j) \<in> sc_vllm_block_id ` set (concat (map lp_blocks ?loads))" using q(1,3) by force
      then show ?thesis using target_load [OF meta q(1,3)] q(2) b(2) by auto
    qed
    then show ?thesis using kv'(2) b(1) unfolding injected_def by blast
  qed
  ultimately show ?thesis by blast
qed

lemma sample_model_ok: "model_ok sample_sha rows_ok sample_torch [''l''] sample_model"
  using sample_torch_ok
  by (simp add: model_ok_def sample_sha_def layer_id_for_def PRESENCE_LAYER_def sample_model_def rows_ok_def sample_torch_def TORCH_TO_NUMPY_def
      tensor_to_bytes_def itemsize_def)

lemma sample_buffer_fits: "rows_ok sample_buffer" "layer_fits sample_torch sample_model ''l'' sample_buffer"
  by (simp_all add: sample_buffer_def rows_ok_def itemsize_def layer_fits_def sample_torch_def per_block_shape_def sample_model_def)

text \<open>A server that holds a block of four bytes, and in particular the one of the sample model.\<close>

lemma sample_server:
  fixes payload :: "BlockId \<Rightarrow> byte list" and rn :: string
  assumes "id_ok i" "payload i = [7, 8, 9, 10]"
  obtains n :: Cache_Node where "node_ok payload n" "fst (svc_Fetch n \<lparr>fq_id = to_proto_block_id i, fq_requesting_node = rn\<rparr>) =
      \<lparr>fs_id = to_proto_block_id i, fs_kv_data = [7, 8, 9, 10], fs_found = True, fs_tier = 1\<rparr>"
proof -
  obtain n0 :: Cache_Node where "cache_new sample_env 0 (\<lambda>_. False) (\<lambda>_. []) env_ok None sample_cache_cfg = Inr n0"
    and n0: "nd_store n0 = \<lparr>ts_cfg = tiered_config sample_cache_cfg, ts_hbm = None, ts_dram = Some (bs_new DRAM 64), ts_ssd = None,
       ts_access_counts = (\<lambda>_. None), ts_visited = {}\<rparr>" "node_ok payload n0" by (rule sample_cache [where payload = payload])
  let ?n = "IngestStreamedBlock n0 i [7, 8, 9, 10]"
  have "cache_step payload sample_env n0 (IngestStreamedBlock n0 i (payload i))" by (rule cache_step.ingest) (simp_all add: assms)
  then have ok: "node_ok payload ?n" using node_ok_cache_step [OF _ n0(2)] assms(2) by simp
  have "fst (FetchLocal ?n i) = Some ([7, 8, 9, 10], DRAM)"
    by (simp add: FetchLocal_def IngestStreamedBlock_def Let_def n0(1) sample_eval)
  then have "fst (svc_Fetch ?n \<lparr>fq_id = to_proto_block_id i, fq_requesting_node = rn\<rparr>) =
      \<lparr>fs_id = to_proto_block_id i, fs_kv_data = [7, 8, 9, 10], fs_found = True, fs_tier = 1\<rparr>"
    using assms(1) by (auto simp: svc_Fetch_def to_proto_eq BlockId_proto_inverse Let_def tier_code_def tier_rank_def split: prod.splits)
  with ok show thesis by (rule that)
qed

text \<open>A run of the engine on it: a request of one block is allocated, planned and fetched.\<close>

lemma sample_plan:
  assumes "cn_block_size cn = 1" "cn_need_load cn = [(''r'', 1, [1])]"
  shows "build_connector_meta (\<lambda>_. h) cn [\<lparr>nr_req_id = ''r'', nr_prompt_token_ids = [5], nr_block_ids = [[1]]\<rparr>] =
    Inr (sample_meta h, cn\<lparr>cn_need_load := []\<rparr>)"
proof -
  have "pack_u32 5 \<noteq> None" by (simp add: pack_u32_def)
  then have "block_chain (\<lambda>_. h) [5] 1 1 = Some [h]" by (auto simp: block_chain_def chained_block_hash_def)
  then show ?thesis
    using assms by (simp add: build_connector_meta_def plan_request_def sample_meta_def append_payload_def block_spec_def)
qed

lemma sample_fetch:
  fixes n :: Cache_Node
  assumes "wd_cluster w ''h:0'' = Some n"
    "fst (svc_Fetch n \<lparr>fq_id = to_proto_block_id i, fq_requesting_node = ''lethe-worker''\<rparr>) =
      \<lparr>fs_id = to_proto_block_id i, fs_kv_data = d, fs_found = True, fs_tier = 1\<rparr>"
  shows "fst (client_fetch (fetch_rpc (\<lambda>_. Answered)) (client_new b ''h:0'' []) i ''lethe-worker'' None w) = Some d"
  using assms
  by (auto simp: client_fetch_def call_with_retry_def MAX_ATTEMPTS_def fetch_rpc_def cluster_call_def stub_addr_def client_new_def Let_def numeral_3_eq_3
      split: prod.splits)

lemma sample_load_run:
  fixes n :: Cache_Node and h :: "byte list" and b :: "string \<Rightarrow> byte list"
  defines "i \<equiv> load_id 0 1 h"
  defines "step \<equiv> engine_step (\<lambda>_. h) b sample_sha rows_ok sample_torch [''l''] sample_model sample_env (\<lambda>_. Answered)"
  assumes "fst (svc_Fetch n \<lparr>fq_id = to_proto_block_id i, fq_requesting_node = ''lethe-worker''\<rparr>) =
      \<lparr>fs_id = to_proto_block_id i, fs_kv_data = d, fs_found = True, fs_tier = 1\<rparr>"
  obtains s where "step\<^sup>*\<^sup>* (engine_new (Some ''h:0'') (Some 1) None 16 [''h:0'' \<mapsto> n]) s" "en_meta s = Some (sample_meta h)"
    "\<And>p. p \<in> set (cm_loads (sample_meta h)) \<Longrightarrow> arrived (en_worker s) 1 p 0"
proof -
  let ?s0 = "engine_new (Some ''h:0'') (Some 1) None 16 [''h:0'' \<mapsto> n]"
  let ?c = "client_new b ''h:0'' []" and ?w = "en_world ?s0" and ?rs = "[\<lparr>nr_req_id = ''r'', nr_prompt_token_ids = [5], nr_block_ids = [[1]]\<rparr>]"
  define sch where "sch = (en_scheduler ?s0)\<lparr>cn_need_load := [(''r'', 1, [1])]\<rparr>"
  have "update_state_after_alloc (en_scheduler ?s0) ''r'' [[1]] 1 = Inr sch"
    by (simp add: sch_def update_state_after_alloc_def engine_new_def connector_new_def py_upto_def)
  then have s1: "step ?s0 (?s0\<lparr>en_scheduler := sch\<rparr>)" unfolding step_def by (rule engine_step.alloc)
  define s2 where "s2 = ?s0\<lparr>en_scheduler := sch\<lparr>cn_need_load := []\<rparr>, en_meta := Some (sample_meta h)\<rparr>"
  have "build_connector_meta (\<lambda>_. h) sch ?rs = Inr (sample_meta h, sch\<lparr>cn_need_load := []\<rparr>)"
    by (rule sample_plan) (simp_all add: sch_def engine_new_def connector_new_def)
  then have s2: "step (?s0\<lparr>en_scheduler := sch\<rparr>) s2"
    using engine_step.plan [of "\<lambda>_. h" "?s0\<lparr>en_scheduler := sch\<rparr>" ?rs "sample_meta h" "sch\<lparr>cn_need_load := []\<rparr>"]
    by (simp add: step_def s2_def requests_ok_def request_pages_def engine_new_def connector_new_def)
  define cn where "cn = (en_worker s2)\<lparr>cn_client := Some ?c, cn_inflight_loads := [((''r'', 1, 0), 0)],
     cn_executor := Some \<lparr>ex_pending = [(0, Fetch_Task ?c i ''lethe-worker'')], ex_finished = [], ex_next = 1\<rparr>\<rparr>"
  have "start_load_kv sample_sha b (en_worker s2) (en_meta s2) (Attn_Dict [''l'']) = Inr cn"
    by (simp add: start_load_kv_def s2_def cn_def engine_new_def connector_new_def sample_meta_def ensure_client_def submit_payload_def submit_layer_def
        submit_fetch_def submit_def layer_id_for_def sample_sha_def i_def Let_def)
  then have s3: "step s2 (s2\<lparr>en_worker := cn\<rparr>)" unfolding step_def by (rule engine_step.load)
  obtain w1 where "client_fetch (fetch_rpc (\<lambda>_. Answered)) ?c i ''lethe-worker'' None ?w = (Some d, w1)"
    using sample_fetch [of ?w n i d b] assms(3) by (cases "client_fetch (fetch_rpc (\<lambda>_. Answered)) ?c i ''lethe-worker'' None ?w") (simp add: engine_new_def)
  then have run: "executor_run (fetch_rpc (\<lambda>_. Answered)) (insert_rpc (\<lambda>_. Answered)) 0
      \<lparr>ex_pending = [(0, Fetch_Task ?c i ''lethe-worker'')], ex_finished = [], ex_next = 1\<rparr> (en_world (s2\<lparr>en_worker := cn\<rparr>)) =
      (\<lparr>ex_pending = [], ex_finished = [(0, Fetched (Some d))], ex_next = 1\<rparr>, w1)"
    by (simp add: executor_run_def run_task_def s2_def)
  let ?s4 = "s2\<lparr>en_worker := cn\<lparr>cn_executor := Some \<lparr>ex_pending = [], ex_finished = [(0, Fetched (Some d))], ex_next = 1\<rparr>\<rparr>, en_world := w1\<rparr>"
  have s4: "step (s2\<lparr>en_worker := cn\<rparr>) ?s4"
    using engine_step.run [of "s2\<lparr>en_worker := cn\<rparr>" _ "\<lambda>_. Answered" 0, OF _ run] by (simp add: step_def cn_def)
  have "step\<^sup>*\<^sup>* ?s0 ?s4" using s1 s2 s3 s4 by (meson converse_rtranclp_into_rtranclp rtranclp.rtrancl_refl)
  then show thesis by (rule that) (auto simp: s2_def cn_def arrived_def sample_meta_def future_bytes_def)
qed

lemma arrived_iff:
  assumes "cn_executor cn = Some ex" "distinct (map fst (cn_inflight_loads cn))"
  shows "(\<exists>d. ((lp_request_id p, idx), Some d) \<in> set (map (\<lambda>((r, _, i), f). ((r, i), future_bytes ex f))
      (filter (\<lambda>(k, f). fst (snd k) = lid) (cn_inflight_loads cn)))) \<longleftrightarrow> arrived cn lid p idx"
proof
  assume "\<exists>d. ((lp_request_id p, idx), Some d) \<in> set (map (\<lambda>((r, _, i), f). ((r, i), future_bytes ex f))
      (filter (\<lambda>(k, f). fst (snd k) = lid) (cn_inflight_loads cn)))"
  then obtain f d where f: "((lp_request_id p, lid, idx), f) \<in> set (cn_inflight_loads cn)" "future_bytes ex f = Some d" by clarsimp metis
  then show "arrived cn lid p idx" using assms by (auto simp: arrived_def)
next
  assume "arrived cn lid p idx"
  then obtain f d where "map_of (cn_inflight_loads cn) (lp_request_id p, lid, idx) = Some f" "future_bytes ex f = Some d"
    using assms(1) by (auto simp: arrived_def)
  then show "\<exists>d. ((lp_request_id p, idx), Some d) \<in> set (map (\<lambda>((r, _, i), f). ((r, i), future_bytes ex f))
      (filter (\<lambda>(k, f). fst (snd k) = lid) (cn_inflight_loads cn)))"
    by (intro exI [of _ d]) (auto dest!: map_of_SomeD intro!: rev_image_eqI)
qed

lemma results_ok:
  assumes "model_ok sha valid T layers kv_of" "l \<in> set layers" "loads_inv (kv_payload sha T layers kv_of) m ps (inflight, ex)"
  shows "\<forall>((r, idx), v)\<in>set (map (\<lambda>((r, _, i), f). ((r, i), future_bytes ex f)) (filter (\<lambda>(k, f). fst (snd k) = layer_id_for sha l) inflight)).
    \<exists>p\<in>set ps. lp_request_id p = r \<and> idx < length (lp_blocks p) \<and>
      (v = None \<or> v = Some (the (tensor_to_bytes T (kv_of (sc_chained_hash (lp_blocks p ! idx)) l))))"
proof -
  have inv: "ex_inv (kv_payload sha T layers kv_of) ex" "\<And>r lid idx f. ((r, lid, idx), f) \<in> set inflight \<Longrightarrow> \<exists>p\<in>set ps. lp_request_id p = r \<and> idx < length (lp_blocks p) \<and>
      future_for (kv_payload sha T layers kv_of) ex f (load_id m lid (sc_chained_hash (lp_blocks p ! idx)))"
    using assms(3) unfolding loads_inv_def by auto
  have "\<exists>p\<in>set ps. lp_request_id p = r \<and> idx < length (lp_blocks p) \<and>
      (future_bytes ex f = None \<or> future_bytes ex f = Some (the (tensor_to_bytes T (kv_of (sc_chained_hash (lp_blocks p ! idx)) l))))"
    if "((r, layer_id_for sha l, idx), f) \<in> set inflight" for r idx f
    using inv(2) [OF that] future_bytes_ok [OF inv(1)] kv_payload_block [OF assms(1,2)] by metis
  then show ?thesis by auto
qed

section \<open>Properties\<close>

text \<open>
  C11. What the connector loads is what the model computes.  However the scheduler, the worker, its thread pool, the servers and a network that fails
  at will have been interleaved, a wait for a layer's loads does not raise, and afterwards the page of every block to be loaded holds what the model computes for
  that block in that layer if its fetch came back with bytes, and what it held before otherwise; no other page has
  changed.
\<close>

theorem connector_load_exact:
  assumes "(engine_step H b sha valid T layers kv_of E net)\<^sup>*\<^sup>* (engine_new address block_size model_id cbs c) s"
    and "model_ok sha valid T layers kv_of" "\<And>x. length (H x) = 32" "cluster_ok (kv_payload sha T layers kv_of) c"
    and "l \<in> set layers" "valid kv" "layer_fits T kv_of l kv" "tab l = Some (Kv_Tensor kv)" "en_meta s = Some meta"
    and "wait_for_layer_load sha T (en_worker s) (en_meta s) l (Some tab) = (e, cn, fwd)"
  shows "\<exists>kv'. e = None \<and> fwd = Some (tab(l \<mapsto> Kv_Tensor kv')) \<and>
    (\<forall>p\<in>set (cm_loads meta). \<forall>idx < length (lp_blocks p). sc_vllm_block_id (lp_blocks p ! idx) < tt_shape T kv ! 1 \<longrightarrow>
      tt_page T kv' (sc_vllm_block_id (lp_blocks p ! idx)) =
        (if arrived (en_worker s) (layer_id_for sha l) p idx then kv_of (sc_chained_hash (lp_blocks p ! idx)) l
         else tt_page T kv (sc_vllm_block_id (lp_blocks p ! idx)))) \<and>
    (\<forall>b < tt_shape T kv ! 1. b \<notin> sc_vllm_block_id ` set (concat (map lp_blocks (cm_loads meta))) \<longrightarrow> tt_page T kv' b = tt_page T kv b)"
proof -
  let ?w = "en_worker s" and ?lid = "layer_id_for sha l"
  have inv: "engine_inv b (kv_payload sha T layers kv_of) T kv_of (case model_id of None \<Rightarrow> 0 | Some m \<Rightarrow> m) s"
    by (rule engine_inv_reachable [OF assms(1-4)])
  then obtain m ex where ex: "cn_executor ?w = Some ex" "loads_inv (kv_payload sha T layers kv_of) m (cm_loads meta) (cn_inflight_loads ?w, ex)"
    using assms(9) unfolding engine_inv_def by auto
  have meta: "meta_ok meta" using inv assms(9) unfolding engine_inv_def by blast
  have pin: "\<forall>(l, p)\<in>set (cn_shape_pin ?w). p = (tt_shape T (kv_of [] l), tt_dtype T (kv_of [] l))" using inv unfolding engine_inv_def by blast
  let ?mine = "\<lambda>(k, f). fst (snd k) = ?lid"
  define rs where "rs = map (\<lambda>((r, _, i), f). ((r, i), future_bytes ex f)) (filter (\<lambda>(k, f). fst (snd k) = ?lid) (cn_inflight_loads ?w))"
  have keys: "distinct (map fst (cn_inflight_loads ?w))" using ex(2) by (simp add: loads_inv_def)
  have arr: "(\<exists>d. ((lp_request_id p, idx), Some d) \<in> set rs) \<longleftrightarrow> arrived ?w ?lid p idx" for p idx
    unfolding rs_def by (rule arrived_iff [OF ex(1) keys])
  show ?thesis
  proof (cases "cm_loads meta = [] \<or> rs = []")
    case True
    then have "e = None \<and> fwd = Some tab" using assms(9,10) ex(1)
      by (cases "cm_loads meta = []") (simp_all add: wait_for_layer_load_def Let_def rs_def)
    moreover have "\<not> arrived ?w ?lid p idx" if "p \<in> set (cm_loads meta)" for p idx using arr [of p idx] that True by auto
    ultimately show ?thesis using assms(8) by (intro exI [of _ kv]) (auto simp: fun_upd_idem)
  next
    case False
    let ?cn = "?w\<lparr>cn_inflight_loads := filter (\<lambda>e. \<not> ?mine e) (cn_inflight_loads ?w)\<rparr>"
    have "\<forall>(l, p)\<in>set (cn_shape_pin ?cn). p = (tt_shape T (kv_of [] l), tt_dtype T (kv_of [] l))" using pin by simp
    from load_into_exact [OF assms(2,5-7) meta this results_ok [OF assms(2,5) ex(2)], folded rs_def]
    obtain kv' where kv': "load_into T ?cn meta l rs kv = (None, kv')"
      and res: "(\<forall>p\<in>set (cm_loads meta). \<forall>idx < length (lp_blocks p). sc_vllm_block_id (lp_blocks p ! idx) < tt_shape T kv ! 1 \<longrightarrow>
        tt_page T kv' (sc_vllm_block_id (lp_blocks p ! idx)) =
          (if \<exists>d. ((lp_request_id p, idx), Some d) \<in> set rs then kv_of (sc_chained_hash (lp_blocks p ! idx)) l
           else tt_page T kv (sc_vllm_block_id (lp_blocks p ! idx)))) \<and>
        (\<forall>b < tt_shape T kv ! 1. b \<notin> sc_vllm_block_id ` set (concat (map lp_blocks (cm_loads meta))) \<longrightarrow> tt_page T kv' b = tt_page T kv b)" by blast
    have "e = None \<and> fwd = Some (tab(l \<mapsto> Kv_Tensor kv'))"
      using assms(8-10) ex(1) False kv' by (simp add: wait_for_layer_load_def Let_def rs_def)
    then show ?thesis using res unfolding arr by blast
  qed
qed

theorem connector_load_exact_witness:
  "\<exists>c s cn kv'. (engine_step (\<lambda>_. replicate 32 0) (\<lambda>_. []) sample_sha rows_ok sample_torch [''l''] sample_model sample_env (\<lambda>_. Answered))\<^sup>*\<^sup>*
       (engine_new (Some ''h:0'') (Some 1) None 16 c) s \<and>
     wait_for_layer_load sample_sha sample_torch (en_worker s) (en_meta s) ''l'' (Some [''l'' \<mapsto> Kv_Tensor sample_buffer]) =
       (None, cn, Some [''l'' \<mapsto> Kv_Tensor kv']) \<and>
     tt_page sample_torch kv' 1 = sample_model (replicate 32 0) ''l'' \<and> tt_page sample_torch kv' 0 = tt_page sample_torch sample_buffer 0"
proof -
  define h where "h = replicate 32 (0 :: byte)"
  let ?P = "kv_payload sample_sha sample_torch [''l''] sample_model" and ?i = "load_id 0 1 h"
  have P: "?P ?i = [7, 8, 9, 10]"
    using kv_payload_block [OF sample_model_ok, of "''l''" 0 h]
    by (simp add: sample_sha_def layer_id_for_def tensor_to_bytes_def sample_torch_def sample_model_def)
  have "id_ok ?i" by (simp add: h_def load_id_def id_ok_def)
  then obtain n :: Cache_Node where n: "node_ok ?P n" "fst (svc_Fetch n \<lparr>fq_id = to_proto_block_id ?i, fq_requesting_node = ''lethe-worker''\<rparr>) =
      \<lparr>fs_id = to_proto_block_id ?i, fs_kv_data = [7, 8, 9, 10], fs_found = True, fs_tier = 1\<rparr>"
    by (rule sample_server [of ?i ?P, OF _ P])
  obtain s where run: "(engine_step (\<lambda>_. h) (\<lambda>_. []) sample_sha rows_ok sample_torch [''l''] sample_model sample_env (\<lambda>_. Answered))\<^sup>*\<^sup>*
      (engine_new (Some ''h:0'') (Some 1) None 16 [''h:0'' \<mapsto> n]) s" and s: "en_meta s = Some (sample_meta h)"
      "\<And>p. p \<in> set (cm_loads (sample_meta h)) \<Longrightarrow> arrived (en_worker s) 1 p 0"
    by (rule sample_load_run [where b = "\<lambda>_. []", OF n(2)]) blast
  obtain e cn fwd where w: "wait_for_layer_load sample_sha sample_torch (en_worker s) (en_meta s) ''l'' (Some [''l'' \<mapsto> Kv_Tensor sample_buffer]) = (e, cn, fwd)"
    by (rule prod_cases3)
  have ok: "length h = 32" "cluster_ok ?P [''h:0'' \<mapsto> n]" using n(1) by (simp_all add: h_def cluster_ok_def)
  have "tt_shape sample_torch sample_buffer ! 1 = 2" "layer_id_for sample_sha ''l'' = 1"
    by (simp_all add: sample_torch_def sample_buffer_def layer_id_for_def sample_sha_def)
  with connector_load_exact [OF run sample_model_ok ok _ sample_buffer_fits _ s(1) w] s(2)
  obtain kv' where "e = None" "fwd = Some [''l'' \<mapsto> Kv_Tensor kv']"
    "tt_page sample_torch kv' 1 = sample_model h ''l''" "tt_page sample_torch kv' 0 = tt_page sample_torch sample_buffer 0"
    by (force simp: sample_meta_def)
  then show ?thesis using run w unfolding h_def by blast
qed

end
