(* ===== verification/Lifecycle.thy ===== *)
theory Lifecycle
  imports Service
begin

text \<open>
  The life of a server process: the heartbeat thread with its wake-up at shutdown
  (\<open>cache_server/src/membership.cpp\<close>), the cache of channels that it sends over, the tier threads
  of the evictor (\<open>cache_server/src/eviction.cpp\<close>), and \<open>main\<close> from the command line
  to the exit status (\<open>cache_server/src/main.cpp\<close>).  A step of the heartbeat thread or of \<open>Shutdown\<close> is what it does
  in one hold of the mutex \<open>wake_mu\<close> or between two holds.
\<close>

section \<open>Definitions\<close>

subsection \<open>The heartbeat thread\<close>

datatype Loop_Pc = At_Test | In_Turn | At_Wait | Asleep | Ended

datatype Control_Pc = Control_Idle | Control_Notify | Control_Join

record Heart =
  ht_running :: bool
  ht_pc :: Loop_Pc
  ht_joinable :: bool
  ht_control :: Control_Pc

definition heart_new :: Heart where
  "heart_new = \<lparr>ht_running = False, ht_pc = Ended, ht_joinable = False, ht_control = Control_Idle\<rparr>"

text \<open>\<open>Start\<close>; \<open>None\<close> is the end of the process by the assignment to a thread that has not been joined.\<close>

definition heart_Start :: "Heart \<Rightarrow> Heart option" where
  "heart_Start h =
     (if ht_running h then Some h
      else if ht_joinable h then None
      else Some (h\<lparr>ht_running := True, ht_pc := At_Test, ht_joinable := True\<rparr>))"

text \<open>
  The moves of the thread itself in \<open>HeartbeatLoop\<close>: the test of the loop, the turn, and the predicate of the wait, which is
  evaluated under the mutex and puts the thread to sleep in the same hold.
\<close>

definition loop_move :: "Heart \<Rightarrow> Heart option" where
  "loop_move h =
     (case ht_pc h of
        At_Test \<Rightarrow> Some (h\<lparr>ht_pc := (if ht_running h then In_Turn else Ended)\<rparr>)
      | In_Turn \<Rightarrow> Some (h\<lparr>ht_pc := At_Wait\<rparr>)
      | At_Wait \<Rightarrow> Some (h\<lparr>ht_pc := (if ht_running h then Asleep else At_Test)\<rparr>)
      | Asleep \<Rightarrow> None
      | Ended \<Rightarrow> None)"

text \<open>
  \<open>Shutdown\<close> in its three parts: the exchange of the flag, the notification under the mutex, and the join, which waits
  for the end of the thread.  A sleeper that is notified evaluates its predicate again.
\<close>

definition heart_flag :: "Heart \<Rightarrow> Heart" where
  "heart_flag h = h\<lparr>ht_running := False, ht_control := (if ht_running h then Control_Notify else Control_Join)\<rparr>"

definition heart_notify :: "Heart \<Rightarrow> Heart" where
  "heart_notify h = h\<lparr>ht_pc := (if ht_pc h = Asleep \<and> \<not> ht_running h then At_Test else ht_pc h), ht_control := Control_Join\<rparr>"

definition heart_join :: "Heart \<Rightarrow> Heart option" where
  "heart_join h =
     (if \<not> ht_joinable h then Some (h\<lparr>ht_control := Control_Idle\<rparr>)
      else if ht_pc h = Ended then Some (h\<lparr>ht_joinable := False, ht_control := Control_Idle\<rparr>) else None)"

inductive heart_step :: "Heart \<Rightarrow> Heart \<Rightarrow> bool" where
  start: "ht_control h = Control_Idle \<Longrightarrow> heart_Start h = Some h' \<Longrightarrow> heart_step h h'"
| move: "loop_move h = Some h' \<Longrightarrow> heart_step h h'"
| timeout: "ht_pc h = Asleep \<Longrightarrow> heart_step h (h\<lparr>ht_pc := At_Test\<rparr>)"
| flag: "ht_control h = Control_Idle \<Longrightarrow> heart_step h (heart_flag h)"
| notify: "ht_control h = Control_Notify \<Longrightarrow> heart_step h (heart_notify h)"
| join: "ht_control h = Control_Join \<Longrightarrow> heart_join h = Some h' \<Longrightarrow> heart_step h h'"

definition heart_inv :: "Heart \<Rightarrow> bool" where
  "heart_inv h \<longleftrightarrow>
     (ht_running h \<longrightarrow> ht_control h = Control_Idle \<and> ht_joinable h) \<and>
     (\<not> ht_running h \<and> ht_control h = Control_Idle \<longrightarrow> \<not> ht_joinable h) \<and>
     (\<not> ht_joinable h \<longrightarrow> ht_pc h = Ended) \<and>
     (ht_control h = Control_Join \<longrightarrow> ht_pc h \<noteq> Asleep)"

fun loop_moves :: "nat \<Rightarrow> Heart \<Rightarrow> Heart" where
  "loop_moves 0 h = h"
| "loop_moves (Suc k) h = (case loop_move h of None \<Rightarrow> h | Some h' \<Rightarrow> loop_moves k h')"

subsection \<open>The tier threads of the evictor\<close>

text \<open>
  A tier thread between two readings of the flag: the top of the loop, the sleep in slices until the next pass, the
  test after it, the pass.  Times are in nanoseconds, \<open>now\<close> and \<open>later\<close> are the clock's readings; the result has what the thread
  sleeps for in the move.
\<close>

datatype Tier_Pc = Tier_Top | Tier_Slices int | Tier_Check | Tier_Pass | Tier_Ended

definition sleep_slice :: "int \<Rightarrow> int \<Rightarrow> int" where
  "sleep_slice next_pass now = min 50000000 (sgn (next_pass - now) * (\<bar>next_pass - now\<bar> div 1000000) * 1000000)"

definition tier_move :: "int \<Rightarrow> int \<Rightarrow> int \<Rightarrow> bool \<Rightarrow> Tier_Pc \<Rightarrow> Tier_Pc \<times> int" where
  "tier_move scan_interval now later running pc =
     (case pc of
        Tier_Top \<Rightarrow> (if running then Tier_Slices (now + scan_interval) else Tier_Ended, 0)
      | Tier_Slices next_pass \<Rightarrow>
          if now < next_pass \<and> running then (Tier_Slices next_pass, max 0 (sleep_slice next_pass later)) else (Tier_Check, 0)
      | Tier_Check \<Rightarrow> (if running then Tier_Pass else Tier_Ended, 0)
      | Tier_Pass \<Rightarrow> (Tier_Top, 0)
      | Tier_Ended \<Rightarrow> (Tier_Ended, 0))"

subsection \<open>Channels\<close>

text \<open>\<open>stub_for_peer\<close>: a channel per address, created on first use; channels are numbered in the order of their creation.\<close>

definition stub_for_peer :: "(string, nat) umap \<Rightarrow> string \<Rightarrow> nat \<times> (string, nat) umap" where
  "stub_for_peer stubs address =
     (case umap_find stubs address of
        Some s \<Rightarrow> (s, stubs)
      | None \<Rightarrow> (length stubs, umap_emplace address (length stubs) stubs))"

subsection \<open>The process\<close>

datatype Main_Exit = Uncaught_Exception | Exit_Status nat

text \<open>
  \<open>main\<close>: \<open>listening\<close> says whether the gRPC server could be built, \<open>session\<close> is what happens to the node between the start
  and the signal.  The node is the one that remains when \<open>main\<close> returns.
\<close>

definition main_run ::
  "Env \<Rightarrow> int \<Rightarrow> (string \<Rightarrow> bool) \<Rightarrow> (string \<Rightarrow> byte list) \<Rightarrow> ssd_env \<Rightarrow> IbverbsTransport option \<Rightarrow> bool \<Rightarrow> (Cache_Node \<Rightarrow> Cache_Node) \<Rightarrow>
   string list \<Rightarrow> string option \<Rightarrow> string option \<Rightarrow> Main_Exit \<times> Cache_Node option" where
  "main_run E now is_directory file_bytes env rdma listening session args dram_env ssd_env =
     (case main_config args dram_env ssd_env of
        None \<Rightarrow> (Uncaught_Exception, None)
      | Some cfg \<Rightarrow>
          (case cache_new E now is_directory file_bytes env rdma cfg of
             Inl e \<Rightarrow> (Uncaught_Exception, None)
           | Inr cache \<Rightarrow>
               let cache1 = cache_Start cache
               in if \<not> listening then (Exit_Status 1, Some (cache_Shutdown cache1))
                  else (Exit_Status 0, Some (cache_Shutdown (session cache1)))))"

section \<open>Lemmas\<close>

lemma heart_inv_step: "heart_step h h' \<Longrightarrow> heart_inv h \<Longrightarrow> heart_inv h'"
  by (induction rule: heart_step.induct)
    (auto simp: heart_inv_def heart_Start_def loop_move_def heart_flag_def heart_notify_def heart_join_def
      split: Loop_Pc.splits if_splits)

lemma heart_inv_reachable: "heart_step\<^sup>*\<^sup>* heart_new h \<Longrightarrow> heart_inv h"
proof (induction rule: rtranclp_induct)
  case base
  then show ?case by (simp add: heart_inv_def heart_new_def)
next
  case (step y z)
  then show ?case using heart_inv_step by blast
qed

section \<open>Properties\<close>

text \<open>
  However starts, turns, time-outs and shutdowns interleave: a \<open>Start\<close> never assigns to a thread
  that has not been joined, which would end the process, and a \<open>Shutdown\<close> that has come to the join is not
  kept waiting for the time-out of the sleep: the thread ends after at most three moves of its own, and the join returns.
\<close>

theorem heartbeat_stops_promptly:
  assumes "heart_step\<^sup>*\<^sup>* heart_new h"
  shows "ht_control h = Control_Idle \<Longrightarrow> heart_Start h \<noteq> None"
    and "ht_control h = Control_Join \<Longrightarrow> ht_pc (loop_moves 3 h) = Ended \<and> heart_join (loop_moves 3 h) \<noteq> None"
proof -
  note inv = heart_inv_reachable [OF assms]
  show "ht_control h = Control_Idle \<Longrightarrow> heart_Start h \<noteq> None"
    using inv by (auto simp: heart_inv_def heart_Start_def)
  assume "ht_control h = Control_Join"
  then have "\<not> ht_running h" "ht_pc h \<noteq> Asleep" using inv by (auto simp: heart_inv_def)
  then have "ht_pc (loop_moves 3 h) = Ended"
    by (cases "ht_pc h") (simp_all add: numeral_3_eq_3 loop_move_def)
  then show "ht_pc (loop_moves 3 h) = Ended \<and> heart_join (loop_moves 3 h) \<noteq> None" by (simp add: heart_join_def)
qed

text \<open>
  A tier thread sleeps for at most 50 milliseconds between two readings of the flag; once the flag is
  cleared it does not sleep again and ends after at most two further moves.
\<close>

lemma tier_move_slice: "snd (tier_move scan now later running pc) \<le> 50000000"
  by (cases pc) (simp_all add: tier_move_def sleep_slice_def)

lemma tier_thread_stops:
  "snd (tier_move scan now later False pc) = 0"
  "fst (tier_move scan now2 later2 False (fst (tier_move scan now later False pc))) = Tier_Ended"
  by (cases pc; simp add: tier_move_def)+

text \<open>One channel per address: a second request for an address returns the first one's channel and creates none.\<close>

lemma stub_for_peer_cached:
  "stub_for_peer (snd (stub_for_peer stubs address)) address = (fst (stub_for_peer stubs address), snd (stub_for_peer stubs address))"
  by (auto simp: stub_for_peer_def umap_find_emplace split: option.splits)

text \<open>
  Whenever \<open>main\<close> returns, the node has been shut down: it does not run, its tier threads are gone and its heartbeat thread has
  stopped; the status is 1 exactly when the gRPC server could not be built.
\<close>

lemma main_run_stops:
  assumes "main_run E now is_directory file_bytes env rdma listening session args dram_env ssd_env = (Exit_Status k, r)"
    and "\<And>n. nd_running n \<Longrightarrow> nd_running (session n)"
  shows "\<exists>n. r = Some n \<and> \<not> nd_running n \<and> ev_threads (nd_evictor n) = [] \<and> \<not> nd_heartbeat n \<and> (k = 1 \<longleftrightarrow> \<not> listening)"
proof -
  have "nd_running (cache_Start n)" for n :: Cache_Node by (simp add: cache_Start_def)
  then show ?thesis
    using assms by (auto simp: main_run_def cache_Shutdown_def evictor_Shutdown_def Let_def split: option.splits sum.splits if_splits)
qed

end
