(* ===== verification/Membership_Threads.thy ===== *)
theory Membership_Threads
  imports Membership
begin

text \<open>
  The lock regions of \<open>cache_server/src/membership.cpp\<close>.  Every method there holds \<open>mu_\<close> only while it reads or
  updates the peer table; a membership change bumps the epoch, copies the ids of the peers believed alive under
  \<open>mu_\<close>, and then calls \<open>SetPeers\<close> and \<open>TriggerReReplication\<close> with no lock held.  So the heartbeat thread and the
  gRPC threads that run \<open>OnHeartbeat\<close> can interleave inside a change.  Here each thread has a position, a step is one
  lock region (or one call into the router or the replicator) of one thread, and the single-step
  \<open>heartbeat_tick\<close> and \<open>OnHeartbeat\<close> of theory \<open>Membership\<close> are shown to be the runs of one thread that no other
  thread interrupts.  While no two changes overlap the ring follows the failure detector; when they do, a stale
  ring can stay.
\<close>

section \<open>Definitions\<close>

text \<open>The positions inside \<open>OnMembershipChange\<close>; \<open>Swap\<close> carries the copied \<open>alive_ids\<close>.\<close>

datatype Change = Bump | Snapshot | Swap "string list" | Trigger | Over

fun change_move :: "Env \<Rightarrow> string list \<Rightarrow> Change \<Rightarrow> Member_Node \<Rightarrow> Change \<times> Member_Node" where
  "change_move E lost Bump n =
     (Snapshot, n\<lparr>nd_membership := (nd_membership n)\<lparr>mb_epoch := mb_epoch (nd_membership n) + 1\<rparr>\<rparr>)"
| "change_move E lost Snapshot n = (Swap (alive_ids (en_peer_order E) (nd_membership n)), n)"
| "change_move E lost (Swap alive) n =
     (Trigger, if mb_router (nd_membership n)
       then n\<lparr>nd_router := SetPeers (en_sort E) (en_blake3 E) (nd_router n) alive\<rparr> else n)"
| "change_move E lost Trigger n =
     (Over, if mb_replicator (nd_membership n) \<and> lost \<noteq> []
       then TriggerReReplication (en_block_order E) n lost else n)"
| "change_move E lost Over n = (Over, n)"

text \<open>The locked part of \<open>OnHeartbeat\<close>: whether the sender was dead, and the updated table.\<close>

definition heartbeat_update :: "int \<Rightarrow> string \<Rightarrow> Member_Node \<Rightarrow> bool \<times> Member_Node" where
  "heartbeat_update now peer_id n =
     (let mb = nd_membership n;
          peers = umap_emplace peer_id (default_peer\<lparr>pi_node_id := peer_id\<rparr>) (mb_peers mb);
          was_dead = (case umap_find peers peer_id of None \<Rightarrow> False | Some info \<Rightarrow> \<not> pi_alive info)
      in (was_dead, n\<lparr>nd_membership := mb\<lparr>mb_peers := umap_modify peer_id (mark_seen now (mb_epoch mb)) peers\<rparr>\<rparr>))"

text \<open>
  The heartbeat thread sends and collects the replies, records them, possibly changes the membership, evaluates the
  suspicions, possibly changes the membership and starts over; a handler records the heartbeat and possibly
  changes the membership.
\<close>

datatype Thread =
    Send | Replies "string list" | After_Send Change | Evaluate | After_Eval "string list" Change
  | Beat string | Handling Change | Answered

fun thread_move :: "Env \<Rightarrow> (string \<Rightarrow> bool) \<Rightarrow> int \<Rightarrow> Thread \<Rightarrow> Member_Node \<Rightarrow> Thread \<times> Member_Node" where
  "thread_move E reply now Send n =
     (let succeeded = filter reply (map fst (heartbeat_targets (en_peer_order E) (nd_membership n)))
      in (if succeeded = [] then Evaluate else Replies succeeded, n))"
| "thread_move E reply now (Replies succeeded) n =
     (let (resurrected, mb) = record_replies now succeeded (nd_membership n)
      in (if resurrected \<noteq> [] then After_Send Bump else Evaluate, n\<lparr>nd_membership := mb\<rparr>))"
| "thread_move E reply now (After_Send c) n =
     (let (c', n') = change_move E [] c n in (if c' = Over then Evaluate else After_Send c', n'))"
| "thread_move E reply now Evaluate n =
     (let (lost, mb) = EvaluateSuspicions (en_peer_order E) now (nd_membership n)
      in (if lost \<noteq> [] then After_Eval lost Bump else Send, n\<lparr>nd_membership := mb\<rparr>))"
| "thread_move E reply now (After_Eval lost c) n =
     (let (c', n') = change_move E lost c n in (if c' = Over then Send else After_Eval lost c', n'))"
| "thread_move E reply now (Beat p) n =
     (let (was_dead, n') = heartbeat_update now p n in (if was_dead then Handling Bump else Answered, n'))"
| "thread_move E reply now (Handling c) n =
     (let (c', n') = change_move E [] c n in (if c' = Over then Answered else Handling c', n'))"
| "thread_move E reply now Answered n = (Answered, n)"

record Mem_State =
  ms_node :: Member_Node
  ms_threads :: "Thread list"

text \<open>
  Any thread may move; a heartbeat may arrive from a peer that is in the table; and the rest of the node may
  move, which touches neither the ring nor the table.
\<close>

inductive mem_step :: "Env \<Rightarrow> Mem_State \<Rightarrow> Mem_State \<Rightarrow> bool" for E where
  move: "i < length (ms_threads s) \<Longrightarrow> thread_move E reply now (ms_threads s ! i) (ms_node s) = (t, n) \<Longrightarrow>
    mem_step E s (s\<lparr>ms_node := n, ms_threads := (ms_threads s)[i := t]\<rparr>)"
| arrive: "umap_find (mb_peers (nd_membership (ms_node s))) p \<noteq> None \<Longrightarrow>
    mem_step E s (s\<lparr>ms_threads := ms_threads s @ [Beat p]\<rparr>)"
| other: "nd_router n = nd_router (ms_node s) \<Longrightarrow> nd_membership n = nd_membership (ms_node s) \<Longrightarrow>
    mem_step E s (s\<lparr>ms_node := n\<rparr>)"

text \<open>The change a thread is inside of, the number of threads inside one, and runs in which at most \<open>k\<close> are at once.\<close>

fun change_of :: "Thread \<Rightarrow> Change option" where
  "change_of (After_Send c) = Some c"
| "change_of (After_Eval lost c) = Some c"
| "change_of (Handling c) = Some c"
| "change_of _ = None"

definition changes :: "Mem_State \<Rightarrow> nat" where
  "changes s = length (filter (\<lambda>t. change_of t \<noteq> None) (ms_threads s))"

definition calm_step :: "Env \<Rightarrow> nat \<Rightarrow> Mem_State \<Rightarrow> Mem_State \<Rightarrow> bool" where
  "calm_step E k s s' \<longleftrightarrow> mem_step E s s' \<and> changes s' \<le> k"

text \<open>The ring is the one \<open>SetPeers\<close> builds from the router's own peer list.\<close>

definition ring_built :: "Env \<Rightarrow> Router \<Rightarrow> bool" where
  "ring_built E rt \<longleftrightarrow> SetPeers (en_sort E) (en_blake3 E) rt (rt_peers rt) = rt"

text \<open>What a position inside a change promises of the node.\<close>

fun change_ok :: "Change \<Rightarrow> Member_Node \<Rightarrow> bool" where
  "change_ok (Swap alive) n \<longleftrightarrow> distinct alive \<and>
     set alive = insert (mb_local_node_id (nd_membership n)) (alive_set (nd_membership n))"
| "change_ok Trigger n \<longleftrightarrow> ring_in_sync n"
| "change_ok Over n \<longleftrightarrow> ring_in_sync n"
| "change_ok _ n \<longleftrightarrow> True"

definition member_ok :: "Env \<Rightarrow> u32 \<Rightarrow> Member_Node \<Rightarrow> bool" where
  "member_ok E vn n \<longleftrightarrow> mb_inv (nd_membership n) \<and> mb_router (nd_membership n) \<and> ring_built E (nd_router n) \<and>
     rt_vnodes_per_peer (nd_router n) = vn"

text \<open>A handler's sender is in the table.\<close>

fun thread_ok :: "Membership \<Rightarrow> Thread \<Rightarrow> bool" where
  "thread_ok mb (Beat p) \<longleftrightarrow> umap_find (mb_peers mb) p \<noteq> None"
| "thread_ok mb _ \<longleftrightarrow> True"

definition calm_inv :: "Env \<Rightarrow> u32 \<Rightarrow> Mem_State \<Rightarrow> bool" where
  "calm_inv E vn s \<longleftrightarrow> member_ok E vn (ms_node s) \<and> changes s \<le> 1 \<and>
     (\<forall>t\<in>set (ms_threads s). thread_ok (nd_membership (ms_node s)) t \<and>
        (\<forall>c. change_of t = Some c \<longrightarrow> change_ok c (ms_node s))) \<and>
     (changes s = 0 \<longrightarrow> ring_in_sync (ms_node s))"

text \<open>A member with one peer dead and another silent since time 0.\<close>

definition sample_race :: Member_Node where
  "sample_race = sample_dead\<lparr>nd_membership := (nd_membership sample_dead)\<lparr>mb_peers :=
     [(''b'', default_peer\<lparr>pi_node_id := ''b'', pi_alive := False, pi_ever_seen := True\<rparr>),
      (''c'', default_peer\<lparr>pi_node_id := ''c'', pi_ever_seen := True\<rparr>)]\<rparr>\<rparr>"

text \<open>No thread is inside a change.\<close>

definition settled :: "Env \<Rightarrow> u32 \<Rightarrow> Mem_State \<Rightarrow> bool" where
  "settled E vn s \<longleftrightarrow> member_ok E vn (ms_node s) \<and> changes s = 0 \<and>
     (\<forall>t\<in>set (ms_threads s). thread_ok (nd_membership (ms_node s)) t)"

text \<open>The ring and the set of living peers are the same; the same peers are known.\<close>

definition same_view :: "Member_Node \<Rightarrow> Member_Node \<Rightarrow> bool" where
  "same_view n n' \<longleftrightarrow> nd_router n' = nd_router n \<and>
     mb_local_node_id (nd_membership n') = mb_local_node_id (nd_membership n) \<and>
     alive_set (nd_membership n') = alive_set (nd_membership n)"

definition same_known :: "Member_Node \<Rightarrow> Member_Node \<Rightarrow> bool" where
  "same_known n n' \<longleftrightarrow> (\<forall>q. umap_find (mb_peers (nd_membership n')) q = None \<longleftrightarrow>
     umap_find (mb_peers (nd_membership n)) q = None)"

section \<open>Lemmas\<close>

lemma OnHeartbeat_split:
  "snd (OnHeartbeat E now n p epoch) =
     (let (was_dead, n1) = heartbeat_update now p n in if was_dead then OnMembershipChange E n1 [] else n1)"
  by (simp add: OnHeartbeat_def heartbeat_update_def Let_def)

text \<open>The change as a whole is \<open>OnMembershipChange\<close>.\<close>

lemma change_whole:
  assumes "change_move E lost Bump n = (c1, n1)" "change_move E lost c1 n1 = (c2, n2)"
    and "change_move E lost c2 n2 = (c3, n3)" "change_move E lost c3 n3 = (c4, n4)"
  shows "n4 = OnMembershipChange E n lost"
  using assms by (auto simp: OnMembershipChange_def Let_def)

text \<open>A known peer's heartbeat.\<close>

lemma heartbeat_update_known:
  assumes "umap_find (mb_peers (nd_membership n)) p = Some info" "mb_inv (nd_membership n)"
    and "heartbeat_update now p n = (dead, n')"
  shows "dead = (\<not> pi_alive info)" "nd_router n' = nd_router n" "mb_inv (nd_membership n')"
    "mb_router (nd_membership n') = mb_router (nd_membership n)"
    "mb_local_node_id (nd_membership n') = mb_local_node_id (nd_membership n)"
    "alive_set (nd_membership n') = insert p (alive_set (nd_membership n))"
    "umap_find (mb_peers (nd_membership n')) q = None \<longleftrightarrow> umap_find (mb_peers (nd_membership n)) q = None"
proof -
  define mb where "mb = (nd_membership n)\<lparr>mb_peers :=
    umap_modify p (mark_seen now (mb_epoch (nd_membership n))) (mb_peers (nd_membership n))\<rparr>"
  have n': "n' = n\<lparr>nd_membership := mb\<rparr>" and "dead = (\<not> pi_alive info)"
    using assms(1,3) by (auto simp: heartbeat_update_def Let_def umap_emplace_def mb_def)
  then show "dead = (\<not> pi_alive info)" "nd_router n' = nd_router n"
    "mb_router (nd_membership n') = mb_router (nd_membership n)"
    "mb_local_node_id (nd_membership n') = mb_local_node_id (nd_membership n)" by (simp_all add: mb_def)
  have find: "umap_find (mb_peers mb) i = map_option (if i = p then mark_seen now (mb_epoch (nd_membership n)) else id)
      (umap_find (mb_peers (nd_membership n)) i)" for i
    by (simp add: mb_def umap_find_modify option.map_id)
  show "mb_inv (nd_membership n')"
    using assms(2) unfolding n' mb_inv_def by (simp add: find) (auto simp: mb_def split: if_splits)
  show "alive_set (nd_membership n') = insert p (alive_set (nd_membership n))"
    unfolding n' alive_set_def using assms(1) by (auto simp: find split: if_splits)
  show "umap_find (mb_peers (nd_membership n')) q = None \<longleftrightarrow> umap_find (mb_peers (nd_membership n)) q = None"
    unfolding n' by (simp add: find)
qed

text \<open>A membership change, position by position: the table stays, and \<open>SetPeers\<close> brings the ring in step.\<close>

lemma SetPeers_built: "ring_built E (SetPeers (en_sort E) (en_blake3 E) rt L)"
  by (simp add: ring_built_def SetPeers_def)

lemma trigger_rest:
  "nd_router (if b then TriggerReReplication ord n lost else n) = nd_router n"
  "nd_membership (if b then TriggerReReplication ord n lost else n) = nd_membership n"
  by simp_all

lemma change_move_facts:
  assumes "change_move E lost c n = (c', n')" "en_ok E" "member_ok E vn n" "change_ok c n"
  shows "member_ok E vn n'" "change_ok c' n'" "c' = Over \<Longrightarrow> ring_in_sync n'"
    "alive_set (nd_membership n') = alive_set (nd_membership n)"
    "mb_local_node_id (nd_membership n') = mb_local_node_id (nd_membership n)"
    "mb_peers (nd_membership n') = mb_peers (nd_membership n)"
proof -
  have ord: "order_ok (en_peer_order E)" using assms(2) by (simp add: en_ok_def)
  note alive = set_alive_ids [OF ord, of "nd_membership n"] distinct_alive_ids [OF ord, of "nd_membership n"]
  have all: "member_ok E vn n' \<and> change_ok c' n' \<and> (c' = Over \<longrightarrow> ring_in_sync n') \<and>
    alive_set (nd_membership n') = alive_set (nd_membership n) \<and>
    mb_local_node_id (nd_membership n') = mb_local_node_id (nd_membership n) \<and>
    mb_peers (nd_membership n') = mb_peers (nd_membership n)"
    using assms(1,3,4) alive
    by (cases c) (auto simp: member_ok_def mb_inv_def alive_set_def ring_in_sync_def SetPeers_built trigger_rest)
  then show "member_ok E vn n'" "change_ok c' n'" "c' = Over \<Longrightarrow> ring_in_sync n'"
    "alive_set (nd_membership n') = alive_set (nd_membership n)"
    "mb_local_node_id (nd_membership n') = mb_local_node_id (nd_membership n)"
    "mb_peers (nd_membership n') = mb_peers (nd_membership n)" by blast+
qed

text \<open>
  What one move of a thread is: it leaves the ring and the set of living peers alone; or it changes that set and
  enters a membership change; or it goes one position further inside one.
\<close>

lemma replies_move:
  assumes "record_replies now ps (nd_membership n) = (res, mb)" "member_ok E vn n"
  shows "member_ok E vn (n\<lparr>nd_membership := mb\<rparr>)" "same_known n (n\<lparr>nd_membership := mb\<rparr>)"
    "res = [] \<Longrightarrow> same_view n (n\<lparr>nd_membership := mb\<rparr>)"
proof -
  have "mb_inv (nd_membership n)" using assms(2) by (simp add: member_ok_def)
  note e = record_replies_effect [OF assms(1)] record_replies_inv [OF assms(1) this]
  show "member_ok E vn (n\<lparr>nd_membership := mb\<rparr>)" "same_known n (n\<lparr>nd_membership := mb\<rparr>)"
    "res = [] \<Longrightarrow> same_view n (n\<lparr>nd_membership := mb\<rparr>)"
    using assms(2) e by (simp_all add: member_ok_def same_known_def same_view_def)
qed

lemma evaluate_move:
  assumes "EvaluateSuspicions (en_peer_order E) now (nd_membership n) = (lost, mb)" "member_ok E vn n" "en_ok E"
  shows "member_ok E vn (n\<lparr>nd_membership := mb\<rparr>)" "same_known n (n\<lparr>nd_membership := mb\<rparr>)"
    "lost = [] \<Longrightarrow> same_view n (n\<lparr>nd_membership := mb\<rparr>)"
proof -
  have inv: "mb_inv (nd_membership n)" and ord: "order_ok (en_peer_order E)"
    using assms(2,3) by (simp_all add: member_ok_def en_ok_def)
  have mb: "mb_inv mb" "mb_router mb = mb_router (nd_membership n)" "mb_local_node_id mb = mb_local_node_id (nd_membership n)"
    "alive_set mb = alive_set (nd_membership n) - set lost"
    "umap_find (mb_peers mb) q = None \<longleftrightarrow> umap_find (mb_peers (nd_membership n)) q = None" for q
    using EvaluateSuspicions_inv [OF inv, of "en_peer_order E" now] EvaluateSuspicions_rest [of "en_peer_order E" now "nd_membership n"]
      EvaluateSuspicions_alive [OF ord inv, of now] EvaluateSuspicions_find [of "en_peer_order E" now "nd_membership n" q] assms(1)
    by simp_all
  show "member_ok E vn (n\<lparr>nd_membership := mb\<rparr>)" "same_known n (n\<lparr>nd_membership := mb\<rparr>)"
    "lost = [] \<Longrightarrow> same_view n (n\<lparr>nd_membership := mb\<rparr>)"
    using assms(2) mb by (simp_all add: member_ok_def same_known_def same_view_def)
qed

lemma beat_move:
  assumes "heartbeat_update now p n = (dead, n')" "member_ok E vn n" "umap_find (mb_peers (nd_membership n)) p \<noteq> None"
  shows "member_ok E vn n'" "same_known n n'" "nd_router n' = nd_router n" "\<not> dead \<Longrightarrow> same_view n n'"
proof -
  obtain info where info: "umap_find (mb_peers (nd_membership n)) p = Some info" using assms(3) by auto
  have inv: "mb_inv (nd_membership n)" using assms(2) by (simp add: member_ok_def)
  note h = heartbeat_update_known [OF info inv assms(1)]
  show "member_ok E vn n'" "same_known n n'" "nd_router n' = nd_router n"
    using assms(2) h by (simp_all add: member_ok_def same_known_def)
  show "same_view n n'" if "\<not> dead"
  proof -
    have "p \<in> alive_set (nd_membership n)" using h(1) info that by (simp add: alive_set_def)
    then show ?thesis using h by (simp add: same_view_def insert_absorb)
  qed
qed

lemma thread_move_cases:
  assumes "thread_move E reply now t n = (t', n')" "en_ok E" "member_ok E vn n" "thread_ok (nd_membership n) t"
  obtains (quiet) "change_of t = None" "change_of t' = None" "member_ok E vn n'" "same_view n n'" "same_known n n'"
    | (begins) "change_of t = None" "change_of t' = Some Bump" "member_ok E vn n'" "nd_router n' = nd_router n" "same_known n n'"
    | (inside) c c' lost where "change_of t = Some c" "change_move E lost c n = (c', n')"
        "change_of t' = (if c' = Over then None else Some c')"
proof (cases t)
  case Send
  then show thesis using assms quiet by (auto simp: same_view_def same_known_def Let_def split: if_splits)
next
  case (Replies ps)
  obtain res mb where r: "record_replies now ps (nd_membership n) = (res, mb)" by force
  have "n' = n\<lparr>nd_membership := mb\<rparr>" "t' = (if res \<noteq> [] then After_Send Bump else Evaluate)"
    using assms(1) r Replies by auto
  then show thesis using quiet begins replies_move [OF r assms(3)] Replies by (cases "res = []") simp_all
next
  case Evaluate
  obtain lost mb where ev: "EvaluateSuspicions (en_peer_order E) now (nd_membership n) = (lost, mb)" by force
  have "n' = n\<lparr>nd_membership := mb\<rparr>" "t' = (if lost \<noteq> [] then After_Eval lost Bump else Send)"
    using assms(1) ev Evaluate by auto
  then show thesis using quiet begins evaluate_move [OF ev assms(3,2)] Evaluate by (cases "lost = []") simp_all
next
  case (Beat p)
  obtain dead where up: "heartbeat_update now p n = (dead, n')" and "t' = (if dead then Handling Bump else Answered)"
    using assms(1) Beat by (auto split: prod.splits)
  then show thesis using quiet begins beat_move [OF up assms(3)] assms(4) Beat by (cases dead) simp_all
next
  case Answered
  then show thesis using assms quiet by (auto simp: same_view_def same_known_def)
qed (use assms(1) inside in \<open>auto split: prod.splits if_splits\<close>)

lemma thread_move_ok: "thread_move E reply now t n = (t', n') \<Longrightarrow> thread_ok mb t'"
  by (cases t) (auto simp: Let_def split: prod.splits if_splits)

text \<open>Counting the threads inside a change.\<close>

lemma one_change:
  assumes "length (filter P (xs[i := x])) \<le> 1" "P x" "i < length xs" "j < length xs" "j \<noteq> i"
  shows "\<not> P (xs ! j)"
proof
  assume "P (xs ! j)"
  let ?S = "{k. k < length (xs[i := x]) \<and> P (xs[i := x] ! k)}"
  have "card ?S \<le> 1" using assms(1) by (simp only: length_filter_conv_card)
  moreover have "i \<in> ?S" "j \<in> ?S" using assms(2-5) \<open>P (xs ! j)\<close> by simp_all
  moreover have "finite ?S" by simp
  ultimately show False using assms(5) by (auto simp: card_le_Suc0_iff_eq)
qed

lemma filter_update_same:
  "i < length xs \<Longrightarrow> \<not> P (xs ! i) \<Longrightarrow> \<not> P x \<Longrightarrow> filter P (xs[i := x]) = filter P xs"
proof (induction xs arbitrary: i)
  case (Cons y ys)
  then show ?case by (cases i) auto
qed simp

lemma view_keeps:
  assumes "same_view n n'"
  shows "ring_in_sync n' = ring_in_sync n" "change_ok c n' = change_ok c n"
  using assms by (simp_all add: same_view_def ring_in_sync_def) (cases c; simp add: same_view_def ring_in_sync_def)

lemma known_keeps: "same_known n n' \<Longrightarrow> thread_ok (nd_membership n') t = thread_ok (nd_membership n) t"
  by (cases t) (simp_all add: same_known_def)

lemma changes_update_None:
  "i < length (ms_threads s) \<Longrightarrow> change_of (ms_threads s ! i) = None \<Longrightarrow> change_of t = None \<Longrightarrow>
    changes (s\<lparr>ms_node := n, ms_threads := (ms_threads s)[i := t]\<rparr>) = changes s"
  by (simp add: changes_def filter_update_same)

lemma calm_invI:
  assumes "member_ok E vn (ms_node s)" "changes s \<le> 1"
    and "\<And>t. t \<in> set (ms_threads s) \<Longrightarrow> thread_ok (nd_membership (ms_node s)) t"
    and "\<And>t c. t \<in> set (ms_threads s) \<Longrightarrow> change_of t = Some c \<Longrightarrow> change_ok c (ms_node s)"
    and "changes s = 0 \<Longrightarrow> ring_in_sync (ms_node s)"
  shows "calm_inv E vn s"
  using assms by (simp add: calm_inv_def)

text \<open>One thread has moved; the others must still stand where they did.\<close>

lemma calm_moved:
  assumes "calm_inv E vn s" "i < length (ms_threads s)" "s' = s\<lparr>ms_node := n, ms_threads := (ms_threads s)[i := t]\<rparr>"
    and "member_ok E vn n" "same_known (ms_node s) n" "\<And>mb. thread_ok mb t"
    and "\<And>c. change_of t = Some c \<Longrightarrow> change_ok c n"
    and "\<And>j c. j < length (ms_threads s) \<Longrightarrow> j \<noteq> i \<Longrightarrow> change_of (ms_threads s ! j) = Some c \<Longrightarrow> change_ok c n"
    and "changes s' \<le> 1" "changes s' = 0 \<Longrightarrow> ring_in_sync n"
  shows "calm_inv E vn s'"
proof (rule calm_invI)
  fix u assume "u \<in> set (ms_threads s')"
  then obtain j where j: "j < length (ms_threads s)" "u = (ms_threads s)[i := t] ! j"
    by (auto simp: assms(3) in_set_conv_nth)
  have "thread_ok (nd_membership (ms_node s)) (ms_threads s ! j)" using assms(1) j(1) by (simp add: calm_inv_def)
  then show "thread_ok (nd_membership (ms_node s')) u"
    using j assms(6) known_keeps [OF assms(5)] by (cases "j = i") (simp_all add: assms(3))
  show "change_ok c (ms_node s')" if "change_of u = Some c" for c
    using that j assms(7,8) by (cases "j = i") (simp_all add: assms(3))
qed (use assms(3,4,9,10) in simp_all)

lemma calm_inv_move:
  assumes "calm_inv E vn s" "en_ok E" "i < length (ms_threads s)"
    and "thread_move E reply now (ms_threads s ! i) (ms_node s) = (t, n)"
    and "s' = s\<lparr>ms_node := n, ms_threads := (ms_threads s)[i := t]\<rparr>" "changes s' \<le> 1"
  shows "calm_inv E vn s'"
proof -
  let ?t = "ms_threads s ! i" and ?P = "\<lambda>t. change_of t \<noteq> None"
  have mem: "?t \<in> set (ms_threads s)" using assms(3) by simp
  have ok: "member_ok E vn (ms_node s)" "changes s \<le> 1" "changes s = 0 \<Longrightarrow> ring_in_sync (ms_node s)"
    "thread_ok (nd_membership (ms_node s)) ?t"
    "\<And>j c. j < length (ms_threads s) \<Longrightarrow> change_of (ms_threads s ! j) = Some c \<Longrightarrow> change_ok c (ms_node s)"
    using assms(1) mem by (auto simp: calm_inv_def)
  have fresh: "thread_ok mb t" for mb by (rule thread_move_ok [OF assms(4)])
  have rest: "change_of t = None" if "changes s' = 0"
    using that assms(3) by (auto simp: changes_def assms(5) filter_empty_conv set_update_memI)
  from assms(4,2) ok(1,4) show ?thesis
  proof (cases rule: thread_move_cases)
    case quiet
    have "changes s' = changes s" unfolding assms(5) by (rule changes_update_None [OF assms(3) quiet(1,2)])
    then show ?thesis
      by (intro calm_moved [OF assms(1,3,5) quiet(3,5) fresh _ _ assms(6)])
        (use quiet(2) ok(3,5) view_keeps [OF quiet(4)] in simp_all)
  next
    case begins
    have "\<not> ?P (ms_threads s ! j)" if "j < length (ms_threads s)" "j \<noteq> i" for j
      using one_change [of ?P "ms_threads s" i t j] begins(2) that assms(3,6) by (simp add: changes_def assms(5))
    then show ?thesis
      by (intro calm_moved [OF assms(1,3,5) begins(3,5) fresh _ _ assms(6)]) (use begins(2) rest in auto)
  next
    case (inside c c' lost)
    note f = change_move_facts [OF inside(2) assms(2) ok(1) ok(5) [OF assms(3) inside(1)]]
    have known: "same_known (ms_node s) n" using f(6) by (simp add: same_known_def)
    have "\<not> ?P (ms_threads s ! j)" if "j < length (ms_threads s)" "j \<noteq> i" for j
      using one_change [of ?P "ms_threads s" i ?t j] inside(1) that assms(3) ok(2) by (simp add: changes_def)
    then show ?thesis
      by (intro calm_moved [OF assms(1,3,5) f(1) known fresh _ _ assms(6)])
        (use inside(3) f(2,3) rest in \<open>auto split: if_splits\<close>)
  qed
qed

lemma calm_inv_step:
  assumes "calm_step E 1 s s'" "en_ok E" "calm_inv E vn s"
  shows "calm_inv E vn s'"
proof -
  have step: "mem_step E s s'" and one: "changes s' \<le> 1" using assms(1) by (simp_all add: calm_step_def)
  from step show ?thesis
  proof cases
    case (move i reply now t n)
    then show ?thesis using calm_inv_move [OF assms(3,2) move(2,3,1) one] by blast
  next
    case (arrive p)
    then show ?thesis using assms(3) one by (auto simp: calm_inv_def changes_def)
  next
    case (other n)
    then have "same_view (ms_node s) n" "same_known (ms_node s) n" "member_ok E vn n"
      using assms(3) by (simp_all add: same_view_def same_known_def member_ok_def calm_inv_def)
    then show ?thesis
      using assms(3) by (auto simp: calm_inv_def changes_def other(1) view_keeps known_keeps)
  qed
qed

lemma calm_inv_run:
  assumes "(calm_step E 1)\<^sup>*\<^sup>* s s'" "en_ok E" "calm_inv E vn s"
  shows "calm_inv E vn s'"
  using assms by (induction rule: rtranclp_induct) (auto intro: calm_inv_step)

subsection \<open>Runs of one thread\<close>

lemma move_at:
  assumes "i < length xs" "length xs \<le> k" "thread_move E reply now (xs ! i) n = (t, n')"
  shows "calm_step E k \<lparr>ms_node = n, ms_threads = xs\<rparr> \<lparr>ms_node = n', ms_threads = xs[i := t]\<rparr>"
  using mem_step.move [of i "\<lparr>ms_node = n, ms_threads = xs\<rparr>" E reply now t n'] assms
    order.trans [OF length_filter_le [of _ "xs[i := t]"]]
  by (simp add: calm_step_def changes_def)

text \<open>A thread that is not interrupted inside a membership change performs \<open>OnMembershipChange\<close>.\<close>

lemma change_run_at:
  fixes f :: "Change \<Rightarrow> Thread"
  assumes "i < length xs" "length xs \<le> k"
    and f: "\<And>c n. thread_move E reply now (f c) n =
      (let (c', n') = change_move E lost c n in (if c' = Over then e else f c', n'))"
  shows "(calm_step E k)\<^sup>*\<^sup>* \<lparr>ms_node = n, ms_threads = xs[i := f Bump]\<rparr>
    \<lparr>ms_node = OnMembershipChange E n lost, ms_threads = xs[i := e]\<rparr>"
proof -
  obtain n1 n2 n3 n4 L where m: "change_move E lost Bump n = (Snapshot, n1)" "change_move E lost Snapshot n1 = (Swap L, n2)"
    "change_move E lost (Swap L) n2 = (Trigger, n3)" "change_move E lost Trigger n3 = (Over, n4)" by simp
  have step: "calm_step E k \<lparr>ms_node = a, ms_threads = xs[i := f c]\<rparr>
      \<lparr>ms_node = b, ms_threads = xs[i := (if c' = Over then e else f c')]\<rparr>" if "change_move E lost c a = (c', b)" for a b c c'
    using move_at [of i "xs[i := f c]" k E reply now a "if c' = Over then e else f c'" b] assms(1,2) f [of c a] that by simp
  have "n4 = OnMembershipChange E n lost" by (rule change_whole [OF m])
  then show ?thesis
    using step [OF m(1)] step [OF m(2)] step [OF m(3)] step [OF m(4)]
    by (simp add: converse_rtranclp_into_rtranclp)
qed

text \<open>The single-step operations of theory \<open>Membership\<close> are such runs.\<close>

lemma beat_run_at:
  assumes "i < length xs" "length xs \<le> k"
  shows "(calm_step E k)\<^sup>*\<^sup>* \<lparr>ms_node = n, ms_threads = xs[i := Beat p]\<rparr>
    \<lparr>ms_node = snd (OnHeartbeat E now n p epoch), ms_threads = xs[i := Answered]\<rparr>"
proof -
  obtain dead n1 where up: "heartbeat_update now p n = (dead, n1)" by force
  have first: "calm_step E k \<lparr>ms_node = n, ms_threads = xs[i := Beat p]\<rparr>
      \<lparr>ms_node = n1, ms_threads = xs[i := (if dead then Handling Bump else Answered)]\<rparr>"
    using move_at [of i "xs[i := Beat p]" k E undefined now n "if dead then Handling Bump else Answered" n1] assms up by simp
  have change: "(calm_step E k)\<^sup>*\<^sup>* \<lparr>ms_node = n1, ms_threads = xs[i := Handling Bump]\<rparr>
      \<lparr>ms_node = OnMembershipChange E n1 [], ms_threads = xs[i := Answered]\<rparr>"
    by (rule change_run_at [OF assms]) simp
  show ?thesis
    unfolding OnHeartbeat_split up using first change
    by (cases dead) (auto intro: converse_rtranclp_into_rtranclp)
qed

lemma send_run:
  "(calm_step E 1)\<^sup>*\<^sup>* \<lparr>ms_node = n, ms_threads = [Send]\<rparr>
    \<lparr>ms_node = SendHeartbeatsToAllPeers E reply now n, ms_threads = [Evaluate]\<rparr>"
proof -
  let ?ps = "filter reply (map fst (heartbeat_targets (en_peer_order E) (nd_membership n)))"
  obtain res mb where r: "record_replies now ?ps (nd_membership n) = (res, mb)" by force
  have first: "calm_step E 1 \<lparr>ms_node = n, ms_threads = [Send]\<rparr>
      \<lparr>ms_node = n, ms_threads = [if ?ps = [] then Evaluate else Replies ?ps]\<rparr>"
    using move_at [of 0 "[Send]" 1 E reply now n] by (simp add: Let_def)
  show ?thesis
  proof (cases "?ps = []")
    case True
    then have "SendHeartbeatsToAllPeers E reply now n = n" by (simp add: SendHeartbeatsToAllPeers_def Let_def)
    then show ?thesis using first True by auto
  next
    case False
    let ?n1 = "n\<lparr>nd_membership := mb\<rparr>"
    have second: "calm_step E 1 \<lparr>ms_node = n, ms_threads = [Replies ?ps]\<rparr>
        \<lparr>ms_node = ?n1, ms_threads = [if res \<noteq> [] then After_Send Bump else Evaluate]\<rparr>"
      using move_at [of 0 "[Replies ?ps]" 1 E reply now n "if res \<noteq> [] then After_Send Bump else Evaluate" ?n1] r by simp
    have change: "(calm_step E 1)\<^sup>*\<^sup>* \<lparr>ms_node = ?n1, ms_threads = [After_Send Bump]\<rparr>
        \<lparr>ms_node = OnMembershipChange E ?n1 [], ms_threads = [Evaluate]\<rparr>"
      using change_run_at [of 0 "[Evaluate]" 1 E reply now After_Send "[]" Evaluate ?n1] by simp
    have eq: "SendHeartbeatsToAllPeers E reply now n = (if res \<noteq> [] then OnMembershipChange E ?n1 [] else ?n1)"
      using False r by (auto simp: SendHeartbeatsToAllPeers_def Let_def)
    have "(calm_step E 1)\<^sup>*\<^sup>* \<lparr>ms_node = ?n1, ms_threads = [if res \<noteq> [] then After_Send Bump else Evaluate]\<rparr>
        \<lparr>ms_node = SendHeartbeatsToAllPeers E reply now n, ms_threads = [Evaluate]\<rparr>"
      using change unfolding eq by (cases "res = []") simp_all
    then show ?thesis
      using first second False by (auto intro: converse_rtranclp_into_rtranclp)
  qed
qed

lemma tick_run:
  "(calm_step E 1)\<^sup>*\<^sup>* \<lparr>ms_node = n, ms_threads = [Send]\<rparr>
    \<lparr>ms_node = heartbeat_tick E reply now now' n, ms_threads = [Send]\<rparr>"
proof -
  let ?n1 = "SendHeartbeatsToAllPeers E reply now n"
  obtain lost mb where ev: "EvaluateSuspicions (en_peer_order E) now' (nd_membership ?n1) = (lost, mb)" by force
  let ?n2 = "?n1\<lparr>nd_membership := mb\<rparr>"
  have eval: "calm_step E 1 \<lparr>ms_node = ?n1, ms_threads = [Evaluate]\<rparr>
      \<lparr>ms_node = ?n2, ms_threads = [if lost \<noteq> [] then After_Eval lost Bump else Send]\<rparr>"
    using move_at [of 0 "[Evaluate]" 1 E reply now' ?n1 "if lost \<noteq> [] then After_Eval lost Bump else Send" ?n2] ev by simp
  have change: "(calm_step E 1)\<^sup>*\<^sup>* \<lparr>ms_node = ?n2, ms_threads = [After_Eval lost Bump]\<rparr>
      \<lparr>ms_node = OnMembershipChange E ?n2 lost, ms_threads = [Send]\<rparr>"
    using change_run_at [of 0 "[Send]" 1 E reply now "After_Eval lost" lost Send ?n2] by simp
  have eq: "heartbeat_tick E reply now now' n = (if lost \<noteq> [] then OnMembershipChange E ?n2 lost else ?n2)"
    using ev by (simp add: heartbeat_tick_def Let_def)
  have "(calm_step E 1)\<^sup>*\<^sup>* \<lparr>ms_node = ?n2, ms_threads = [if lost \<noteq> [] then After_Eval lost Bump else Send]\<rparr>
      \<lparr>ms_node = heartbeat_tick E reply now now' n, ms_threads = [Send]\<rparr>"
    using change unfolding eq by (cases "lost = []") simp_all
  then show ?thesis
    using rtranclp_trans [OF send_run converse_rtranclp_into_rtranclp [of "calm_step E 1", OF eval]] by blast
qed

subsection \<open>Two overlapping changes\<close>

text \<open>Between changes neither the ring nor the set of living peers moves.\<close>

lemma settled_step:
  assumes "calm_step E 0 s s'" "en_ok E" "settled E vn s"
  shows "settled E vn s' \<and> same_view (ms_node s) (ms_node s')"
proof -
  have step: "mem_step E s s'" and none: "changes s' = 0" using assms(1) by (simp_all add: calm_step_def)
  have ok: "member_ok E vn (ms_node s)" "\<And>t. t \<in> set (ms_threads s) \<Longrightarrow> change_of t = None"
    "\<And>t. t \<in> set (ms_threads s) \<Longrightarrow> thread_ok (nd_membership (ms_node s)) t"
    using assms(3) by (auto simp: settled_def changes_def filter_empty_conv)
  from step show ?thesis
  proof cases
    case (move i reply now t n)
    have mem: "ms_threads s ! i \<in> set (ms_threads s)" using move(2) by simp
    have t: "change_of t = None" using none move(2) by (auto simp: changes_def move(1) filter_empty_conv set_update_memI)
    from move(3) assms(2) ok(1) ok(3) [OF mem] show ?thesis
    proof (cases rule: thread_move_cases)
      case quiet
      have "thread_ok (nd_membership n) u" if "u \<in> set ((ms_threads s)[i := t])" for u
        using that set_update_subset_insert [of "ms_threads s" i t] thread_move_ok [OF move(3)] ok(3)
          known_keeps [OF quiet(5)] by auto
      then show ?thesis using quiet(3,4) none by (simp add: settled_def move(1))
    qed (use t ok(2) [OF mem] in simp_all)
  next
    case (arrive p)
    then show ?thesis using assms(3) none by (auto simp: settled_def same_view_def)
  next
    case (other n)
    then have "same_known (ms_node s) n" "member_ok E vn n" using ok(1) by (simp_all add: same_known_def member_ok_def)
    then show ?thesis using assms(3) none other by (auto simp: settled_def same_view_def known_keeps)
  qed
qed

lemma settled_run:
  assumes "(calm_step E 0)\<^sup>*\<^sup>* s s'" "en_ok E" "settled E vn s"
  shows "settled E vn s' \<and> same_view (ms_node s) (ms_node s')"
  using assms
proof (induction rule: rtranclp_induct)
  case (step y z)
  then show ?case using settled_step [OF step(2)] by (auto simp: same_view_def)
qed (simp add: same_view_def)

lemma OnHeartbeat_revives:
  fixes n :: Member_Node
  assumes "umap_find (mb_peers (nd_membership n)) p = Some info" "mb_inv (nd_membership n)"
    and "n' = snd (OnHeartbeat E now n p epoch)"
  shows "mb_inv (nd_membership n')" "mb_router (nd_membership n') = mb_router (nd_membership n)"
    "p \<in> alive_set (nd_membership n')" "rt_vnodes_per_peer (nd_router n') = rt_vnodes_per_peer (nd_router n)"
proof -
  obtain dead n1 where up: "heartbeat_update now p n = (dead, n1)" by force
  note h = heartbeat_update_known [OF assms(1,2) up]
  have n': "n' = (if dead then OnMembershipChange E n1 [] else n1)" using assms(3) up by (simp add: OnHeartbeat_split)
  have "rt_vnodes_per_peer (nd_router (OnMembershipChange E n1 [])) = rt_vnodes_per_peer (nd_router n1)"
    by (simp add: OnMembershipChange_def Let_def)
  then show "mb_inv (nd_membership n')" "mb_router (nd_membership n') = mb_router (nd_membership n)"
    "p \<in> alive_set (nd_membership n')" "rt_vnodes_per_peer (nd_router n') = rt_vnodes_per_peer (nd_router n)"
    using h(2-4,6) by (auto simp: n' OnMembershipChange_effect mb_inv_def alive_set_def)
qed

text \<open>The race: the heartbeat thread has copied the list when the handler runs.\<close>

lemma race_path:
  assumes "EvaluateSuspicions (en_peer_order E) now (nd_membership n) = (lost, mb)" "lost \<noteq> []"
    and "n2 = n\<lparr>nd_membership := mb\<lparr>mb_epoch := mb_epoch mb + 1\<rparr>\<rparr>" "L = alive_ids (en_peer_order E) (nd_membership n2)"
    and "umap_find (mb_peers (nd_membership n2)) p \<noteq> None" "n3 = snd (OnHeartbeat E 0 n2 p 0)" "mb_router (nd_membership n3)"
    and "n4 = n3\<lparr>nd_router := SetPeers (en_sort E) (en_blake3 E) (nd_router n3) L\<rparr>" "n5 = snd (change_move E lost Trigger n4)"
  shows "(calm_step E 2)\<^sup>*\<^sup>* \<lparr>ms_node = n, ms_threads = [Send]\<rparr> \<lparr>ms_node = n5, ms_threads = [Send, Answered]\<rparr>"
proof -
  let ?S = "\<lambda>a ts. \<lparr>ms_node = a, ms_threads = ts\<rparr>"
  have m1: "calm_step E 2 (?S n [Send]) (?S n [Evaluate])"
    using move_at [of 0 "[Send]" 2 E "\<lambda>_. False" now n] by simp
  have m2: "calm_step E 2 (?S n [Evaluate]) (?S (n\<lparr>nd_membership := mb\<rparr>) [After_Eval lost Bump])"
    using move_at [of 0 "[Evaluate]" 2 E "\<lambda>_. False" now n "After_Eval lost Bump"] assms(1,2) by simp
  have m3: "calm_step E 2 (?S (n\<lparr>nd_membership := mb\<rparr>) [After_Eval lost Bump]) (?S n2 [After_Eval lost Snapshot])"
    using move_at [of 0 "[After_Eval lost Bump]" 2 E "\<lambda>_. False" now "n\<lparr>nd_membership := mb\<rparr>" "After_Eval lost Snapshot" n2]
    by (simp add: assms(3))
  have m4: "calm_step E 2 (?S n2 [After_Eval lost Snapshot]) (?S n2 [After_Eval lost (Swap L)])"
    using move_at [of 0 "[After_Eval lost Snapshot]" 2 E "\<lambda>_. False" now n2 "After_Eval lost (Swap L)" n2] by (simp add: assms(4))
  have m5: "calm_step E 2 (?S n2 [After_Eval lost (Swap L)]) (?S n2 [After_Eval lost (Swap L), Beat p])"
    using mem_step.arrive [of "?S n2 [After_Eval lost (Swap L)]" p E] assms(5) by (simp add: calm_step_def changes_def)
  have m6: "(calm_step E 2)\<^sup>*\<^sup>* (?S n2 [After_Eval lost (Swap L), Beat p]) (?S n3 [After_Eval lost (Swap L), Answered])"
    using beat_run_at [of 1 "[After_Eval lost (Swap L), Answered]" 2 E n2 p 0 0] by (simp add: assms(6))
  have m7: "calm_step E 2 (?S n3 [After_Eval lost (Swap L), Answered]) (?S n4 [After_Eval lost Trigger, Answered])"
    using move_at [of 0 "[After_Eval lost (Swap L), Answered]" 2 E "\<lambda>_. False" now n3 "After_Eval lost Trigger" n4] assms(7)
    by (simp add: assms(8))
  have m8: "calm_step E 2 (?S n4 [After_Eval lost Trigger, Answered]) (?S n5 [Send, Answered])"
    using move_at [of 0 "[After_Eval lost Trigger, Answered]" 2 E "\<lambda>_. False" now n4 Send n5] by (simp add: assms(9))
  show "(calm_step E 2)\<^sup>*\<^sup>* (?S n [Send]) (?S n5 [Send, Answered])"
    using m1 m2 m3 m4 m5 m6 m7 m8
    by (meson converse_rtranclp_into_rtranclp rtranclp.rtrancl_into_rtrancl)
qed

lemma race_run:
  assumes "en_ok E" "mb_inv (nd_membership n)" "mb_router (nd_membership n)"
    and "umap_find (mb_peers (nd_membership n)) p = Some info" "\<not> pi_alive info"
    and "fst (EvaluateSuspicions (en_peer_order E) now (nd_membership n)) \<noteq> []"
  obtains n' where "(calm_step E 2)\<^sup>*\<^sup>* \<lparr>ms_node = n, ms_threads = [Send]\<rparr> \<lparr>ms_node = n', ms_threads = [Send, Answered]\<rparr>"
    "member_ok E (rt_vnodes_per_peer (nd_router n)) n'" "p \<in> alive_set (nd_membership n')" "p \<notin> set (rt_peers (nd_router n'))"
proof -
  have ord: "order_ok (en_peer_order E)" using assms(1) by (simp add: en_ok_def)
  obtain lost mb where ev: "EvaluateSuspicions (en_peer_order E) now (nd_membership n) = (lost, mb)" by force
  have lost: "lost \<noteq> []" using assms(6) ev by simp
  define n2 where "n2 = n\<lparr>nd_membership := mb\<lparr>mb_epoch := mb_epoch mb + 1\<rparr>\<rparr>"
  define L where "L = alive_ids (en_peer_order E) (nd_membership n2)"
  define n3 where "n3 = snd (OnHeartbeat E 0 n2 p 0)"
  define n4 where "n4 = n3\<lparr>nd_router := SetPeers (en_sort E) (en_blake3 E) (nd_router n3) L\<rparr>"
  define n5 where "n5 = snd (change_move E lost Trigger n4)"
  have mb: "mb_inv mb" "mb_router mb" "mb_local_node_id mb = mb_local_node_id (nd_membership n)"
    "alive_set mb \<subseteq> alive_set (nd_membership n)" "\<exists>i. umap_find (mb_peers mb) p = Some i"
    using EvaluateSuspicions_inv [OF assms(2), of "en_peer_order E" now] assms(3,4)
      EvaluateSuspicions_rest [of "en_peer_order E" now "nd_membership n"]
      EvaluateSuspicions_alive [OF ord assms(2), of now] EvaluateSuspicions_find [of "en_peer_order E" now "nd_membership n" p] ev
    by auto
  obtain i where i: "umap_find (mb_peers (nd_membership n2)) p = Some i" using mb(5) by (auto simp: n2_def)
  have inv2: "mb_inv (nd_membership n2)" using mb(1) by (simp add: n2_def mb_inv_def)
  have "p \<notin> alive_set mb" using mb(4) assms(4,5) by (auto simp: alive_set_def)
  moreover have "p \<noteq> mb_local_node_id (nd_membership n2)" using i inv2 by (auto simp: mb_inv_def)
  ultimately have pL: "p \<notin> set L" unfolding L_def set_alive_ids [OF ord inv2] by (simp add: n2_def alive_set_def)
  note h = OnHeartbeat_revives [OF i inv2 n3_def]
  have n5: "nd_router n5 = nd_router n4" "nd_membership n5 = nd_membership n3" by (simp_all add: n5_def n4_def)
  show thesis
  proof (rule that [of n5])
    show "member_ok E (rt_vnodes_per_peer (nd_router n)) n5"
      using h(1,2,4) mb(2) by (simp add: member_ok_def n5 n4_def SetPeers_built) (simp add: n2_def)
    show "p \<in> alive_set (nd_membership n5)" "p \<notin> set (rt_peers (nd_router n5))"
      using h(3) pL by (simp_all add: n5 n4_def)
    show "(calm_step E 2)\<^sup>*\<^sup>* \<lparr>ms_node = n, ms_threads = [Send]\<rparr> \<lparr>ms_node = n5, ms_threads = [Send, Answered]\<rparr>"
      by (rule race_path [OF ev lost n2_def L_def _ n3_def _ n4_def n5_def]) (use i h(2) mb(2) in \<open>simp_all add: n2_def\<close>)
  qed
qed

section \<open>Properties\<close>

text \<open>
  C3. The ring follows the failure detector as long as no two membership changes overlap.  From a member whose
  ring is over itself and its seeds, take any interleaving of the heartbeat thread and of handlers of
  heartbeats from known peers in which at no time two threads are inside \<open>OnMembershipChange\<close>.  Whenever no thread
  is inside one, the router lists without repetition exactly the local node and the peers believed alive, and
  its ring, sorted by position, holds exactly the virtual nodes of those.
\<close>

theorem ring_tracks_alive:
  assumes "en_ok E" "distinct (map sp_node_id seeds)" "local \<notin> set (map sp_node_id seeds)"
    and "nd_membership n = membership_new now cfg local seeds True replicator"
    and "nd_router n = SetPeers (en_sort E) (en_blake3 E) rt (local # map sp_node_id seeds)"
    and "(calm_step E 1)\<^sup>*\<^sup>* \<lparr>ms_node = n, ms_threads = [Send]\<rparr> s" "changes s = 0"
    and "P = insert (mb_local_node_id (nd_membership (ms_node s))) (alive_set (nd_membership (ms_node s)))"
  shows "distinct (rt_peers (nd_router (ms_node s))) \<and> set (rt_peers (nd_router (ms_node s))) = P \<and>
    set (named_ring (nd_router (ms_node s))) =
      {(HashVirtualNode (en_blake3 E) p vn, p) | p vn. p \<in> P \<and> vn < unat (rt_vnodes_per_peer rt)} \<and>
    sorted (map fst (named_ring (nd_router (ms_node s))))"
proof -
  let ?rt = "nd_router (ms_node s)"
  have srt: "sort_ok (en_sort E)" using assms(1) by (simp add: en_ok_def)
  have mb: "mb_router (nd_membership n)" "mb_local_node_id (nd_membership n) = local"
    using assms(4) by (simp_all add: membership_new_def)
  have "calm_inv E (rt_vnodes_per_peer rt) \<lparr>ms_node = n, ms_threads = [Send]\<rparr>"
    using membership_new_peers [OF assms(2,3), of now cfg True replicator] assms(2-5) mb
    by (auto simp: calm_inv_def member_ok_def changes_def ring_in_sync_def SetPeers_built)
  from calm_inv_run [OF assms(6,1) this] have inv: "ring_built E ?rt" "rt_vnodes_per_peer ?rt = rt_vnodes_per_peer rt" "ring_in_sync (ms_node s)"
    using assms(7) by (simp_all add: calm_inv_def member_ok_def)
  have built: "SetPeers (en_sort E) (en_blake3 E) ?rt (rt_peers ?rt) = ?rt" using inv(1) by (simp add: ring_built_def)
  have sync: "distinct (rt_peers ?rt)" "set (rt_peers ?rt) = P" using inv(3) assms(8) by (simp_all add: ring_in_sync_def)
  have "map fst (named_ring ?rt) = map re_hash (rt_ring ?rt)" by (simp add: named_ring_def)
  then have "sorted (map fst (named_ring ?rt))" using SetPeers_ring(2) [OF srt, of "en_blake3 E" ?rt "rt_peers ?rt"] built by simp
  then show ?thesis
    using set_named_ring [OF srt, of "en_blake3 E" ?rt "rt_peers ?rt"] built sync inv(2) by simp
qed

theorem ring_tracks_alive_witness:
  "let n = heartbeat_tick sample_env (\<lambda>_. True) 100 101 sample_member
   in set (named_ring (nd_router n)) = {(HashVirtualNode sample_digest p vn, p) | p vn.
        p \<in> insert ''a'' (alive_set (nd_membership n)) \<and> vn < unat (rt_vnodes_per_peer (sample_router ''a'' 2))}"
proof -
  have local: "mb_local_node_id (nd_membership (heartbeat_tick sample_env (\<lambda>_. True) 100 101 sample_member)) = ''a''"
    by (simp add: heartbeat_tick_def SendHeartbeatsToAllPeers_def sample_member_def membership_new_def sample_env_def
        heartbeat_targets_def umap_iter_def umap_emplace_def default_peer_def EvaluateSuspicions_def judge_def mark_seen_def
        default_config_def Let_def OnMembershipChange_effect)
  show ?thesis
    using ring_tracks_alive [OF sample_env_ok _ _ _ _ tick_run [of sample_env sample_member "\<lambda>_. True" 100 101] _ refl,
        of "[\<lparr>sp_node_id = ''b'', sp_address = ''h:1''\<rparr>]" "''a''" 0 default_config True "sample_router ''a'' 2"] local
    by (simp add: sample_member_def sample_env_def changes_def Let_def)
qed

text \<open>
  When two membership changes overlap, the ring can stay wrong.  On a member whose detector is about to declare a peer
  dead, let a heartbeat arrive from another peer that was dead after the heartbeat thread has copied the list of living
  peers and before it calls \<open>SetPeers\<close>.  The handler records the peer as alive and rebuilds the ring with it;
  then the heartbeat thread installs its older list.  With all threads out of their changes the peer is believed alive
  and is not on the ring, and so it stays, whatever the threads do, until the next membership change.
\<close>

theorem ring_goes_stale:
  assumes "en_ok E" "mb_inv (nd_membership n)" "mb_router (nd_membership n)"
    and "umap_find (mb_peers (nd_membership n)) p = Some info" "\<not> pi_alive info"
    and "fst (EvaluateSuspicions (en_peer_order E) now (nd_membership n)) \<noteq> []"
  shows "\<exists>s. (mem_step E)\<^sup>*\<^sup>* \<lparr>ms_node = n, ms_threads = [Send]\<rparr> s \<and> changes s = 0 \<and>
    (\<forall>s'. (calm_step E 0)\<^sup>*\<^sup>* s s' \<longrightarrow>
      p \<in> alive_set (nd_membership (ms_node s')) \<and> p \<notin> set (rt_peers (nd_router (ms_node s'))))"
proof -
  obtain n' where race: "(calm_step E 2)\<^sup>*\<^sup>* \<lparr>ms_node = n, ms_threads = [Send]\<rparr> \<lparr>ms_node = n', ms_threads = [Send, Answered]\<rparr>"
    "member_ok E (rt_vnodes_per_peer (nd_router n)) n'" "p \<in> alive_set (nd_membership n')" "p \<notin> set (rt_peers (nd_router n'))"
    using race_run [OF assms] .
  let ?s = "\<lparr>ms_node = n', ms_threads = [Send, Answered]\<rparr>"
  have rest: "settled E (rt_vnodes_per_peer (nd_router n)) ?s" using race(2) by (simp add: settled_def changes_def)
  have "(mem_step E)\<^sup>*\<^sup>* \<lparr>ms_node = n, ms_threads = [Send]\<rparr> ?s"
    by (rule rtranclp_mono [THEN predicate2D, OF _ race(1)]) (auto simp: calm_step_def)
  moreover have "p \<in> alive_set (nd_membership (ms_node s')) \<and> p \<notin> set (rt_peers (nd_router (ms_node s')))"
    if "(calm_step E 0)\<^sup>*\<^sup>* ?s s'" for s'
    using settled_run [OF that assms(1) rest] race(3,4) by (auto simp: same_view_def)
  ultimately show ?thesis by (intro exI [of _ ?s]) (auto simp: changes_def)
qed

theorem ring_goes_stale_witness:
  "\<exists>s. (mem_step sample_env)\<^sup>*\<^sup>* \<lparr>ms_node = sample_race, ms_threads = [Send]\<rparr> s \<and> changes s = 0 \<and>
     ''b'' \<in> alive_set (nd_membership (ms_node s)) \<and> ''b'' \<notin> set (rt_peers (nd_router (ms_node s)))"
proof -
  let ?b = "default_peer\<lparr>pi_node_id := ''b'', pi_alive := False, pi_ever_seen := True\<rparr>"
  have mb: "mb_inv (nd_membership sample_race)" "mb_router (nd_membership sample_race)"
    "umap_find (mb_peers (nd_membership sample_race)) ''b'' = Some ?b" "\<not> pi_alive ?b"
    by (auto simp: sample_race_def sample_dead_def sample_member_def membership_new_def mb_inv_def umap_ok_def default_peer_def
        split: if_splits)
  have "fst (EvaluateSuspicions (en_peer_order sample_env) 9000 (nd_membership sample_race)) \<noteq> []"
    by (simp add: sample_race_def sample_dead_def sample_member_def membership_new_def sample_env_def EvaluateSuspicions_def
        umap_iter_def judge_def default_peer_def default_config_def Let_def)
  from ring_goes_stale [OF sample_env_ok mb this] show ?thesis by blast
qed

end
