(* ===== verification/Metrics.thy ===== *)
theory Metrics
  imports Complex_Main Std_String
begin

text \<open>
  The metrics exporter \<open>cache_server/src/metrics.cpp\<close>: counters, gauges and histograms, the calls
  that record into them, the text that a scrape returns and the socket that serves it.  The
  type of floating-point numbers is a parameter \<open>'d\<close>, a linear order, with the conversions that
  the code applies to it as the record \<open>Fp\<close>.
\<close>

section \<open>Definitions\<close>

subsection \<open>Floating-point numbers\<close>

text \<open>
  The value of a literal, of a number of nanoseconds or milliseconds in seconds, the
  microseconds of a number of seconds and back, and the text an output stream prints.
\<close>

record 'd Fp =
  fp_lit :: "rat \<Rightarrow> 'd"
  fp_ns :: "int \<Rightarrow> 'd"
  fp_ms :: "int \<Rightarrow> 'd"
  fp_micros :: "'d \<Rightarrow> u64"
  fp_sum :: "u64 \<Rightarrow> 'd"
  fp_show :: "'d \<Rightarrow> string"

definition kLatencyBounds :: "'d Fp \<Rightarrow> 'd list" where
  "kLatencyBounds F = map (fp_lit F)
     [1 / 20000, 1 / 10000, 1 / 2000, 1 / 1000, 1 / 200, 1 / 100, 1 / 20, 1 / 10]"

definition kRecoveryBounds :: "'d Fp \<Rightarrow> 'd list" where
  "kRecoveryBounds F = map (fp_lit F) [1 / 2, 1, 2, 3, 7 / 2, 4, 5, 8]"

subsection \<open>Histograms\<close>

record 'd Histogram =
  hg_bounds :: "'d list"
  hg_buckets :: "u64 list"
  hg_count :: u64
  hg_sum_micros :: u64

definition histogram_new :: "'d list \<Rightarrow> 'd Histogram" where
  "histogram_new b = \<lparr>hg_bounds = b, hg_buckets = replicate 9 0, hg_count = 0, hg_sum_micros = 0\<rparr>"

function bucket_index :: "('d :: linorder) list \<Rightarrow> 'd \<Rightarrow> nat \<Rightarrow> nat" where
  "bucket_index bounds sec i =
     (if i < length bounds \<and> sec > bounds ! i then bucket_index bounds sec (i + 1) else i)"
  by pat_completeness auto
termination by (relation "measure (\<lambda>(bounds, sec, i). length bounds - i)") auto

definition observe_seconds :: "'d Fp \<Rightarrow> ('d :: linorder) \<Rightarrow> 'd Histogram \<Rightarrow> 'd Histogram" where
  "observe_seconds F sec h =
     (let i = bucket_index (hg_bounds h) sec 0
      in h\<lparr>hg_buckets := (hg_buckets h)[i := hg_buckets h ! i + 1], hg_count := hg_count h + 1,
           hg_sum_micros := hg_sum_micros h + fp_micros F sec\<rparr>)"

text \<open>The cumulative counts that \<open>render_histogram\<close> prints, the last one for the bound \<open>+Inf\<close>.\<close>

fun cumulate :: "u64 \<Rightarrow> u64 list \<Rightarrow> u64 list" where
  "cumulate cum [] = []"
| "cumulate cum (b # bs) = (cum + b) # cumulate (cum + b) bs"

subsection \<open>Text\<close>

definition line :: "string \<Rightarrow> string" where
  "line s = s @ [CHR 0x0A]"

definition show_u64 :: "u64 \<Rightarrow> string" where
  "show_u64 v = to_string (unat v)"

text \<open>A gauge is a signed 64-bit number, kept as its word.\<close>

definition show_ll :: "u64 \<Rightarrow> string" where
  "show_ll v = (if sint v < 0 then CHR ''-'' # to_string (nat (- sint v)) else to_string (nat (sint v)))"

definition quoted :: "string \<Rightarrow> string \<Rightarrow> string" where
  "quoted key v = key @ [CHR ''='', CHR 0x22] @ v @ [CHR 0x22]"

definition series :: "string \<Rightarrow> string \<Rightarrow> string \<Rightarrow> string" where
  "series name labels v = line (name @ labels @ '' '' @ v)"

definition family_head :: "string \<Rightarrow> string \<Rightarrow> string \<Rightarrow> string" where
  "family_head name help kind = line (''# HELP '' @ name @ '' '' @ help) @ line (''# TYPE '' @ name @ '' '' @ kind)"

definition render_counter :: "string \<Rightarrow> string \<Rightarrow> string \<Rightarrow> u64 \<Rightarrow> string" where
  "render_counter name help labels v = family_head name help ''counter'' @ series name labels (show_u64 v)"

definition render_gauge :: "string \<Rightarrow> string \<Rightarrow> string \<Rightarrow> u64 \<Rightarrow> string" where
  "render_gauge name help labels v = family_head name help ''gauge'' @ series name labels (show_ll v)"

definition braced :: "string \<Rightarrow> string" where
  "braced s = ''{'' @ s @ ''}''"

definition render_histogram :: "'d Fp \<Rightarrow> string \<Rightarrow> string \<Rightarrow> 'd Histogram \<Rightarrow> string" where
  "render_histogram F family op_label h =
     (let sep = (if op_label = [] then [] else '','');
          les = map (fp_show F) (hg_bounds h) @ [''+Inf'']
      in concat (map2 (\<lambda>le cum. series (family @ ''_bucket'') (braced (op_label @ sep @ quoted ''le'' le)) (show_u64 cum))
           les (cumulate 0 (hg_buckets h))) @
         series (family @ ''_sum'') (braced op_label) (fp_show F (fp_sum F (hg_sum_micros h))) @
         series (family @ ''_count'') (braced op_label) (show_u64 (hg_count h)))"

definition tier_index :: "Tier \<Rightarrow> nat" where
  "tier_index t = (case t of HBM \<Rightarrow> 0 | DRAM \<Rightarrow> 1 | SSD \<Rightarrow> 2)"

definition tier_name :: "nat \<Rightarrow> string" where
  "tier_name i = (if i = 0 then ''hbm'' else if i = 1 then ''dram'' else ''ssd'')"

subsection \<open>The exporter\<close>

text \<open>Gauges are signed 64-bit numbers, kept as words.\<close>

record 'd Metrics =
  mt_node_id :: string
  mt_bind_address :: string
  mt_req_lookup_hit :: u64
  mt_req_lookup_miss :: u64
  mt_req_insert_ok :: u64
  mt_req_stream_ok :: u64
  mt_stream_bytes_total :: u64
  mt_eviction_blocks_total :: u64
  mt_eviction_bytes_freed_total :: u64
  mt_cluster_epoch :: u64
  mt_tier_used :: "u64 list"
  mt_tier_capacity :: "u64 list"
  mt_replicas_under_target :: u64
  mt_lat_lookup :: "'d Histogram"
  mt_lat_insert :: "'d Histogram"
  mt_lat_stream :: "'d Histogram"
  mt_failover_recovery :: "'d Histogram"
  mt_running :: bool
  mt_listen_fd :: int

text \<open>The port of the endpoint; an exception of \<open>stoi\<close> falls back to the default.\<close>

definition metrics_port :: "string \<Rightarrow> u16" where
  "metrics_port bind_address =
     (case rfind_char CHR '':'' bind_address of
        None \<Rightarrow> 9090
      | Some colon \<Rightarrow> (case stoi (drop (colon + 1) bind_address) of None \<Rightarrow> 9090 | Some p \<Rightarrow> word_of_int p))"

definition metrics_new :: "'d Fp \<Rightarrow> string \<Rightarrow> string \<Rightarrow> 'd Metrics" where
  "metrics_new F bind_address node_id =
     \<lparr>mt_node_id = node_id, mt_bind_address = bind_address, mt_req_lookup_hit = 0, mt_req_lookup_miss = 0,
      mt_req_insert_ok = 0, mt_req_stream_ok = 0, mt_stream_bytes_total = 0, mt_eviction_blocks_total = 0,
      mt_eviction_bytes_freed_total = 0, mt_cluster_epoch = 0, mt_tier_used = [0, 0, 0], mt_tier_capacity = [0, 0, 0],
      mt_replicas_under_target = 0, mt_lat_lookup = histogram_new (kLatencyBounds F), mt_lat_insert = histogram_new (kLatencyBounds F),
      mt_lat_stream = histogram_new (kLatencyBounds F), mt_failover_recovery = histogram_new (kRecoveryBounds F),
      mt_running = True, mt_listen_fd = - 1\<rparr>"

text \<open>The recording calls, with latencies in nanoseconds and recovery times in milliseconds.\<close>

definition RecordLookup :: "'d Fp \<Rightarrow> size_t \<Rightarrow> size_t \<Rightarrow> int \<Rightarrow> ('d :: linorder) Metrics \<Rightarrow> 'd Metrics" where
  "RecordLookup F hits misses latency m =
     m\<lparr>mt_req_lookup_hit := mt_req_lookup_hit m + of_nat hits, mt_req_lookup_miss := mt_req_lookup_miss m + of_nat misses,
       mt_lat_lookup := observe_seconds F (fp_ns F latency) (mt_lat_lookup m)\<rparr>"

definition RecordInsert :: "'d Fp \<Rightarrow> size_t \<Rightarrow> int \<Rightarrow> ('d :: linorder) Metrics \<Rightarrow> 'd Metrics" where
  "RecordInsert F accepted latency m =
     m\<lparr>mt_req_insert_ok := mt_req_insert_ok m + of_nat accepted,
       mt_lat_insert := observe_seconds F (fp_ns F latency) (mt_lat_insert m)\<rparr>"

definition RecordStreamBytes :: "'d Fp \<Rightarrow> u64 \<Rightarrow> int \<Rightarrow> ('d :: linorder) Metrics \<Rightarrow> 'd Metrics" where
  "RecordStreamBytes F bytes latency m =
     m\<lparr>mt_req_stream_ok := mt_req_stream_ok m + 1, mt_stream_bytes_total := mt_stream_bytes_total m + bytes,
       mt_lat_stream := observe_seconds F (fp_ns F latency) (mt_lat_stream m)\<rparr>"

definition RecordTierUsage :: "Tier \<Rightarrow> size_t \<Rightarrow> size_t \<Rightarrow> 'd Metrics \<Rightarrow> 'd Metrics" where
  "RecordTierUsage tier used_bytes capacity m =
     (let i = tier_index tier
      in m\<lparr>mt_tier_used := (mt_tier_used m)[i := of_nat used_bytes],
           mt_tier_capacity := (mt_tier_capacity m)[i := of_nat capacity]\<rparr>)"

definition RecordEpoch :: "u64 \<Rightarrow> 'd Metrics \<Rightarrow> 'd Metrics" where
  "RecordEpoch epoch m = m\<lparr>mt_cluster_epoch := epoch\<rparr>"

definition RecordEvictionPass :: "size_t \<Rightarrow> size_t \<Rightarrow> 'd Metrics \<Rightarrow> 'd Metrics" where
  "RecordEvictionPass blocks_evicted bytes_freed m =
     m\<lparr>mt_eviction_blocks_total := mt_eviction_blocks_total m + of_nat blocks_evicted,
       mt_eviction_bytes_freed_total := mt_eviction_bytes_freed_total m + of_nat bytes_freed\<rparr>"

definition RecordFailoverRecovery :: "'d Fp \<Rightarrow> int \<Rightarrow> ('d :: linorder) Metrics \<Rightarrow> 'd Metrics" where
  "RecordFailoverRecovery F duration m =
     m\<lparr>mt_failover_recovery := observe_seconds F (fp_ms F duration) (mt_failover_recovery m)\<rparr>"

definition RecordUnderReplicated :: "size_t \<Rightarrow> 'd Metrics \<Rightarrow> 'd Metrics" where
  "RecordUnderReplicated cnt m = m\<lparr>mt_replicas_under_target := of_nat cnt\<rparr>"

text \<open>The calls as events, in the order in which they reach the exporter.\<close>

datatype Metric_Event =
  Ev_Lookup size_t size_t int
| Ev_Insert size_t int
| Ev_Stream u64 int
| Ev_Tier Tier size_t size_t
| Ev_Epoch u64
| Ev_Pass size_t size_t
| Ev_Recovery int
| Ev_Under size_t

fun record_event :: "'d Fp \<Rightarrow> Metric_Event \<Rightarrow> ('d :: linorder) Metrics \<Rightarrow> 'd Metrics" where
  "record_event F (Ev_Lookup hits misses l) m = RecordLookup F hits misses l m"
| "record_event F (Ev_Insert accepted l) m = RecordInsert F accepted l m"
| "record_event F (Ev_Stream bytes l) m = RecordStreamBytes F bytes l m"
| "record_event F (Ev_Tier t used cap) m = RecordTierUsage t used cap m"
| "record_event F (Ev_Epoch e) m = RecordEpoch e m"
| "record_event F (Ev_Pass blocks bytes) m = RecordEvictionPass blocks bytes m"
| "record_event F (Ev_Recovery d) m = RecordFailoverRecovery F d m"
| "record_event F (Ev_Under n) m = RecordUnderReplicated n m"

subsection \<open>The exposition\<close>

definition inst_label :: "'d Metrics \<Rightarrow> string" where
  "inst_label m = quoted ''node'' (mt_node_id m)"

definition render_requests :: "'d Metrics \<Rightarrow> string" where
  "render_requests m =
     (let row = (\<lambda>opn res. series ''lethe_requests_total''
            (braced (inst_label m @ '','' @ quoted ''op'' opn @ '','' @ quoted ''result'' res)))
      in family_head ''lethe_requests_total'' ''Cache requests by op and result'' ''counter'' @
         row ''lookup'' ''hit'' (show_u64 (mt_req_lookup_hit m)) @
         row ''lookup'' ''miss'' (show_u64 (mt_req_lookup_miss m)) @
         row ''insert'' ''ok'' (show_u64 (mt_req_insert_ok m)) @
         row ''stream'' ''ok'' (show_u64 (mt_req_stream_ok m)))"

definition render_latencies :: "'d Fp \<Rightarrow> 'd Metrics \<Rightarrow> string" where
  "render_latencies F m =
     (let row = (\<lambda>opn. render_histogram F ''lethe_op_latency_seconds'' (inst_label m @ '','' @ quoted ''op'' opn))
      in family_head ''lethe_op_latency_seconds'' ''Operation latency seconds'' ''histogram'' @
         row ''lookup'' (mt_lat_lookup m) @ row ''insert'' (mt_lat_insert m) @ row ''stream'' (mt_lat_stream m))"

definition render_tiers :: "'d Metrics \<Rightarrow> string" where
  "render_tiers m =
     (let row = (\<lambda>i st. series ''lethe_tier_bytes''
            (braced (inst_label m @ '','' @ quoted ''tier'' (tier_name i) @ '','' @ quoted ''state'' st)))
      in family_head ''lethe_tier_bytes'' ''Tier byte usage and capacity'' ''gauge'' @
         concat (map (\<lambda>i. row i ''used'' (show_ll (mt_tier_used m ! i)) @
                         row i ''capacity'' (show_ll (mt_tier_capacity m ! i))) [0..<3]))"

definition render :: "'d Fp \<Rightarrow> 'd Metrics \<Rightarrow> string" where
  "render F m =
     (let inst = braced (inst_label m)
      in render_requests m @ render_latencies F m @ render_tiers m @
         render_gauge ''lethe_cluster_epoch'' ''Cluster membership epoch'' inst (mt_cluster_epoch m) @
         render_gauge ''lethe_replicas_under_target'' ''Blocks currently below replication target'' inst
           (mt_replicas_under_target m) @
         render_counter ''lethe_stream_bytes_total'' ''Total bytes transferred via the KV transport'' inst
           (mt_stream_bytes_total m) @
         family_head ''lethe_eviction_blocks_total'' ''Blocks evicted'' ''counter'' @
         series ''lethe_eviction_blocks_total'' inst (show_u64 (mt_eviction_blocks_total m)) @
         family_head ''lethe_eviction_bytes_freed_total'' ''Bytes freed by eviction'' ''counter'' @
         series ''lethe_eviction_bytes_freed_total'' inst (show_u64 (mt_eviction_bytes_freed_total m)) @
         family_head ''lethe_failover_recovery_seconds'' ''Failover recovery seconds'' ''histogram'' @
         render_histogram F ''lethe_failover_recovery_seconds'' (inst_label m) (mt_failover_recovery m))"

subsection \<open>The endpoint\<close>

text \<open>
  The set-up of \<open>serve\<close>, with the descriptor that \<open>socket\<close> returns and the results of \<open>bind\<close> and
  \<open>listen\<close>: whether the accept loop starts, the descriptors it closes, and the exporter.
\<close>

definition serve_setup :: "int \<Rightarrow> bool \<Rightarrow> bool \<Rightarrow> 'd Metrics \<Rightarrow> bool \<times> int list \<times> 'd Metrics" where
  "serve_setup fd bind_ok listen_ok m =
     (if fd < 0 then (False, [], m\<lparr>mt_listen_fd := fd\<rparr>)
      else if \<not> bind_ok then (False, [fd], m\<lparr>mt_listen_fd := - 1\<rparr>)
      else if \<not> listen_ok then (False, [fd], m\<lparr>mt_listen_fd := - 1\<rparr>)
      else (True, [], m\<lparr>mt_listen_fd := fd\<rparr>))"

definition crlf :: string where
  "crlf = [CHR 0x0D, CHR 0x0A]"

definition http_response :: "string \<Rightarrow> string" where
  "http_response body =
     ''HTTP/1.1 200 OK'' @ crlf @ ''Content-Type: text/plain; version=0.0.4'' @ crlf @
     ''Content-Length: '' @ to_string (length body) @ crlf @ ''Connection: close'' @ crlf @ crlf @ body"

text \<open>
  The accept loop over its turns, each with the result of \<open>accept\<close> and the exporter as it is
  then: the responses sent and the descriptors closed.
\<close>

fun serve_loop :: "'d Fp \<Rightarrow> (int \<times> 'd Metrics) list \<Rightarrow> string list \<times> int list" where
  "serve_loop F [] = ([], [])"
| "serve_loop F ((c, m) # turns) =
     (if \<not> mt_running m then ([], [])
      else if c < 0 then serve_loop F turns
      else let (sent, closed) = serve_loop F turns
           in (http_response (render F m) # sent, c # closed))"

text \<open>The destructor, once the thread has been joined.\<close>

definition metrics_destroy :: "'d Metrics \<Rightarrow> int list \<times> 'd Metrics" where
  "metrics_destroy m = (if mt_listen_fd m \<ge> 0 then [mt_listen_fd m] else [], m\<lparr>mt_running := False\<rparr>)"

subsection \<open>Reading the exposition\<close>

text \<open>
  What a scraper reads: a line that is not a comment is a sample, its key up to the last space
  and its value behind it.
\<close>

definition sample_of_line :: "string \<Rightarrow> string \<times> string" where
  "sample_of_line l = (case rfind_char CHR '' '' l of None \<Rightarrow> (l, []) | Some i \<Rightarrow> (take i l, drop (i + 1) l))"

definition read_samples :: "string \<Rightarrow> (string \<times> string) list" where
  "read_samples text = map sample_of_line (filter (\<lambda>l. l \<noteq> [] \<and> hd l \<noteq> CHR ''#'') (getline_items CHR 0x0A text))"

text \<open>The samples of a histogram and of the exporter.\<close>

definition histogram_samples :: "'d Fp \<Rightarrow> string \<Rightarrow> string \<Rightarrow> 'd Histogram \<Rightarrow> (string \<times> string) list" where
  "histogram_samples F family op_label h =
     map2 (\<lambda>le cum. (family @ ''_bucket'' @ braced (op_label @ '','' @ quoted ''le'' le), show_u64 cum))
       (map (fp_show F) (hg_bounds h) @ [''+Inf'']) (cumulate 0 (hg_buckets h)) @
     [(family @ ''_sum'' @ braced op_label, fp_show F (fp_sum F (hg_sum_micros h))),
      (family @ ''_count'' @ braced op_label, show_u64 (hg_count h))]"

definition metric_labels :: "'d Metrics \<Rightarrow> (string \<times> string) list \<Rightarrow> string" where
  "metric_labels m kvs = braced (inst_label m @ concat (map (\<lambda>(k, v). '','' @ quoted k v) kvs))"

definition exporter_samples :: "'d Fp \<Rightarrow> 'd Metrics \<Rightarrow> (string \<times> string) list" where
  "exporter_samples F m =
     (let req = (\<lambda>opn res v. (''lethe_requests_total'' @ metric_labels m [(''op'', opn), (''result'', res)], show_u64 v));
          lat = (\<lambda>opn. histogram_samples F ''lethe_op_latency_seconds'' (inst_label m @ '','' @ quoted ''op'' opn));
          tier = (\<lambda>i st v. (''lethe_tier_bytes'' @ metric_labels m [(''tier'', tier_name i), (''state'', st)], show_ll v))
      in [req ''lookup'' ''hit'' (mt_req_lookup_hit m), req ''lookup'' ''miss'' (mt_req_lookup_miss m),
          req ''insert'' ''ok'' (mt_req_insert_ok m), req ''stream'' ''ok'' (mt_req_stream_ok m)] @
         lat ''lookup'' (mt_lat_lookup m) @ lat ''insert'' (mt_lat_insert m) @ lat ''stream'' (mt_lat_stream m) @
         [tier 0 ''used'' (mt_tier_used m ! 0), tier 0 ''capacity'' (mt_tier_capacity m ! 0),
          tier 1 ''used'' (mt_tier_used m ! 1), tier 1 ''capacity'' (mt_tier_capacity m ! 1),
          tier 2 ''used'' (mt_tier_used m ! 2), tier 2 ''capacity'' (mt_tier_capacity m ! 2),
          (''lethe_cluster_epoch'' @ metric_labels m [], show_ll (mt_cluster_epoch m)),
          (''lethe_replicas_under_target'' @ metric_labels m [], show_ll (mt_replicas_under_target m)),
          (''lethe_stream_bytes_total'' @ metric_labels m [], show_u64 (mt_stream_bytes_total m)),
          (''lethe_eviction_blocks_total'' @ metric_labels m [], show_u64 (mt_eviction_blocks_total m)),
          (''lethe_eviction_bytes_freed_total'' @ metric_labels m [], show_u64 (mt_eviction_bytes_freed_total m))] @
         histogram_samples F ''lethe_failover_recovery_seconds'' (inst_label m) (mt_failover_recovery m))"

text \<open>A histogram that counts exactly the given observations.\<close>

definition counts_exactly :: "'d Fp \<Rightarrow> ('d :: linorder) list \<Rightarrow> 'd list \<Rightarrow> 'd Histogram \<Rightarrow> bool" where
  "counts_exactly F bounds obs h \<longleftrightarrow>
     hg_bounds h = bounds \<and> length (hg_buckets h) = length bounds + 1 \<and>
     list_all (\<lambda>i. cumulate 0 (hg_buckets h) ! i = of_nat (length (filter (\<lambda>s. s \<le> bounds ! i) obs))) [0..<length bounds] \<and>
     cumulate 0 (hg_buckets h) ! length bounds = of_nat (length obs) \<and>
     hg_count h = of_nat (length obs) \<and> hg_sum_micros h = sum_list (map (fp_micros F) obs)"

fun lookup_ns :: "Metric_Event \<Rightarrow> int list" where
  "lookup_ns (Ev_Lookup h m l) = [l]" | "lookup_ns _ = []"

fun insert_ns :: "Metric_Event \<Rightarrow> int list" where
  "insert_ns (Ev_Insert a l) = [l]" | "insert_ns _ = []"

fun stream_ns :: "Metric_Event \<Rightarrow> int list" where
  "stream_ns (Ev_Stream b l) = [l]" | "stream_ns _ = []"

fun recovery_ms :: "Metric_Event \<Rightarrow> int list" where
  "recovery_ms (Ev_Recovery d) = [d]" | "recovery_ms _ = []"

fun lookup_hits :: "Metric_Event \<Rightarrow> nat" where
  "lookup_hits (Ev_Lookup h m l) = h" | "lookup_hits _ = 0"

fun lookup_misses :: "Metric_Event \<Rightarrow> nat" where
  "lookup_misses (Ev_Lookup h m l) = m" | "lookup_misses _ = 0"

definition exporter_after :: "'d Fp \<Rightarrow> string \<Rightarrow> string \<Rightarrow> Metric_Event list \<Rightarrow> ('d :: linorder) Metrics" where
  "exporter_after F bind_address node_id evs = fold (record_event F) evs (metrics_new F bind_address node_id)"

text \<open>Texts that fit on a line, and values that have no space either.\<close>

definition one_line :: "string \<Rightarrow> bool" where
  "one_line s \<longleftrightarrow> CHR 0x0A \<notin> set s"

definition value_text :: "string \<Rightarrow> bool" where
  "value_text s \<longleftrightarrow> one_line s \<and> CHR '' '' \<notin> set s"

text \<open>Exact rational seconds, for concrete runs.\<close>

definition exact_fp :: "rat Fp" where
  "exact_fp = \<lparr>fp_lit = \<lambda>q. q, fp_ns = \<lambda>n. of_int n / 1000000000, fp_ms = \<lambda>n. of_int n / 1000,
     fp_micros = \<lambda>q. word_of_int \<lfloor>q * 1000000\<rfloor>, fp_sum = \<lambda>w. of_nat (unat w) / 1000000, fp_show = \<lambda>q. ''x''\<rparr>"

definition sample_events :: "Metric_Event list" where
  "sample_events = [Ev_Lookup 2 1 60000, Ev_Epoch 3, Ev_Lookup 0 1 700000, Ev_Insert 1 60000]"

section \<open>Histograms count exactly\<close>

declare bucket_index.simps [simp del]

lemma bucket_index_bounds: "i \<le> length b \<Longrightarrow> i \<le> bucket_index b s i \<and> bucket_index b s i \<le> length b"
proof (induction b s i rule: bucket_index.induct)
  case (1 b s i)
  then show ?case by (subst (1 2) bucket_index.simps) (auto dest: Suc_leI)
qed

lemma bucket_index_le_iff:
  assumes "sorted b" and "i \<le> j" and "j < length b"
  shows "bucket_index b s i \<le> j \<longleftrightarrow> s \<le> b ! j"
  using assms
proof (induction b s i rule: bucket_index.induct)
  case (1 b s i)
  show ?case
  proof (cases "s > b ! i")
    case True
    then have step: "bucket_index b s i = bucket_index b s (i + 1)"
      using 1 by (subst bucket_index.simps) simp
    show ?thesis
    proof (cases "i = j")
      case True
      have "j + 1 \<le> bucket_index b s (j + 1)" using bucket_index_bounds [of "j + 1" b s] 1 by simp
      then show ?thesis using step \<open>s > b ! i\<close> True by simp
    next
      case False
      then show ?thesis using 1 \<open>s > b ! i\<close> step by simp
    qed
  next
    case False
    then have "bucket_index b s i = i" by (subst bucket_index.simps) simp
    moreover have "b ! i \<le> b ! j" using 1 by (simp add: sorted_iff_nth_mono)
    ultimately show ?thesis using False 1 by simp
  qed
qed

lemma length_cumulate [simp]: "length (cumulate c bs) = length bs"
  by (induction bs arbitrary: c) simp_all

lemma cumulate_nth_add: "i < length bs \<Longrightarrow> cumulate (c + d) bs ! i = cumulate c bs ! i + d"
proof (induction bs arbitrary: c i)
  case (Cons b bs)
  then show ?case
  proof (cases i)
    case (Suc k)
    have "cumulate (c + d + b) bs ! k = cumulate ((c + b) + d) bs ! k" by (simp add: ac_simps)
    also have "\<dots> = cumulate (c + b) bs ! k + d" using Cons Suc by simp
    finally show ?thesis using Suc by simp
  qed simp
qed simp

lemma cumulate_update:
  "k < length bs \<Longrightarrow> i < length bs \<Longrightarrow>
     cumulate c (bs[k := bs ! k + 1]) ! i = cumulate c bs ! i + (if k \<le> i then 1 else 0)"
proof (induction bs arbitrary: c k i)
  case (Cons b bs)
  show ?case
  proof (cases k)
    case 0
    show ?thesis
    proof (cases i)
      case (Suc j)
      then show ?thesis using 0 Cons.prems cumulate_nth_add [of j bs "c + b" 1]
        by (simp add: add.assoc [symmetric])
    qed (simp add: 0)
  next
    case (Suc j)
    then show ?thesis using Cons by (cases i) simp_all
  qed
qed simp

lemma counts_exactly_new:
  "length b = 8 \<Longrightarrow> counts_exactly F b [] (histogram_new b)"
  by (simp add: counts_exactly_def histogram_new_def upt_rec numeral_eq_Suc)

lemma counts_exactly_observe:
  assumes "sorted b" and "counts_exactly F b obs h"
  shows "counts_exactly F b (obs @ [s]) (observe_seconds F s h)"
proof -
  let ?k = "bucket_index b s 0"
  have k: "?k \<le> length b" using bucket_index_bounds [of 0 b s] by simp
  have "?k \<le> i \<longleftrightarrow> s \<le> b ! i" if "i < length b" for i
    using bucket_index_le_iff [of b 0 i s] assms(1) that by simp
  then show ?thesis using assms(2) k
    by (auto simp: counts_exactly_def observe_seconds_def Let_def cumulate_update list_all_iff)
qed

text \<open>The bounds are sorted when literals are rounded monotonically.\<close>

lemma sorted_bounds:
  assumes "mono (fp_lit F)"
  shows "sorted (kLatencyBounds F)" and "sorted (kRecoveryBounds F)"
  using assms by (simp_all add: kLatencyBounds_def kRecoveryBounds_def monoD)

section \<open>The exporter\<close>

lemmas record_defs = RecordLookup_def RecordInsert_def RecordStreamBytes_def RecordTierUsage_def RecordEpoch_def
  RecordEvictionPass_def RecordFailoverRecovery_def RecordUnderReplicated_def Let_def

lemma record_event_histograms:
  "mt_lat_lookup (record_event F ev m) = fold (observe_seconds F) (map (fp_ns F) (lookup_ns ev)) (mt_lat_lookup m)"
  "mt_lat_insert (record_event F ev m) = fold (observe_seconds F) (map (fp_ns F) (insert_ns ev)) (mt_lat_insert m)"
  "mt_lat_stream (record_event F ev m) = fold (observe_seconds F) (map (fp_ns F) (stream_ns ev)) (mt_lat_stream m)"
  "mt_failover_recovery (record_event F ev m) =
     fold (observe_seconds F) (map (fp_ms F) (recovery_ms ev)) (mt_failover_recovery m)"
  by (cases ev; simp add: record_defs)+

lemma counts_exactly_fold:
  "sorted b \<Longrightarrow> counts_exactly F b obs h \<Longrightarrow> counts_exactly F b (obs @ new) (fold (observe_seconds F) new h)"
proof (induction new arbitrary: obs h)
  case (Cons s new)
  then show ?case using Cons.IH [of "obs @ [s]" "observe_seconds F s h"] by (simp add: counts_exactly_observe)
qed simp

lemma record_event_counters:
  "mt_req_lookup_hit (record_event F ev m) = mt_req_lookup_hit m + of_nat (lookup_hits ev)"
  "mt_req_lookup_miss (record_event F ev m) = mt_req_lookup_miss m + of_nat (lookup_misses ev)"
  by (cases ev; simp add: record_defs)+

text \<open>
  C37. Whatever calls reach the exporter, in whatever order, each of its four histograms counts
  exactly the observations of its own operation: the cumulative number printed for a bound is
  the number of observations that do not exceed it, the one for \<open>+Inf\<close> and the count are the
  number of all observations, the sum adds the microseconds, all modulo \<open>2 ^ 64\<close>; and the
  lookup counters add the hits and misses of all lookups.
\<close>

theorem metrics_exact:
  assumes "mono (fp_lit F)"
  shows "counts_exactly F (kLatencyBounds F) (map (fp_ns F) (concat (map lookup_ns evs))) (mt_lat_lookup (exporter_after F bind_address node_id evs)) \<and>
    counts_exactly F (kLatencyBounds F) (map (fp_ns F) (concat (map insert_ns evs))) (mt_lat_insert (exporter_after F bind_address node_id evs)) \<and>
    counts_exactly F (kLatencyBounds F) (map (fp_ns F) (concat (map stream_ns evs))) (mt_lat_stream (exporter_after F bind_address node_id evs)) \<and>
    counts_exactly F (kRecoveryBounds F) (map (fp_ms F) (concat (map recovery_ms evs))) (mt_failover_recovery (exporter_after F bind_address node_id evs)) \<and>
    mt_req_lookup_hit (exporter_after F bind_address node_id evs) = of_nat (sum_list (map lookup_hits evs)) \<and>
    mt_req_lookup_miss (exporter_after F bind_address node_id evs) = of_nat (sum_list (map lookup_misses evs))"
proof (induction evs rule: rev_induct)
  case Nil
  have "length (kLatencyBounds F) = 8" "length (kRecoveryBounds F) = 8"
    by (simp_all add: kLatencyBounds_def kRecoveryBounds_def)
  then show ?case by (simp add: exporter_after_def metrics_new_def counts_exactly_new)
next
  case (snoc ev evs)
  have step: "exporter_after F bind_address node_id (evs @ [ev]) = record_event F ev (exporter_after F bind_address node_id evs)" by (simp add: exporter_after_def)
  show ?case
    using snoc.IH sorted_bounds [OF assms]
    by (simp add: step record_event_histograms record_event_counters counts_exactly_fold del: record_event.simps)
qed

lemma counts_exactly_nth:
  "counts_exactly F b obs h \<Longrightarrow> i < length b \<Longrightarrow>
     cumulate 0 (hg_buckets h) ! i = of_nat (length (filter (\<lambda>s. s \<le> b ! i) obs))"
  by (simp add: counts_exactly_def list_all_iff)

theorem metrics_exact_witness:
  "mono (fp_lit exact_fp) \<and>
   cumulate 0 (hg_buckets (mt_lat_lookup (exporter_after exact_fp ''x:9090'' ''n'' sample_events))) ! 1 = 1 \<and>
   hg_count (mt_lat_lookup (exporter_after exact_fp ''x:9090'' ''n'' sample_events)) = 2 \<and>
   mt_req_lookup_hit (exporter_after exact_fp ''x:9090'' ''n'' sample_events) = 2"
proof -
  have mono: "mono (fp_lit exact_fp)" by (simp add: exact_fp_def mono_def)
  note exact = metrics_exact [OF mono, of sample_events "''x:9090''" "''n''"]
  have obs: "map (fp_ns exact_fp) (concat (map lookup_ns sample_events)) = [60000 / 1000000000, 700000 / 1000000000]"
    by (simp add: sample_events_def exact_fp_def)
  have b: "length (kLatencyBounds exact_fp) = 8" "kLatencyBounds exact_fp ! 1 = 1 / 10000"
    by (simp_all add: kLatencyBounds_def exact_fp_def)
  have "sum_list (map lookup_hits sample_events) = 2" by (simp add: sample_events_def)
  moreover have "cumulate 0 (hg_buckets (mt_lat_lookup (exporter_after exact_fp ''x:9090'' ''n'' sample_events))) ! 1 = 1"
    using counts_exactly_nth [OF exact [THEN conjunct1], of 1] b by (simp add: obs del: One_nat_def)
  moreover have "hg_count (mt_lat_lookup (exporter_after exact_fp ''x:9090'' ''n'' sample_events)) = of_nat 2"
    using exact [THEN conjunct1] by (simp add: counts_exactly_def obs)
  ultimately show ?thesis using mono exact by (simp add: b)
qed

section \<open>Reading back\<close>

lemma one_line_append [simp]: "one_line (x @ y) \<longleftrightarrow> one_line x \<and> one_line y"
  by (auto simp: one_line_def)

lemma one_line_Cons [simp]: "one_line (c # y) \<longleftrightarrow> c \<noteq> CHR 0x0A \<and> one_line y"
  by (auto simp: one_line_def)

lemma one_line_Nil [simp]: "one_line []"
  by (simp add: one_line_def)

lemma one_line_quoted [simp]: "one_line (quoted k v) \<longleftrightarrow> one_line k \<and> one_line v"
  by (simp add: quoted_def)

lemma one_line_braced [simp]: "one_line (braced v) \<longleftrightarrow> one_line v"
  by (simp add: braced_def)

lemma value_text_digits: "\<forall>c\<in>set s. is_digit c \<Longrightarrow> value_text s"
  by (auto simp: value_text_def one_line_def is_digit_def Let_def)

lemma value_text_u64 [simp]: "value_text (show_u64 v)"
  by (simp add: show_u64_def value_text_digits to_string_digits)

lemma value_text_ll [simp]: "value_text (show_ll v)"
proof -
  have "value_text (to_string n)" for n by (simp add: value_text_digits to_string_digits)
  then show ?thesis by (simp add: show_ll_def value_text_def)
qed

lemma read_samples_comment:
  "one_line l \<Longrightarrow> read_samples (line (CHR ''#'' # l) @ t) = read_samples t"
  using getline_items_Cons [of "CHR 0x0A" "CHR ''#'' # l" t]
  by (simp add: read_samples_def line_def one_line_def)

lemma read_samples_head [simp]:
  assumes "one_line name" and "one_line help" and "one_line kind"
  shows "read_samples (family_head name help kind @ t) = read_samples t"
  using assms read_samples_comment by (simp add: family_head_def)

lemma read_samples_series [simp]:
  assumes "one_line (c # name)" and "c \<noteq> CHR ''#''" and "one_line labels" and "value_text v"
  shows "read_samples (series (c # name) labels v @ t) = (c # name @ labels, v) # read_samples t"
proof -
  have "getline_items CHR 0x0A (series (c # name) labels v @ t) =
      (c # name @ labels @ '' '' @ v) # getline_items CHR 0x0A t"
    using getline_items_Cons [of "CHR 0x0A" "c # name @ labels @ '' '' @ v" t] assms
    by (simp add: series_def line_def value_text_def one_line_def)
  moreover have "rfind_char CHR '' '' ((c # name @ labels) @ CHR '' '' # v) = Some (length (c # name @ labels))"
    using assms by (intro rfind_char_append) (simp add: value_text_def)
  ultimately show ?thesis using assms by (simp add: read_samples_def sample_of_line_def)
qed

lemma read_samples_buckets:
  assumes "one_line (c # fam)" and "c \<noteq> CHR ''#''" and "one_line lab" and "\<forall>le\<in>set les. one_line (sep le)"
  shows "read_samples (concat (map2 (\<lambda>le cum. series (c # fam) (braced (lab @ sep le)) (show_u64 cum)) les cums) @ t) =
    map2 (\<lambda>le cum. (c # fam @ braced (lab @ sep le), show_u64 cum)) les cums @ read_samples t"
  using assms by (induction les cums rule: list_induct2') simp_all

lemma read_samples_histogram:
  assumes "one_line (c # fam)" and "c \<noteq> CHR ''#''" and "one_line lab" and "lab \<noteq> []"
    and "\<forall>x. value_text (fp_show F x)"
  shows "read_samples (render_histogram F (c # fam) lab h @ t) = histogram_samples F (c # fam) lab h @ read_samples t"
proof -
  let ?les = "map (fp_show F) (hg_bounds h) @ [''+Inf'']"
  have les: "\<forall>le\<in>set ?les. one_line le" using assms(5) by (auto simp: value_text_def)
  have "\<forall>le\<in>set ?les. one_line ('','' @ quoted ''le'' le)" using les by auto
  moreover have "one_line (c # (fam @ ''_bucket''))" using assms(1) by simp
  ultimately have "read_samples (concat (map2 (\<lambda>le cum. series (c # (fam @ ''_bucket''))
      (braced (lab @ '','' @ quoted ''le'' le)) (show_u64 cum)) ?les (cumulate 0 (hg_buckets h))) @ t') =
      map2 (\<lambda>le cum. (c # (fam @ ''_bucket'') @ braced (lab @ '','' @ quoted ''le'' le), show_u64 cum))
        ?les (cumulate 0 (hg_buckets h)) @ read_samples t'" for t'
    using read_samples_buckets [of c "fam @ ''_bucket''" lab ?les "\<lambda>le. '','' @ quoted ''le'' le"
      "cumulate 0 (hg_buckets h)" t'] assms les by blast
  then show ?thesis using assms by (simp add: render_histogram_def histogram_samples_def Let_def)
qed

lemma one_line_inst [simp]: "one_line (inst_label m) \<longleftrightarrow> one_line (mt_node_id m)"
  by (simp add: inst_label_def)

lemma inst_label_not_Nil [simp]: "inst_label m \<noteq> []"
  by (simp add: inst_label_def quoted_def)

lemma read_samples_Nil [simp]: "read_samples [] = []"
  by (simp add: read_samples_def)

lemma one_line_tier [simp]: "one_line (tier_name i)"
  by (simp add: tier_name_def)

text \<open>
  A scraper that splits the exposition into lines, drops the comments and splits each line
  at its last space reads exactly the samples of the exporter, in order, with their labels and
  the printed values, when the name of the node has no line break.
\<close>

theorem scrape_roundtrip:
  assumes "one_line (mt_node_id m)" and "\<forall>x. value_text (fp_show F x)"
  shows "read_samples (render F m) = exporter_samples F m"
proof -
  have hist: "read_samples (render_histogram F (c # fam) lab h @ t) = histogram_samples F (c # fam) lab h @ read_samples t"
    if "one_line (c # fam)" "c \<noteq> CHR ''#''" "one_line lab" "lab \<noteq> []" for c fam lab h t
    using that assms(2) by (rule read_samples_histogram)
  have hist': "read_samples (render_histogram F (c # fam) lab h) = histogram_samples F (c # fam) lab h"
    if "one_line (c # fam)" "c \<noteq> CHR ''#''" "one_line lab" "lab \<noteq> []" for c fam lab h
    using hist [of c fam lab h "[]"] that by simp
  show ?thesis using assms(1)
    by (simp add: render_def render_requests_def render_latencies_def render_tiers_def render_gauge_def
        render_counter_def exporter_samples_def metric_labels_def Let_def hist hist' upt_rec numeral_eq_Suc)
qed

theorem scrape_roundtrip_witness:
  "one_line (mt_node_id (exporter_after exact_fp ''x:9090'' ''n'' sample_events)) \<and>
   take 2 (read_samples (render exact_fp (exporter_after exact_fp ''x:9090'' ''n'' sample_events))) =
     [(''lethe_requests_total{node='' @ [CHR 0x22] @ ''n'' @ [CHR 0x22] @ '',op='' @ [CHR 0x22] @ ''lookup'' @ [CHR 0x22] @
         '',result='' @ [CHR 0x22] @ ''hit'' @ [CHR 0x22] @ ''}'', ''2''),
      (''lethe_requests_total{node='' @ [CHR 0x22] @ ''n'' @ [CHR 0x22] @ '',op='' @ [CHR 0x22] @ ''lookup'' @ [CHR 0x22] @
         '',result='' @ [CHR 0x22] @ ''miss'' @ [CHR 0x22] @ ''}'', ''2'')]"
proof -
  let ?m = "exporter_after exact_fp ''x:9090'' ''n'' sample_events"
  have m: "mt_node_id ?m = ''n''" "mt_req_lookup_hit ?m = 2" "mt_req_lookup_miss ?m = 2"
    by (simp_all add: exporter_after_def sample_events_def metrics_new_def record_defs)
  have "to_string 2 = ''2''" by code_simp
  moreover have "one_line (mt_node_id ?m)" by (simp add: m)
  moreover have "\<forall>x. value_text (fp_show exact_fp x)" by (simp add: exact_fp_def value_text_def)
  ultimately show ?thesis using scrape_roundtrip [of ?m exact_fp]
    by (simp add: exporter_samples_def metric_labels_def inst_label_def m quoted_def braced_def show_u64_def Let_def)
qed

text \<open>
  Every descriptor that the endpoint opens is closed exactly once, whichever of \<open>socket\<close>,
  \<open>bind\<close> and \<open>listen\<close> fails and however the accept loop ends.
\<close>

theorem endpoint_closes_descriptors:
  assumes "serve_setup fd bind_ok listen_ok m = (go, shut, m1)"
    and "served = (if go then serve_loop F turns else ([], []))"
    and "\<forall>(c, mc)\<in>set turns. mt_running mc"
  shows "shut @ snd served @ fst (metrics_destroy m1) =
    (if fd < 0 then [] else if bind_ok \<and> listen_ok then filter (\<lambda>c. 0 \<le> c) (map fst turns) @ [fd] else [fd])"
proof -
  have loop: "snd (serve_loop F turns) = filter (\<lambda>c. 0 \<le> c) (map fst turns)"
    using assms(3) by (induction F turns rule: serve_loop.induct) (auto split: prod.splits)
  show ?thesis using assms(1,2) loop
    by (auto simp: serve_setup_def metrics_destroy_def split: if_splits)
qed

lemma metrics_port_reads:
  assumes "p < 2 ^ 31"
  shows "metrics_port (host @ CHR '':'' # to_string p) = of_nat p"
proof -
  have "CHR '':'' \<notin> set (to_string p)" using to_string_digits [of p] by (auto simp: is_digit_def)
  then show ?thesis using assms by (simp add: metrics_port_def rfind_char_append stoi_to_string)
qed

text \<open>A port number above \<open>2 ^ 16\<close> is silently reduced to another port.\<close>

lemma metrics_port_wraps: "metrics_port (host @ CHR '':'' # to_string 70000) = 4464"
  by (subst metrics_port_reads) simp_all

end
