(* ===== verification/Rdma_Cm.thy ===== *)
theory Rdma_Cm
  imports Rdma
begin

text \<open>
  The connections of the InfiniBand transport, \<open>cache_server/src/ibverbs_transport.cpp\<close>: dialling and accepting
  queue pairs, the ring of receive buffers and its poller, listening and tearing down.  The calls
  of the verbs library are parameters, with their success as the fields of \<open>Verbs\<close>.  The objects
  that a call creates are tracked as handles.  A \<open>Conn\<close> owns its poller thread, and destroying
  a thread that was not joined ends the process; so does the use of a null pointer.
\<close>

section \<open>Definitions\<close>

abbreviation kMaxRecvBuffers :: nat where
  "kMaxRecvBuffers \<equiv> 16"

datatype Handle = Event_Channel | Cm_Id | Pd | Cq | Qp | Mr nat | Poller

datatype Cm_Event = ADDR_RESOLVED | ROUTE_RESOLVED | ESTABLISHED | CONNECT_REQUEST | DISCONNECTED | Other_Event

text \<open>The outcomes of the calls; the next event of a channel is \<open>None\<close> when reading it fails.\<close>

record Verbs =
  vb_create_event_channel :: bool
  vb_create_id :: bool
  vb_resolve_addr :: bool
  vb_addr_event :: "Cm_Event option"
  vb_resolve_route :: bool
  vb_route_event :: "Cm_Event option"
  vb_alloc_pd :: bool
  vb_create_cq :: bool
  vb_create_qp :: bool
  vb_reg_mr :: "nat \<Rightarrow> bool"
  vb_post_recv :: "nat \<Rightarrow> bool"
  vb_connect :: bool
  vb_connect_event :: "Cm_Event option"
  vb_bind_addr :: bool
  vb_listen :: bool

subsection \<open>Dialling\<close>

definition MakeQp :: "Verbs \<Rightarrow> bool \<times> Handle list" where
  "MakeQp V =
     (if \<not> vb_alloc_pd V then (False, [])
      else if \<not> vb_create_cq V then (False, [Pd])
      else if \<not> vb_create_qp V then (False, [Pd, Cq])
      else (True, [Pd, Cq, Qp]))"

definition MakeBufs :: "Verbs \<Rightarrow> nat \<Rightarrow> Handle list" where
  "MakeBufs V n = map Mr (filter (vb_reg_mr V) [0..<n])"

definition SetupOutbound :: "Verbs \<Rightarrow> size_t \<Rightarrow> Conn \<times> Handle list" where
  "SetupOutbound V msg_cap = (new_conn msg_cap, MakeBufs V kMaxSendBuffers @ [Poller])"

text \<open>The result of a dial, with the handles that exist afterwards; \<open>Aborts\<close> when the process ends.\<close>

datatype Dial_Result = No_Conn "Handle list" | Dialed Conn "Handle list" | Aborts

definition destroy_conn :: "Handle list \<Rightarrow> Dial_Result" where
  "destroy_conn held = (if Poller \<in> set held then Aborts else No_Conn held)"

definition Dial :: "Verbs \<Rightarrow> size_t \<Rightarrow> Dial_Result" where
  "Dial V msg_cap =
     (if \<not> vb_create_event_channel V then No_Conn []
      else if \<not> vb_create_id V then No_Conn []
      else
        let held = [Event_Channel, Cm_Id]
        in if \<not> vb_resolve_addr V then No_Conn held
           else if vb_addr_event V \<noteq> Some ADDR_RESOLVED then No_Conn held
           else if \<not> vb_resolve_route V then No_Conn held
           else if vb_route_event V \<noteq> Some ROUTE_RESOLVED then No_Conn held
           else case MakeQp V of
                  (False, qp) \<Rightarrow> destroy_conn (held @ qp)
                | (True, qp) \<Rightarrow>
                    let (c, ring) = SetupOutbound V msg_cap;
                        all = held @ qp @ ring
                    in if \<not> vb_connect V then destroy_conn all
                       else if vb_connect_event V \<noteq> Some ESTABLISHED then destroy_conn all
                       else Dialed c all)"

text \<open>What \<open>Disconnect\<close> and the teardown of \<open>Shutdown\<close> leave of the handles of a connection.\<close>

definition teardown :: "Handle list \<Rightarrow> Handle list" where
  "teardown held = filter (\<lambda>h. case h of Event_Channel \<Rightarrow> True | Cm_Id \<Rightarrow> True | _ \<Rightarrow> False) held"

text \<open>
  The connection to one peer over the life of the process.  A \<open>Send\<close> dials when there is no connection
  (\<open>EnsureOutbound\<close>), with the outcomes \<open>V\<close> for the calls of that dial, and \<open>Disconnect\<close> tears the connection
  down.  Handles that exist but belong to no connection are in \<open>lk_left\<close>; \<open>lk_dials\<close> records the dials so
  far.  The step is \<open>None\<close> when the process ends.
\<close>

record Link =
  lk_conn :: "(Conn \<times> Handle list) option"
  lk_left :: "Handle list"
  lk_dials :: "Verbs list"

datatype link_op = Try Verbs | Drop

fun link_step :: "size_t \<Rightarrow> link_op \<Rightarrow> Link \<Rightarrow> Link option" where
  "link_step msg_cap (Try V) l =
     (case lk_conn l of
        Some _ \<Rightarrow> Some l
      | None \<Rightarrow>
          let l1 = l\<lparr>lk_dials := lk_dials l @ [V]\<rparr>
          in (case Dial V msg_cap of
                Dialed c held \<Rightarrow> Some (l1\<lparr>lk_conn := Some (c, held)\<rparr>)
              | No_Conn held \<Rightarrow> Some (l1\<lparr>lk_left := lk_left l @ held\<rparr>)
              | Aborts \<Rightarrow> None))"
| "link_step msg_cap Drop l =
     (case lk_conn l of
        None \<Rightarrow> Some l
      | Some (c, held) \<Rightarrow> Some (l\<lparr>lk_conn := None, lk_left := lk_left l @ teardown held\<rparr>))"

fun link_run :: "size_t \<Rightarrow> link_op list \<Rightarrow> Link \<Rightarrow> Link option" where
  "link_run msg_cap [] l = Some l"
| "link_run msg_cap (x # xs) l =
     (case link_step msg_cap x l of None \<Rightarrow> None | Some l1 \<Rightarrow> link_run msg_cap xs l1)"

definition link_new :: Link where
  "link_new = \<lparr>lk_conn = None, lk_left = [], lk_dials = []\<rparr>"

definition link_handles :: "Link \<Rightarrow> Handle list" where
  "link_handles l = lk_left l @ (case lk_conn l of None \<Rightarrow> [] | Some (c, held) \<Rightarrow> held)"

subsection \<open>Receiving\<close>

record Inbound =
  in_recv_bufs :: "byte list list"
  in_posted :: "nat list"
  in_stop :: bool

text \<open>\<open>SetupInbound\<close>; \<open>None\<close> when a buffer could not be registered, whose key is then read through a null pointer.\<close>

fun setup_loop :: "Verbs \<Rightarrow> size_t \<Rightarrow> nat list \<Rightarrow> Inbound \<Rightarrow> Inbound option" where
  "setup_loop V msg_cap [] c = Some c"
| "setup_loop V msg_cap (i # is) c =
     (if \<not> vb_reg_mr V i then None
      else setup_loop V msg_cap is
        (c\<lparr>in_recv_bufs := in_recv_bufs c @ [replicate msg_cap 0],
           in_posted := (if vb_post_recv V i then in_posted c @ [i] else in_posted c)\<rparr>))"

definition SetupInbound :: "Verbs \<Rightarrow> size_t \<Rightarrow> Inbound option" where
  "SetupInbound V msg_cap = setup_loop V msg_cap [0..<kMaxRecvBuffers] \<lparr>in_recv_bufs = [], in_posted = [], in_stop = False\<rparr>"

record Wc =
  wc_wr_id :: nat
  wc_success :: bool
  wc_is_recv :: bool
  wc_byte_len :: u32

text \<open>
  A message lands in a posted buffer, which is then no longer posted.  Later the poller sees its completion,
  hands the content to \<open>HandleRecv\<close> and posts the buffer again.
\<close>

definition land :: "nat \<Rightarrow> byte list \<Rightarrow> Inbound \<Rightarrow> Inbound" where
  "land idx msg c = c\<lparr>in_recv_bufs := (in_recv_bufs c)[idx := land_in (in_recv_bufs c ! idx) msg],
     in_posted := remove1 idx (in_posted c)\<rparr>"

definition PostRecv :: "Verbs \<Rightarrow> nat \<Rightarrow> Inbound \<Rightarrow> Inbound" where
  "PostRecv V idx c = (if vb_post_recv V idx then c\<lparr>in_posted := in_posted c @ [idx]\<rparr> else c)"

fun poll_completions ::
  "Verbs \<Rightarrow> Wc list \<Rightarrow> Inbound \<Rightarrow> (BlockId \<times> byte list \<times> byte) list \<times> Inbound" where
  "poll_completions V [] c = ([], c)"
| "poll_completions V (w # ws) c =
     (if \<not> wc_success w then poll_completions V ws c
      else if \<not> wc_is_recv w then poll_completions V ws c
      else
        let got = HandleRecv (in_recv_bufs c ! wc_wr_id w) (wc_byte_len w);
            (rest, c1) = poll_completions V ws (PostRecv V (wc_wr_id w) c)
        in ((case got of None \<Rightarrow> rest | Some x \<Rightarrow> x # rest), c1))"

text \<open>A turn of \<open>PollInbound\<close>: \<open>None\<close> when the loop has ended.\<close>

definition poll_turn ::
  "Verbs \<Rightarrow> Wc list option \<Rightarrow> Inbound \<Rightarrow> ((BlockId \<times> byte list \<times> byte) list \<times> Inbound) option" where
  "poll_turn V polled c =
     (if in_stop c then None
      else case polled of None \<Rightarrow> None | Some ws \<Rightarrow> Some (poll_completions V ws c))"

subsection \<open>Listening\<close>

text \<open>
  The accepted connections by their identifier; a turn of \<open>ListenLoop\<close> is \<open>None\<close> when the process ends
  and leaves the loop when reading the event fails.  Whether \<open>rdma_accept\<close> succeeds makes no difference.
\<close>

definition listen_turn ::
  "Verbs \<Rightarrow> bool \<Rightarrow> size_t \<Rightarrow> (Cm_Event \<times> nat) option \<Rightarrow> (nat \<times> Inbound) list \<Rightarrow> (bool \<times> (nat \<times> Inbound) list) option" where
  "listen_turn V stop msg_cap ev inbound =
     (if stop then Some (False, inbound) else
      case ev of
        None \<Rightarrow> Some (False, inbound)
      | Some (e, cid) \<Rightarrow>
          if e = CONNECT_REQUEST then
            (if fst (MakeQp V) then
               (case SetupInbound V msg_cap of
                  None \<Rightarrow> None
                | Some c \<Rightarrow> Some (True, inbound @ [(cid, c)]))
             else Some (True, inbound))
          else if e = DISCONNECTED then
            Some (True, map (\<lambda>(i, c). if i = cid then (i, c\<lparr>in_stop := True\<rparr>) else (i, c)) inbound)
          else Some (True, inbound))"

text \<open>\<open>Start\<close>: whether the listener runs, and the handles in \<open>listen_ch\<close> and \<open>listen_id\<close>, which \<open>Shutdown\<close> destroys.\<close>

definition ib_Start :: "Verbs \<Rightarrow> IbverbsTransport \<Rightarrow> bool \<times> Handle list" where
  "ib_Start V t =
     (if ib_listen_ip t = [] \<or> ib_listen_port t = 0 then (False, [])
      else if \<not> vb_create_event_channel V then (False, [])
      else if \<not> vb_create_id V then (False, [Event_Channel])
      else if \<not> vb_bind_addr V then (False, [Event_Channel, Cm_Id])
      else if \<not> vb_listen V then (False, [Event_Channel, Cm_Id])
      else (True, [Event_Channel, Cm_Id]))"

definition stop_listening :: "Handle list \<Rightarrow> Handle list" where
  "stop_listening held = filter (\<lambda>h. h \<noteq> Event_Channel \<and> h \<noteq> Cm_Id) held"

text \<open>How far the calls of a dial let it come: an identifier, a protection domain, a completion queue, a queue pair.\<close>

definition got_id :: "Verbs \<Rightarrow> bool" where
  "got_id V \<longleftrightarrow> vb_create_event_channel V \<and> vb_create_id V"

definition got_pd :: "Verbs \<Rightarrow> bool" where
  "got_pd V \<longleftrightarrow> got_id V \<and> vb_resolve_addr V \<and> vb_addr_event V = Some ADDR_RESOLVED \<and>
     vb_resolve_route V \<and> vb_route_event V = Some ROUTE_RESOLVED \<and> vb_alloc_pd V"

definition got_cq :: "Verbs \<Rightarrow> bool" where
  "got_cq V \<longleftrightarrow> got_pd V \<and> vb_create_cq V"

definition got_qp :: "Verbs \<Rightarrow> bool" where
  "got_qp V \<longleftrightarrow> got_cq V \<and> vb_create_qp V"

definition accepted :: "Verbs \<Rightarrow> bool" where
  "accepted V \<longleftrightarrow> vb_connect V \<and> vb_connect_event V = Some ESTABLISHED"

text \<open>The number of handles of each kind that a history of dials and an open connection account for.\<close>

definition dials :: "(Verbs \<Rightarrow> bool) \<Rightarrow> Link \<Rightarrow> nat" where
  "dials P l = length (filter P (lk_dials l))"

fun accounted :: "Link \<Rightarrow> Handle \<Rightarrow> nat" where
  "accounted l Event_Channel = dials got_id l"
| "accounted l Cm_Id = dials got_id l"
| "accounted l Pd = dials (\<lambda>V. got_pd V \<and> \<not> got_qp V) l + of_bool (lk_conn l \<noteq> None)"
| "accounted l Cq = dials (\<lambda>V. got_cq V \<and> \<not> got_qp V) l + of_bool (lk_conn l \<noteq> None)"
| "accounted l Qp = of_bool (lk_conn l \<noteq> None)"
| "accounted l Poller = of_bool (lk_conn l \<noteq> None)"
| "accounted l (Mr i) = of_bool (lk_conn l \<noteq> None \<and> i < kMaxSendBuffers \<and> vb_reg_mr (last (lk_dials l)) i)"

text \<open>The open connection is the one of the last dial, with every handle a dial creates.\<close>

definition link_inv :: "Link \<Rightarrow> bool" where
  "link_inv l \<longleftrightarrow> (\<forall>h. count_list (link_handles l) h = accounted l h) \<and>
     (\<forall>c held. lk_conn l = Some (c, held) \<longrightarrow> lk_dials l \<noteq> [] \<and>
        held = [Event_Channel, Cm_Id, Pd, Cq, Qp] @ MakeBufs (last (lk_dials l)) kMaxSendBuffers @ [Poller])"

text \<open>The invariant of the receive ring.\<close>

definition in_inv :: "Inbound \<Rightarrow> bool" where
  "in_inv c \<longleftrightarrow> length (in_recv_bufs c) = kMaxRecvBuffers \<and> distinct (in_posted c) \<and> set (in_posted c) \<subseteq> {0..<kMaxRecvBuffers}"

text \<open>A push in flight: the receive buffer it lands in, its block, its purpose and the rest of the send buffer.\<close>

record Arrival =
  ar_idx :: nat
  ar_id :: BlockId
  ar_purpose :: StreamPurpose
  ar_data :: "byte list"
  ar_mem :: "byte list"

definition ar_msg :: "Arrival \<Rightarrow> byte list" where
  "ar_msg a = posted_bytes (ar_data a) (fill_buffer (ar_id a) (ar_purpose a) (ar_data a) (ar_mem a))"

definition ar_wc :: "Arrival \<Rightarrow> Wc" where
  "ar_wc a = \<lparr>wc_wr_id = ar_idx a, wc_success = True, wc_is_recv = True, wc_byte_len = word_of_nat (kHeaderBytes + length (ar_data a))\<rparr>"

definition sample_verbs :: Verbs where
  "sample_verbs = \<lparr>vb_create_event_channel = True, vb_create_id = True, vb_resolve_addr = True, vb_addr_event = Some ADDR_RESOLVED,
     vb_resolve_route = True, vb_route_event = Some ROUTE_RESOLVED, vb_alloc_pd = True, vb_create_cq = True, vb_create_qp = True,
     vb_reg_mr = (\<lambda>_. True), vb_post_recv = (\<lambda>_. True), vb_connect = True, vb_connect_event = Some ESTABLISHED,
     vb_bind_addr = True, vb_listen = True\<rparr>"

section \<open>Lemmas\<close>

lemma setup_loop_all:
  assumes "\<forall>i. vb_reg_mr V i \<and> vb_post_recv V i"
  shows "setup_loop V cap is c = Some (c\<lparr>in_recv_bufs := in_recv_bufs c @ replicate (length is) (replicate cap 0), in_posted := in_posted c @ is\<rparr>)"
  using assms by (induction "is" arbitrary: c) (simp_all add: replicate_append_same [symmetric])

lemma SetupInbound_all:
  assumes "\<forall>i. vb_reg_mr V i \<and> vb_post_recv V i"
  shows "\<exists>c. SetupInbound V cap = Some c \<and> in_inv c \<and> in_posted c = [0..<kMaxRecvBuffers] \<and> \<not> in_stop c"
  using assms by (simp add: SetupInbound_def setup_loop_all in_inv_def)

lemma land_all:
  "distinct (map ar_idx as) \<Longrightarrow>
   length (in_recv_bufs (fold (\<lambda>a. land (ar_idx a) (ar_msg a)) as c)) = length (in_recv_bufs c) \<and>
   in_posted (fold (\<lambda>a. land (ar_idx a) (ar_msg a)) as c) = fold remove1 (map ar_idx as) (in_posted c) \<and>
   in_stop (fold (\<lambda>a. land (ar_idx a) (ar_msg a)) as c) = in_stop c \<and>
   (\<forall>j. j \<notin> ar_idx ` set as \<longrightarrow> in_recv_bufs (fold (\<lambda>a. land (ar_idx a) (ar_msg a)) as c) ! j = in_recv_bufs c ! j) \<and>
   (\<forall>a\<in>set as. ar_idx a < length (in_recv_bufs c) \<longrightarrow>
      in_recv_bufs (fold (\<lambda>a. land (ar_idx a) (ar_msg a)) as c) ! ar_idx a = land_in (in_recv_bufs c ! ar_idx a) (ar_msg a))"
proof (induction as arbitrary: c)
  case (Cons a as)
  have d: "distinct (map ar_idx as)" "ar_idx a \<notin> ar_idx ` set as" using Cons.prems by auto
  have other: "in_recv_bufs (land (ar_idx a) (ar_msg a) c) ! ar_idx b = in_recv_bufs c ! ar_idx b" if "b \<in> set as" for b
    using d(2) that by (metis image_eqI land_def nth_list_update_neq Inbound.select_convs(1) Inbound.surjective Inbound.update_convs(1,2))
  from Cons.IH [OF d(1), of "land (ar_idx a) (ar_msg a) c"] show ?case
    using other d(2) by (auto simp: land_def)
qed simp

lemma poll_all:
  assumes "\<forall>i. vb_post_recv V i" "\<forall>w\<in>set ws. wc_success w \<and> wc_is_recv w"
  shows "poll_completions V ws c =
    (List.map_filter (\<lambda>w. HandleRecv (in_recv_bufs c ! wc_wr_id w) (wc_byte_len w)) ws,
     c\<lparr>in_posted := in_posted c @ map wc_wr_id ws\<rparr>)"
  using assms(2)
  by (induction ws arbitrary: c) (auto simp: PostRecv_def assms(1) List.map_filter_simps Let_def split: option.splits)

lemma mset_fold_remove1:
  "distinct xs \<Longrightarrow> set xs \<subseteq> set ys \<Longrightarrow> mset (fold remove1 xs ys @ xs) = mset ys"
proof (induction xs arbitrary: ys)
  case (Cons x xs)
  then have "set xs \<subseteq> set (remove1 x ys)" by (metis distinct.simps(2) in_set_remove1 insert_subset list.simps(15) subset_iff)
  then have "mset (fold remove1 xs (remove1 x ys)) + mset xs = mset ys - {#x#}" using Cons by simp
  then show ?case using Cons.prems by simp
qed simp

subsection \<open>The handles of a dial\<close>

lemma Dial_cases:
  "Dial V msg_cap =
     (if \<not> got_id V then No_Conn []
      else if \<not> got_qp V then
        No_Conn ([Event_Channel, Cm_Id] @ (if got_pd V then [Pd] else []) @ (if got_cq V then [Cq] else []))
      else if accepted V then Dialed (new_conn msg_cap) ([Event_Channel, Cm_Id, Pd, Cq, Qp] @ MakeBufs V kMaxSendBuffers @ [Poller])
      else Aborts)"
  by (auto simp: Dial_def MakeQp_def SetupOutbound_def destroy_conn_def got_id_def got_pd_def got_cq_def got_qp_def
      accepted_def MakeBufs_def Let_def)

lemma got_mono: "got_qp V \<Longrightarrow> got_cq V" "got_cq V \<Longrightarrow> got_pd V" "got_pd V \<Longrightarrow> got_id V"
  by (simp_all add: got_qp_def got_cq_def got_pd_def)

lemma count_map_Mr: "count_list (map Mr xs) h = (case h of Mr i \<Rightarrow> count_list xs i | _ \<Rightarrow> 0)"
  by (induction xs) (auto split: Handle.splits)

lemma count_MakeBufs: "count_list (MakeBufs V n) h = (case h of Mr i \<Rightarrow> of_bool (i < n \<and> vb_reg_mr V i) | _ \<Rightarrow> 0)"
proof -
  have "count_list (filter P [0..<n]) i = of_bool (i < n \<and> P i)" for P i by (induction n) auto
  then show ?thesis by (simp add: MakeBufs_def count_map_Mr split: Handle.splits)
qed

lemma link_inv_step:
  assumes "link_step msg_cap x l = Some l'" "link_inv l"
  shows "link_inv l'"
proof (cases x)
  case (Try V)
  show ?thesis
  proof (cases "lk_conn l")
    case None
    have old: "count_list (lk_left l) h = accounted l h" for h
      using assms(2) None by (simp add: link_inv_def link_handles_def)
    show ?thesis
    proof (cases "got_qp V")
      case True
      then have "accepted V" "l' = l\<lparr>lk_dials := lk_dials l @ [V], lk_conn := Some (new_conn msg_cap,
          [Event_Channel, Cm_Id, Pd, Cq, Qp] @ MakeBufs V kMaxSendBuffers @ [Poller])\<rparr>"
        using assms(1) None Try got_mono by (auto simp: Dial_cases split: if_splits)
      moreover have "count_list (link_handles l') h = accounted l' h" for h
        using old [of h] True got_mono [of V] None calculation(2)
        by (cases h) (simp_all add: link_handles_def dials_def count_MakeBufs)
      ultimately show ?thesis by (auto simp: link_inv_def)
    next
      case False
      then have l': "l' = l\<lparr>lk_dials := lk_dials l @ [V], lk_left := lk_left l @
          (if got_id V then [Event_Channel, Cm_Id] @ (if got_pd V then [Pd] else []) @ (if got_cq V then [Cq] else []) else [])\<rparr>"
        using assms(1) None Try by (auto simp: Dial_cases split: if_splits)
      have "count_list (link_handles l') h = accounted l' h" for h
        using old [of h] False got_mono [of V] None
        by (cases h) (auto simp: l' link_handles_def dials_def)
      then show ?thesis using None l' by (simp add: link_inv_def)
    qed
  qed (use assms Try in simp)
next
  case Drop
  show ?thesis
  proof (cases "lk_conn l")
    case (Some ch)
    obtain c held where ch: "ch = (c, held)" by force
    have held: "held = [Event_Channel, Cm_Id, Pd, Cq, Qp] @ MakeBufs (last (lk_dials l)) kMaxSendBuffers @ [Poller]"
      using assms(2) Some ch by (simp add: link_inv_def)
    have "teardown held = [Event_Channel, Cm_Id]"
      by (auto simp: held teardown_def MakeBufs_def filter_empty_conv)
    then have l': "l' = l\<lparr>lk_conn := None, lk_left := lk_left l @ [Event_Channel, Cm_Id]\<rparr>" using assms(1) Drop Some ch by simp
    have "link_handles l = lk_left l @ held" by (simp add: link_handles_def Some ch)
    then have old: "count_list (lk_left l @ held) h = accounted l h" for h
      using assms(2) unfolding link_inv_def by metis
    have "count_list (link_handles l') h = accounted l' h" for h
      using old [of h] by (cases h) (simp_all add: l' link_handles_def held count_MakeBufs dials_def Some)
    then show ?thesis using l' by (simp add: link_inv_def)
  qed (use assms Drop in simp)
qed

lemma link_inv_run: "link_run msg_cap xs l = Some l' \<Longrightarrow> link_inv l \<Longrightarrow> link_inv l'"
  by (induction xs arbitrary: l) (auto split: option.splits dest: link_inv_step)

section \<open>Properties\<close>



text \<open>
  C30. Pushes that arrive in posted receive buffers, up to as many as there are, are handed to the receive callback in their
  order, each with the identity and the bytes that were sent, and every buffer is posted again.
\<close>

theorem inbound_delivers:
  assumes "in_inv c" "\<not> in_stop c" "\<forall>i. vb_post_recv V i"
    and "distinct (map ar_idx as)" "set (map ar_idx as) \<subseteq> set (in_posted c)"
    and "\<forall>a\<in>set as. id_ok (ar_id a) \<and> kHeaderBytes + length (ar_data a) < 2 ^ 32"
  shows "\<exists>c'. poll_turn V (Some (map ar_wc as)) (fold (\<lambda>a. land (ar_idx a) (ar_msg a)) as c) =
      Some (map (\<lambda>a. (ar_id a, ar_data a, word_of_nat (purpose_code (ar_purpose a)))) as, c') \<and>
    in_inv c' \<and> mset (in_posted c') = mset (in_posted c)"
proof -
  let ?c1 = "fold (\<lambda>a. land (ar_idx a) (ar_msg a)) as c"
  note l = land_all [OF assms(4), of c]
  have idx: "ar_idx a < length (in_recv_bufs c)" if "a \<in> set as" for a
  proof -
    have "ar_idx a \<in> set (in_posted c)" using that assms(5) by auto
    then show ?thesis using assms(1) by (auto simp: in_inv_def)
  qed
  have got: "HandleRecv (in_recv_bufs ?c1 ! wc_wr_id (ar_wc a)) (wc_byte_len (ar_wc a)) =
      Some (ar_id a, ar_data a, word_of_nat (purpose_code (ar_purpose a)))" if "a \<in> set as" for a
    using l idx [OF that] that assms(6) frame_received [of "ar_id a" "ar_data a" "in_recv_bufs c ! ar_idx a" "ar_purpose a" "ar_mem a"]
    by (simp add: ar_wc_def ar_msg_def)
  have "List.map_filter (\<lambda>w. HandleRecv (in_recv_bufs ?c1 ! wc_wr_id w) (wc_byte_len w)) (map ar_wc bs) =
      map (\<lambda>a. (ar_id a, ar_data a, word_of_nat (purpose_code (ar_purpose a)))) bs" if "set bs \<subseteq> set as" for bs
    using that got by (induction bs) (auto simp: List.map_filter_simps)
  then have all: "List.map_filter (\<lambda>w. HandleRecv (in_recv_bufs ?c1 ! wc_wr_id w) (wc_byte_len w)) (map ar_wc as) =
      map (\<lambda>a. (ar_id a, ar_data a, word_of_nat (purpose_code (ar_purpose a)))) as" by simp
  let ?c2 = "?c1\<lparr>in_posted := in_posted ?c1 @ map ar_idx as\<rparr>"
  have run: "poll_completions V (map ar_wc as) ?c1 =
      (map (\<lambda>a. (ar_id a, ar_data a, word_of_nat (purpose_code (ar_purpose a)))) as, ?c2)"
    using poll_all [of V "map ar_wc as" ?c1] assms(3) all by (simp add: ar_wc_def comp_def)
  have posted: "mset (in_posted ?c2) = mset (in_posted c)" using mset_fold_remove1 [OF assms(4,5)] l by simp
  then have "in_inv ?c2" using assms(1) l mset_eq_setD [OF posted] mset_eq_imp_distinct_iff [OF posted] by (simp add: in_inv_def)
  then show ?thesis using run posted assms(2) l by (simp add: poll_turn_def)
qed

theorem inbound_delivers_witness:
  "\<exists>c0 c'. SetupInbound sample_verbs 128 = Some c0 \<and>
     poll_turn sample_verbs (Some (map ar_wc [\<lparr>ar_idx = 3, ar_id = sample_id 1, ar_purpose = ReadRepair, ar_data = [7, 8], ar_mem = []\<rparr>]))
       (fold (\<lambda>a. land (ar_idx a) (ar_msg a)) [\<lparr>ar_idx = 3, ar_id = sample_id 1, ar_purpose = ReadRepair, ar_data = [7, 8], ar_mem = []\<rparr>] c0) =
     Some ([(sample_id 1, [7, 8], 1)], c') \<and> mset (in_posted c') = mset [0..<16]"
proof -
  obtain c0 where c0: "SetupInbound sample_verbs 128 = Some c0" "in_inv c0" "in_posted c0 = [0..<kMaxRecvBuffers]" "\<not> in_stop c0"
    using SetupInbound_all [of sample_verbs 128] by (auto simp: sample_verbs_def)
  let ?as = "[\<lparr>ar_idx = 3, ar_id = sample_id 1, ar_purpose = ReadRepair, ar_data = [7, 8], ar_mem = []\<rparr>]"
  have "\<exists>c'. poll_turn sample_verbs (Some (map ar_wc ?as)) (fold (\<lambda>a. land (ar_idx a) (ar_msg a)) ?as c0) =
      Some (map (\<lambda>a. (ar_id a, ar_data a, word_of_nat (purpose_code (ar_purpose a)))) ?as, c') \<and>
    in_inv c' \<and> mset (in_posted c') = mset (in_posted c0)"
    by (rule inbound_delivers [OF c0(2,4)]) (simp_all add: c0(3) sample_verbs_def)
  then show ?thesis using c0(1,3) by (auto simp: purpose_code_def)
qed

end
