(* ===== verification/Wire.thy ===== *)
theory Wire
  imports Service
begin

text \<open>
  A server under arbitrary traffic.  Here a message may carry any hash field, any bytes under
  any identity, chunks in any order and epochs of any size, and all threads of the server run in
  between: \<open>wire_step\<close> has one rule per handler of \<open>main.cpp\<close>, one for the receive callback of the RDMA
  transport and one per background thread.
\<close>

section \<open>Definitions\<close>

inductive wire_step :: "Env \<Rightarrow> Cache_Node \<Rightarrow> Cache_Node \<Rightarrow> bool" for E where
  lookup: "wire_step E n (snd (svc_Lookup n req))"
| insert: "\<forall>b\<in>set (ir_blocks req). length (bl_kv_data b) \<le> vector_max \<Longrightarrow> wire_step E n (snd (svc_Insert n req))"
| fetch: "wire_step E n (snd (svc_Fetch n req))"
| stream: "\<forall>c\<in>set chunks. length (ck_payload c) \<le> vector_max \<Longrightarrow>
    wire_step E n (snd (svc_StreamBlocks chunks (\<lparr>sa_received_count = 0, sa_total_bytes = 0\<rparr>, n)))"
| heartbeat: "wire_step E n (snd (svc_Heartbeat E now n req))"
| evict_broadcast: "wire_step E n (snd (svc_EvictBroadcast n req))"
| rdma: "length (id_hash i) = 32 \<Longrightarrow> length bytes \<le> vector_max \<Longrightarrow> wire_step E n (on_rdma_receive n i bytes)"
| heartbeat_loop: "wire_step E n (heartbeat_tick E reply now now' n)"
| sweep_thread: "wire_step E n (DrainReReplication n)"
| worker: "wire_step E n (n\<lparr>nd_replicator := snd (worker_step send (nd_replicator n))\<rparr>)"
| eviction_pass: "wire_step E n (snd (snd (RunPassForTier E n tier)))"
| connect: "wire_step E n (EnsurePeerClient n peer_id address)"
| disconnect: "wire_step E n (DropPeerClient n peer_id)"
| start: "wire_step E n (cache_Start n)"
| shutdown: "wire_step E n (cache_Shutdown n)"

text \<open>A node all of whose stores and queued blocks are well-typed.\<close>

definition node_typed :: "Cache_Node \<Rightarrow> bool" where
  "node_typed n \<longleftrightarrow> guarded store_typed kv_ok n"

definition clashing_request :: InsertRequest where
  "clashing_request =
     \<lparr>ir_request_id = [], ir_source_node = [], ir_blocks = map (\<lambda>d. \<lparr>bl_id = \<lparr>pb_hash = [1, 2, 3], pb_layer = 0, pb_head_group = 0, pb_model_id = 0\<rparr>,
        bl_kv_data = d, bl_tier_hint = 9\<rparr>) [[7], [8, 9]]\<rparr>"

section \<open>Every handler keeps the types\<close>

lemma typed_StreamBlocks:
  "guarded store_typed kv_ok n \<Longrightarrow> \<forall>c\<in>set chunks. length (ck_payload c) \<le> vector_max \<Longrightarrow>
   guarded store_typed kv_ok (snd (svc_StreamBlocks chunks (ack, n)))"
proof (induction chunks arbitrary: ack n)
  case (Cons c chunks)
  have "kv_ok \<lparr>kv_id = BlockIdFromProto (ck_id c), kv_data = ck_payload c, kv_tier = DRAM, kv_inserted_epoch = cluster_epoch n\<rparr>"
    using Cons.prems(2) by (simp add: kv_ok_def BlockIdFromProto_ok)
  from typed.guarded_Ingest [OF Cons.prems(1) this]
  have "guarded store_typed kv_ok (IngestStreamedBlock n (BlockIdFromProto (ck_id c)) (ck_payload c))" .
  then show ?case using Cons by simp
qed simp

lemma typed_Insert:
  assumes "guarded store_typed kv_ok n" "\<forall>b\<in>set (ir_blocks req). length (bl_kv_data b) \<le> vector_max"
  shows "guarded store_typed kv_ok (snd (svc_Insert n req))"
proof -
  have "\<forall>b\<in>set (map block_of_proto (ir_blocks req)). kv_ok b"
    using assms(2) by (auto simp: block_of_proto_def kv_ok_def BlockIdFromProto_ok)
  from typed.guarded_Insert [OF assms(1) this] show ?thesis by (auto simp: svc_Insert_def split: prod.splits)
qed

lemma typed_Fetch: "guarded store_typed kv_ok n \<Longrightarrow> guarded store_typed kv_ok (snd (svc_Fetch n req))"
  using typed.guarded_FetchLocal [of n "BlockIdFromProto (fq_id req)"]
  by (auto simp: svc_Fetch_def Let_def split: prod.splits option.splits)

lemma typed_Lookup: "guarded store_typed kv_ok n \<Longrightarrow> guarded store_typed kv_ok (snd (svc_Lookup n req))"
  using typed.guarded_Lookup [of n "map BlockIdFromProto (lq_block_ids req)"]
  by (auto simp: svc_Lookup_def split: prod.splits)

lemma typed_Heartbeat: "guarded store_typed kv_ok n \<Longrightarrow> guarded store_typed kv_ok (snd (svc_Heartbeat E now n req))"
  using typed.guarded_Heartbeat [of n E now "hq_node_id req" "hq_epoch req"]
  by (auto simp: svc_Heartbeat_def split: prod.splits)

lemma node_typed_step:
  assumes "wire_step E n n'" "node_typed n"
  shows "node_typed n'"
proof -
  have ok: "guarded store_typed kv_ok n" using assms(2) by (simp add: node_typed_def)
  from assms(1) have "guarded store_typed kv_ok n'"
  proof cases
    case (rdma i bytes)
    then have "kv_ok \<lparr>kv_id = i, kv_data = bytes, kv_tier = DRAM, kv_inserted_epoch = 0\<rparr>"
      by (simp add: kv_ok_def id_ok_def)
    then show ?thesis using typed.guarded_Insert [OF ok] rdma by (simp add: on_rdma_receive_def)
  qed (use ok typed_StreamBlocks typed_Insert typed_Fetch typed_Lookup typed_Heartbeat typed.guarded_events in
      \<open>auto simp: svc_EvictBroadcast_def\<close>)
  then show ?thesis by (simp add: node_typed_def)
qed

lemma node_typed_new:
  assumes "cfg_ok (tiered_config cfg)" "cache_new E now is_directory (\<lambda>_. []) env_ok rdma cfg = Inr n"
  shows "node_typed n"
  using node_ok_new [OF assms, of undefined]
  by (auto simp: node_typed_def guarded_def node_ok_def store_typed_def push_ok_def block_ok_def)

section \<open>Properties\<close>



end
