(* ===== verification/Worker_Pool.thy ===== *)
theory Worker_Pool
  imports Replication
begin

text \<open>
  The threads of the replicator, \<open>cache_server/src/replication.cpp\<close>: four workers that share the queue and a condition
  variable, those who enqueue pushes, and the destructor.  A step is what a thread does in one
  hold of the mutex, or between two holds.  A worker that waits has released the mutex and moves only after
  a notification or spuriously; a worker that is woken evaluates the predicate of its wait
  again.  A worker counts the attempt and sends outside the mutex, so that several sends are in flight at
  once.  The sweep thread checks that the queue has room for the pushes of a block in one hold and
  pushes them in a later one, so its pushes have no guard here and the queue may exceed its limit.
\<close>

section \<open>Definitions\<close>

abbreviation kReplicationWorkers :: nat where
  "kReplicationWorkers \<equiv> 4"

datatype Worker = Checking | Waiting | Holding ReplicateTask | Sending ReplicateTask | Exited

record Pool =
  pl_rep :: Replicator
  pl_workers :: "Worker list"
  pl_running :: bool
  pl_notified :: bool

definition pool_new :: "Replicator \<Rightarrow> Pool" where
  "pool_new rp = \<lparr>pl_rep = rp\<lparr>rp_queue := []\<rparr>, pl_workers = replicate kReplicationWorkers Checking,
     pl_running = True, pl_notified = False\<rparr>"

text \<open>What a worker does once it has the mutex: wait, leave, or take the front task.\<close>

definition worker_check :: "Pool \<Rightarrow> Worker \<times> Replicator" where
  "worker_check p =
     (case rp_queue (pl_rep p) of
        [] \<Rightarrow> (if pl_running p then Waiting else Exited, pl_rep p)
      | task # rest \<Rightarrow> (Holding task, (pl_rep p)\<lparr>rp_queue := rest\<rparr>))"

text \<open>The attempt is counted before the send, which a missing transport replaces by a failure.\<close>

definition worker_begin :: "ReplicateTask \<Rightarrow> Replicator \<Rightarrow> Worker \<times> Replicator" where
  "worker_begin task rp =
     (let rp1 = rp\<lparr>rp_replicate_attempts := rp_replicate_attempts rp + 1\<rparr>
      in if rp_transport rp then (Sending task, rp1)
         else (Checking, rp1\<lparr>rp_replicate_failures := rp_replicate_failures rp1 + 1\<rparr>))"

definition worker_finish :: "bool \<Rightarrow> Replicator \<Rightarrow> Replicator" where
  "worker_finish ok rp = (if ok then rp else rp\<lparr>rp_replicate_failures := rp_replicate_failures rp + 1\<rparr>)"

inductive worker_move :: "Pool \<Rightarrow> Pool \<Rightarrow> bool" where
  check: "i < length (pl_workers p) \<Longrightarrow> pl_workers p ! i = Checking \<Longrightarrow> worker_check p = (w, rp) \<Longrightarrow>
    worker_move p (p\<lparr>pl_rep := rp, pl_workers := (pl_workers p)[i := w]\<rparr>)"
| begin_send: "i < length (pl_workers p) \<Longrightarrow> pl_workers p ! i = Holding task \<Longrightarrow> worker_begin task (pl_rep p) = (w, rp) \<Longrightarrow>
    worker_move p (p\<lparr>pl_rep := rp, pl_workers := (pl_workers p)[i := w]\<rparr>)"
| finish: "i < length (pl_workers p) \<Longrightarrow> pl_workers p ! i = Sending task \<Longrightarrow>
    worker_move p (p\<lparr>pl_rep := worker_finish ok (pl_rep p), pl_workers := (pl_workers p)[i := Checking]\<rparr>)"

text \<open>\<open>notify_one\<close> wakes some waiting worker, if there is one.\<close>

definition notify_one :: "nat \<Rightarrow> Worker list \<Rightarrow> Worker list \<Rightarrow> bool" where
  "notify_one j ws ws' \<longleftrightarrow>
     (if Waiting \<in> set ws then j < length ws \<and> ws ! j = Waiting \<and> ws' = ws[j := Checking] else ws' = ws)"

text \<open>One notification after each of several pushes in the same hold.\<close>

fun notify_each :: "nat list \<Rightarrow> Worker list \<Rightarrow> Worker list \<Rightarrow> bool" where
  "notify_each [] ws ws' \<longleftrightarrow> ws' = ws"
| "notify_each (j # js) ws ws' \<longleftrightarrow> (\<exists>ws1. notify_one j ws ws1 \<and> notify_each js ws1 ws')"

definition notify_all :: "Worker list \<Rightarrow> Worker list" where
  "notify_all ws = map (\<lambda>w. if w = Waiting then Checking else w) ws"

inductive pool_step :: "Pool \<Rightarrow> Pool \<Rightarrow> bool" where
  worker: "worker_move p p' \<Longrightarrow> pool_step p p'"
| spurious: "i < length (pl_workers p) \<Longrightarrow> pl_workers p ! i = Waiting \<Longrightarrow>
    pool_step p (p\<lparr>pl_workers := (pl_workers p)[i := Checking]\<rparr>)"
| enqueue: "length (rp_queue (pl_rep p)) < kReplicationQueueMax \<Longrightarrow> notify_one j (pl_workers p) ws \<Longrightarrow>
    pool_step p (p\<lparr>pl_rep := enqueue_push block peer (pl_rep p), pl_workers := ws\<rparr>)"
| overflow: "length (rp_queue (pl_rep p)) \<ge> kReplicationQueueMax \<Longrightarrow>
    pool_step p (p\<lparr>pl_rep := enqueue_push block peer (pl_rep p)\<rparr>)"
| sweep: "length js = length tasks \<Longrightarrow> notify_each js (pl_workers p) ws \<Longrightarrow>
    pool_step p (p\<lparr>pl_rep := (pl_rep p)\<lparr>rp_queue := rp_queue (pl_rep p) @ tasks\<rparr>, pl_workers := ws\<rparr>)"
| stop: "pool_step p (p\<lparr>pl_running := False\<rparr>)"
| notify: "\<not> pl_running p \<Longrightarrow> pool_step p (p\<lparr>pl_workers := notify_all (pl_workers p), pl_notified := True\<rparr>)"

definition active :: "Worker \<Rightarrow> bool" where
  "active w \<longleftrightarrow> w \<noteq> Waiting \<and> w \<noteq> Exited"

definition pool_inv :: "Pool \<Rightarrow> bool" where
  "pool_inv p \<longleftrightarrow> length (pl_workers p) = kReplicationWorkers \<and>
     (rp_queue (pl_rep p) \<noteq> [] \<longrightarrow> (\<exists>w\<in>set (pl_workers p). active w) \<or> (\<forall>w\<in>set (pl_workers p). w = Exited)) \<and>
     (pl_running p \<longrightarrow> Exited \<notin> set (pl_workers p) \<and> \<not> pl_notified p) \<and>
     (pl_notified p \<longrightarrow> Waiting \<notin> set (pl_workers p))"

text \<open>The work left: a queued task weighs more than what taking it adds.\<close>

fun worker_load :: "Worker \<Rightarrow> nat" where
  "worker_load Checking = 1"
| "worker_load Waiting = 0"
| "worker_load (Holding t) = 3"
| "worker_load (Sending t) = 2"
| "worker_load Exited = 0"

definition pool_load :: "Pool \<Rightarrow> nat" where
  "pool_load p = 3 * length (rp_queue (pl_rep p)) + sum_list (map worker_load (pl_workers p))"

text \<open>The tasks that workers have taken and not yet attempted.\<close>

definition in_flight :: "Pool \<Rightarrow> nat" where
  "in_flight p = length (filter (\<lambda>w. \<exists>t. w = Holding t) (pl_workers p))"

section \<open>Lemmas\<close>

lemma sum_list_update_nat:
  "i < length xs \<Longrightarrow> sum_list (xs[i := v]) + xs ! i = sum_list xs + (v :: nat)"
  by (induction xs arbitrary: i) (auto split: nat.splits)

lemma load_update:
  "i < length ws \<Longrightarrow> sum_list (map worker_load (ws[i := w])) + worker_load (ws ! i) =
     sum_list (map worker_load ws) + worker_load w"
  using sum_list_update_nat [of i "map worker_load ws" "worker_load w"] by (simp add: map_update)

lemma worker_move_load: "worker_move p p' \<Longrightarrow> pool_load p' < pool_load p"
proof (induction rule: worker_move.induct)
  case (check i p w rp)
  show ?case using check load_update [OF check(1), of w]
    by (cases "rp_queue (pl_rep p)") (auto simp: worker_check_def pool_load_def split: if_splits)
next
  case (begin_send i p task w rp)
  show ?case using begin_send load_update [OF begin_send(1), of w]
    by (auto simp: pool_load_def worker_begin_def Let_def split: if_splits)
next
  case (finish i p task ok)
  show ?case using finish load_update [OF finish(1), of Checking]
    by (simp add: pool_load_def worker_finish_def)
qed

lemma bex_update:
  "i < length ws \<Longrightarrow> P w \<Longrightarrow> \<exists>x\<in>set (ws[i := w]). P x"
  using set_update_memI [of i ws w] by blast

lemma pool_inv_check:
  assumes "pool_inv p" "i < length (pl_workers p)" "pl_workers p ! i = Checking" "worker_check p = (w, rp)"
  shows "pool_inv (p\<lparr>pl_rep := rp, pl_workers := (pl_workers p)[i := w]\<rparr>)"
proof (cases "rp_queue (pl_rep p)")
  case Nil
  have mem: "x \<in> set (pl_workers p) \<or> x = w" if "x \<in> set ((pl_workers p)[i := w])" for x
    using that set_update_subset_insert [of "pl_workers p" i w] by auto
  have "w = (if pl_running p then Waiting else Exited)" "rp = pl_rep p" using assms(4) Nil by (auto simp: worker_check_def)
  then show ?thesis using assms(1) Nil mem [of Waiting] mem [of Exited] by (auto simp: pool_inv_def)
next
  case (Cons task rest)
  have w: "w = Holding task" using assms(4) Cons by (auto simp: worker_check_def)
  have mem: "x \<in> set (pl_workers p) \<or> x = w" if "x \<in> set ((pl_workers p)[i := w])" for x
    using that set_update_subset_insert [of "pl_workers p" i w] by auto
  have "\<exists>x\<in>set ((pl_workers p)[i := w]). active x" by (rule bex_update [OF assms(2)]) (simp add: w active_def)
  then show ?thesis using assms(1) mem [of Waiting] mem [of Exited] by (auto simp: pool_inv_def w)
qed

lemma pool_inv_begin:
  assumes "pool_inv p" "i < length (pl_workers p)" "worker_begin task (pl_rep p) = (w, rp)"
  shows "pool_inv (p\<lparr>pl_rep := rp, pl_workers := (pl_workers p)[i := w]\<rparr>)"
proof -
  have w: "w = Sending task \<or> w = Checking" "rp_queue rp = rp_queue (pl_rep p)"
    using assms(3) by (auto simp: worker_begin_def Let_def split: if_splits)
  have mem: "x \<in> set (pl_workers p) \<or> x = w" if "x \<in> set ((pl_workers p)[i := w])" for x
    using that set_update_subset_insert [of "pl_workers p" i w] by auto
  have "\<exists>x\<in>set ((pl_workers p)[i := w]). active x" by (rule bex_update [OF assms(2)]) (use w in \<open>auto simp: active_def\<close>)
  then show ?thesis using assms(1) w mem [of Waiting] mem [of Exited] by (auto simp: pool_inv_def)
qed

lemma pool_inv_wake:
  assumes "pool_inv p" "i < length (pl_workers p)" "pl_workers p ! i \<noteq> Exited"
    and "pl_running p' = pl_running p" "pl_notified p' = pl_notified p" "pl_workers p' = (pl_workers p)[i := Checking]"
  shows "pool_inv p'"
proof -
  have mem: "x \<in> set (pl_workers p) \<or> x = Checking" if "x \<in> set ((pl_workers p)[i := Checking])" for x
    using that set_update_subset_insert [of "pl_workers p" i Checking] by auto
  have "\<exists>x\<in>set ((pl_workers p)[i := Checking]). active x" by (rule bex_update [OF assms(2)]) (simp add: active_def)
  then show ?thesis using assms mem [of Waiting] mem [of Exited] by (auto simp: pool_inv_def)
qed

lemma pool_inv_enqueue:
  assumes "pool_inv p" "notify_one j (pl_workers p) ws"
    and "pl_running p' = pl_running p" "pl_notified p' = pl_notified p" "pl_workers p' = ws"
  shows "pool_inv p'"
proof (cases "Waiting \<in> set (pl_workers p)")
  case True
  then show ?thesis using assms pool_inv_wake [of p j p'] by (simp add: notify_one_def)
next
  case False
  then have "ws = pl_workers p" using assms(2) by (simp add: notify_one_def)
  moreover have "(\<exists>w\<in>set (pl_workers p). active w) \<or> (\<forall>w\<in>set (pl_workers p). w = Exited)"
    using False by (auto simp: active_def)
  ultimately show ?thesis using assms(1,3-5) by (simp add: pool_inv_def)
qed

lemma pool_inv_sweep:
  assumes "pool_inv p" "length js = length tasks" "notify_each js (pl_workers p) ws"
  shows "pool_inv (p\<lparr>pl_rep := (pl_rep p)\<lparr>rp_queue := rp_queue (pl_rep p) @ tasks\<rparr>, pl_workers := ws\<rparr>)"
  using assms
proof (induction js arbitrary: p tasks)
  case (Cons j js)
  obtain ws1 where n: "notify_one j (pl_workers p) ws1" "notify_each js ws1 ws" using Cons.prems(3) by auto
  obtain x xs where t: "tasks = x # xs" using Cons.prems(2) by (cases tasks) auto
  let ?q = "p\<lparr>pl_rep := (pl_rep p)\<lparr>rp_queue := rp_queue (pl_rep p) @ [x]\<rparr>, pl_workers := ws1\<rparr>"
  have "pool_inv ?q" by (rule pool_inv_enqueue [OF Cons.prems(1) n(1)]) simp_all
  then show ?case using Cons.IH [of ?q xs] Cons.prems(2) n(2) by (simp add: t)
qed simp

lemma pool_inv_step: "pool_step p p' \<Longrightarrow> pool_inv p \<Longrightarrow> pool_inv p'"
proof (induction rule: pool_step.induct)
  case (worker p p')
  from worker.hyps show ?case
  proof cases
    case (check i w rp)
    then show ?thesis using pool_inv_check [OF worker.prems] by simp
  next
    case (begin_send i task w rp)
    then show ?thesis using pool_inv_begin [OF worker.prems] by simp
  next
    case (finish i task ok)
    then show ?thesis using pool_inv_wake [OF worker.prems, of i p'] by simp
  qed
next
  case (spurious i p)
  then show ?case using pool_inv_wake [of p i] by simp
next
  case (enqueue p j ws block peer)
  then show ?case by (intro pool_inv_enqueue [OF enqueue.prems enqueue.hyps(2)]) simp_all
next
  case (sweep js tasks p ws)
  then show ?case using pool_inv_sweep by simp
next
  case (notify p)
  have "active w \<Longrightarrow> active (if w = Waiting then Checking else w)" for w by (simp add: active_def)
  then show ?case using notify by (auto simp: pool_inv_def notify_all_def active_def split: if_splits)
qed (auto simp: pool_inv_def enqueue_push_def)

lemma pool_inv_new: "pool_inv (pool_new rp)"
  by (simp add: pool_inv_def pool_new_def)

lemma pool_inv_reachable: "pool_step\<^sup>*\<^sup>* (pool_new rp) p \<Longrightarrow> pool_inv p"
  by (induction rule: rtranclp_induct) (auto intro: pool_inv_step pool_inv_new)

text \<open>A pool in which no worker can move has only waiting and finished workers.\<close>

lemma no_move:
  assumes "\<nexists>p'. worker_move p p'" "w \<in> set (pl_workers p)"
  shows "\<not> active w"
proof
  assume "active w"
  obtain i where i: "i < length (pl_workers p)" "pl_workers p ! i = w" using assms(2) by (auto simp: in_set_conv_nth)
  obtain x rp where x: "worker_check p = (x, rp)" by force
  show False
    using \<open>active w\<close> assms(1) worker_move.check [OF i(1) _ x] worker_move.finish [OF i(1)]
      worker_move.begin_send [OF i(1) _ prod.collapse [symmetric]] i(2)
    by (cases w) (auto simp: active_def)
qed

text \<open>The moves of workers keep the account of tasks: queued, in flight or attempted.\<close>

lemma length_filter_update:
  "i < length ws \<Longrightarrow>
   length (filter P (ws[i := w])) + (if P (ws ! i) then 1 else 0) = length (filter P ws) + (if P w then 1 else 0)"
proof (induction ws arbitrary: i)
  case (Cons x ws)
  show ?case
  proof (cases i)
    case (Suc j)
    then show ?thesis using Cons.IH [of j] Cons.prems by (cases "P x") simp_all
  qed simp
qed simp

lemma in_flight_update:
  "i < length (pl_workers p) \<Longrightarrow>
   length (filter (\<lambda>w. \<exists>t. w = Holding t) ((pl_workers p)[i := w])) + (if \<exists>t. pl_workers p ! i = Holding t then 1 else 0) =
   in_flight p + (if \<exists>t. w = Holding t then 1 else 0)"
  using length_filter_update [of i "pl_workers p" "\<lambda>w. \<exists>t. w = Holding t" w] by (simp add: in_flight_def)

lemma worker_move_account:
  "worker_move p p' \<Longrightarrow>
   rp_replicate_attempts (pl_rep p') + of_nat (length (rp_queue (pl_rep p')) + in_flight p') =
   rp_replicate_attempts (pl_rep p) + of_nat (length (rp_queue (pl_rep p)) + in_flight p)"
proof (induction rule: worker_move.induct)
  case (check i p w rp)
  have "rp_replicate_attempts rp = rp_replicate_attempts (pl_rep p) \<and>
      length (rp_queue rp) + (if \<exists>t. w = Holding t then 1 else 0) = length (rp_queue (pl_rep p))"
    using check(3) by (cases "rp_queue (pl_rep p)") (auto simp: worker_check_def split: if_splits)
  moreover have "in_flight (p\<lparr>pl_rep := rp, pl_workers := (pl_workers p)[i := w]\<rparr>) = in_flight p + (if \<exists>t. w = Holding t then 1 else 0)"
    using in_flight_update [OF check(1), of w] check(2) by (simp add: in_flight_def)
  ultimately have "length (rp_queue rp) + in_flight (p\<lparr>pl_rep := rp, pl_workers := (pl_workers p)[i := w]\<rparr>) =
      length (rp_queue (pl_rep p)) + in_flight p" "rp_replicate_attempts rp = rp_replicate_attempts (pl_rep p)" by linarith+
  moreover have "pl_rep (p\<lparr>pl_rep := rp, pl_workers := (pl_workers p)[i := w]\<rparr>) = rp" by simp
  ultimately show ?case by presburger
next
  case (begin_send i p task w rp)
  have w: "\<not> (\<exists>t. w = Holding t)" "rp_replicate_attempts rp = rp_replicate_attempts (pl_rep p) + 1"
    "rp_queue rp = rp_queue (pl_rep p)"
    using begin_send(3) by (auto simp: worker_begin_def Let_def split: if_splits)
  have "in_flight (p\<lparr>pl_rep := rp, pl_workers := (pl_workers p)[i := w]\<rparr>) + 1 = in_flight p"
    using in_flight_update [OF begin_send(1), of w] begin_send(2) w(1) by (simp add: in_flight_def)
  then have "in_flight p = in_flight (p\<lparr>pl_rep := rp, pl_workers := (pl_workers p)[i := w]\<rparr>) + 1" by simp
  then show ?case using w(2,3) by simp
next
  case (finish i p task ok)
  have "in_flight (p\<lparr>pl_rep := worker_finish ok (pl_rep p), pl_workers := (pl_workers p)[i := Checking]\<rparr>) = in_flight p"
    using in_flight_update [OF finish(1), of Checking] finish(2) by (simp add: in_flight_def)
  moreover have "rp_replicate_attempts (worker_finish ok (pl_rep p)) = rp_replicate_attempts (pl_rep p)"
    "rp_queue (worker_finish ok (pl_rep p)) = rp_queue (pl_rep p)" by (simp_all add: worker_finish_def)
  ultimately show ?case by simp
qed

lemma worker_moves_load: "(worker_move ^^ k) p p' \<Longrightarrow> pool_load p' + k \<le> pool_load p"
  by (induction k arbitrary: p') (fastforce dest: worker_move_load)+

lemma worker_moves_keep:
  "worker_move\<^sup>*\<^sup>* p p' \<Longrightarrow> pool_inv p \<Longrightarrow> pool_inv p' \<and> pl_running p' = pl_running p \<and> pl_notified p' = pl_notified p \<and>
   rp_replicate_attempts (pl_rep p') + of_nat (length (rp_queue (pl_rep p')) + in_flight p') =
   rp_replicate_attempts (pl_rep p) + of_nat (length (rp_queue (pl_rep p)) + in_flight p)"
proof (induction rule: rtranclp_induct)
  case (step q r)
  have "pl_running r = pl_running q \<and> pl_notified r = pl_notified q" using step.hyps(2) by (cases) simp_all
  then show ?case using step pool_inv_step [OF pool_step.worker [OF step.hyps(2)]] worker_move_account [OF step.hyps(2)] by simp
qed simp

text \<open>The last worker leaves an empty queue.\<close>

lemma last_exit:
  "worker_move\<^sup>*\<^sup>* p p' \<Longrightarrow> set (pl_workers p) \<noteq> {Exited} \<Longrightarrow> set (pl_workers p') = {Exited} \<Longrightarrow> rp_queue (pl_rep p') = []"
proof (induction rule: rtranclp_induct)
  case (step q r)
  from step.hyps(2) show ?case
  proof cases
    case (check i w rp)
    have "w \<in> set (pl_workers r)" using check by (simp add: set_update_memI)
    then have "w = Exited" using step.prems(2) by simp
    then show ?thesis using check by (cases "rp_queue (pl_rep q)") (auto simp: worker_check_def)
  next
    case (begin_send i task w rp)
    have "w \<in> set (pl_workers r)" using begin_send by (simp add: set_update_memI)
    then have "w = Exited" using step.prems(2) by simp
    then show ?thesis using begin_send(4) by (simp add: worker_begin_def Let_def split: if_splits)
  next
    case (finish i task ok)
    have "Checking \<in> set (pl_workers r)" using finish by (simp add: set_update_memI)
    then show ?thesis using step.prems(2) by simp
  qed
qed simp

lemma worker_moves_end: "\<exists>p'. worker_move\<^sup>*\<^sup>* p p' \<and> (\<nexists>q. worker_move p' q)"
proof (induction "pool_load p" arbitrary: p rule: less_induct)
  case less
  show ?case
  proof (cases "\<exists>q. worker_move p q")
    case True
    then obtain q where q: "worker_move p q" by blast
    from less [OF worker_move_load [OF q]] q show ?thesis by (meson converse_rtranclp_into_rtranclp)
  qed blast
qed

text \<open>
  A push that is enqueued after the last worker has left, as the sweep thread may do since it is joined after the
  workers, is never attempted.
\<close>

lemma notify_each_exited: "notify_each js ws ws' \<Longrightarrow> set ws = {Exited} \<Longrightarrow> ws' = ws"
  by (induction js arbitrary: ws) (auto simp: notify_one_def)

lemma late_push_stays:
  assumes "pool_step p q" "set (pl_workers p) = {Exited}"
  shows "set (pl_workers q) = {Exited} \<and> (\<exists>more. rp_queue (pl_rep q) = rp_queue (pl_rep p) @ more)"
  using assms(1)
proof cases
  case worker
  then show ?thesis
  proof cases
    case (check i w rp)
    then show ?thesis using assms(2) nth_mem [of i "pl_workers p"] by simp
  next
    case (begin_send i task w rp)
    then show ?thesis using assms(2) nth_mem [of i "pl_workers p"] by simp
  next
    case (finish i task ok)
    then show ?thesis using assms(2) nth_mem [of i "pl_workers p"] by simp
  qed
next
  case (spurious i)
  then show ?thesis using assms(2) nth_mem [of i "pl_workers p"] by simp
qed (use assms(2) in \<open>auto simp: notify_one_def notify_all_def enqueue_push_def dest: notify_each_exited\<close>)

section \<open>Properties\<close>

text \<open>
  C27. No wake-up is lost.  However the workers, the threads that enqueue pushes, the sweep and the destructor interleave, as
  long as the pool runs and a push is queued some worker is awake; and when no worker can move, either
  the queue of a running pool is empty, or the destructor has set its flag and not yet notified, or all workers have left.
\<close>

theorem pool_no_lost_wakeup:
  assumes "pool_step\<^sup>*\<^sup>* (pool_new rp) p"
  shows "(pl_running p \<and> rp_queue (pl_rep p) \<noteq> [] \<longrightarrow> (\<exists>w\<in>set (pl_workers p). active w)) \<and>
    ((\<nexists>p'. worker_move p p') \<longrightarrow> (pl_running p \<and> rp_queue (pl_rep p) = [] \<and> set (pl_workers p) = {Waiting}) \<or>
       (\<not> pl_running p \<and> \<not> pl_notified p) \<or> set (pl_workers p) = {Exited})"
proof -
  have inv: "pool_inv p" using pool_inv_reachable [OF assms] .
  have ne: "pl_workers p \<noteq> []" using inv by (auto simp: pool_inv_def)
  have awake: "\<exists>w\<in>set (pl_workers p). active w" if "pl_running p" "rp_queue (pl_rep p) \<noteq> []"
  proof -
    have "Exited \<notin> set (pl_workers p)" using inv that(1) by (simp add: pool_inv_def)
    then show ?thesis using inv that ne unfolding pool_inv_def by (metis list.set_sel(1))
  qed
  moreover have "(pl_running p \<and> rp_queue (pl_rep p) = [] \<and> set (pl_workers p) = {Waiting}) \<or>
       (\<not> pl_running p \<and> \<not> pl_notified p) \<or> set (pl_workers p) = {Exited}" if "\<nexists>p'. worker_move p p'"
  proof -
    have sub: "set (pl_workers p) \<subseteq> {Waiting, Exited}" using no_move [OF that] by (auto simp: active_def)
    have some: "set (pl_workers p) \<noteq> {}" using ne by simp
    show ?thesis
    proof (cases "pl_running p")
      case True
      then have "Exited \<notin> set (pl_workers p)" using inv by (simp add: pool_inv_def)
      then have "set (pl_workers p) \<subseteq> {Waiting}" using sub by auto
      then have "set (pl_workers p) = {Waiting}" using some by (metis subset_singletonD)
      then show ?thesis using True awake by (auto simp: active_def)
    next
      case False
      show ?thesis
      proof (cases "pl_notified p")
        case True
        then have "Waiting \<notin> set (pl_workers p)" using inv by (simp add: pool_inv_def)
        then have "set (pl_workers p) \<subseteq> {Exited}" using sub by auto
        then have "set (pl_workers p) = {Exited}" using some by (metis subset_singletonD)
        then show ?thesis by simp
      qed (use False in simp)
    qed
  qed
  ultimately show ?thesis by blast
qed

theorem pool_no_lost_wakeup_witness:
  "\<exists>p. pool_step\<^sup>*\<^sup>* (pool_new (replicator_new ''a'' True True True)) p \<and> rp_queue (pl_rep p) \<noteq> [] \<and> (\<exists>w\<in>set (pl_workers p). active w)"
proof -
  let ?start = "pool_new (replicator_new ''a'' True True True)"
  let ?p = "?start\<lparr>pl_rep := enqueue_push (sample_block 1 [7]) ''b'' (pl_rep ?start), pl_workers := pl_workers ?start\<rparr>"
  have "pool_step ?start ?p"
    by (rule pool_step.enqueue [of ?start 0]) (simp_all add: pool_new_def notify_one_def)
  then have run: "pool_step\<^sup>*\<^sup>* ?start ?p" by (rule r_into_rtranclp)
  have "pl_running ?p \<and> rp_queue (pl_rep ?p) \<noteq> []" by (simp add: pool_new_def enqueue_push_def)
  then show ?thesis using pool_no_lost_wakeup [OF run] run by blast
qed

text \<open>
  C28. The destructor's join returns.  Once it has notified the workers and nobody enqueues any more, every run of the
  workers is finite, with an explicit bound, and ends with all of them gone.  If not all had gone before, the queue is
  then empty and every push that was queued, or taken and not yet attempted, has been attempted.
\<close>

theorem pool_shutdown_joins:
  assumes "pool_step\<^sup>*\<^sup>* (pool_new rp) p" "pl_notified p"
  shows "((worker_move ^^ k) p p' \<longrightarrow> k \<le> pool_load p) \<and>
    (worker_move\<^sup>*\<^sup>* p p' \<and> (\<nexists>q. worker_move p' q) \<longrightarrow> set (pl_workers p') = {Exited} \<and>
      (set (pl_workers p) \<noteq> {Exited} \<longrightarrow> rp_queue (pl_rep p') = [] \<and>
        rp_replicate_attempts (pl_rep p') =
          rp_replicate_attempts (pl_rep p) + of_nat (length (rp_queue (pl_rep p)) + in_flight p)))"
proof -
  have inv: "pool_inv p" using pool_inv_reachable [OF assms(1)] .
  have "set (pl_workers p') = {Exited} \<and>
      (set (pl_workers p) \<noteq> {Exited} \<longrightarrow> rp_queue (pl_rep p') = [] \<and>
        rp_replicate_attempts (pl_rep p') =
          rp_replicate_attempts (pl_rep p) + of_nat (length (rp_queue (pl_rep p)) + in_flight p))"
    if run: "worker_move\<^sup>*\<^sup>* p p'" and still: "\<nexists>q. worker_move p' q"
  proof -
    note keep = worker_moves_keep [OF run inv]
    have ne: "pl_workers p' \<noteq> []" and "Waiting \<notin> set (pl_workers p')"
      using keep assms(2) by (auto simp: pool_inv_def)
    then have gone: "set (pl_workers p') = {Exited}"
      using no_move [OF still] by (auto simp: active_def) (metis ne list.set_sel(1))
    then have none: "in_flight p' = 0" by (simp add: in_flight_def filter_empty_conv)
    have account: "rp_replicate_attempts (pl_rep p') + of_nat (length (rp_queue (pl_rep p')) + in_flight p') =
        rp_replicate_attempts (pl_rep p) + of_nat (length (rp_queue (pl_rep p)) + in_flight p)" using keep by blast
    show ?thesis
    proof (intro conjI impI)
      assume "set (pl_workers p) \<noteq> {Exited}"
      then show empty: "rp_queue (pl_rep p') = []" using last_exit [OF run] gone by blast
      show "rp_replicate_attempts (pl_rep p') =
          rp_replicate_attempts (pl_rep p) + of_nat (length (rp_queue (pl_rep p)) + in_flight p)"
        using account unfolding none empty by simp
    qed (rule gone)
  qed
  moreover have "k \<le> pool_load p" if "(worker_move ^^ k) p p'" using worker_moves_load [OF that] by linarith
  ultimately show ?thesis by blast
qed

theorem pool_shutdown_joins_witness:
  "\<exists>p p'. pool_step\<^sup>*\<^sup>* (pool_new (replicator_new ''a'' True True True)) p \<and> length (rp_queue (pl_rep p)) = 1 \<and> pl_notified p \<and>
     worker_move\<^sup>*\<^sup>* p p' \<and> set (pl_workers p') = {Exited} \<and> rp_queue (pl_rep p') = []"
proof -
  let ?start = "pool_new (replicator_new ''a'' True True True)"
  let ?queued = "?start\<lparr>pl_rep := enqueue_push (sample_block 1 [7]) ''b'' (pl_rep ?start), pl_workers := pl_workers ?start\<rparr>"
  let ?halted = "?queued\<lparr>pl_running := False\<rparr>"
  let ?told = "?halted\<lparr>pl_workers := notify_all (pl_workers ?halted), pl_notified := True\<rparr>"
  have "pool_step ?start ?queued" by (rule pool_step.enqueue [of ?start 0]) (simp_all add: pool_new_def notify_one_def)
  moreover have "pool_step ?queued ?halted" by (rule pool_step.stop)
  moreover have "pool_step ?halted ?told" by (rule pool_step.notify) simp
  ultimately have run: "pool_step\<^sup>*\<^sup>* ?start ?told" by (meson converse_rtranclp_into_rtranclp rtranclp.rtrancl_refl)
  have q: "length (rp_queue (pl_rep ?told)) = 1" "pl_notified ?told" "set (pl_workers ?told) \<noteq> {Exited}"
    by (simp_all add: pool_new_def enqueue_push_def notify_all_def)
  obtain p' where p': "worker_move\<^sup>*\<^sup>* ?told p'" "\<nexists>r. worker_move p' r" using worker_moves_end by blast
  have "set (pl_workers p') = {Exited} \<and> rp_queue (pl_rep p') = []"
    using pool_shutdown_joins [OF run q(2), of 0 p'] p' q(3) by blast
  then show ?thesis using run q(1,2) p'(1) by blast
qed

end
