(* ===== verification/Spec2Isabelle.thy ===== *)
theory Spec2Isabelle
  imports Epoch_Watcher Hash_Driver Inference Lifecycle Membership_Threads Metrics Rdma_Cm Wire Worker_Pool
begin

text \<open>
  A verification library for \<open>lethe\<close>, a distributed cache of the key-value blocks of language
  models.  A server process (\<open>cache_server/\<close>) keeps blocks in three tiers, routes them by
  consistent hashing, replicates them to its peers, watches its peers with heartbeats and
  evicts blocks under pressure; a client library (\<open>client/\<close>) names blocks by chained hashes
  and routes requests with a mirror of the servers' ring, and a connector in it puts the cache
  behind the paged buffers of an inference engine.

  \<^bold>\<open>Parts and theories.\<close>  Paths are under \<open>src/\<close>; \<open>src\<close> and \<open>include\<close> stand for
  \<open>cache_server/src\<close> and \<open>cache_server/include/lethe\<close>.

  \<^item> \<open>Prelude\<close>: sizes with the wrap-around of 64 bits, bytes and little-endian numbers, hash
    tables as association lists with distinct keys; \<open>Types\<close>: \<open>include/types.hpp\<close>;
    \<open>Std_String\<close>: the string functions of the C++ library that the parsers call.
  \<^item> \<open>Store_Interface\<close>: the contract of a single-tier store, the locale \<open>kv_store\<close>, with the lemmas
    that follow from it.  \<open>Block_Store\<close> (\<open>src/block_store.cpp\<close>) and \<open>Ssd_Block_Store\<close> over
    \<open>Ssd_Layout\<close> (\<open>src/ssd_block_store.cpp\<close>) provide it, and so does every tier of the store
    in \<open>Tiered_Store\<close> (\<open>src/tiered_store.cpp\<close>).  A store's state is a record with the fields
    of the class; an operation returns its result and the new record.
  \<^item> \<open>Routing\<close> (\<open>src/routing.cpp\<close>): ring, binary search, clockwise walk.
  \<^item> \<open>Replication\<close> (\<open>src/replication.cpp\<close>): bounded queue, worker turn, fan-out fetch, and
    re-replication rounds.  \<open>Node\<close> is the part of a server that it touches.  \<open>Worker_Pool\<close> has the
    same file's threads: four workers, those who enqueue, the sweep and the destructor, with mutex and
    condition variable; there the sweep's pushes are apart from its check for room, as in the code.
  \<^item> \<open>Membership\<close> (\<open>src/membership.cpp\<close>): peer table, failure detector, membership changes;
    \<open>Member_Node\<close> extends the node.  \<open>Membership_Threads\<close> has the same file's lock regions: the heartbeat thread and
    any number of handlers interleaved, with the single steps of \<open>Membership\<close> as their uninterrupted runs.
  \<^item> \<open>Eviction\<close> (\<open>src/eviction.cpp\<close>): the SIEVE pass of a tier, proved over the locale
    \<open>sieve_store\<close> that the tiered store interprets; \<open>Evict_Node\<close>.
  \<^item> \<open>Transport\<close> (\<open>include/kv_transport.hpp\<close>, \<open>src/grpc_stream_transport.cpp\<close>,
    \<open>proto/lethe.proto\<close>): messages, the interface \<open>kv_transport\<close> as a locale, the gRPC
    transport; \<open>Rdma\<close> (\<open>src/ibverbs_transport.cpp\<close>): framing, send ring, dialling; \<open>Rdma_Cm\<close>: the same
    file's queue pairs, receive buffers, listener and teardown, and the handles of a link over its life.
  \<^item> \<open>Cache\<close> (\<open>src/cache.cpp\<close>): the facade.  \<open>Cache_Node\<close> is the state of one server, and
    \<open>cache_step\<close> the events that change it.
  \<^item> \<open>Service\<close> (\<open>src/main.cpp\<close>): the gRPC handlers and the command line; \<open>Lifecycle\<close>: \<open>main\<close>, the heartbeat
    thread and the tier threads from start to shutdown; \<open>Metrics\<close> (\<open>src/metrics.cpp\<close>): the exporter.
  \<^item> \<open>Cluster\<close>: servers by address, with the pushes that travel between them; \<open>Wire\<close>: one server under
    arbitrary messages.
  \<^item> \<open>Client_Ring\<close> (\<open>client/lethe_client/routing.py\<close>), \<open>Client\<close> (\<open>client.py\<close>) and
    \<open>Epoch_Watcher\<close> (\<open>epoch_watcher.py\<close>): the client; \<open>Hash_Driver\<close>
    (\<open>tools/hash_compat_driver.cpp\<close>): the driver that compares the hashes of both languages.
  \<^item> \<open>Connector\<close> (\<open>client/lethe_client/vllm_hook.py\<close>, and the hashes of \<open>disagg/orchestrator.py\<close>): the methods
    that an inference engine calls; \<open>Inference\<close>: an engine, its connectors and the servers
    interleaved.

  \<^bold>\<open>How they interact.\<close>  The records extend each other, so that an operation of a lower
  component runs on the node of a higher one.  \<open>Insert\<close> puts a block into the tiered store and
  queues pushes along its route; \<open>push_step\<close> delivers the front push to the handler of the
  peer; heartbeats change the peer table, and a change rebuilds the ring and starts a
  re-replication round; an eviction pass demotes or erases blocks and returns the messages it
  broadcasts.  A client's call runs the handler of the addressed server on the cluster's state
  (\<open>cluster_call\<close>), over a network that may fail it before or after; the connector calls the
  client, from the scheduler directly and from the worker through its thread pool.

  \<^bold>\<open>What the lemmas show.\<close>  Stores: every run, with the results of its operations, is one
  of a map from identities to bytes, with exact byte counts; the file-backed tier survives restarts and crashes inside a
  write, except in a slot that was reclaimed with its live mark, for which the torn block is described.  Routing: the
  search and the walk compute the reference order, agreement between servers and with the
  client, stability when peers leave.  Replication and membership: bounds, rounds that
  reach every block that a lookup finds, the ring tracks the peers believed alive as long as no two membership changes
  overlap (and can stay behind when they do), no wake-up of a worker is lost and the threads
  end at shutdown.  Eviction: a pass reaches the low watermark and
  announces what it removes; with mixed visited bits its second lap counts a block twice.  Transports: framing and parsing round trips, exclusive buffers, the
  handles that any sequence of dials and disconnects leaves behind.  Metrics: exact counts, and a scrape that reads back.
  Node and cluster: every byte that is served, queued or fetched is the one its identity names,
  acknowledged pushes are replicas, pushes come to rest, and arbitrary messages keep a server
  well-typed.  Client: lookups return only bytes that belong to the block.  Connector: the
  tokens it offers, and that what it loads into a page is what the model computes for that block.  Some theorems state
  behaviour that differs from what a comment or another component expects.

  \<^bold>\<open>Parameters.\<close>  BLAKE3, SHA-256, \<open>std::sort\<close> (only a permutation sorted by hash), the iteration order of
  hash tables, the outcomes of system calls, of the verbs library (\<open>Verbs\<close>) and of remote calls
  (\<open>net\<close>), floating-point numbers (\<open>Fp\<close>), the tensor library (\<open>Torch\<close>, with the laws \<open>torch_ok\<close>), what the
  model computes, clocks and poll results are arguments, with what the code relies on as hypotheses.  A null
  pointer is a flag.  A method is one step, except in
  \<open>Worker_Pool\<close>, \<open>Membership_Threads\<close> and \<open>Lifecycle\<close>, where a step is what a thread does in one hold of a lock, and for the
  writes of a slot of the file-backed tier, which are single stores (the copies of the payload and of the hash one store each).

  \<^bold>\<open>Bounds.\<close>  Sizes are natural numbers below \<open>2 ^ 64\<close> with the wrap-around written out;
  stored integers are words of their width.  Capacities are at most \<open>2 ^ 63\<close> (that of the file-backed tier less, so that its length is
  an \<open>off_t\<close>), peers are fewer than \<open>2 ^ 32\<close>, and payloads at
  most \<open>2 ^ 63 - 1\<close> bytes, the limit of a C++ vector.  The SIEVE loop and the wait for a send buffer
  take the step bounds of the code (twice the number of blocks, 2000 attempts) as their
  fuel, and a client's call its three attempts; all other loops have termination proofs, but for the client's walk round its ring,
  which is a partial function because it need not end.

  \<^bold>\<open>Not modelled.\<close>  The calls of the other components that record into the metrics exporter, console
  output, logs and debug switches, all of which no result depends on; the gRPC library, the object of
  the gRPC server and the delivery of signals; the client's cache of channels and the connector's destructor; the part
  of the orchestrator that starts and times an inference engine; the scripts for chaos
  tests and benchmarks, which start, disturb and measure processes.  BLAKE3, the verbs
  libraries, the tensor library and the inference engine are third-party code.
\<close>

end
